(* ===== verification/Prelude.thy ===== *)
theory Prelude
  imports Main "HOL-Library.Word"
begin

unbundle bit_operations_syntax

text \<open>
  What every component of the development shares: the names of Go's machine types, byte slices,
  the errors of the repository as values, the big-endian accessors of \<^verbatim>\<open>encoding/binary\<close>, and the
  two interfaces of the wire format, a decoder that reads a prefix of its input and a codec whose
  decoder inverts its encoder.

  Go's \<^verbatim>\<open>int\<close> is 64 bits wide. Lengths and offsets of slices are natural numbers: they are bounded
  by the memory of the process and do not wrap. Integers the format carries keep their width:
  unsigned and signed 64-bit values are both \<open>64 word\<close>, read as signed where the code compares
  them as \<^verbatim>\<open>int64\<close>.
\<close>

section \<open>Machine types\<close>

type_synonym byte = "8 word"
type_synonym bytes = "byte list"
type_synonym uint16 = "16 word"
type_synonym uint32 = "32 word"
type_synonym uint64 = "64 word"
type_synonym int32 = "32 word"
type_synonym int64 = "64 word"

text \<open>The collections of the development: facts about byte readers, and the fixed-size layout.\<close>

named_theorems reader_simps
named_theorems layout_simps

section \<open>Errors\<close>

text \<open>
  The sentinel errors of the packages and of the standard library that the code returns or tests,
  grouped by the file that declares them (\<open>go_error\<close> are those of Go and of the libraries).
  An error is the list of the sentinels its chain of \<^verbatim>\<open>%w\<close> verbs holds, outermost first:
  \<^verbatim>\<open>fmt.Errorf("%w: len: %w", ErrA, err)\<close> is \<open>ErrA # err\<close>, a context that adds no sentinel leaves
  the list as it is, and \<^verbatim>\<open>errors.Join\<close> appends. Message texts are not modelled.
  \<open>Panic\<close> stands for a run-time panic (an index out of range, a nil map or pointer).
\<close>

datatype go_error =
    Panic | EOF | ErrUnexpectedEOF | OsErrExist | OsErrNotExist | IoFailure nat | ErrSyntax | ErrRange
  | Canceled | DeadlineExceeded | ErrZstd | ErrUUID

datatype mp_error =
    ErrEmptyInput | ErrShortInput | ErrTruncatedInput | ErrUnexpectedTag | ErrUnsupportedTag
  | ErrShortHeader | ErrShortPayload | ErrShortFixedWidth | ErrShortFixstr

datatype block_error =
    ErrUnknownFiletype | ErrShortFixheader | ErrBadMagic | ErrFixheaderShape | ErrBadCRC
  | ErrEOFMarkerBlock | ErrMissingType | ErrNilRow | ErrEmptyXRowInput

datatype body_error =
    ErrEmptyBody | ErrIsLeaderSeenLen | ErrIsLeaderSeenTag | ErrBadVyLogRecord | ErrVyMissingKey
  | ErrVyRowIndex

datatype op_error =
    ErrOpNotArray | ErrOpArity | ErrOpCodeType | ErrUnknownOpCode | ErrOpFieldType | ErrOpArgType
  | ErrOpIntRange

datatype meta_error =
    ErrVClockBraces | ErrVClockColon | ErrVClockDupID | ErrVClockReplicaID | ErrMetaTruncated
  | ErrMetaBadFormat | ErrMetaBadVersion | ErrNilMetaValue | ErrEmptyFiletype | ErrNilMetaReader

datatype reader_error =
    ErrTruncated | ErrCorruptCRC | ErrUnknownMagic | ErrTxTooLarge | ErrZeroLengthDecode | ErrResync

datatype writer_error =
    ErrClosed | ErrNilDst | ErrNilMeta | ErrPendingWriteRow | ErrEmptyRows | ErrEmptyBlock
  | ErrInvalidRawBlock

datatype dir_error =
    ErrNotFound | ErrSignatureMismatch | ErrDuplicate | ErrIncomparable | ErrNoMeta | ErrNotChain

datatype chain_error =
    ErrRotateClosed | ErrRotateEmptyRows | ErrNoActiveWriter | ErrNilSrcReader | ErrNilDstWriter
  | ErrChainBroken | ErrNoStart

datatype tool_error =
    ErrNilTransformFn | ErrNilMetaFromFn | ErrUUIDLineNotFound | ErrUUIDWidthMismatch | ErrCorruptUUIDBackup

datatype sentinel =
    Go go_error | Mp mp_error | Block block_error | Body body_error | MetaE meta_error
  | Rd reader_error | Wr writer_error | Dr dir_error | Ch chain_error | Opr op_error | Tl tool_error

type_synonym error = "sentinel list"

definition errors_Is :: "error \<Rightarrow> sentinel \<Rightarrow> bool" where
  [simp]: "errors_Is e s \<longleftrightarrow> s \<in> set e"

section \<open>Slices\<close>

text \<open>\<^verbatim>\<open>b[lo:hi]\<close> for \<open>lo \<le> hi \<le> length b\<close>; the callers establish the bounds.\<close>

definition subslice :: "'a list \<Rightarrow> nat \<Rightarrow> nat \<Rightarrow> 'a list" where
  "subslice b lo hi = take (hi - lo) (drop lo b)"

lemma length_slice [simp]: "length (subslice b lo hi) = min (hi - lo) (length b - lo)"
  by (simp add: subslice_def min.commute)

lemma slice_append1 [simp]: "hi \<le> length a \<Longrightarrow> subslice (a @ c) lo hi = subslice a lo hi"
  by (simp add: subslice_def)

lemma slice_take [simp]: "hi \<le> n \<Longrightarrow> subslice (take n b) lo hi = subslice b lo hi"
  by (simp add: subslice_def drop_take)

lemma slice_append_take:
  "n \<le> length b \<Longrightarrow> hi \<le> n \<Longrightarrow> subslice (take n b @ c) lo hi = subslice b lo hi"
  by simp

lemma take_slice_drop: "lo \<le> hi \<Longrightarrow> take lo b @ subslice b lo hi @ drop hi b = b"
  by (metis append_take_drop_id drop_drop le_add_diff_inverse2 subslice_def)

lemma slice_full_append [simp]: "subslice (a @ c) (length a) (length a + n) = take n c"
  by (simp add: subslice_def)

lemma drop_eq_slice_append: "lo \<le> hi \<Longrightarrow> drop lo b = subslice b lo hi @ drop hi b"
  by (metis append_take_drop_id drop_drop le_add_diff_inverse2 subslice_def)

lemma slice_drop: "subslice (drop k b) lo hi = subslice b (k + lo) (k + hi)"
  by (simp add: subslice_def add.commute)

lemma slice_split: "lo \<le> mid \<Longrightarrow> mid \<le> hi \<Longrightarrow> subslice b lo hi = subslice b lo mid @ subslice b mid hi"
proof -
  assume h: "lo \<le> mid" "mid \<le> hi"
  have "take (mid - lo + (hi - mid)) (drop lo b)
      = take (mid - lo) (drop lo b) @ take (hi - mid) (drop (mid - lo) (drop lo b))"
    by (rule take_add)
  then show ?thesis using h by (simp add: subslice_def)
qed

lemma slice_same [simp]: "subslice b n n = []"
  by (simp add: subslice_def)

lemma slice_Cons [simp]: "subslice (x # xs) (Suc 0) n = take (n - 1) xs"
  by (simp add: subslice_def)

lemma take_append_exact [simp]: "n \<le> length b \<Longrightarrow> take n (take n b @ c) = take n b"
  by simp

section \<open>Big-endian accessors (\<^verbatim>\<open>encoding/binary\<close>)\<close>

definition PutUint16 :: "uint16 \<Rightarrow> bytes" where
  "PutUint16 v = [ucast (drop_bit 8 v), ucast v]"

definition PutUint32 :: "uint32 \<Rightarrow> bytes" where
  "PutUint32 v = [ucast (drop_bit 24 v), ucast (drop_bit 16 v), ucast (drop_bit 8 v), ucast v]"

definition PutUint64 :: "uint64 \<Rightarrow> bytes" where
  "PutUint64 v = [ucast (drop_bit 56 v), ucast (drop_bit 48 v), ucast (drop_bit 40 v),
     ucast (drop_bit 32 v), ucast (drop_bit 24 v), ucast (drop_bit 16 v), ucast (drop_bit 8 v),
     ucast v]"

definition Uint16 :: "bytes \<Rightarrow> uint16" where
  "Uint16 b = ucast (b ! 1) OR push_bit 8 (ucast (b ! 0))"

definition Uint32 :: "bytes \<Rightarrow> uint32" where
  "Uint32 b = ucast (b ! 3) OR push_bit 8 (ucast (b ! 2)) OR push_bit 16 (ucast (b ! 1))
     OR push_bit 24 (ucast (b ! 0))"

definition Uint64 :: "bytes \<Rightarrow> uint64" where
  "Uint64 b = ucast (b ! 7) OR push_bit 8 (ucast (b ! 6)) OR push_bit 16 (ucast (b ! 5))
     OR push_bit 24 (ucast (b ! 4)) OR push_bit 32 (ucast (b ! 3)) OR push_bit 40 (ucast (b ! 2))
     OR push_bit 48 (ucast (b ! 1)) OR push_bit 56 (ucast (b ! 0))"

lemma length_PutUint [simp]:
  "length (PutUint16 a) = 2" "length (PutUint32 b) = 4" "length (PutUint64 c) = 8"
  by (simp_all add: PutUint16_def PutUint32_def PutUint64_def)

lemma Uint16_PutUint16 [simp]: "Uint16 (PutUint16 v) = v"
  by (rule bit_word_eqI) (auto simp: Uint16_def PutUint16_def bit_simps)

lemma Uint32_PutUint32 [simp]: "Uint32 (PutUint32 v) = v"
proof (rule bit_word_eqI)
  fix n assume "n < LENGTH(32)"
  then consider "n < 8" | "8 \<le> n" "n < 16" | "16 \<le> n" "n < 24" | "24 \<le> n" "n < 32"
    by fastforce
  then show "bit (Uint32 (PutUint32 v)) n = bit v n"
    by cases (simp_all add: Uint32_def PutUint32_def bit_simps less_diff_conv2)
qed

lemma Uint64_PutUint64 [simp]: "Uint64 (PutUint64 v) = v"
proof (rule bit_word_eqI)
  fix n assume "n < LENGTH(64)"
  then consider "n < 8" | "8 \<le> n" "n < 16" | "16 \<le> n" "n < 24" | "24 \<le> n" "n < 32"
    | "32 \<le> n" "n < 40" | "40 \<le> n" "n < 48" | "48 \<le> n" "n < 56" | "56 \<le> n" "n < 64"
    by fastforce
  then show "bit (Uint64 (PutUint64 v)) n = bit v n"
    by cases (simp_all add: Uint64_def PutUint64_def bit_simps less_diff_conv2)
qed

lemma PutUint16_Uint16: "PutUint16 (Uint16 [a, b]) = [a, b]"
proof -
  let ?w = "Uint16 [a, b]"
  have "ucast (drop_bit 8 ?w) = a" by (rule bit_word_eqI) (auto simp: Uint16_def bit_simps dest: bit_imp_le_length)
  moreover have "ucast ?w = b" by (rule bit_word_eqI) (auto simp: Uint16_def bit_simps dest: bit_imp_le_length)
  ultimately show ?thesis by (simp add: PutUint16_def)
qed

lemma PutUint32_Uint32: "PutUint32 (Uint32 (a # b # c # d # t)) = [a, b, c, d]"
proof -
  let ?w = "Uint32 (a # b # c # d # t)"
  have "ucast (drop_bit 24 ?w) = a" by (rule bit_word_eqI) (auto simp: Uint32_def bit_simps dest: bit_imp_le_length)
  moreover have "ucast (drop_bit 16 ?w) = b" by (rule bit_word_eqI) (auto simp: Uint32_def bit_simps dest: bit_imp_le_length)
  moreover have "ucast (drop_bit 8 ?w) = c" by (rule bit_word_eqI) (auto simp: Uint32_def bit_simps dest: bit_imp_le_length)
  moreover have "ucast ?w = d" by (rule bit_word_eqI) (auto simp: Uint32_def bit_simps dest: bit_imp_le_length)
  ultimately show ?thesis by (simp add: PutUint32_def)
qed

lemma PutUint64_Uint64: "PutUint64 (Uint64 [a, b, c, d, e, f, g, h]) = [a, b, c, d, e, f, g, h]"
proof -
  let ?w = "Uint64 [a, b, c, d, e, f, g, h]"
  have "ucast (drop_bit (8 * k) ?w) = [h, g, f, e, d, c, b, a] ! k" if "k < 8" for k
  proof (rule bit_word_eqI)
    fix n assume "n < LENGTH(8)"
    moreover have "k = 0 \<or> k = 1 \<or> k = 2 \<or> k = 3 \<or> k = 4 \<or> k = 5 \<or> k = 6 \<or> k = 7" using that by auto
    ultimately show "bit (ucast (drop_bit (8 * k) ?w) :: byte) n = bit ([h, g, f, e, d, c, b, a] ! k) n"
      by (elim disjE) (auto simp: Uint64_def bit_simps dest: bit_imp_le_length)
  qed
  from this [of 0] this [of 1] this [of 2] this [of 3] this [of 4] this [of 5] this [of 6] this [of 7]
  show ?thesis by (simp add: PutUint64_def)
qed

section \<open>The interfaces of the wire format\<close>

text \<open>
  A prefix decoder returns a value and the number of bytes it consumed: at least one, never more
  than the input holds, and the result depends on the consumed bytes alone. This is the contract
  the decoding loops of the format rely on: they move forward, never run off the buffer, and may
  be handed a longer buffer without changing what was decoded.
\<close>

locale prefix_decoder =
  fixes dec :: "bytes \<Rightarrow> error + ('a \<times> nat)"
  assumes dec_pos: "dec b = Inr (x, n) \<Longrightarrow> 0 < n"
    and dec_le: "dec b = Inr (x, n) \<Longrightarrow> n \<le> length b"
    and dec_prefix: "dec b = Inr (x, n) \<Longrightarrow> dec (take n b @ c) = Inr (x, n)"
begin

lemma dec_append: "dec b = Inr (x, n) \<Longrightarrow> dec (b @ c) = Inr (x, n)"
  using dec_prefix [of b x n "drop n b @ c"] by (simp flip: append_assoc)

lemma dec_take: "dec b = Inr (x, n) \<Longrightarrow> dec (take n b) = Inr (x, n)"
  using dec_prefix [of b x n "[]"] by simp

lemma dec_agree:
  assumes "dec b = Inr (x, n)" and "take n b = take n b'" and "n \<le> length b'"
  shows "dec b' = Inr (x, n)"
  using dec_prefix [OF assms(1), of "drop n b'"] assms(2,3) by simp

lemma dec_drop_less: "dec (drop off b) = Inr (x, n) \<Longrightarrow> length b - (off + n) < length b - off"
  using dec_pos dec_le by fastforce

lemma dec_off_le: "dec (drop off b) = Inr (x, n) \<Longrightarrow> off \<le> length b \<Longrightarrow> off + n \<le> length b"
  using dec_le by fastforce

end

text \<open>
  A codec is an encoder whose output, followed by anything, is decoded back to the value, with
  exactly the encoded bytes consumed. The encodings then are prefix-free, so a concatenation of
  encodings splits in only one way.
\<close>

locale codec =
  fixes enc :: "'a \<Rightarrow> bytes"
    and dec :: "bytes \<Rightarrow> error + ('a \<times> nat)"
    and ok :: "'a \<Rightarrow> bool"
  assumes dec_enc: "ok x \<Longrightarrow> dec (enc x @ c) = Inr (x, length (enc x))"
begin

lemma enc_prefix_free:
  assumes "ok x" "ok y" "enc x @ c = enc y @ d"
  shows "x = y \<and> c = d"
proof -
  have "Inr (x, length (enc x)) = (Inr (y, length (enc y)) :: error + ('a \<times> nat))"
    using dec_enc [OF assms(1), of c] dec_enc [OF assms(2), of d] assms(3) by simp
  then show ?thesis using assms(3) by simp
qed

lemma enc_concat_inj:
  assumes "\<forall>x\<in>set xs. ok x \<and> enc x \<noteq> []" "\<forall>y\<in>set ys. ok y \<and> enc y \<noteq> []"
    and "concat (map enc xs) = concat (map enc ys)"
  shows "xs = ys"
  using assms
proof (induction xs arbitrary: ys)
  case Nil
  then show ?case by (cases ys) auto
next
  case (Cons x xs)
  from Cons.prems obtain y ys' where ys: "ys = y # ys'" by (cases ys) auto
  have "x = y \<and> concat (map enc xs) = concat (map enc ys')"
    by (rule enc_prefix_free) (use Cons.prems ys in simp_all)
  moreover from this have "xs = ys'"
    using Cons.IH [of ys'] Cons.prems(1,2) ys by simp
  ultimately show ?case using ys by simp
qed

lemma dec_enc_exact: "ok x \<Longrightarrow> dec (enc x) = Inr (x, length (enc x))"
  using dec_enc [of x "[]"] by simp

end

end
