(* ===== verification/GoStrings.thy ===== *)
theory GoStrings
  imports Prelude
begin

text \<open>
  What the packages use of Go's \<^verbatim>\<open>strings\<close> and \<^verbatim>\<open>strconv\<close>. A Go string is a byte sequence: an
  Isabelle string, whose characters are bytes. \<^verbatim>\<open>TrimSpace\<close> removes the encodings of all code
  points with the property White Space, not only the ASCII ones. Numbers print and parse back.
\<close>

section \<open>Bytes and strings\<close>

definition str_bytes :: "string \<Rightarrow> bytes" where
  "str_bytes s = map (\<lambda>c. of_nat (of_char c)) s"

definition bytes_str :: "bytes \<Rightarrow> string" where
  "bytes_str b = map (\<lambda>x. char_of (unat x)) b"

lemma unat_of_char: "unat (of_nat (of_char c) :: byte) = of_char c"
  using of_char_mod_256 [of c, where 'a = nat] by (simp add: unat_of_nat take_bit_eq_mod)

lemma bytes_str_str_bytes [simp]: "bytes_str (str_bytes s) = s"
  by (simp add: bytes_str_def str_bytes_def comp_def unat_of_char)

lemma length_str_bytes [simp]: "length (str_bytes s) = length s"
  by (simp add: str_bytes_def)

lemma str_bytes_append [simp]: "str_bytes (a @ b) = str_bytes a @ str_bytes b"
  by (simp add: str_bytes_def)

section \<open>\<^verbatim>\<open>strings\<close>\<close>

text \<open>The UTF-8 encodings of the white space code points (\<^verbatim>\<open>unicode.IsSpace\<close>).\<close>

definition space_seqs :: "string list" where
  "space_seqs = [[CHR 0x09], [CHR 0x0a], [CHR 0x0b], [CHR 0x0c], [CHR 0x0d], [CHR 0x20],
     [CHR 0xc2, CHR 0x85], [CHR 0xc2, CHR 0xa0], [CHR 0xe1, CHR 0x9a, CHR 0x80]]
     @ map (\<lambda>x. [CHR 0xe2, CHR 0x80, x])
         [CHR 0x80, CHR 0x81, CHR 0x82, CHR 0x83, CHR 0x84, CHR 0x85, CHR 0x86, CHR 0x87, CHR 0x88,
          CHR 0x89, CHR 0x8a, CHR 0xa8, CHR 0xa9, CHR 0xaf]
     @ [[CHR 0xe2, CHR 0x81, CHR 0x9f], [CHR 0xe3, CHR 0x80, CHR 0x80]]"

definition is_prefix :: "string \<Rightarrow> string \<Rightarrow> bool" where
  "is_prefix p s \<longleftrightarrow> take (length p) s = p"

definition strip_one :: "string list \<Rightarrow> string \<Rightarrow> string option" where
  "strip_one seqs s = (case find (\<lambda>p. is_prefix p s \<and> p \<noteq> []) seqs of
     None \<Rightarrow> None | Some p \<Rightarrow> Some (drop (length p) s))"

lemma strip_one_shorter: "strip_one seqs s = Some s' \<Longrightarrow> length s' < length s"
  by (auto simp: strip_one_def is_prefix_def find_Some_iff split: option.splits)
    (metis diff_less length_greater_0_conv take_eq_Nil)

function strip :: "string list \<Rightarrow> string \<Rightarrow> string" where
  "strip seqs s = (case strip_one seqs s of None \<Rightarrow> s | Some s' \<Rightarrow> strip seqs s')"
  by pat_completeness auto
termination
  by (relation "measure (\<lambda>(seqs, s). length s)") (auto dest: strip_one_shorter)

declare strip.simps [simp del]

definition TrimSpace :: "string \<Rightarrow> string" where
  "TrimSpace s = rev (strip (map rev space_seqs) (rev (strip space_seqs s)))"

text \<open>\<^verbatim>\<open>TrimRight(s, "x")\<close> for one ASCII character.\<close>

definition TrimRight1 :: "char \<Rightarrow> string \<Rightarrow> string" where
  "TrimRight1 c s = rev (dropWhile (\<lambda>x. x = c) (rev s))"

text \<open>\<^verbatim>\<open>Cut(s, sep)\<close> and \<^verbatim>\<open>Split(s, sep)\<close> for a separator of one byte.\<close>

definition Cut :: "string \<Rightarrow> char \<Rightarrow> (string \<times> string) option" where
  "Cut s sep = (case dropWhile (\<lambda>x. x \<noteq> sep) s of
     [] \<Rightarrow> None | _ # after \<Rightarrow> Some (takeWhile (\<lambda>x. x \<noteq> sep) s, after))"

fun Split :: "string \<Rightarrow> char \<Rightarrow> string list" where
  "Split [] sep = [[]]"
| "Split (c # s) sep = (if c = sep then [] # Split s sep
     else (case Split s sep of [] \<Rightarrow> [[c]] | w # ws \<Rightarrow> (c # w) # ws))"

section \<open>\<^verbatim>\<open>strconv\<close>\<close>

definition digit_char :: "nat \<Rightarrow> char" where
  "digit_char d = char_of (48 + d)"

definition char_digit :: "char \<Rightarrow> nat option" where
  "char_digit c = (let k = of_char c in if 48 \<le> k \<and> k \<le> 57 then Some (k - 48) else None)"

fun format_digits :: "nat \<Rightarrow> string \<Rightarrow> string" where
  "format_digits n acc =
     (if n < 10 then digit_char n # acc else format_digits (n div 10) (digit_char (n mod 10) # acc))"

declare format_digits.simps [simp del]

definition FormatUint :: "uint64 \<Rightarrow> string" where
  "FormatUint n = format_digits (unat n) []"

definition FormatInt :: "int64 \<Rightarrow> string" where
  "FormatInt n = (if sint n < 0 then CHR ''-'' # format_digits (nat (- sint n)) []
     else format_digits (nat (sint n)) [])"

text \<open>
  \<^verbatim>\<open>ParseUint(s, 10, bitSize)\<close>: a letter or any other character is a syntax error, the value leaving
  \<open>maxVal = 2 ^ bitSize - 1\<close> a range error, whichever comes first.
\<close>

fun parse_digits :: "nat \<Rightarrow> nat \<Rightarrow> string \<Rightarrow> error + nat" where
  "parse_digits maxVal n [] = Inr n"
| "parse_digits maxVal n (c # s) = (case char_digit c of None \<Rightarrow> Inl [Go ErrSyntax]
     | Some d \<Rightarrow> if n * 10 + d > maxVal then Inl [Go ErrRange] else parse_digits maxVal (n * 10 + d) s)"

definition ParseUint :: "string \<Rightarrow> nat \<Rightarrow> error + nat" where
  "ParseUint s bitSize = (if s = [] then Inl [Go ErrSyntax] else parse_digits (2 ^ bitSize - 1) 0 s)"

definition ParseInt64 :: "string \<Rightarrow> error + int64" where
  "ParseInt64 s = (case s of [] \<Rightarrow> Inl [Go ErrSyntax] | c # t \<Rightarrow>
     (let neg = (c = CHR ''-''); digits = (if c = CHR ''+'' \<or> neg then t else s)
      in case ParseUint digits 64 of
           Inl e \<Rightarrow> Inl e
         | Inr un \<Rightarrow>
             if \<not> neg \<and> un \<ge> 2 ^ 63 then Inl [Go ErrRange]
             else if neg \<and> un > 2 ^ 63 then Inl [Go ErrRange]
             else Inr (if neg then - of_nat un else of_nat un)))"

section \<open>Suffixes and padded numbers\<close>

definition HasSuffix :: "string \<Rightarrow> string \<Rightarrow> bool" where
  "HasSuffix s t \<longleftrightarrow> length t \<le> length s \<and> drop (length s - length t) s = t"

definition TrimSuffix :: "string \<Rightarrow> string \<Rightarrow> string" where
  "TrimSuffix s t = (if HasSuffix s t then take (length s - length t) s else s)"

lemma HasSuffix_append [simp]: "HasSuffix (s @ t) t" "TrimSuffix (s @ t) t = s"
  by (simp_all add: HasSuffix_def TrimSuffix_def)

lemma HasSuffix_same_length: "length t = length t' \<Longrightarrow> HasSuffix (s @ t) t' \<longleftrightarrow> t = t'"
  by (auto simp: HasSuffix_def)

text \<open>\<^verbatim>\<open>fmt.Sprintf("%020d", n)\<close>: the sign counts towards the width.\<close>

definition Sprintf_020d :: "int64 \<Rightarrow> string" where
  "Sprintf_020d n =
     (if sint n < 0 then (let ds = format_digits (nat (- sint n)) [] in CHR ''-'' # replicate (19 - length ds) (CHR ''0'') @ ds)
      else (let ds = format_digits (nat (sint n)) [] in replicate (20 - length ds) (CHR ''0'') @ ds))"

section \<open>\<^verbatim>\<open>path/filepath\<close>\<close>

fun join_slash :: "string list \<Rightarrow> string" where
  "join_slash [] = []"
| "join_slash [x] = x"
| "join_slash (x # y # xs) = x @ CHR ''/'' # join_slash (y # xs)"

text \<open>\<^verbatim>\<open>Clean\<close>: the shortest equivalent path; \<open>out\<close> holds the components kept so far, latest first.\<close>

definition clean_step :: "bool \<Rightarrow> string list \<Rightarrow> string \<Rightarrow> string list" where
  "clean_step rooted out p =
     (if p = [] \<or> p = ''.'' then out
      else if p = ''..'' then
        (case out of [] \<Rightarrow> if rooted then [] else [''..'']
         | q # qs \<Rightarrow> if q = ''..'' then ''..'' # out else qs)
      else p # out)"

definition Clean :: "string \<Rightarrow> string" where
  "Clean p = (if p = [] then ''.''
     else (let rooted = (hd p = CHR ''/'');
               body = join_slash (rev (foldl (clean_step rooted) [] (Split p (CHR ''/''))))
           in if rooted then CHR ''/'' # body else if body = [] then ''.'' else body))"

definition filepath_Join :: "string \<Rightarrow> string \<Rightarrow> string" where
  "filepath_Join d name = (if d \<noteq> [] then Clean (d @ CHR ''/'' # name) else if name \<noteq> [] then Clean name else [])"

definition filepath_Dir :: "string \<Rightarrow> string" where
  "filepath_Dir p = Clean (rev (dropWhile (\<lambda>c. c \<noteq> CHR ''/'') (rev p)))"

text \<open>The name of a directory entry: joined to a directory it only adds itself.\<close>

definition plain_name :: "string \<Rightarrow> bool" where
  "plain_name n \<longleftrightarrow> CHR ''/'' \<notin> set n \<and> n \<noteq> [] \<and> n \<noteq> ''.'' \<and> n \<noteq> ''..''"

lemma Split_nonempty [simp]: "Split s c \<noteq> []"
  by (cases s) (auto split: list.splits)

lemma Split_plain: "c \<notin> set n \<Longrightarrow> Split n c = [n]"
  by (induction n) auto

lemma Split_append: "Split (d @ c # s) c = Split d c @ Split s c"
  by (induction d) (auto split: list.splits)

lemma join_slash_append: "xs \<noteq> [] \<Longrightarrow> join_slash (xs @ [n]) = join_slash xs @ CHR ''/'' # n"
  by (induction xs rule: join_slash.induct) auto

definition dir_prefix :: "string \<Rightarrow> string" where
  "dir_prefix d = (if d = [] then []
     else (let rooted = (hd d = CHR ''/''); xs = rev (foldl (clean_step rooted) [] (Split d (CHR ''/'')))
           in (if rooted then ''/'' else []) @ (if xs = [] then [] else join_slash xs @ ''/'')))"

lemma filepath_Join_plain:
  assumes "plain_name n"
  shows "filepath_Join d n = dir_prefix d @ n"
proof (cases "d = []")
  case True
  have "n \<noteq> []" "CHR ''/'' \<notin> set n" "hd n \<noteq> CHR ''/''" "n \<noteq> ''.''" "n \<noteq> ''..''"
    using assms by (auto simp: plain_name_def) (metis list.set_sel(1))
  then show ?thesis using True by (simp add: filepath_Join_def dir_prefix_def Clean_def Split_plain clean_step_def)
next
  case False
  let ?r = "hd d = CHR ''/''" and ?out = "foldl (clean_step (hd d = CHR ''/'')) [] (Split d (CHR ''/''))"
  have "foldl (clean_step ?r) [] (Split (d @ CHR ''/'' # n) (CHR ''/'')) = n # ?out"
    using assms by (simp add: Split_append Split_plain plain_name_def clean_step_def)
  moreover have plain: "n \<noteq> []" using assms by (simp add: plain_name_def)
  ultimately have "filepath_Join d n = (if ?r then ''/'' else []) @ join_slash (rev ?out @ [n])"
    using False join_slash_append [of "rev ?out" n]
    by (cases ?r; cases "rev ?out = []") (simp_all add: filepath_Join_def Clean_def Let_def plain)
  then show ?thesis
    using False by (cases "rev ?out = []") (simp_all add: dir_prefix_def Let_def join_slash_append)
qed

lemma filepath_Join_inj: "plain_name m \<Longrightarrow> plain_name n \<Longrightarrow> filepath_Join d m = filepath_Join d n \<longleftrightarrow> m = n"
  by (simp add: filepath_Join_plain)

section \<open>Printing and parsing back\<close>

lemma char_digit_char: "d < 10 \<Longrightarrow> char_digit (digit_char d) = Some d"
  by (simp add: char_digit_def digit_char_def)

lemma parse_format_digits:
  "n \<le> maxVal \<Longrightarrow> parse_digits maxVal 0 (format_digits n acc) = parse_digits maxVal n acc"
proof (induction n acc rule: format_digits.induct)
  case (1 n acc)
  show ?case
  proof (cases "n < 10")
    case True
    then show ?thesis using 1 by (simp add: format_digits.simps [of n] char_digit_char)
  next
    case False
    have "n div 10 \<le> maxVal" "n div 10 * 10 + n mod 10 = n" using 1 by simp_all
    with "1.IH" [OF False] False 1(2) show ?thesis
      by (simp add: format_digits.simps [of n] char_digit_char)
  qed
qed

lemma format_digits_nonempty [simp]: "format_digits n acc \<noteq> []"
  by (induction n acc rule: format_digits.induct) (simp add: format_digits.simps)

lemma set_format_digits: "set (format_digits n acc) \<subseteq> digit_char ` {..<10} \<union> set acc"
proof (induction n acc rule: format_digits.induct)
  case (1 n acc)
  then show ?case by (cases "n < 10") (auto simp: format_digits.simps [of n])
qed

lemma ParseUint_FormatUint: "unat n < 2 ^ k \<Longrightarrow> ParseUint (FormatUint n) k = Inr (unat n)"
  by (simp add: ParseUint_def FormatUint_def parse_format_digits)

lemma digit_char_ne: "d < 10 \<Longrightarrow> digit_char d \<noteq> CHR ''-'' \<and> digit_char d \<noteq> CHR ''+''"
  by (auto simp: digit_char_def char_of_eq_iff take_bit_nat_eq_self)

lemma hd_format_digits: "hd (format_digits n []) \<in> digit_char ` {..<10}"
  using set_format_digits [of n "[]"] by (metis Un_empty_right format_digits_nonempty hd_in_set list.set(1) subsetD)

lemma ParseInt64_FormatInt: "ParseInt64 (FormatInt n) = Inr n"
proof -
  have lo: "- (2 ^ 63) \<le> sint n" and hi: "sint n < 2 ^ 63"
    using sint_greater_eq [of n] sint_less [of n] by simp_all
  show ?thesis
  proof (cases "sint n < 0")
    case True
    have "nat (- sint n) \<le> 2 ^ 63" using lo by simp
    then have "ParseUint (format_digits (nat (- sint n)) []) 64 = Inr (nat (- sint n))"
      by (simp add: ParseUint_def parse_format_digits)
    moreover have "- of_nat (nat (- sint n)) = n" using True by simp
    ultimately show ?thesis using True \<open>nat (- sint n) \<le> 2 ^ 63\<close>
      by (simp add: ParseInt64_def FormatInt_def)
  next
    case False
    have b: "nat (sint n) < 2 ^ 63" using hi False by simp
    then have p: "ParseUint (format_digits (nat (sint n)) []) 64 = Inr (nat (sint n))"
      by (simp add: ParseUint_def parse_format_digits)
    obtain c t where ct: "format_digits (nat (sint n)) [] = c # t"
      using format_digits_nonempty list.exhaust by metis
    have "c \<noteq> CHR ''-'' \<and> c \<noteq> CHR ''+''"
      using hd_format_digits [of "nat (sint n)"] digit_char_ne by (auto simp: ct)
    moreover have "of_nat (nat (sint n)) = n" using False by simp
    ultimately show ?thesis using False b p
      by (simp add: ParseInt64_def FormatInt_def ct)
  qed
qed

end
