(* ===== verification/Msgpack.thy ===== *)
theory Msgpack
  imports Prelude
begin

unbundle bit_operations_syntax

text \<open>
  The msgpack primitives of \<^verbatim>\<open>format/mp.go\<close> with the type tags of \<^verbatim>\<open>format/mpcode.go\<close>: the append
  helpers, the readers, and \<open>skipMP\<close>, the iterative walk that measures one value. The readers are
  prefix decoders, the integer and header encoders are codecs, and \<open>skipMP\<close> accepts exactly the
  well-formed msgpack values, given as an inductive grammar over value heads.
\<close>

section \<open>Type tags\<close>

definition mpcPosFixedNumHigh :: byte where [simp]: "mpcPosFixedNumHigh = 0x7f"
definition mpcNegFixedNumLow :: byte where [simp]: "mpcNegFixedNumLow = 0xe0"
definition mpcNil :: byte where [simp]: "mpcNil = 0xc0"
definition mpcFalse :: byte where [simp]: "mpcFalse = 0xc2"
definition mpcTrue :: byte where [simp]: "mpcTrue = 0xc3"
definition mpcFloat :: byte where [simp]: "mpcFloat = 0xca"
definition mpcDouble :: byte where [simp]: "mpcDouble = 0xcb"
definition mpcUint8 :: byte where [simp]: "mpcUint8 = 0xcc"
definition mpcUint16 :: byte where [simp]: "mpcUint16 = 0xcd"
definition mpcUint32 :: byte where [simp]: "mpcUint32 = 0xce"
definition mpcUint64 :: byte where [simp]: "mpcUint64 = 0xcf"
definition mpcInt8 :: byte where [simp]: "mpcInt8 = 0xd0"
definition mpcInt16 :: byte where [simp]: "mpcInt16 = 0xd1"
definition mpcInt32 :: byte where [simp]: "mpcInt32 = 0xd2"
definition mpcInt64 :: byte where [simp]: "mpcInt64 = 0xd3"
definition mpcFixedStrLow :: byte where [simp]: "mpcFixedStrLow = 0xa0"
definition mpcFixedStrHigh :: byte where [simp]: "mpcFixedStrHigh = 0xbf"
definition mpcFixedStrMask :: byte where [simp]: "mpcFixedStrMask = 0x1f"
definition mpcStr8 :: byte where [simp]: "mpcStr8 = 0xd9"
definition mpcStr16 :: byte where [simp]: "mpcStr16 = 0xda"
definition mpcStr32 :: byte where [simp]: "mpcStr32 = 0xdb"
definition mpcBin8 :: byte where [simp]: "mpcBin8 = 0xc4"
definition mpcBin16 :: byte where [simp]: "mpcBin16 = 0xc5"
definition mpcBin32 :: byte where [simp]: "mpcBin32 = 0xc6"
definition mpcFixedArrayLow :: byte where [simp]: "mpcFixedArrayLow = 0x90"
definition mpcFixedArrayHigh :: byte where [simp]: "mpcFixedArrayHigh = 0x9f"
definition mpcFixedArrayMask :: byte where [simp]: "mpcFixedArrayMask = 0x0f"
definition mpcArray16 :: byte where [simp]: "mpcArray16 = 0xdc"
definition mpcArray32 :: byte where [simp]: "mpcArray32 = 0xdd"
definition mpcFixedMapLow :: byte where [simp]: "mpcFixedMapLow = 0x80"
definition mpcFixedMapHigh :: byte where [simp]: "mpcFixedMapHigh = 0x8f"
definition mpcFixedMapMask :: byte where [simp]: "mpcFixedMapMask = 0x0f"
definition mpcMap16 :: byte where [simp]: "mpcMap16 = 0xde"
definition mpcMap32 :: byte where [simp]: "mpcMap32 = 0xdf"
definition mpcFixExt1 :: byte where [simp]: "mpcFixExt1 = 0xd4"
definition mpcFixExt2 :: byte where [simp]: "mpcFixExt2 = 0xd5"
definition mpcFixExt4 :: byte where [simp]: "mpcFixExt4 = 0xd6"
definition mpcFixExt8 :: byte where [simp]: "mpcFixExt8 = 0xd7"
definition mpcFixExt16 :: byte where [simp]: "mpcFixExt16 = 0xd8"
definition mpcExt8 :: byte where [simp]: "mpcExt8 = 0xc7"
definition mpcExt16 :: byte where [simp]: "mpcExt16 = 0xc8"
definition mpcExt32 :: byte where [simp]: "mpcExt32 = 0xc9"

section \<open>Header widths\<close>

definition mpTagSize :: nat where [simp]: "mpTagSize = 1"
definition mpHead8 :: nat where [simp]: "mpHead8 = 2"
definition mpHead16 :: nat where [simp]: "mpHead16 = 3"
definition mpHead32 :: nat where [simp]: "mpHead32 = 5"
definition mpHead64 :: nat where [simp]: "mpHead64 = 9"
definition mpHeadExt8 :: nat where [simp]: "mpHeadExt8 = 3"
definition mpHeadExt16 :: nat where [simp]: "mpHeadExt16 = 4"
definition mpHeadExt32 :: nat where [simp]: "mpHeadExt32 = 6"
definition mpFixExt1Size :: nat where [simp]: "mpFixExt1Size = 3"
definition mpFixExt2Size :: nat where [simp]: "mpFixExt2Size = 4"
definition mpFixExt4Size :: nat where [simp]: "mpFixExt4Size = 6"
definition mpFixExt8Size :: nat where [simp]: "mpFixExt8Size = 10"
definition mpFixExt16Size :: nat where [simp]: "mpFixExt16Size = 18"
definition mpMapEntryFields :: nat where [simp]: "mpMapEntryFields = 2"

section \<open>Append helpers\<close>

definition appendMPUint :: "bytes \<Rightarrow> uint64 \<Rightarrow> bytes" where
  "appendMPUint buf n =
     (if n \<le> ucast mpcPosFixedNumHigh then buf @ [ucast n]
      else if n \<le> 0xff then buf @ [mpcUint8, ucast n]
      else if n \<le> 0xffff then buf @ [mpcUint16] @ PutUint16 (ucast n)
      else if n \<le> 0xffffffff then buf @ [mpcUint32] @ PutUint32 (ucast n)
      else buf @ [mpcUint64] @ PutUint64 n)"

text \<open>A \<^verbatim>\<open>float64\<close> is its bit pattern, as \<^verbatim>\<open>math.Float64bits\<close> gives it.\<close>

type_synonym float64 = "64 word"

definition appendMPDouble :: "bytes \<Rightarrow> float64 \<Rightarrow> bytes" where
  "appendMPDouble buf f = buf @ [mpcDouble] @ PutUint64 f"

definition appendMPStrHeader :: "bytes \<Rightarrow> nat \<Rightarrow> bytes" where
  "appendMPStrHeader buf n =
     (if n \<le> unat mpcFixedStrMask then buf @ [mpcFixedStrLow OR of_nat n]
      else if n \<le> 0xff then buf @ [mpcStr8, of_nat n]
      else if n \<le> 0xffff then buf @ [mpcStr16] @ PutUint16 (of_nat n)
      else buf @ [mpcStr32] @ PutUint32 (of_nat n))"

definition appendMPMapHeader :: "bytes \<Rightarrow> nat \<Rightarrow> bytes" where
  "appendMPMapHeader buf n =
     (if n \<le> unat mpcFixedMapMask then buf @ [mpcFixedMapLow OR of_nat n]
      else if n \<le> 0xffff then buf @ [mpcMap16] @ PutUint16 (of_nat n)
      else buf @ [mpcMap32] @ PutUint32 (of_nat n))"

section \<open>Readers\<close>

definition readMPUint :: "bytes \<Rightarrow> error + (uint64 \<times> nat)" where
  "readMPUint b = (case b of [] \<Rightarrow> Inl [Mp ErrEmptyInput] | c # _ \<Rightarrow>
     if c \<le> mpcPosFixedNumHigh then Inr (ucast c, 1)
     else if c = mpcUint8 then
       (if length b < mpHead8 then Inl [Mp ErrShortInput] else Inr (ucast (b ! 1), mpHead8))
     else if c = mpcUint16 then
       (if length b < mpHead16 then Inl [Mp ErrShortInput]
        else Inr (ucast (Uint16 (subslice b 1 mpHead16)), mpHead16))
     else if c = mpcUint32 then
       (if length b < mpHead32 then Inl [Mp ErrShortInput]
        else Inr (ucast (Uint32 (subslice b 1 mpHead32)), mpHead32))
     else if c = mpcUint64 then
       (if length b < mpHead64 then Inl [Mp ErrShortInput]
        else Inr (Uint64 (subslice b 1 mpHead64), mpHead64))
     else Inl [Mp ErrUnexpectedTag])"

definition readMPMapLen :: "bytes \<Rightarrow> error + (nat \<times> nat)" where
  "readMPMapLen b = (case b of [] \<Rightarrow> Inl [Mp ErrEmptyInput] | c # _ \<Rightarrow>
     if mpcFixedMapLow \<le> c \<and> c \<le> mpcFixedMapHigh then Inr (unat (c AND mpcFixedMapMask), 1)
     else if c = mpcMap16 then
       (if length b < mpHead16 then Inl [Mp ErrShortInput]
        else Inr (unat (Uint16 (subslice b 1 mpHead16)), mpHead16))
     else if c = mpcMap32 then
       (if length b < mpHead32 then Inl [Mp ErrShortInput]
        else Inr (unat (Uint32 (subslice b 1 mpHead32)), mpHead32))
     else Inl [Mp ErrUnexpectedTag])"

definition readMPArrayLen :: "bytes \<Rightarrow> error + (nat \<times> nat)" where
  "readMPArrayLen b = (case b of [] \<Rightarrow> Inl [Mp ErrEmptyInput] | c # _ \<Rightarrow>
     if mpcFixedArrayLow \<le> c \<and> c \<le> mpcFixedArrayHigh then Inr (unat (c AND mpcFixedArrayMask), 1)
     else if c = mpcArray16 then
       (if length b < mpHead16 then Inl [Mp ErrShortInput]
        else Inr (unat (Uint16 (subslice b 1 mpHead16)), mpHead16))
     else if c = mpcArray32 then
       (if length b < mpHead32 then Inl [Mp ErrShortInput]
        else Inr (unat (Uint32 (subslice b 1 mpHead32)), mpHead32))
     else Inl [Mp ErrUnexpectedTag])"

definition readMPBin :: "bytes \<Rightarrow> error + bytes" where
  "readMPBin b = (case b of [] \<Rightarrow> Inl [Mp ErrEmptyInput] | c # _ \<Rightarrow>
     (case
        (if c = mpcBin8 then
           (if length b < mpHead8 then Inl [Mp ErrShortInput] else Inr (unat (b ! 1), mpHead8))
         else if c = mpcBin16 then
           (if length b < mpHead16 then Inl [Mp ErrShortInput]
            else Inr (unat (Uint16 (subslice b 1 mpHead16)), mpHead16))
         else if c = mpcBin32 then
           (if length b < mpHead32 then Inl [Mp ErrShortInput]
            else Inr (unat (Uint32 (subslice b 1 mpHead32)), mpHead32))
         else Inl [Mp ErrUnexpectedTag])
      of Inl e \<Rightarrow> Inl e
       | Inr (n, head) \<Rightarrow>
           if length b - head < n then Inl [Mp ErrShortInput]
           else Inr (subslice b head (head + n))))"

text \<open>
  The conversion \<^verbatim>\<open>float64(math.Float32frombits(u))\<close> on bit patterns: a normal number keeps its
  mantissa with the exponent re-biased, a subnormal is normalised, infinities and NaNs keep their
  payload with the quiet bit set on a NaN, as the hardware conversion does.
\<close>

fun normalise32 :: "nat \<Rightarrow> nat \<Rightarrow> nat \<Rightarrow> nat \<times> nat" where
  "normalise32 0 e m = (e, m)"
| "normalise32 (Suc k) e m = (if 2 ^ 23 \<le> m then (e, m) else normalise32 k (e - 1) (2 * m))"

definition float32_to_float64 :: "32 word \<Rightarrow> float64" where
  "float32_to_float64 u =
     (let s = unat (drop_bit 31 u); e = unat (drop_bit 23 u AND 0xff); m = unat (u AND 0x7fffff);
          pack = (\<lambda>e' m'. push_bit 63 (of_nat s) OR push_bit 52 (of_nat e') OR push_bit 29 (of_nat m'))
      in if e = 255 then pack 2047 (if m = 0 then 0 else unat ((of_nat m :: 32 word) OR 0x400000))
         else if e = 0 then
           (if m = 0 then pack 0 0
            else (let (e', m') = normalise32 23 (1 + 896) m in pack e' (m' - 2 ^ 23)))
         else pack (e + 896) m)"

definition readMPDouble :: "bytes \<Rightarrow> error + (float64 \<times> nat)" where
  "readMPDouble b = (case b of [] \<Rightarrow> Inl [Mp ErrEmptyInput] | c # _ \<Rightarrow>
     if c = mpcFloat then
       (if length b < mpHead32 then Inl [Mp ErrShortInput]
        else Inr (float32_to_float64 (Uint32 (subslice b 1 mpHead32)), mpHead32))
     else if c = mpcDouble then
       (if length b < mpHead64 then Inl [Mp ErrShortInput]
        else Inr (Uint64 (subslice b 1 mpHead64), mpHead64))
     else Inl [Mp ErrUnexpectedTag])"

section \<open>Value heads and \<open>skipMP\<close>\<close>

text \<open>
  \<open>mpHead\<close> reads the tag, the length field and the inline payload of one value, and returns the
  bytes they take with the number of child values that follow. The closure \<open>fixed\<close> of the code
  and its repeated length-prefixed branches are the helpers below; \<open>mpHead_tag\<close> is the switch
  on the tag \<open>c = b[0]\<close>. Indexing the empty subslice
  panics, so the callers test for it first.
\<close>

definition mpHead_fixed :: "bytes \<Rightarrow> nat \<Rightarrow> error + (nat \<times> nat)" where
  "mpHead_fixed b sz =
     (if sz > length b then Inl [Mp ErrShortFixedWidth] else Inr (sz, 0))"

definition mpHead_payload :: "bytes \<Rightarrow> nat \<Rightarrow> nat \<Rightarrow> error + (nat \<times> nat)" where
  "mpHead_payload b head l =
     (if length b < head then Inl [Mp ErrShortHeader]
      else if head + l > length b then Inl [Mp ErrShortPayload] else Inr (head + l, 0))"

definition mpHead_children :: "bytes \<Rightarrow> nat \<Rightarrow> nat \<Rightarrow> error + (nat \<times> nat)" where
  "mpHead_children b head k =
     (if length b < head then Inl [Mp ErrShortHeader] else Inr (head, k))"

definition mpHead_tag :: "byte \<Rightarrow> bytes \<Rightarrow> error + (nat \<times> nat)" where
  "mpHead_tag c b =
    (if c \<le> mpcPosFixedNumHigh \<or> mpcNegFixedNumLow \<le> c then Inr (mpTagSize, 0)
     else if mpcFixedStrLow \<le> c \<and> c \<le> mpcFixedStrHigh then
       (let l = unat (c AND mpcFixedStrMask)
        in if mpTagSize + l > length b then Inl [Mp ErrShortFixstr] else Inr (mpTagSize + l, 0))
     else if mpcFixedArrayLow \<le> c \<and> c \<le> mpcFixedArrayHigh then
       Inr (mpTagSize, unat (c AND mpcFixedArrayMask))
     else if mpcFixedMapLow \<le> c \<and> c \<le> mpcFixedMapHigh then
       Inr (mpTagSize, mpMapEntryFields * unat (c AND mpcFixedMapMask))
     else if c = mpcNil \<or> c = mpcFalse \<or> c = mpcTrue then Inr (mpTagSize, 0)
     else if c = mpcUint8 \<or> c = mpcInt8 then mpHead_fixed b mpHead8
     else if c = mpcUint16 \<or> c = mpcInt16 then mpHead_fixed b mpHead16
     else if c = mpcUint32 \<or> c = mpcInt32 \<or> c = mpcFloat then mpHead_fixed b mpHead32
     else if c = mpcUint64 \<or> c = mpcInt64 \<or> c = mpcDouble then mpHead_fixed b mpHead64
     else if c = mpcStr8 \<or> c = mpcBin8 then mpHead_payload b mpHead8 (unat (b ! 1))
     else if c = mpcStr16 \<or> c = mpcBin16 then
       mpHead_payload b mpHead16 (unat (Uint16 (subslice b 1 mpHead16)))
     else if c = mpcStr32 \<or> c = mpcBin32 then
       mpHead_payload b mpHead32 (unat (Uint32 (subslice b 1 mpHead32)))
     else if c = mpcArray16 then mpHead_children b mpHead16 (unat (Uint16 (subslice b 1 mpHead16)))
     else if c = mpcArray32 then mpHead_children b mpHead32 (unat (Uint32 (subslice b 1 mpHead32)))
     else if c = mpcMap16 then
       mpHead_children b mpHead16 (mpMapEntryFields * unat (Uint16 (subslice b 1 mpHead16)))
     else if c = mpcMap32 then
       mpHead_children b mpHead32 (mpMapEntryFields * unat (Uint32 (subslice b 1 mpHead32)))
     else if c = mpcFixExt1 then mpHead_fixed b mpFixExt1Size
     else if c = mpcFixExt2 then mpHead_fixed b mpFixExt2Size
     else if c = mpcFixExt4 then mpHead_fixed b mpFixExt4Size
     else if c = mpcFixExt8 then mpHead_fixed b mpFixExt8Size
     else if c = mpcFixExt16 then mpHead_fixed b mpFixExt16Size
     else if c = mpcExt8 then mpHead_payload b mpHeadExt8 (unat (b ! 1))
     else if c = mpcExt16 then mpHead_payload b mpHeadExt16 (unat (Uint16 (subslice b 1 mpHead16)))
     else if c = mpcExt32 then mpHead_payload b mpHeadExt32 (unat (Uint32 (subslice b 1 mpHead32)))
     else Inl [Mp ErrUnsupportedTag])"

definition mpHead :: "bytes \<Rightarrow> error + (nat \<times> nat)" where
  "mpHead b = (case b of [] \<Rightarrow> Inl [Go Panic] | c # _ \<Rightarrow> mpHead_tag c b)"

section \<open>The readers are prefix decoders\<close>

lemma take_append_Cons: "0 < n \<Longrightarrow> take n (x # xs) @ c = x # take (n - 1) xs @ c"
  by (cases n) simp_all

lemma length_ge_Suc0 [simp]: "Suc 0 \<le> length xs \<longleftrightarrow> xs \<noteq> []"
  by (cases xs) simp_all

interpretation mpuint: prefix_decoder readMPUint
proof
  fix b x n c assume h: "readMPUint b = Inr (x, n)"
  show "0 < n" and "n \<le> length b"
    using h by (auto simp: readMPUint_def split: list.splits if_splits)
  show "readMPUint (take n b @ c) = Inr (x, n)"
    using h by (auto simp: readMPUint_def take_append_Cons nth_append
        split: list.splits if_splits)
qed

interpretation mpmap: prefix_decoder readMPMapLen
proof
  fix b x n c assume h: "readMPMapLen b = Inr (x, n)"
  show "0 < n" and "n \<le> length b"
    using h by (auto simp: readMPMapLen_def split: list.splits if_splits)
  show "readMPMapLen (take n b @ c) = Inr (x, n)"
    using h by (auto simp: readMPMapLen_def take_append_Cons nth_append
        split: list.splits if_splits)
qed

interpretation mparray: prefix_decoder readMPArrayLen
proof
  fix b x n c assume h: "readMPArrayLen b = Inr (x, n)"
  show "0 < n" and "n \<le> length b"
    using h by (auto simp: readMPArrayLen_def split: list.splits if_splits)
  show "readMPArrayLen (take n b @ c) = Inr (x, n)"
    using h by (auto simp: readMPArrayLen_def take_append_Cons nth_append
        split: list.splits if_splits)
qed

interpretation mpdouble: prefix_decoder readMPDouble
proof
  fix b x n c assume h: "readMPDouble b = Inr (x, n)"
  show "0 < n" and "n \<le> length b"
    using h by (auto simp: readMPDouble_def split: list.splits if_splits)
  show "readMPDouble (take n b @ c) = Inr (x, n)"
    using h by (auto simp: readMPDouble_def take_append_Cons nth_append
        split: list.splits if_splits)
qed

text \<open>\<open>mpHead\<close> with the components of its result swapped has the shape of a decoder.\<close>

definition mpHeadDec :: "bytes \<Rightarrow> error + (nat \<times> nat)" where
  "mpHeadDec b = map_sum id (\<lambda>(n, k). (k, n)) (mpHead b)"

lemmas mpHead_defs = mpHead_def mpHead_tag_def mpHead_fixed_def mpHead_payload_def mpHead_children_def Let_def

lemma mpHead_pos: "mpHead b = Inr (n, k) \<Longrightarrow> 0 < n"
  by (auto simp: mpHead_defs split: list.splits if_splits)

lemma mpHead_le: "mpHead b = Inr (n, k) \<Longrightarrow> n \<le> length b"
  by (auto simp: mpHead_defs split: list.splits if_splits)

lemma if_branch_cong:
  "(if P then a else x) = r \<Longrightarrow> (P \<Longrightarrow> a = r \<Longrightarrow> a' = r) \<Longrightarrow> (\<not> P \<Longrightarrow> x = r \<Longrightarrow> x' = r) \<Longrightarrow>
   (if P then a' else x') = r"
  by (simp split: if_splits)

lemma mpHead_fixed_prefix:
  "mpHead_fixed b sz = Inr (n, k) \<Longrightarrow> mpHead_fixed (take n b @ c) sz = Inr (n, k)"
  by (auto simp: mpHead_fixed_def split: if_splits)

lemma mpHead_payload_prefix:
  "mpHead_payload b 2 (unat (b ! 1)) = Inr (n, k) \<Longrightarrow>
     mpHead_payload (take n b @ c) 2 (unat ((take n b @ c) ! 1)) = Inr (n, k)"
  "mpHead_payload b 3 (unat (b ! 1)) = Inr (n, k) \<Longrightarrow>
     mpHead_payload (take n b @ c) 3 (unat ((take n b @ c) ! 1)) = Inr (n, k)"
  "3 \<le> h \<Longrightarrow> mpHead_payload b h (unat (Uint16 (subslice b 1 3))) = Inr (n, k) \<Longrightarrow>
     mpHead_payload (take n b @ c) h (unat (Uint16 (subslice (take n b @ c) 1 3))) = Inr (n, k)"
  "5 \<le> h \<Longrightarrow> mpHead_payload b h (unat (Uint32 (subslice b 1 5))) = Inr (n, k) \<Longrightarrow>
     mpHead_payload (take n b @ c) h (unat (Uint32 (subslice (take n b @ c) 1 5))) = Inr (n, k)"
  by (auto simp: mpHead_payload_def nth_append split: if_splits)

lemma mpHead_children_prefix:
  "mpHead_children b 3 (m * unat (Uint16 (subslice b 1 3))) = Inr (n, k) \<Longrightarrow>
     mpHead_children (take n b @ c) 3 (m * unat (Uint16 (subslice (take n b @ c) 1 3))) = Inr (n, k)"
  "mpHead_children b 5 (m * unat (Uint32 (subslice b 1 5))) = Inr (n, k) \<Longrightarrow>
     mpHead_children (take n b @ c) 5 (m * unat (Uint32 (subslice (take n b @ c) 1 5))) = Inr (n, k)"
  by (auto simp: mpHead_children_def split: if_splits)

lemma mpHead_tag_prefix:
  assumes "mpHead_tag x b = Inr (n, k)"
  shows "mpHead_tag x (take n b @ c) = Inr (n, k)"
proof -
  note leaf = mpHead_fixed_prefix mpHead_payload_prefix mpHead_children_prefix
    mpHead_children_prefix [where m = 1, unfolded mult_1]
  from assms show ?thesis
    unfolding mpHead_tag_def mpHead8_def mpHead16_def mpHead32_def mpHeadExt8_def mpHeadExt16_def
      mpHeadExt32_def
    apply -
    apply (erule if_branch_cong, assumption)
    apply (erule if_branch_cong, force simp: Let_def split: if_splits)
    apply (erule if_branch_cong, assumption)+
    apply (erule if_branch_cong, (erule leaf | (rule leaf, simp, assumption)))+
    apply assumption
    done
qed

lemma mpHead_prefix:
  assumes "mpHead b = Inr (n, k)"
  shows "mpHead (take n b @ c) = Inr (n, k)"
proof (cases b)
  case Nil
  with assms show ?thesis by (simp add: mpHead_def)
next
  case (Cons x xs)
  have "take n b @ c = x # take (n - 1) xs @ c"
    using mpHead_pos [OF assms] Cons by (simp add: take_append_Cons)
  then have "mpHead (take n b @ c) = mpHead_tag x (take n b @ c)"
    by (simp add: mpHead_def)
  then show ?thesis using assms Cons mpHead_tag_prefix by (simp add: mpHead_def)
qed

interpretation mphead: prefix_decoder mpHeadDec
proof
  fix b x n c assume "mpHeadDec b = Inr (x, n)"
  then have h: "mpHead b = Inr (n, x)"
    by (auto simp: mpHeadDec_def map_sum_def split: sum.splits prod.splits)
  show "0 < n" and "n \<le> length b" using h mpHead_pos mpHead_le by blast+
  from mpHead_prefix [OF h] show "mpHeadDec (take n b @ c) = Inr (x, n)" by (simp add: mpHeadDec_def)
qed

section \<open>The encoders are codecs\<close>

lemma unat_ucast_small:
  "unat n < 2 ^ LENGTH('b) \<Longrightarrow> unat (ucast n :: 'b::len word) = unat (n :: 'a::len word)"
  by (simp add: unsigned_ucast_eq unsigned_take_bit_eq take_bit_nat_eq_self)

lemma ucast_ucast_small:
  assumes "unat n < 2 ^ LENGTH('b)"
  shows "ucast (ucast n :: 'b::len word) = (n :: 'a::len word)"
proof (rule word_unat_eq_iff [THEN iffD2])
  have "unat n < 2 ^ LENGTH('a)" by (rule unsigned_less)
  with assms show "unat (ucast (ucast n :: 'b word) :: 'a word) = unat n"
    by (simp add: unat_ucast_small)
qed

lemma ucast_fits:
  fixes n :: uint64
  shows "n \<le> 0x7f \<Longrightarrow> ucast (ucast n :: byte) = n" "n \<le> 0xff \<Longrightarrow> ucast (ucast n :: byte) = n"
    "n \<le> 0xffff \<Longrightarrow> ucast (ucast n :: uint16) = n"
    "n \<le> 0xffffffff \<Longrightarrow> ucast (ucast n :: uint32) = n"
    "n \<le> 0x7f \<Longrightarrow> ucast n \<le> (0x7f::byte)"
  by (simp_all add: ucast_ucast_small word_le_nat_alt unat_ucast_small)

lemma appendMPUint_append: "appendMPUint buf n = buf @ appendMPUint [] n"
  by (simp add: appendMPUint_def)

lemma appendMPUint_nonempty [simp]: "appendMPUint buf n \<noteq> []"
  by (simp add: appendMPUint_def)

interpretation mpuint_codec: codec "appendMPUint []" readMPUint "\<lambda>_. True"
  by unfold_locales (auto simp: appendMPUint_def readMPUint_def ucast_fits)

lemma appendMPUint_size: "length (appendMPUint [] n) \<le> mpHead64"
  and appendMPUint_size32: "n \<le> 0xffffffff \<Longrightarrow> length (appendMPUint [] n) \<le> mpHead32"
  by (simp_all add: appendMPUint_def)

interpretation mpdouble_codec: codec "appendMPDouble []" readMPDouble "\<lambda>_. True"
  by unfold_locales (auto simp: appendMPDouble_def readMPDouble_def)

lemma fixed_tag:
  "n \<le> 15 \<Longrightarrow> (0x80 OR of_nat n :: byte) = of_nat (128 + n)"
  "n \<le> 31 \<Longrightarrow> (0xa0 OR of_nat n :: byte) = of_nat (160 + n)"
  by (auto simp: le_Suc_eq numeral_eq_Suc)

lemma fixmap_read:
  "n \<le> 15 \<Longrightarrow> (0x80 \<le> (0x80 OR of_nat n :: byte) \<and> (0x80 OR of_nat n :: byte) \<le> 0x8f)
     \<and> unat ((0x80 OR of_nat n :: byte) AND 0x0f) = n"
proof -
  have "\<forall>m\<in>set [0..<16]. (0x80 \<le> (0x80 OR of_nat m :: byte) \<and> (0x80 OR of_nat m :: byte) \<le> 0x8f)
     \<and> unat ((0x80 OR of_nat m :: byte) AND 0x0f) = m"
    by code_simp
  moreover assume "n \<le> 15"
  ultimately show ?thesis by simp
qed

lemma unat_of_nat_small: "n < 2 ^ LENGTH('a) \<Longrightarrow> unat (of_nat n :: 'a::len word) = n"
  by (simp add: unsigned_of_nat take_bit_nat_eq_self)

interpretation mpmap_codec: codec "appendMPMapHeader []" readMPMapLen "\<lambda>n. n < 2 ^ 32"
proof
  fix n :: nat and c assume n: "n < 2 ^ 32"
  consider "n \<le> 15" | "15 < n" "n \<le> 0xffff" | "0xffff < n" by linarith
  then show "readMPMapLen (appendMPMapHeader [] n @ c) = Inr (n, length (appendMPMapHeader [] n))"
    by cases (use n fixmap_read [of n] in
        \<open>simp_all add: appendMPMapHeader_def readMPMapLen_def unat_of_nat_small\<close>)
qed

section \<open>\<open>skipMP\<close>\<close>

text \<open>The inner loop pops the nesting levels whose values are all consumed; the head of the list
  is the top of the stack.\<close>

fun pop_consumed :: "nat list \<Rightarrow> nat list" where
  "pop_consumed [] = []"
| "pop_consumed (k # st) = (if k = 0 then pop_consumed st else k # st)"

text \<open>One iteration on the stack: one value of the current level is consumed, its children open
  a level of their own, and finished levels are popped.\<close>

fun skip_stack :: "nat list \<Rightarrow> nat \<Rightarrow> nat list" where
  "skip_stack [] k = []"
| "skip_stack (m # st) k = pop_consumed (if k > 0 then k # (m - 1) # st else (m - 1) # st)"

function skipMP_loop :: "bytes \<Rightarrow> nat list \<Rightarrow> nat \<Rightarrow> error + nat" where
  "skipMP_loop b stack off =
     (if stack = [] then Inr off
      else if off \<ge> length b then Inl [Mp ErrTruncatedInput]
      else (case mpHead (drop off b) of
              Inl e \<Rightarrow> Inl e
            | Inr (n, children) \<Rightarrow> skipMP_loop b (skip_stack stack children) (off + n)))"
  by pat_completeness auto
termination
  by (relation "measure (\<lambda>(b, stack, off). length b - off)") (auto dest: mpHead_pos)

declare skipMP_loop.simps [simp del]

definition skipMP :: "bytes \<Rightarrow> error + nat" where
  "skipMP b = (if b = [] then Inl [Mp ErrEmptyInput] else skipMP_loop b [1] 0)"

section \<open>Well-formed msgpack values\<close>

text \<open>
  The grammar \<open>skipMP\<close> recognises: a value is a head with its inline payload followed by the
  values it announces. \<open>mp_seq n s\<close> says that \<open>s\<close> is a sequence of \<open>n\<close> values.
\<close>

inductive mp_seq :: "nat \<Rightarrow> bytes \<Rightarrow> bool" where
  mp_seq_0: "mp_seq 0 []"
| mp_seq_Suc: "mpHead h = Inr (length h, k) \<Longrightarrow> mp_seq k cs \<Longrightarrow> mp_seq n rest \<Longrightarrow>
    mp_seq (Suc n) (h @ cs @ rest)"

inductive_cases mp_seq_0E [elim!]: "mp_seq 0 s"
inductive_cases mp_seq_SucE: "mp_seq (Suc n) s"

definition mp_value :: "bytes \<Rightarrow> bool" where
  "mp_value s \<longleftrightarrow> mp_seq 1 s"

lemma mp_seq_append: "mp_seq m s \<Longrightarrow> mp_seq n t \<Longrightarrow> mp_seq (m + n) (s @ t)"
proof (induction arbitrary: n t rule: mp_seq.induct)
  case mp_seq_0
  then show ?case by simp
next
  case (mp_seq_Suc h k cs m rest)
  from mp_seq_Suc.IH(2) [OF mp_seq_Suc.prems] have "mp_seq (m + n) (rest @ t)" .
  from mp_seq.mp_seq_Suc [OF mp_seq_Suc.hyps(1,2) this] show ?case by simp
qed

lemma mp_seq_split:
  "mp_seq (m + n) s \<Longrightarrow> \<exists>s1 s2. s = s1 @ s2 \<and> mp_seq m s1 \<and> mp_seq n s2"
proof (induction m arbitrary: s)
  case 0
  then show ?case by (auto intro: mp_seq_0)
next
  case (Suc m)
  from Suc.prems have "mp_seq (Suc (m + n)) s" by simp
  then obtain h k cs rest where s: "s = h @ cs @ rest" "mpHead h = Inr (length h, k)" "mp_seq k cs"
    "mp_seq (m + n) rest"
    by (rule mp_seq_SucE)
  from Suc.IH [OF s(4)] obtain s1 s2 where "rest = s1 @ s2" "mp_seq m s1" "mp_seq n s2" by blast
  then show ?case using s mp_seq_Suc [OF s(2,3), of m s1] by (metis append.assoc)
qed

text \<open>Unfolding one head flattens its children into the sequence that follows.\<close>

lemma mp_seq_Suc_iff:
  "mp_seq (Suc n) s \<longleftrightarrow> (\<exists>h k rest. s = h @ rest \<and> mpHead h = Inr (length h, k) \<and> mp_seq (k + n) rest)"
proof
  assume "mp_seq (Suc n) s"
  then show "\<exists>h k rest. s = h @ rest \<and> mpHead h = Inr (length h, k) \<and> mp_seq (k + n) rest"
    by (auto elim!: mp_seq_SucE dest: mp_seq_append)
next
  assume "\<exists>h k rest. s = h @ rest \<and> mpHead h = Inr (length h, k) \<and> mp_seq (k + n) rest"
  then obtain h k rest where s: "s = h @ rest" "mpHead h = Inr (length h, k)" "mp_seq (k + n) rest"
    by blast
  from mp_seq_split [OF s(3)] show "mp_seq (Suc n) s" using s(1,2) by (auto intro: mp_seq_Suc)
qed

text \<open>The stack of the walk only matters through the number of values it still owes.\<close>

lemma sum_list_pop_consumed [simp]: "sum_list (pop_consumed st) = sum_list st"
  by (induction st) simp_all

definition stack_ok :: "nat list \<Rightarrow> bool" where
  "stack_ok st \<longleftrightarrow> st = [] \<or> 0 < hd st"

lemma pop_consumed_ok: "stack_ok (pop_consumed st)"
  by (induction st) (simp_all add: stack_ok_def)

lemma skip_stack_ok: "stack_ok (skip_stack st k)"
  by (cases st) (simp_all only: skip_stack.simps pop_consumed_ok, simp add: stack_ok_def)

lemma skip_stack_sum:
  "st \<noteq> [] \<Longrightarrow> stack_ok st \<Longrightarrow> sum_list (skip_stack st k) + 1 = sum_list st + k"
  by (cases st) (auto simp: stack_ok_def)

lemma stack_owes: "stack_ok st \<Longrightarrow> st \<noteq> [] \<Longrightarrow> 0 < sum_list st"
  by (cases st) (auto simp: stack_ok_def)

lemma skipMP_loop_sound:
  "skipMP_loop b st off = Inr m \<Longrightarrow> stack_ok st \<Longrightarrow> off \<le> length b \<Longrightarrow>
   off \<le> m \<and> m \<le> length b \<and> mp_seq (sum_list st) (subslice b off m)"
proof (induction b st off rule: skipMP_loop.induct)
  case (1 b st off)
  show ?case
  proof (cases "st = []")
    case True
    with 1 show ?thesis by (auto simp: skipMP_loop.simps intro: mp_seq_0)
  next
    case False
    with "1.prems"(1) obtain n k where head: "off < length b" "mpHead (drop off b) = Inr (n, k)"
      and rec: "skipMP_loop b (skip_stack st k) (off + n) = Inr m"
      by (subst (asm) skipMP_loop.simps) (auto split: if_splits sum.splits)
    let ?st = "skip_stack st k"
    have n: "0 < n" "off + n \<le> length b"
      using head mpHead_pos mpHead_le [OF head(2)] by auto
    have IH: "off + n \<le> m \<and> m \<le> length b \<and> mp_seq (sum_list ?st) (subslice b (off + n) m)"
      using "1.IH" [OF False] head rec n "1.prems"(2) by (simp add: skip_stack_ok)
    have split: "subslice b off m = subslice b off (off + n) @ subslice b (off + n) m"
      using IH by (intro slice_split) auto
    have h: "mpHead (subslice b off (off + n)) = Inr (length (subslice b off (off + n)), k)"
      using mpHead_prefix [OF head(2), of "[]"] n by (simp add: subslice_def)
    obtain j where j: "sum_list st = Suc j" using stack_owes [OF "1.prems"(2) False] gr0_conv_Suc by blast
    then have "sum_list ?st = k + j" using skip_stack_sum [OF False "1.prems"(2), of k] by simp
    then have "mp_seq (sum_list st) (subslice b off m)"
      unfolding j mp_seq_Suc_iff split using h IH by metis
    then show ?thesis using IH by simp
  qed
qed

lemma skipMP_loop_complete:
  "drop off b = s @ c \<Longrightarrow> mp_seq (sum_list st) s \<Longrightarrow> stack_ok st \<Longrightarrow> off \<le> length b \<Longrightarrow>
   skipMP_loop b st off = Inr (off + length s)"
proof (induction b st off arbitrary: s rule: skipMP_loop.induct)
  case (1 b st off)
  show ?case
  proof (cases "st = []")
    case True
    with "1.prems" show ?thesis by (auto simp: skipMP_loop.simps)
  next
    case False
    obtain j where j: "sum_list st = Suc j" using stack_owes [OF "1.prems"(3) False] gr0_conv_Suc by blast
    with "1.prems"(2) obtain h k rest where s: "s = h @ rest" "mpHead h = Inr (length h, k)"
      "mp_seq (k + j) rest"
      by (auto simp: mp_seq_Suc_iff)
    have head: "mpHead (drop off b) = Inr (length h, k)"
      using mpHead_prefix [OF s(2), of "rest @ c"] "1.prems"(1) s(1) by simp
    have h0: "0 < length h" using mpHead_pos [OF s(2)] .
    have off: "off < length b" using "1.prems"(1) s(1) h0
      by (metis append_is_Nil_conv drop_all length_greater_0_conv not_le)
    have sum: "sum_list (skip_stack st k) = k + j"
      using skip_stack_sum [OF False "1.prems"(3), of k] j by simp
    have "drop (off + length h) b = rest @ c"
      using "1.prems"(1) s(1) by (metis add.commute append.assoc append_eq_conv_conj drop_drop)
    moreover have "off + length h \<le> length b"
      using mpHead_le [OF head] off by simp
    ultimately have "skipMP_loop b (skip_stack st k) (off + length h) = Inr (off + length h + length rest)"
      using "1.IH" [OF False] off head s(3) sum "1.prems"(3) by (simp add: skip_stack_ok)
    then show ?thesis using False off head s(1) by (subst skipMP_loop.simps) simp
  qed
qed

text \<open>\<open>skipMP\<close> returns \<open>n\<close> exactly when the first \<open>n\<close> bytes are one well-formed value.\<close>

lemma skipMP_iff: "skipMP b = Inr n \<longleftrightarrow> n \<le> length b \<and> mp_value (take n b)"
proof
  assume "skipMP b = Inr n"
  then have "skipMP_loop b [1] 0 = Inr n" by (simp add: skipMP_def split: if_splits)
  from skipMP_loop_sound [OF this] show "n \<le> length b \<and> mp_value (take n b)"
    by (simp add: mp_value_def subslice_def stack_ok_def)
next
  assume h: "n \<le> length b \<and> mp_value (take n b)"
  then have "b \<noteq> []"
    by (auto simp: mp_value_def mp_seq_Suc_iff mpHead_def)
  with h show "skipMP b = Inr n"
    using skipMP_loop_complete [of 0 b "take n b" "drop n b" "[1]"]
    by (simp add: skipMP_def mp_value_def stack_ok_def)
qed

lemma mp_value_nonempty: "mp_value v \<Longrightarrow> v \<noteq> []"
  by (auto simp: mp_value_def mp_seq_Suc_iff mpHead_def)

lemma skipMP_value: "mp_value v \<Longrightarrow> skipMP (v @ c) = Inr (length v)"
  by (simp add: skipMP_iff)

lemma skipMP_le: "skipMP b = Inr n \<Longrightarrow> n \<le> length b"
  by (simp add: skipMP_iff)

lemma skipMP_pos: "skipMP b = Inr n \<Longrightarrow> 0 < n"
  by (cases n) (auto simp: skipMP_iff dest: mp_value_nonempty)

text \<open>
  The idiom of the decoders, \<^verbatim>\<open>n, err := skipMP(b[off:])\<close> and then the raw value \<^verbatim>\<open>b[off:off+n]\<close>,
  as a decoder of raw values. It is a prefix decoder, and a codec for well-formed values.
\<close>

definition skipMP_raw :: "bytes \<Rightarrow> error + (bytes \<times> nat)" where
  "skipMP_raw b = map_sum id (\<lambda>n. (take n b, n)) (skipMP b)"

interpretation mpskip: prefix_decoder skipMP_raw
proof
  fix b x n c assume "skipMP_raw b = Inr (x, n)"
  then have h: "skipMP b = Inr n" and x: "x = take n b"
    by (auto simp: skipMP_raw_def map_sum_def split: sum.splits)
  show "0 < n" and "n \<le> length b" using h skipMP_pos skipMP_le by blast+
  from h have "skipMP (take n b @ c) = Inr n" by (simp add: skipMP_iff)
  then show "skipMP_raw (take n b @ c) = Inr (x, n)"
    using \<open>n \<le> length b\<close> x by (simp add: skipMP_raw_def)
qed

interpretation mpskip_codec: codec "\<lambda>v. v" skipMP_raw mp_value
  by unfold_locales (simp add: skipMP_raw_def skipMP_value)

lemma mp_value_scalar: "mpHead h = Inr (length h, 0) \<Longrightarrow> mp_value h"
  using mp_seq_Suc [of h 0 "[]" 0 "[]"] by (simp add: mp_value_def mp_seq_0)

lemma appendMPUint_value [simp]: "mp_value (appendMPUint [] n)"
  by (rule mp_value_scalar)
    (simp add: appendMPUint_def mpHead_def mpHead_tag_def mpHead_fixed_def ucast_fits)

lemma fixstr_read:
  "n \<le> 31 \<Longrightarrow> 0xa0 \<le> (0xa0 OR of_nat n :: byte) \<and> (0xa0 OR of_nat n :: byte) \<le> 0xbf
     \<and> unat ((0xa0 OR of_nat n :: byte) AND 0x1f) = n \<and> \<not> (0xa0 OR of_nat n :: byte) \<le> 0x7f
     \<and> \<not> 0xe0 \<le> (0xa0 OR of_nat n :: byte)"
proof -
  have "\<forall>m\<in>set [0..<32]. 0xa0 \<le> (0xa0 OR of_nat m :: byte) \<and> (0xa0 OR of_nat m :: byte) \<le> 0xbf
     \<and> unat ((0xa0 OR of_nat m :: byte) AND 0x1f) = m \<and> \<not> (0xa0 OR of_nat m :: byte) \<le> 0x7f
     \<and> \<not> 0xe0 \<le> (0xa0 OR of_nat m :: byte)"
    by code_simp
  moreover assume "n \<le> 31"
  ultimately show ?thesis by simp
qed

lemma appendMPStrHeader_value:
  assumes "length s < 2 ^ 32"
  shows "mp_value (appendMPStrHeader [] (length s) @ s)"
proof (rule mp_value_scalar)
  consider "length s \<le> 31" | "31 < length s" "length s \<le> 0xff" | "0xff < length s" "length s \<le> 0xffff"
    | "0xffff < length s" by linarith
  then show "mpHead (appendMPStrHeader [] (length s) @ s)
      = Inr (length (appendMPStrHeader [] (length s) @ s), 0)"
    by cases (use assms fixstr_read [of "length s"] in
        \<open>simp_all add: appendMPStrHeader_def mpHead_def mpHead_tag_def mpHead_payload_def
          unat_of_nat_small Let_def\<close>)
qed

text \<open>The readers fail with the sentinels of \<^verbatim>\<open>mp.go\<close> only; they never panic.\<close>

lemma mpHead_errors: "mpHead b = Inl e \<Longrightarrow> b \<noteq> [] \<Longrightarrow> set e \<subseteq> range Mp"
  by (auto simp: mpHead_defs split: list.splits if_splits)

lemma skipMP_loop_errors: "skipMP_loop b st off = Inl e \<Longrightarrow> set e \<subseteq> range Mp"
proof (induction b st off rule: skipMP_loop.induct)
  case (1 b st off)
  show ?case
  proof (cases "st = [] \<or> off \<ge> length b")
    case True
    then show ?thesis using "1.prems" by (auto simp: skipMP_loop.simps [of b st off] split: if_splits)
  next
    case False
    show ?thesis
    proof (cases "mpHead (drop off b)")
      case (Inl e')
      then show ?thesis
        using "1.prems" False mpHead_errors [OF Inl] by (simp add: skipMP_loop.simps [of b st off])
    next
      case (Inr p)
      obtain n k where p: "p = (n, k)" by (cases p)
      have "skipMP_loop b (skip_stack st k) (off + n) = Inl e"
        using "1.prems" False Inr p by (simp add: skipMP_loop.simps [of b st off])
      with "1.IH" [OF _ _ Inr p [symmetric]] False p show ?thesis by simp
    qed
  qed
qed

lemma skipMP_errors: "skipMP b = Inl e \<Longrightarrow> set e \<subseteq> range Mp"
  by (auto simp: skipMP_def split: if_splits dest: skipMP_loop_errors)

lemma readMP_errors:
  "readMPUint b = Inl e \<Longrightarrow> set e \<subseteq> range Mp" "readMPMapLen b = Inl e \<Longrightarrow> set e \<subseteq> range Mp"
  "readMPArrayLen b = Inl e \<Longrightarrow> set e \<subseteq> range Mp" "readMPBin b = Inl e \<Longrightarrow> set e \<subseteq> range Mp"
  "readMPDouble b = Inl e \<Longrightarrow> set e \<subseteq> range Mp"
  by (auto simp: readMPUint_def readMPMapLen_def readMPArrayLen_def readMPBin_def readMPDouble_def
      split: list.splits if_splits sum.splits prod.splits)

text \<open>\<open>appendMPUint\<close> writes the shortest encoding \<open>readMPUint\<close> accepts.\<close>

lemma ucast_le_max: 
  "ucast (x :: byte) \<le> (0xff :: uint64)" "ucast (y :: uint16) \<le> (0xffff :: uint64)"
  "ucast (z :: uint32) \<le> (0xffffffff :: uint64)" "x \<le> 0x7f \<Longrightarrow> ucast x \<le> (0x7f :: uint64)"
proof -
  have "unat x < 2 ^ 8" "unat y < 2 ^ 16" "unat z < 2 ^ 32"
    using unsigned_less [of x] unsigned_less [of y] unsigned_less [of z] by simp_all
  then show "ucast x \<le> (0xff :: uint64)" "ucast y \<le> (0xffff :: uint64)"
    "ucast z \<le> (0xffffffff :: uint64)" "x \<le> 0x7f \<Longrightarrow> ucast x \<le> (0x7f :: uint64)"
    by (simp_all add: word_le_nat_alt unat_ucast_small)
qed

lemma appendMPUint_minimal:
  assumes "readMPUint b = Inr (v, n)"
  shows "length (appendMPUint [] v) \<le> n"
proof -
  have "(n = 1 \<and> v \<le> 0x7f) \<or> (n = 2 \<and> v \<le> 0xff) \<or> (n = 3 \<and> v \<le> 0xffff)
      \<or> (n = 5 \<and> v \<le> 0xffffffff) \<or> n = 9"
    using assms by (auto simp: readMPUint_def ucast_le_max split: list.splits if_splits)
  then show ?thesis by (auto simp: appendMPUint_def)
qed

section \<open>Properties\<close>


text \<open>
  an unsigned integer is read back from its encoding, whatever follows, with exactly the bytes
  of the encoding consumed, and no encoding that \<open>readMPUint\<close> accepts for a value is shorter than the
  one \<open>appendMPUint\<close> writes.
\<close>

theorem mp_uint_roundtrip:
  "readMPUint (appendMPUint [] v @ c) = Inr (v, length (appendMPUint [] v))
   \<and> \<not> (readMPUint b = Inr (v, n) \<and> n < length (appendMPUint [] v))"
  using mpuint_codec.dec_enc [of v c] appendMPUint_minimal [of b v n] by auto

end
