(* ===== verification/VClock.thy ===== *)
theory VClock
  imports GoStrings Msgpack
begin

unbundle bit_operations_syntax

text \<open>
  Vector clocks: the map \<^verbatim>\<open>format.VClock\<close> (\<^verbatim>\<open>format/vclock.go\<close>) with its order, signature and text
  form. A Go map is the list of its entries in the order an iteration visits them, which Go leaves
  open: the lemmas show that no result depends on it. \<open>None\<close> is the nil map.
\<close>

section \<open>The map\<close>

type_synonym VClock = "(uint32 \<times> int64) list option"

definition ventries :: "VClock \<Rightarrow> (uint32 \<times> int64) list" where
  "ventries v = (case v of None \<Rightarrow> [] | Some es \<Rightarrow> es)"

lemma ventries_simps [simp]: "ventries None = []" "ventries (Some es) = es"
  by (simp_all add: ventries_def)

definition vids :: "VClock \<Rightarrow> uint32 list" where
  "vids v = map fst (ventries v)"

text \<open>\<^verbatim>\<open>v[rid]\<close>, with the zero value for a missing key, and \<^verbatim>\<open>v[rid] = lsn\<close>, which panics on nil.\<close>

definition vget :: "VClock \<Rightarrow> uint32 \<Rightarrow> int64" where
  "vget v rid = (case map_of (ventries v) rid of None \<Rightarrow> 0 | Some lsn \<Rightarrow> lsn)"

fun entries_set :: "('k \<times> 'v) list \<Rightarrow> 'k \<Rightarrow> 'v \<Rightarrow> ('k \<times> 'v) list" where
  "entries_set [] rid lsn = [(rid, lsn)]"
| "entries_set ((k, x) # es) rid lsn = (if k = rid then (k, lsn) # es else (k, x) # entries_set es rid lsn)"

lemma map_of_entries_set: "map_of (entries_set es k x) = (map_of es)(k \<mapsto> x)"
  by (induction es k x rule: entries_set.induct) (auto simp: fun_eq_iff)

lemma set_entries_set: "fst ` set (entries_set es k x) = insert k (fst ` set es)"
  by (induction es k x rule: entries_set.induct) auto

lemma distinct_entries_set: "distinct (map fst es) \<Longrightarrow> distinct (map fst (entries_set es k x))"
proof (induction es k x rule: entries_set.induct)
  case (2 j y es k x)
  then show ?case using set_entries_set [of es k x] by (auto simp flip: set_map)
qed simp

definition vset :: "VClock \<Rightarrow> uint32 \<Rightarrow> int64 \<Rightarrow> error + VClock" where
  "vset v rid lsn = (case v of None \<Rightarrow> Inl [Go Panic] | Some es \<Rightarrow> Inr (Some (entries_set es rid lsn)))"

definition vclock_wf :: "VClock \<Rightarrow> bool" where
  "vclock_wf v \<longleftrightarrow> distinct (vids v)"

text \<open>Two maps are the same when they hold the same entries, in whatever order.\<close>

definition vclock_same :: "VClock \<Rightarrow> VClock \<Rightarrow> bool" where
  "vclock_same v o' \<longleftrightarrow> map_of (ventries v) = map_of (ventries o')"

definition Signature :: "VClock \<Rightarrow> int64" where
  "Signature v = foldl (\<lambda>sum (rid, lsn). sum + lsn) 0 (ventries v)"

definition VClock_Clone :: "VClock \<Rightarrow> VClock" where
  "VClock_Clone v = (case v of None \<Rightarrow> None | Some es \<Rightarrow> Some es)"

fun compare_loop :: "VClock \<Rightarrow> VClock \<Rightarrow> uint32 list \<Rightarrow> bool \<Rightarrow> bool \<Rightarrow> int \<times> bool" where
  "compare_loop v o' [] sawLT sawGT =
     (if sawLT then (- 1, True) else if sawGT then (1, True) else (0, True))"
| "compare_loop v o' (rid # seen) sawLT sawGT =
     (let a = vget v rid; b = vget o' rid;
          sawLT = (if sint a < sint b then True else sawLT);
          sawGT = (if \<not> sint a < sint b \<and> sint a > sint b then True else sawGT)
      in if sawLT \<and> sawGT then (0, False) else compare_loop v o' seen sawLT sawGT)"

definition Compare :: "VClock \<Rightarrow> VClock \<Rightarrow> int \<times> bool" where
  "Compare v o' = compare_loop v o' (remdups (vids v @ vids o')) False False"

fun vclock_entries_str :: "VClock \<Rightarrow> nat \<Rightarrow> uint32 list \<Rightarrow> string" where
  "vclock_entries_str v i [] = []"
| "vclock_entries_str v i (rid # rids) =
     (if i > 0 then '', '' else []) @ FormatUint (ucast rid) @ '': '' @ FormatInt (vget v rid)
       @ vclock_entries_str v (Suc i) rids"

definition VClock_String :: "VClock \<Rightarrow> string" where
  "VClock_String v =
     (if length (ventries v) = 0 then ''{}''
      else ''{'' @ vclock_entries_str v 0 (sort (vids v)) @ ''}'')"

text \<open>The loop over the comma-separated parts.\<close>

fun parse_entries :: "string list \<Rightarrow> (uint32 \<times> int64) list \<Rightarrow> error + (uint32 \<times> int64) list" where
  "parse_entries [] out = Inr out"
| "parse_entries (p # parts) out =
     (case Cut (TrimSpace p) (CHR '':'') of
        None \<Rightarrow> Inl [MetaE ErrVClockColon]
      | Some (before, after) \<Rightarrow>
          (case ParseUint (TrimSpace before) 32 of Inl e \<Rightarrow> Inl e
           | Inr rid \<Rightarrow>
               (case ParseInt64 (TrimSpace after) of Inl e \<Rightarrow> Inl e
                | Inr lsn \<Rightarrow>
                    if map_of out (of_nat rid) \<noteq> None then Inl [MetaE ErrVClockDupID]
                    else parse_entries parts (out @ [(of_nat rid, lsn)]))))"

definition ParseVClock :: "string \<Rightarrow> error + VClock" where
  "ParseVClock s0 =
     (let s = TrimSpace s0 in
      if \<not> is_prefix ''{'' s \<or> \<not> is_prefix ''}'' (rev s) then Inl [MetaE ErrVClockBraces]
      else (let body = TrimSpace (subslice s 1 (length s - 1))
            in if body = [] then Inr (Some [])
               else (case parse_entries (Split body (CHR '','')) [] of
                       Inl e \<Rightarrow> Inl e | Inr out \<Rightarrow> Inr (Some out))))"

section \<open>The order\<close>

text \<open>
  The contract of a comparison of clocks: \<open>cmp\<close> decides the product order of the components \<open>get\<close>
  reads, as signed integers.
\<close>

locale clock_order =
  fixes get :: "'v \<Rightarrow> uint32 \<Rightarrow> int64"
    and cmp :: "'v \<Rightarrow> 'v \<Rightarrow> int \<times> bool"
  assumes cmp_spec: "cmp v w =
    (if \<forall>rid. get v rid = get w rid then (0, True)
     else if \<forall>rid. sint (get v rid) \<le> sint (get w rid) then (- 1, True)
     else if \<forall>rid. sint (get w rid) \<le> sint (get v rid) then (1, True)
     else (0, False))"
begin

definition cle :: "'v \<Rightarrow> 'v \<Rightarrow> bool" where
  "cle v w \<longleftrightarrow> (\<forall>rid. sint (get v rid) \<le> sint (get w rid))"

lemma cle_refl: "cle v v"
  by (simp add: cle_def)

lemma cle_trans: "cle u v \<Longrightarrow> cle v w \<Longrightarrow> cle u w"
  by (meson cle_def order_trans)

lemma cle_antisym: "cle v w \<Longrightarrow> cle w v \<Longrightarrow> get v = get w"
  by (rule ext) (metis cle_def antisym signed_word_eqI)

lemma cmp_cle: "cmp v w = (if get v = get w then (0, True) else if cle v w then (- 1, True)
    else if cle w v then (1, True) else (0, False))"
  by (simp only: cmp_spec cle_def fun_eq_iff)

lemma cmp_less: "cmp v w = (- 1, True) \<longleftrightarrow> cle v w \<and> get v \<noteq> get w"
  by (simp add: cmp_cle)

lemma cmp_equal: "cmp v w = (0, True) \<longleftrightarrow> get v = get w"
  by (simp add: cmp_cle)

lemma cmp_greater: "cmp v w = (1, True) \<longleftrightarrow> cle w v \<and> get v \<noteq> get w"
  using cle_antisym [of v w] by (auto simp: cmp_cle)

lemma cle_get: "get v = get w \<Longrightarrow> cle v w"
  by (simp add: cle_def)

lemma cmp_incomparable: "snd (cmp v w) = False \<longleftrightarrow> \<not> cle v w \<and> \<not> cle w v"
  using cle_get [of v w] by (auto simp: cmp_cle)

lemma cmp_flip: "cmp w v = (- fst (cmp v w), snd (cmp v w))"
proof (cases "get v = get w")
  case False
  then have "get w \<noteq> get v" by simp
  with False cle_antisym [of v w] show ?thesis
    by (cases "cle v w"; cases "cle w v") (simp_all add: cmp_cle)
qed (simp add: cmp_cle)

lemma cmp_trans: "cmp u v = (- 1, True) \<Longrightarrow> cmp v w = (- 1, True) \<Longrightarrow> cmp u w = (- 1, True)"
proof -
  assume "cmp u v = (- 1, True)" "cmp v w = (- 1, True)"
  then have uv: "cle u v" "get u \<noteq> get v" and vw: "cle v w" unfolding cmp_less by blast+
  have "get u \<noteq> get w"
  proof
    assume "get u = get w"
    then have "cle v u" using cle_trans [OF vw] cle_get [of w u] by simp
    with uv cle_antisym show False by blast
  qed
  with cle_trans [OF uv(1) vw] show ?thesis by (simp only: cmp_less simp_thms)
qed

end

lemma entries_set_fresh: "r \<notin> fst ` set es \<Longrightarrow> entries_set es r lsn = es @ [(r, lsn)]"
  by (induction es) auto

lemma compare_loop_spec:
  assumes "\<not> (lt \<and> gt)"
  shows "compare_loop v w rids lt gt =
    (let l = lt \<or> (\<exists>rid\<in>set rids. sint (vget v rid) < sint (vget w rid));
         g = gt \<or> (\<exists>rid\<in>set rids. sint (vget v rid) > sint (vget w rid))
     in if l \<and> g then (0, False) else if l then (- 1, True) else if g then (1, True) else (0, True))"
  using assms
proof (induction rids arbitrary: lt gt)
  case (Cons rid rids)
  consider "sint (vget v rid) < sint (vget w rid)" | "sint (vget v rid) > sint (vget w rid)"
    | "sint (vget v rid) = sint (vget w rid)" by linarith
  then show ?case
    by cases (use Cons in \<open>auto simp: Let_def\<close>)
qed (simp add: Let_def)

lemma vget_missing: "rid \<notin> set (vids v) \<Longrightarrow> vget v rid = 0"
  by (simp add: vget_def vids_def flip: map_of_eq_None_iff)

text \<open>The order in which the union of the keys is visited does not matter.\<close>

lemma compare_loop_order:
  "set rids = set rids' \<Longrightarrow> compare_loop v w rids False False = compare_loop v w rids' False False"
  by (simp add: compare_loop_spec)

interpretation vclock: clock_order vget Compare
proof
  fix v w
  let ?l = "\<exists>rid. sint (vget v rid) < sint (vget w rid)" and ?g = "\<exists>rid. sint (vget v rid) > sint (vget w rid)"
  have "(\<exists>rid\<in>set (remdups (vids v @ vids w)). P (sint (vget v rid)) (sint (vget w rid)))
      \<longleftrightarrow> (\<exists>rid. P (sint (vget v rid)) (sint (vget w rid)))" if "\<not> P 0 0" for P :: "int \<Rightarrow> int \<Rightarrow> bool"
  proof -
    have "rid \<in> set (vids v) \<union> set (vids w)" if "P (sint (vget v rid)) (sint (vget w rid))" for rid
      using that \<open>\<not> P 0 0\<close> vget_missing [of rid v] vget_missing [of rid w] by fastforce
    then show ?thesis by auto
  qed
  from this [of "(<)"] this [of "(>)"]
  have "Compare v w = (if ?l \<and> ?g then (0, False) else if ?l then (- 1, True) else if ?g then (1, True) else (0, True))"
    by (simp add: Compare_def compare_loop_spec)
  moreover have "(\<forall>rid. vget v rid = vget w rid) \<longleftrightarrow> \<not> ?l \<and> \<not> ?g"
    by (metis less_irrefl linorder_neqE signed_word_eqI)
  ultimately show "Compare v w = (if \<forall>rid. vget v rid = vget w rid then (0, True)
     else if \<forall>rid. sint (vget v rid) \<le> sint (vget w rid) then (- 1, True)
     else if \<forall>rid. sint (vget w rid) \<le> sint (vget v rid) then (1, True) else (0, False))"
    by (simp only: not_less [symmetric]) auto
qed

lemma Signature_sum: "Signature v = sum_list (map snd (ventries v))"
proof -
  have "foldl (\<lambda>sum (rid, lsn). sum + lsn) (a :: int64) es = a + sum_list (map snd es)"
    for a :: int64 and es :: "(uint32 \<times> int64) list"
    by (induction es arbitrary: a) (auto simp: add.assoc)
  then show ?thesis by (simp add: Signature_def)
qed

text \<open>The signature of a map is the sum over its keys: it does not depend on the iteration order.\<close>

lemma Signature_keys:
  assumes "vclock_wf v"
  shows "Signature v = (\<Sum>rid\<in>set (vids v). vget v rid)"
proof -
  have "distinct (map fst es) \<Longrightarrow> sum_list (map snd es)
      = (\<Sum>rid\<in>fst ` set es. case map_of es rid of None \<Rightarrow> 0 | Some lsn \<Rightarrow> lsn)"
    for es :: "(uint32 \<times> int64) list"
  proof (induction es)
    case (Cons e es)
    have "(\<Sum>rid\<in>fst ` set es. case map_of (e # es) rid of None \<Rightarrow> 0 | Some lsn \<Rightarrow> lsn)
        = (\<Sum>rid\<in>fst ` set es. case map_of es rid of None \<Rightarrow> 0 | Some lsn \<Rightarrow> lsn)"
      using Cons.prems by (intro sum.cong refl) (cases e; auto simp: image_iff)
    with Cons show ?case by simp
  qed simp
  then show ?thesis using assms by (simp add: Signature_sum vclock_wf_def vids_def vget_def)
qed

lemma vclock_same_ids: "vclock_same v w \<Longrightarrow> set (vids v) = set (vids w)"
  by (simp add: vclock_same_def vids_def) (metis dom_map_of_conv_image_fst)

lemma vclock_same_get: "vclock_same v w \<Longrightarrow> vget v = vget w"
  by (rule ext) (simp add: vclock_same_def vget_def)

lemma Signature_same: "vclock_wf v \<Longrightarrow> vclock_wf w \<Longrightarrow> vclock_same v w \<Longrightarrow> Signature v = Signature w"
  by (simp add: Signature_keys vclock_same_ids vclock_same_get)

lemma Compare_same: "vclock_same v v' \<Longrightarrow> vclock_same w w' \<Longrightarrow> Compare v w = Compare v' w'"
  by (simp only: vclock.cmp_spec vclock_same_get)

section \<open>Printing and parsing back\<close>

definition no_space_ends :: "string \<Rightarrow> bool" where
  "no_space_ends s \<longleftrightarrow> s \<noteq> [] \<and> hd s \<notin> hd ` set space_seqs \<and> last s \<notin> last ` set space_seqs"

lemma space_seqs_nonempty: "p \<in> set space_seqs \<Longrightarrow> p \<noteq> []"
  by (auto simp: space_seqs_def)

lemma strip_id:
  assumes "s \<noteq> []" "hd s \<notin> hd ` set seqs"
  shows "strip seqs s = s"
proof -
  have "\<not> (is_prefix p s \<and> p \<noteq> [])" if "p \<in> set seqs" for p
  proof
    assume p: "is_prefix p s \<and> p \<noteq> []"
    then have "hd p = hd s" by (auto simp: is_prefix_def) (metis hd_take length_greater_0_conv)
    with that assms(2) show False by (metis image_eqI)
  qed
  then have "find (\<lambda>p. is_prefix p s \<and> p \<noteq> []) seqs = None" by (simp add: find_None_iff)
  then show ?thesis by (simp add: strip.simps [of seqs s] strip_one_def)
qed

lemma TrimSpace_id:
  assumes "no_space_ends s"
  shows "TrimSpace s = s"
proof -
  have "hd (rev s) \<notin> hd ` set (map rev space_seqs)"
    using assms by (auto simp: no_space_ends_def hd_rev)
  with assms show ?thesis by (simp add: TrimSpace_def strip_id no_space_ends_def)
qed

lemma strip_space: "strip space_seqs (CHR '' '' # s) = strip space_seqs s"
proof -
  have "strip_one space_seqs (CHR '' '' # s) = Some s"
    by (simp add: strip_one_def space_seqs_def is_prefix_def)
  then show ?thesis by (simp add: strip.simps [of space_seqs "CHR '' '' # s"])
qed

lemma TrimSpace_space: "no_space_ends s \<Longrightarrow> TrimSpace (CHR '' '' # s) = s"
  using TrimSpace_id [of s] by (simp add: TrimSpace_def strip_space)

lemma TrimSpace_Nil [simp]: "TrimSpace [] = []"
proof -
  have "strip seqs [] = []" for seqs
    using strip_one_shorter [of seqs "[]"] by (cases "strip_one seqs []") (simp_all add: strip.simps [of seqs "[]"])
  then show ?thesis by (simp add: TrimSpace_def)
qed

definition text_chars :: "char set" where
  "text_chars = digit_char ` {..<10} \<union> {CHR ''-'', CHR ''{'', CHR ''}''}"

lemma digit_chars_list: "digit_char ` {..<10} = set ''0123456789''"
proof -
  have "map digit_char [0..<10] = ''0123456789''" by code_simp
  from arg_cong [OF this, of set] show ?thesis by (simp only: set_map set_upt atLeast0LessThan)
qed

lemma text_chars_list: "text_chars = set ''0123456789-{}''"
  unfolding text_chars_def digit_chars_list by auto

lemma text_chars_no_space: "c \<in> text_chars \<Longrightarrow> c \<notin> hd ` set space_seqs \<and> c \<notin> last ` set space_seqs"
proof -
  have "list_all (\<lambda>c. c \<notin> set (map hd space_seqs) \<and> c \<notin> set (map last space_seqs)) ''0123456789-{}''"
    by code_simp
  then show "c \<in> text_chars \<Longrightarrow> c \<notin> hd ` set space_seqs \<and> c \<notin> last ` set space_seqs"
    unfolding text_chars_list list_all_iff set_map by blast
qed

lemma no_space_text: "s \<noteq> [] \<Longrightarrow> hd s \<in> text_chars \<Longrightarrow> last s \<in> text_chars \<Longrightarrow> no_space_ends s"
  using text_chars_no_space by (simp add: no_space_ends_def)

lemma text_FormatUint: "FormatUint n \<noteq> []" "set (FormatUint n) \<subseteq> digit_char ` {..<10}"
  using set_format_digits [of "unat n" "[]"] by (simp_all add: FormatUint_def)

lemma text_FormatInt: "FormatInt n \<noteq> []" "set (FormatInt n) \<subseteq> insert (CHR ''-'') (digit_char ` {..<10})"
  using set_format_digits [of "nat (- sint n)" "[]"] set_format_digits [of "nat (sint n)" "[]"]
  by (auto simp: FormatInt_def)

lemma number_no_space: "no_space_ends (FormatUint n)" "no_space_ends (FormatInt m)"
proof -
  have *: "no_space_ends s" if "s \<noteq> []" "set s \<subseteq> text_chars" for s
    using that hd_in_set last_in_set by (intro no_space_text) blast+
  have sub: "insert (CHR ''-'') (digit_char ` {..<10}) \<subseteq> text_chars" by (auto simp: text_chars_def)
  show "no_space_ends (FormatUint n)" "no_space_ends (FormatInt m)"
    using text_FormatUint [of n] text_FormatInt [of m] sub by (blast intro: *)+
qed

lemma Split_none: "sep \<notin> set w \<Longrightarrow> Split w sep = [w]"
  by (induction w) auto

lemma Split_sep: "sep \<notin> set w \<Longrightarrow> Split (w @ sep # s) sep = w # Split s sep"
  by (induction w) auto

lemma Cut_sep: "sep \<notin> set w \<Longrightarrow> Cut (w @ sep # s) sep = Some (w, s)"
proof -
  assume "sep \<notin> set w"
  then have "\<forall>x\<in>set w. x \<noteq> sep" by blast
  then show ?thesis by (simp add: Cut_def dropWhile_append2 takeWhile_append2)
qed

definition entry_str :: "VClock \<Rightarrow> uint32 \<Rightarrow> string" where
  "entry_str v rid = FormatUint (ucast rid) @ '': '' @ FormatInt (vget v rid)"

lemma text_no_sep: "CHR '':'' \<notin> set (FormatUint n)" "CHR '','' \<notin> set (entry_str v rid)"
proof -
  have d: "digit_char ` {..<10} = set ''0123456789''"
    using digit_chars_list by simp
  show "CHR '':'' \<notin> set (FormatUint n)" using text_FormatUint(2) [of n] unfolding d by auto
  show "CHR '','' \<notin> set (entry_str v rid)"
    using text_FormatUint(2) [of "ucast rid"] text_FormatInt(2) [of "vget v rid"] unfolding d entry_str_def by auto
qed

lemma entry_str_ends: "no_space_ends (entry_str v rid)"
  using number_no_space(1) [of "ucast rid"] number_no_space(2) [of "vget v rid"]
  by (simp add: no_space_ends_def entry_str_def)

lemma unat_uint32: "unat (r :: uint32) < 2 ^ 32"
proof -
  have "unat r < 2 ^ LENGTH(32)" by (rule unsigned_less)
  then show ?thesis by simp
qed

lemma unat_ucast32: "unat (ucast (r :: uint32) :: uint64) = unat r"
  using unat_uint32 [of r] by (intro unat_ucast_small) simp

lemma parse_entry:
  assumes "TrimSpace p = entry_str v rid"
  shows "parse_entries (p # parts) out = (if map_of out rid \<noteq> None then Inl [MetaE ErrVClockDupID]
    else parse_entries parts (out @ [(rid, vget v rid)]))"
proof -
  have cut: "Cut (entry_str v rid) (CHR '':'') = Some (FormatUint (ucast rid), CHR '' '' # FormatInt (vget v rid))"
    using Cut_sep [OF text_no_sep(1)] by (simp add: entry_str_def)
  have "ParseUint (TrimSpace (FormatUint (ucast rid))) 32 = Inr (unat rid)"
    using ParseUint_FormatUint [of "ucast rid" 32] unat_uint32 [of rid]
    by (simp add: TrimSpace_id number_no_space unat_ucast32)
  moreover have "ParseInt64 (TrimSpace (CHR '' '' # FormatInt (vget v rid))) = Inr (vget v rid)"
    by (simp add: TrimSpace_space number_no_space ParseInt64_FormatInt)
  ultimately show ?thesis using assms cut by simp
qed

lemma parse_entries_printed:
  assumes "distinct (map fst out @ rids)"
  shows "parse_entries (Split (vclock_entries_str v 0 (rid # rids)) (CHR '','')) out
      = parse_entries (map (entry_str v) [rid] @ map (\<lambda>r. CHR '' '' # entry_str v r) rids) out"
proof -
  have "Split (w @ vclock_entries_str v (Suc i) rids) (CHR '','') = w # map (\<lambda>r. CHR '' '' # entry_str v r) rids"
    if "CHR '','' \<notin> set w" for w i
    using that
  proof (induction rids arbitrary: w i)
    case (Cons r rids)
    have "CHR '','' \<notin> set (CHR '' '' # entry_str v r)" using text_no_sep(2) by simp
    from Cons.IH [OF this, of "Suc i"] Split_sep [OF Cons.prems] show ?case
      by (simp add: entry_str_def)
  qed (simp add: Split_none)
  from this [OF text_no_sep(2) [of v rid], of 0] show ?thesis by (simp add: entry_str_def)
qed

lemma parse_entries_strs:
  "distinct (map fst out @ rids) \<Longrightarrow> parse_entries (map (\<lambda>r. CHR '' '' # entry_str v r) rids) out
      = Inr (out @ map (\<lambda>r. (r, vget v r)) rids)"
proof (induction rids arbitrary: out)
  case (Cons r rids)
  have "map_of out r = None" using Cons.prems by (auto simp: map_of_eq_None_iff)
  with Cons show ?case
    by (simp add: parse_entry [OF TrimSpace_space [OF entry_str_ends]] del: parse_entries.simps)
qed simp

lemma vclock_entries_ends:
  assumes "rids \<noteq> []"
  shows "no_space_ends (vclock_entries_str v 0 rids)"
proof -
  obtain r rs where r: "rids = r # rs" using assms by (cases rids) auto
  have "last (entry_str v r @ vclock_entries_str v (Suc i) rs) \<notin> last ` set space_seqs" for i
  proof (induction rs arbitrary: i r)
    case (Cons a rs)
    from Cons [of a "Suc i"] show ?case by (simp add: entry_str_def)
  qed (use entry_str_ends in \<open>simp add: no_space_ends_def\<close>)
  from this [of 0] entry_str_ends [of v r] show ?thesis
    by (simp add: r entry_str_def no_space_ends_def hd_append text_FormatUint text_FormatInt)
qed

lemma ParseVClock_String:
  assumes "vclock_wf v"
  shows "ParseVClock (VClock_String v) = Inr (Some (map (\<lambda>r. (r, vget v r)) (sort (vids v))))"
proof (cases "ventries v = []")
  case True
  have "no_space_ends ''{}''" by (rule no_space_text) (simp_all add: text_chars_def)
  with True show ?thesis
    by (simp add: VClock_String_def ParseVClock_def TrimSpace_id is_prefix_def vids_def subslice_def Let_def)
next
  case False
  let ?ids = "sort (vids v)" and ?body = "vclock_entries_str v 0 (sort (vids v))"
  have ne: "?ids \<noteq> []" using False by (metis Nil_is_map_conv length_0_conv length_sort vids_def)
  then obtain r rs where r: "?ids = r # rs" by (cases ?ids) auto
  have s: "VClock_String v = ''{'' @ ?body @ ''}''" using False by (simp add: VClock_String_def)
  have "no_space_ends (''{'' @ ?body @ ''}'')" by (rule no_space_text) (simp_all add: text_chars_def)
  then have trim: "TrimSpace (VClock_String v) = ''{'' @ ?body @ ''}''" by (simp only: s TrimSpace_id)
  have body: "TrimSpace ?body = ?body" "?body \<noteq> []"
    using vclock_entries_ends [OF ne, of v] by (simp_all add: TrimSpace_id no_space_ends_def)
  have d: "distinct ?ids" using assms by (simp add: vclock_wf_def)
  have "parse_entries (Split ?body (CHR '','')) [] = Inr (map (\<lambda>r. (r, vget v r)) ?ids)"
    using parse_entries_printed [of "[]" rs v r] parse_entries_strs [of "[(r, vget v r)]" rs v] d
    by (simp add: r parse_entry [OF TrimSpace_id [OF entry_str_ends]] del: parse_entries.simps)
  then show ?thesis
    by (simp add: ParseVClock_def trim is_prefix_def subslice_def body Let_def)
qed

section \<open>Properties\<close>

text \<open>
  \<open>Compare\<close> decides the component-wise order of vector clocks, with missing replicas read as 0:
  it reports equal, less, greater or incomparable exactly when the components say so, swapping the
  arguments flips the sign, and less is transitive.
\<close>

theorem vclock_compare_order:
  "(Compare v w = (- 1, True) \<longleftrightarrow> (\<forall>rid. sint (vget v rid) \<le> sint (vget w rid)) \<and> vget v \<noteq> vget w)
   \<and> (Compare v w = (0, True) \<longleftrightarrow> vget v = vget w)
   \<and> (snd (Compare v w) \<longleftrightarrow> (\<forall>rid. sint (vget v rid) \<le> sint (vget w rid)) \<or> (\<forall>rid. sint (vget w rid) \<le> sint (vget v rid)))
   \<and> Compare w v = (- fst (Compare v w), snd (Compare v w))
   \<and> \<not> (Compare u v = (- 1, True) \<and> Compare v w = (- 1, True) \<and> Compare u w \<noteq> (- 1, True))"
  using vclock.cmp_less [of v w] vclock.cmp_equal [of v w] vclock.cmp_incomparable [of v w]
    vclock.cmp_flip [of w v] vclock.cmp_trans [of u v w]
  unfolding vclock.cle_def by blast

text \<open>
  the text form of a vector clock parses back to the same clock, with its entries by ascending
  replica id.
\<close>

theorem vclock_string_roundtrip:
  assumes "vclock_wf v"
  shows "\<exists>w. ParseVClock (VClock_String v) = Inr w \<and> w \<noteq> None \<and> vclock_same w v
    \<and> sorted (vids w) \<and> Signature w = Signature v"
proof -
  let ?w = "Some (map (\<lambda>r. (r, vget v r)) (sort (vids v)))"
  have w: "vids ?w = sort (vids v)" by (simp add: vids_def comp_def)
  have "map_of (ventries ?w) r = map_of (ventries v) r" for r
  proof (cases "map_of (ventries v) r")
    case None
    then have "r \<notin> fst ` set (ventries v)" by (simp add: map_of_eq_None_iff)
    with None show ?thesis by (simp add: map_of_map_restrict restrict_map_def vids_def)
  next
    case (Some x)
    then have "r \<in> fst ` set (ventries v)" by (metis map_of_eq_None_iff option.distinct(1))
    with Some show ?thesis by (simp add: map_of_map_restrict restrict_map_def vids_def vget_def)
  qed
  then have same: "vclock_same ?w v" by (auto simp: vclock_same_def)
  have "vclock_wf ?w" using assms by (simp add: vclock_wf_def w)
  with same have "Signature ?w = Signature v" using assms Signature_same by blast
  with same ParseVClock_String [OF assms] w show ?thesis by auto
qed

theorem vclock_string_roundtrip_witness:
  "\<exists>w. ParseVClock (VClock_String (Some [(2, 7), (1, -3)])) = Inr w \<and> w \<noteq> None
    \<and> vclock_same w (Some [(2, 7), (1, -3)]) \<and> sorted (vids w) \<and> Signature w = Signature (Some [(2, 7), (1, -3)])"
  by (rule vclock_string_roundtrip) (simp add: vclock_wf_def vids_def)

end
