(* ===== verification/VClockArray.thy ===== *)
theory VClockArray
  imports VClock
begin

unbundle bit_operations_syntax

text \<open>
  The dense vector clock \<^verbatim>\<open>VClockArray\<close> of \<^verbatim>\<open>format/vclock_array.go\<close>, the hot-path counterpart of the
  map: an array of 32 LSNs with a bitmap of the ids that are set, walked by clearing the lowest
  bit. It refines the map: every operation gives what the map operation gives.
\<close>

section \<open>Operations\<close>

definition VClockMax :: nat where [simp]: "VClockMax = 32"

record VClockArray =
  va_lsn :: "int64 list"
  va_present :: uint32

definition va_zero :: VClockArray where
  "va_zero = \<lparr>va_lsn = replicate VClockMax 0, va_present = 0\<rparr>"

definition VA_Set :: "VClockArray \<Rightarrow> uint32 \<Rightarrow> int64 \<Rightarrow> error + VClockArray" where
  "VA_Set a rid lsn =
     (if unat rid \<ge> VClockMax then Inl [MetaE ErrVClockReplicaID]
      else Inr \<lparr>va_lsn = (va_lsn a)[unat rid := lsn],
                va_present = va_present a OR push_bit (unat rid) 1\<rparr>)"

fun va_from_loop :: "(uint32 \<times> int64) list \<Rightarrow> VClockArray \<Rightarrow> error + VClockArray" where
  "va_from_loop [] out = Inr out"
| "va_from_loop ((rid, lsn) # es) out =
     (case VA_Set out rid lsn of Inl e \<Rightarrow> Inl e | Inr out' \<Rightarrow> va_from_loop es out')"

definition VClockArrayFrom :: "VClock \<Rightarrow> error + VClockArray" where
  "VClockArrayFrom v = va_from_loop (ventries v) va_zero"

text \<open>\<^verbatim>\<open>math/bits\<close>.\<close>

definition OnesCount32 :: "uint32 \<Rightarrow> nat" where
  "OnesCount32 m = length (filter (bit m) [0..<32])"

definition TrailingZeros32 :: "uint32 \<Rightarrow> nat" where
  "TrailingZeros32 m = (case filter (bit m) [0..<32] of [] \<Rightarrow> 32 | k # _ \<Rightarrow> k)"

text \<open>The rounds of \<^verbatim>\<open>for m := v.present; m != 0; m &= m - 1\<close>: \<open>m\<close> with its lowest set bit.\<close>

lemma clear_lowest_less: "m \<noteq> 0 \<Longrightarrow> unat (m AND (m - 1)) < unat (m :: uint32)"
proof -
  assume "m \<noteq> 0"
  have "unat (m AND (m - 1)) \<le> unat (m - 1)" using word_and_le1 [of m "m - 1"] by (simp add: word_le_nat_alt)
  also have "unat (m - 1) < unat m" using \<open>m \<noteq> 0\<close> by (simp add: unat_minus_one unat_gt_0)
  finally show ?thesis .
qed

function bits_loop :: "uint32 \<Rightarrow> (uint32 \<times> nat) list" where
  "bits_loop m = (if m = 0 then [] else (m, TrailingZeros32 m) # bits_loop (m AND (m - 1)))"
  by pat_completeness auto
termination
  by (relation "measure unat") (auto dest: clear_lowest_less)

declare bits_loop.simps [simp del]

definition VA_VClock :: "VClockArray \<Rightarrow> VClock" where
  "VA_VClock a =
     Some (foldl (\<lambda>out (m, i). entries_set out (of_nat i) (va_lsn a ! i)) [] (bits_loop (va_present a)))"

definition VA_Get :: "VClockArray \<Rightarrow> uint32 \<Rightarrow> int64 \<times> bool" where
  "VA_Get a rid =
     (if unat rid \<ge> VClockMax then (0, False)
      else (va_lsn a ! unat rid, va_present a AND push_bit (unat rid) 1 \<noteq> 0))"

definition VA_Has :: "VClockArray \<Rightarrow> uint32 \<Rightarrow> bool" where
  "VA_Has a rid \<longleftrightarrow> unat rid < VClockMax \<and> va_present a AND push_bit (unat rid) 1 \<noteq> 0"

definition VA_Len :: "VClockArray \<Rightarrow> nat" where
  "VA_Len a = OnesCount32 (va_present a)"

definition VA_IsZero :: "VClockArray \<Rightarrow> bool" where
  "VA_IsZero a \<longleftrightarrow> va_present a = 0"

definition VA_Reset :: "VClockArray \<Rightarrow> VClockArray" where
  "VA_Reset a = a\<lparr>va_lsn := replicate VClockMax 0, va_present := 0\<rparr>"

definition VA_Signature :: "VClockArray \<Rightarrow> int64" where
  "VA_Signature a = foldl (\<lambda>sum i. sum + va_lsn a ! i) 0 [0..<VClockMax]"

definition VA_Compare :: "VClockArray \<Rightarrow> VClockArray \<Rightarrow> int \<times> bool" where
  "VA_Compare a b =
     (let (sawLT, sawGT) = foldl (\<lambda>(lt, gt) i. (lt \<or> sint (va_lsn a ! i) < sint (va_lsn b ! i),
                                               gt \<or> sint (va_lsn a ! i) > sint (va_lsn b ! i)))
                             (False, False) [0..<VClockMax]
      in if sawLT \<and> sawGT then (0, False) else if sawLT then (- 1, True)
         else if sawGT then (1, True) else (0, True))"

definition VA_String :: "VClockArray \<Rightarrow> string" where
  "VA_String a = foldl (\<lambda>buf (m, i). buf @ (if m \<noteq> va_present a then '', '' else [])
       @ FormatInt (of_nat i) @ '': '' @ FormatInt (va_lsn a ! i)) ''{'' (bits_loop (va_present a)) @ ''}''"

fun va_decode_loop :: "bytes \<Rightarrow> nat \<Rightarrow> nat \<Rightarrow> VClockArray \<Rightarrow> (error + nat) \<times> VClockArray" where
  "va_decode_loop b 0 off dst = (Inr off, dst)"
| "va_decode_loop b (Suc entries) off dst =
     (case readMPUint (drop off b) of Inl e \<Rightarrow> (Inl e, VA_Reset dst)
      | Inr (rid, n) \<Rightarrow>
          (case readMPUint (drop (off + n) b) of Inl e \<Rightarrow> (Inl e, VA_Reset dst)
           | Inr (lsn, n2) \<Rightarrow>
               if unat rid \<ge> VClockMax then (Inl [MetaE ErrVClockReplicaID], VA_Reset dst)
               else va_decode_loop b entries (off + n + n2)
                 \<lparr>va_lsn = (va_lsn dst)[unat rid := lsn],
                  va_present = va_present dst OR push_bit (unat rid) 1\<rparr>))"

definition DecodeVClockArrayInto :: "bytes \<Rightarrow> VClockArray \<Rightarrow> (error + nat) \<times> VClockArray" where
  "DecodeVClockArrayInto b dst0 =
     (let dst = VA_Reset dst0 in
      case readMPMapLen b of Inl e \<Rightarrow> (Inl e, dst)
      | Inr (entries, off) \<Rightarrow> va_decode_loop b entries off dst)"

section \<open>The bitmap walk\<close>

lemma bit_clear_lowest:
  fixes m :: uint32
  assumes "bit m k" "\<And>i. i < k \<Longrightarrow> \<not> bit m i"
  shows "bit (m AND (m - 1)) n \<longleftrightarrow> bit m n \<and> n \<noteq> k"
proof -
  let ?m = "m AND NOT (push_bit k 1)"
  have k: "k < 32" using assms(1) bit_imp_le_length by fastforce
  have "m = ?m OR push_bit k 1"
    by (rule bit_word_eqI) (use assms(1) in \<open>auto simp: bit_simps\<close>)
  also have "\<dots> = ?m + push_bit k 1"
    by (rule disjunctive_add_eq_or [symmetric], rule bit_word_eqI) (auto simp: bit_simps)
  finally have "m - 1 = ?m + mask k" by (simp add: mask_eq_exp_minus_1 push_bit_eq_mult)
  also have "\<dots> = ?m OR mask k"
    by (rule disjunctive_add_eq_or, rule bit_word_eqI) (use assms(2) in \<open>auto simp: bit_simps\<close>)
  finally have m1: "m - 1 = ?m OR mask k" .
  show ?thesis
    unfolding m1 using assms(2) by (auto simp: bit_simps dest: bit_imp_le_length)
qed

lemma bits_loop_ids: "map snd (bits_loop m) = filter (bit m) [0..<32]"
proof (induction m rule: bits_loop.induct)
  case (1 m)
  show ?case
  proof (cases "filter (bit m) [0..<32]")
    case Nil
    then have "m = 0" by (intro bit_word_eqI) (auto simp: filter_empty_conv)
    then show ?thesis using Nil by (simp add: bits_loop.simps)
  next
    case (Cons k ks)
    have "distinct (k # ks)" "sorted (k # ks)" using Cons by (metis distinct_filter distinct_upt, metis sorted_filter sorted_upt map_ident)
    have mem: "bit m i \<and> i < 32 \<longleftrightarrow> i \<in> set (k # ks)" for i
      using arg_cong [OF Cons, of set] by auto
    have k: "bit m k" using mem [of k] by simp
    have low: "\<not> bit m i" if "i < k" for i
      using mem [of i] that \<open>sorted (k # ks)\<close> k bit_imp_le_length [of m i] by (auto dest: bit_imp_le_length)
    have "filter (bit (m AND (m - 1))) [0..<32] = filter (\<lambda>i. i \<noteq> k) (filter (bit m) [0..<32])"
    proof -
      have "bit (m AND (m - 1)) = (\<lambda>i. bit m i \<and> i \<noteq> k)" by (rule ext) (rule bit_clear_lowest [OF k low])
      then show ?thesis by simp
    qed
    also have "\<dots> = ks" using \<open>distinct (k # ks)\<close> by (auto simp: Cons filter_id_conv)
    finally have ks: "filter (bit (m AND (m - 1))) [0..<32] = ks" .
    have "m \<noteq> 0" using k by auto
    with 1 ks have "map snd (bits_loop (m AND (m - 1))) = ks" by simp
    with \<open>m \<noteq> 0\<close> show ?thesis using Cons by (simp add: bits_loop.simps [of m] TrailingZeros32_def)
  qed
qed

section \<open>The array refines the map\<close>

definition va_wf :: "VClockArray \<Rightarrow> bool" where
  "va_wf a \<longleftrightarrow> length (va_lsn a) = VClockMax
     \<and> (\<forall>i<VClockMax. \<not> bit (va_present a) i \<longrightarrow> va_lsn a ! i = 0)"

definition va_map :: "VClockArray \<Rightarrow> uint32 \<Rightarrow> int64 option" where
  "va_map a rid = (if unat rid < VClockMax \<and> bit (va_present a) (unat rid)
     then Some (va_lsn a ! unat rid) else None)"

definition va_get :: "VClockArray \<Rightarrow> uint32 \<Rightarrow> int64" where
  "va_get a rid = (if unat rid < VClockMax then va_lsn a ! unat rid else 0)"

lemma va_wf_zero: "va_wf va_zero" "va_map va_zero = Map.empty"
  by (auto simp: va_wf_def va_zero_def va_map_def)

lemma word_and_push: "m AND push_bit n 1 \<noteq> 0 \<longleftrightarrow> bit (m :: uint32) n"
proof
  assume "m AND push_bit n 1 \<noteq> 0"
  moreover have "\<not> bit m n \<Longrightarrow> m AND push_bit n 1 = 0"
    by (rule bit_word_eqI) (auto simp: bit_simps)
  ultimately show "bit m n" by blast
next
  assume "bit m n"
  then have "bit (m AND push_bit n 1) n" by (auto simp: bit_simps dest: bit_imp_le_length)
  then show "m AND push_bit n 1 \<noteq> 0" by (intro notI) simp
qed

lemma unat_id_eq: "unat rid = unat rid' \<longleftrightarrow> rid = (rid' :: uint32)"
  by (simp add: word_unat_eq_iff)

lemma VA_Set_refines:
  assumes "va_wf a" and "VA_Set a rid lsn = Inr a'"
  shows "va_wf a' \<and> va_map a' = (va_map a)(rid \<mapsto> lsn)"
proof -
  have r: "unat rid < 32" and a': "a' = \<lparr>va_lsn = (va_lsn a)[unat rid := lsn],
      va_present = va_present a OR push_bit (unat rid) 1\<rparr>"
    using assms(2) by (auto simp: VA_Set_def split: if_splits)
  have bits: "bit (va_present a') i \<longleftrightarrow> bit (va_present a) i \<or> i = unat rid" if "i < 32" for i
    using r that by (auto simp: a' bit_simps)
  have "va_wf a'" using assms(1) bits r by (auto simp: va_wf_def a' nth_list_update)
  moreover have "va_map a' x = ((va_map a)(rid \<mapsto> lsn)) x" for x
    using bits [of "unat x"] r assms(1) unat_id_eq [of x rid]
    by (auto simp: va_map_def a' va_wf_def nth_list_update)
  ultimately show ?thesis by blast
qed

lemma va_get_map: "va_wf a \<Longrightarrow> va_get a rid = (case va_map a rid of None \<Rightarrow> 0 | Some lsn \<Rightarrow> lsn)"
  by (auto simp: va_get_def va_map_def va_wf_def)

lemma VA_Get_map: "va_wf a \<Longrightarrow>
  VA_Get a rid = (case va_map a rid of None \<Rightarrow> (0, False) | Some lsn \<Rightarrow> (lsn, True))"
  using word_and_push [of "va_present a" "unat rid"] by (auto simp: VA_Get_def va_map_def va_wf_def)

lemma va_from_loop_refines:
  "va_wf out \<Longrightarrow> va_from_loop es out = Inr a \<Longrightarrow> distinct (map fst es) \<Longrightarrow>
    va_wf a \<and> va_map a = va_map out ++ map_of es"
proof (induction es arbitrary: out)
  case (Cons e es)
  obtain rid lsn where e: "e = (rid, lsn)" by (cases e)
  with Cons.prems(2) obtain out' where s: "VA_Set out rid lsn = Inr out'"
    and rest: "va_from_loop es out' = Inr a" by (auto split: sum.splits)
  have set: "va_wf out'" "va_map out' = (va_map out)(rid \<mapsto> lsn)"
    using VA_Set_refines [OF Cons.prems(1) s] by blast+
  have "distinct (map fst es)" using Cons.prems(3) by simp
  from Cons.IH [OF set(1) rest this, unfolded set(2)]
  have "va_wf a" "va_map a = (va_map out)(rid \<mapsto> lsn) ++ map_of es" by blast+
  moreover have "map_of es rid = None" using Cons.prems(3) e by (simp add: map_of_eq_None_iff)
  ultimately show ?case by (auto simp: e fun_eq_iff map_add_def split: option.splits)
qed simp

lemma VClockArrayFrom_refines:
  "VClockArrayFrom v = Inr a \<Longrightarrow> vclock_wf v \<Longrightarrow> va_wf a \<and> va_map a = map_of (ventries v)"
  using va_from_loop_refines [of va_zero "ventries v" a]
  by (simp add: VClockArrayFrom_def va_wf_zero vclock_wf_def vids_def)

lemma VClockArrayFrom_total:
  "(\<exists>a. VClockArrayFrom v = Inr a) \<longleftrightarrow> (\<forall>rid\<in>set (vids v). unat rid < VClockMax)"
proof -
  have "(\<exists>a. va_from_loop es out = Inr a) \<longleftrightarrow> (\<forall>rid\<in>set (map fst es). unat rid < VClockMax)" for es out
  proof (induction es arbitrary: out)
    case (Cons e es)
    obtain rid lsn where "e = (rid, lsn)" by (cases e)
    with Cons.IH show ?case by (cases "unat rid < 32") (simp_all add: VA_Set_def)
  qed simp
  then show ?thesis by (simp add: VClockArrayFrom_def vids_def)
qed

lemma va_get_vget:
  "VClockArrayFrom v = Inr a \<Longrightarrow> vclock_wf v \<Longrightarrow> va_get a = vget v"
  using VClockArrayFrom_refines by (auto simp: fun_eq_iff va_get_map vget_def)

lemma foldl_or:
  "foldl (\<lambda>(lt, gt) i. (lt \<or> P i, gt \<or> Q i)) (l, g) is = (l \<or> (\<exists>i\<in>set is. P i), g \<or> (\<exists>i\<in>set is. Q i))"
  by (induction "is" arbitrary: l g) auto

lemma va_get_ids: "(\<exists>i\<in>set [0..<VClockMax]. P (va_lsn a ! i) (va_lsn b ! i)) \<longleftrightarrow> (\<exists>rid. P (va_get a rid) (va_get b rid))"
  if "\<not> P 0 0"
proof
  assume "\<exists>i\<in>set [0..<VClockMax]. P (va_lsn a ! i) (va_lsn b ! i)"
  then obtain i where i: "i < 32" "P (va_lsn a ! i) (va_lsn b ! i)" by auto
  have "unat (of_nat i :: uint32) = i" using i(1) by (intro unat_of_nat_small) simp
  then have "P (va_get a (of_nat i)) (va_get b (of_nat i))" using i by (simp add: va_get_def)
  then show "\<exists>rid. P (va_get a rid) (va_get b rid)" by blast
next
  assume "\<exists>rid. P (va_get a rid) (va_get b rid)"
  then obtain rid where "P (va_get a rid) (va_get b rid)" by blast
  with that show "\<exists>i\<in>set [0..<VClockMax]. P (va_lsn a ! i) (va_lsn b ! i)"
    by (cases "unat rid < VClockMax") (auto simp: va_get_def)
qed

interpretation vclock_array: clock_order va_get VA_Compare
proof
  fix a b
  let ?l = "\<exists>rid. sint (va_get a rid) < sint (va_get b rid)" and ?g = "\<exists>rid. sint (va_get a rid) > sint (va_get b rid)"
  have "VA_Compare a b = (if ?l \<and> ?g then (0, False) else if ?l then (- 1, True) else if ?g then (1, True) else (0, True))"
    using va_get_ids [of "\<lambda>x y. sint x < sint y" a b] va_get_ids [of "\<lambda>x y. sint x > sint y" a b]
    by (simp only: VA_Compare_def foldl_or Let_def prod.case simp_thms less_irrefl if_True)
  moreover have "(\<forall>rid. va_get a rid = va_get b rid) \<longleftrightarrow> \<not> ?l \<and> \<not> ?g"
    by (metis less_irrefl linorder_neqE signed_word_eqI)
  ultimately show "VA_Compare a b = (if \<forall>rid. va_get a rid = va_get b rid then (0, True)
     else if \<forall>rid. sint (va_get a rid) \<le> sint (va_get b rid) then (- 1, True)
     else if \<forall>rid. sint (va_get b rid) \<le> sint (va_get a rid) then (1, True) else (0, False))"
    by (simp only: not_less [symmetric]) auto
qed

lemma VA_Compare_refines:
  "VClockArrayFrom v = Inr a \<Longrightarrow> VClockArrayFrom w = Inr b \<Longrightarrow> vclock_wf v \<Longrightarrow> vclock_wf w \<Longrightarrow>
    VA_Compare a b = Compare v w"
  by (simp only: vclock_array.cmp_spec vclock.cmp_spec va_get_vget)

lemma VA_Signature_sum: "VA_Signature a = (\<Sum>i<VClockMax. va_lsn a ! i)"
proof -
  have "foldl (\<lambda>sum i. sum + f i) s is = s + sum_list (map f is)" for f :: "nat \<Rightarrow> int64" and s "is"
    by (induction "is" arbitrary: s) (auto simp: add.assoc)
  then show ?thesis by (simp add: VA_Signature_def interv_sum_list_conv_sum_set_nat atLeast0LessThan)
qed

lemma va_map_ids: "va_wf a \<Longrightarrow> rid \<in> dom (va_map a) \<longleftrightarrow> unat rid < VClockMax \<and> bit (va_present a) (unat rid)"
  by (auto simp: va_map_def split: if_splits)

lemma VA_Signature_refines:
  assumes "VClockArrayFrom v = Inr a" "vclock_wf v"
  shows "VA_Signature a = Signature v"
proof -
  have ids: "\<forall>rid\<in>set (vids v). unat rid < VClockMax" using assms(1) VClockArrayFrom_total by blast
  have "(\<Sum>i<VClockMax. va_lsn a ! i) = (\<Sum>i<VClockMax. va_get a (of_nat i))"
    by (rule sum.cong) (simp_all add: va_get_def unat_of_nat_small)
  also have "\<dots> = (\<Sum>rid\<in>of_nat ` {..<VClockMax}. va_get a rid)"
    by (rule sum.reindex [symmetric, unfolded comp_def])
      (auto intro!: inj_onI dest: arg_cong [where f = unat] simp: unat_of_nat_small)
  also have "\<dots> = (\<Sum>rid\<in>set (vids v). va_get a rid)"
  proof (rule sum.mono_neutral_right)
    show "set (vids v) \<subseteq> of_nat ` {..<VClockMax}"
    proof
      fix rid assume "rid \<in> set (vids v)"
      then have "rid = of_nat (unat rid)" "unat rid \<in> {..<VClockMax}" using ids by simp_all
      then show "rid \<in> of_nat ` {..<VClockMax}" by (rule image_eqI)
    qed
    show "\<forall>rid\<in>of_nat ` {..<VClockMax} - set (vids v). va_get a rid = 0"
      using vget_missing by (simp add: va_get_vget [OF assms])
  qed simp
  finally show ?thesis by (simp add: VA_Signature_sum Signature_keys [OF assms(2)] va_get_vget [OF assms])
qed

text \<open>The ids of the bitmap, in the order of the walk, are the sorted ids of the map.\<close>

definition va_ids :: "VClockArray \<Rightarrow> uint32 list" where
  "va_ids a = map of_nat (filter (bit (va_present a)) [0..<32])"

lemma va_ids_sorted: "sorted (va_ids a)" "distinct (va_ids a)"
proof -
  let ?is = "filter (bit (va_present a)) [0..<32]"
  have u: "unat (of_nat i :: uint32) = i" if "i \<in> set ?is" for i
    using that by (intro unat_of_nat_small) simp
  then have "inj_on (of_nat :: nat \<Rightarrow> uint32) (set ?is)" by (metis inj_onI)
  then show "distinct (va_ids a)" by (simp add: va_ids_def distinct_map)
  have "sorted_wrt (\<lambda>x y. (of_nat x :: uint32) \<le> of_nat y) ?is"
    using sorted_wrt_mono_rel [of ?is "(\<le>)" "\<lambda>x y. (of_nat x :: uint32) \<le> of_nat y"] u
      sorted_wrt_filter [of "(\<le>)" "[0..<32]"] by (simp add: word_le_nat_alt)
  then show "sorted (va_ids a)" by (simp add: va_ids_def sorted_wrt_map)
qed

lemma va_ids_dom: "set (va_ids a) = dom (va_map a)"
proof
  show "set (va_ids a) \<subseteq> dom (va_map a)"
    by (auto simp: va_ids_def va_map_def unat_of_nat_small)
  show "dom (va_map a) \<subseteq> set (va_ids a)"
  proof
    fix r assume "r \<in> dom (va_map a)"
    then have "unat r \<in> set (filter (bit (va_present a)) [0..<32])"
      by (auto simp: va_map_def split: if_splits)
    then show "r \<in> set (va_ids a)" unfolding va_ids_def set_map by (intro image_eqI [of _ _ "unat r"]) simp_all
  qed
qed

lemma va_ids_sort:
  assumes "VClockArrayFrom v = Inr a" "vclock_wf v"
  shows "va_ids a = sort (vids v)"
proof (rule sorted_distinct_set_unique)
  show "set (va_ids a) = set (sort (vids v))"
    using VClockArrayFrom_refines [OF assms] by (simp add: va_ids_dom dom_map_of_conv_image_fst vids_def)
qed (use assms va_ids_sorted in \<open>simp_all add: vclock_wf_def\<close>)

lemma VA_VClock_entries: "VA_VClock a = Some (map (\<lambda>r. (r, va_get a r)) (va_ids a))"
proof -
  let ?is = "filter (bit (va_present a)) [0..<32]"
  let ?f = "\<lambda>out i. entries_set out (of_nat i :: uint32) (va_lsn a ! i)"
  have "foldl (\<lambda>out (m, i). ?f out i) out l = foldl ?f out (map snd l)" for out and l :: "(uint32 \<times> nat) list"
    by (induction l arbitrary: out) auto
  moreover have "foldl ?f out is = out @ map (\<lambda>i. (of_nat i, va_lsn a ! i)) is"
    if "distinct (map fst out @ map of_nat is)" for out "is"
    using that by (induction "is" arbitrary: out) (auto simp: entries_set_fresh)
  ultimately have "VA_VClock a = Some (map (\<lambda>i. (of_nat i, va_lsn a ! i)) ?is)"
    using va_ids_sorted(2) [of a] by (simp add: VA_VClock_def bits_loop_ids va_ids_def)
  then show ?thesis by (simp add: va_ids_def comp_def va_get_def unat_of_nat_small)
qed

lemma FormatInt_small: "i < 32 \<Longrightarrow> FormatInt (of_nat i) = FormatUint (ucast (of_nat i :: uint32))"
proof -
  assume i: "i < 32"
  have "unat (of_nat i :: int64) = i" "unat (of_nat i :: uint32) = i"
    using i by (simp_all add: unat_of_nat_small)
  moreover from this have "sint (of_nat i :: int64) = int i"
    using i by (simp add: signed_of_nat signed_take_bit_int_eq_self)
  ultimately show ?thesis by (simp add: FormatInt_def FormatUint_def unat_ucast32)
qed

lemma VA_String_tail:
  "unat m < unat (va_present a) \<Longrightarrow>
    foldl (\<lambda>buf (m, i). buf @ (if m \<noteq> va_present a then '', '' else []) @ e i) buf (bits_loop m)
      = buf @ concat (map (\<lambda>i. '', '' @ e i) (map snd (bits_loop m)))"
proof (induction m arbitrary: buf rule: bits_loop.induct)
  case (1 m)
  show ?case
  proof (cases "m = 0")
    case False
    have "unat (m AND (m - 1)) < unat (va_present a)" using clear_lowest_less [OF False] 1(2) by simp
    from "1.IH" [OF False this] 1(2) show ?thesis
      by (auto simp: bits_loop.simps [of m])
  qed (simp add: bits_loop.simps)
qed

definition array_entry :: "VClockArray \<Rightarrow> nat \<Rightarrow> string" where
  "array_entry a i = FormatInt (of_nat i) @ '': '' @ FormatInt (va_lsn a ! i)"

lemma array_entry_str:
  "va_get a = vget v \<Longrightarrow> i < 32 \<Longrightarrow> array_entry a i = entry_str v (of_nat i)"
proof -
  assume get: "va_get a = vget v" and i: "i < 32"
  have "vget v (of_nat i) = va_lsn a ! i"
    unfolding get [symmetric] using i by (simp add: va_get_def unat_of_nat_small)
  then show ?thesis by (simp add: array_entry_def entry_str_def FormatInt_small [OF i])
qed

lemma vclock_entries_str_concat:
  "vclock_entries_str v (Suc i) rids = concat (map (\<lambda>r. '', '' @ entry_str v r) rids)"
  by (induction rids arbitrary: i) (simp_all add: entry_str_def)

lemma VA_String_refines:
  assumes "VClockArrayFrom v = Inr a" "vclock_wf v"
  shows "VA_String a = VClock_String v"
proof -
  note get = va_get_vget [OF assms] and ids = va_ids_sort [OF assms]
  let ?p = "va_present a"
  have str: "VA_String a = foldl (\<lambda>buf (m, i). buf @ (if m \<noteq> ?p then '', '' else []) @ array_entry a i)
      ''{'' (bits_loop ?p) @ ''}''" by (simp add: VA_String_def array_entry_def)
  show ?thesis
  proof (cases "?p = 0")
    case True
    then have "sort (vids v) = []" using ids by (simp add: va_ids_def)
    then have "ventries v = []" by (metis Nil_is_map_conv length_0_conv length_sort vids_def)
    then show ?thesis using True by (simp add: str VClock_String_def bits_loop.simps)
  next
    case False
    let ?m = "?p AND (?p - 1)"
    obtain k ks where ks: "filter (bit ?p) [0..<32] = k # ks" "map snd (bits_loop ?m) = ks" "TrailingZeros32 ?p = k"
      using bits_loop_ids [of ?p, symmetric] False by (simp add: bits_loop.simps [of ?p])
    have lt: "\<forall>i\<in>set (k # ks). i < 32" using arg_cong [OF ks(1), of set] by auto
    have e: "array_entry a i = entry_str v (of_nat i)" if "i \<in> set (k # ks)" for i
      using array_entry_str [OF get] lt that by blast
    have sv: "sort (vids v) = of_nat k # map of_nat ks" using ids ks(1) by (simp add: va_ids_def)
    then have ne: "ventries v \<noteq> []" by (auto simp: vids_def)
    have "VA_String a = ''{'' @ array_entry a k @ concat (map (\<lambda>i. '', '' @ array_entry a i) ks) @ ''}''"
      using VA_String_tail [OF clear_lowest_less [OF False], of "array_entry a" "''{'' @ array_entry a k"]
      by (simp add: str bits_loop.simps [of ?p] False ks)
    also have "map (\<lambda>i. '', '' @ array_entry a i) ks = map (\<lambda>r. '', '' @ entry_str v r) (map of_nat ks)"
      using e by simp
    finally show ?thesis
      using ne e [of k] vclock_entries_str_concat [of v 0 "map of_nat ks"]
      by (simp add: VClock_String_def sv entry_str_def)
  qed
qed

lemma va_ext:
  assumes "va_wf a" "va_wf b" "va_map a = va_map b"
  shows "a = b"
proof -
  have bits: "bit (va_present a) i = bit (va_present b) i \<and> va_lsn a ! i = va_lsn b ! i" if "i < 32" for i
    using fun_cong [OF assms(3), of "of_nat i"] that assms(1,2)
    by (auto simp: va_map_def unat_of_nat_small va_wf_def split: if_splits)
  then have "va_present a = va_present b" by (intro bit_word_eqI) simp
  moreover have "va_lsn a = va_lsn b"
    using assms(1,2) bits by (intro nth_equalityI) (simp_all add: va_wf_def)
  ultimately show ?thesis by (cases a; cases b) simp
qed

section \<open>Decoding\<close>

lemma va_decode_loop_wf: "va_wf dst \<Longrightarrow> va_wf (snd (va_decode_loop b k off dst))"
proof (induction k arbitrary: off dst)
  case (Suc k)
  have reset: "va_wf (VA_Reset dst)" by (simp add: va_wf_def VA_Reset_def)
  have step: "va_wf \<lparr>va_lsn = (va_lsn dst)[unat rid := lsn], va_present = va_present dst OR push_bit (unat rid) 1\<rparr>"
    if "unat rid < 32" for rid lsn :: uint64
    using that Suc.prems by (auto simp: va_wf_def nth_list_update bit_simps)
  show ?case using Suc.IH [OF step] reset by (auto split: sum.splits)
qed simp

lemma va_decode_loop_bounds:
  "va_decode_loop b k off dst = (Inr n, a) \<Longrightarrow> off \<le> length b \<Longrightarrow> off \<le> n \<and> n \<le> length b"
proof (induction k arbitrary: off dst)
  case (Suc k)
  then obtain rid n1 lsn n2 dst' where r: "readMPUint (drop off b) = Inr (rid, n1)"
    and l: "readMPUint (drop (off + n1) b) = Inr (lsn, n2)"
    and rest: "va_decode_loop b k (off + n1 + n2) dst' = (Inr n, a)"
    by (auto split: sum.splits prod.splits if_splits)
  from mpuint.dec_off_le [OF l mpuint.dec_off_le [OF r Suc.prems(2)]] Suc.IH [OF rest] show ?case by simp
qed simp

section \<open>Properties\<close>

text \<open>
  C25: the dense clock refines the map. Conversion succeeds exactly for replica ids below 32; the
  converted clock is well formed, reads, sums, compares and prints like the map, and converts back
  to the map with its ids ascending.
\<close>

theorem vclock_array_refines:
  assumes "vclock_wf v" "vclock_wf w" "VClockArrayFrom v = Inr a" "VClockArrayFrom w = Inr b"
  shows "va_wf a \<and> VA_Signature a = Signature v \<and> VA_Compare a b = Compare v w
    \<and> VA_String a = VClock_String v \<and> VA_VClock a = Some (map (\<lambda>r. (r, vget v r)) (sort (vids v)))
    \<and> (\<forall>rid. VA_Get a rid = (case map_of (ventries v) rid of None \<Rightarrow> (0, False) | Some lsn \<Rightarrow> (lsn, True)))"
proof -
  have a: "va_wf a" "va_map a = map_of (ventries v)" using VClockArrayFrom_refines [OF assms(3,1)] by blast+
  show ?thesis
    using a VA_Signature_refines [OF assms(3,1)] VA_Compare_refines [OF assms(3,4,1,2)]
      VA_String_refines [OF assms(3,1)] VA_VClock_entries [of a]
    by (simp add: VA_Get_map va_ids_sort [OF assms(3,1)] va_get_vget [OF assms(3,1)])
qed

theorem vclock_array_refines_witness:
  "\<exists>a b. VClockArrayFrom (Some [(3, 7), (1, 2)]) = Inr a \<and> VClockArrayFrom (Some [(1, 9)]) = Inr b
    \<and> VA_Signature a = Signature (Some [(3, 7), (1, 2)])
    \<and> VA_Compare a b = Compare (Some [(3, 7), (1, 2)]) (Some [(1, 9)])
    \<and> VA_String a = VClock_String (Some [(3, 7), (1, 2)])"
proof -
  obtain a b where ab: "VClockArrayFrom (Some [(3, 7), (1, 2)]) = Inr a" "VClockArrayFrom (Some [(1, 9)]) = Inr b"
    using VClockArrayFrom_total [of "Some [(3, 7), (1, 2)]"] VClockArrayFrom_total [of "Some [(1, 9)]"]
    by (auto simp: vids_def)
  have "vclock_wf (Some [(3, 7), (1, 2)])" "vclock_wf (Some [(1, 9)])" by (simp_all add: vclock_wf_def vids_def)
  from vclock_array_refines [OF this ab] ab show ?thesis by blast
qed

end
