(* ===== verification/Fixheader.thy ===== *)
theory Fixheader
  imports Msgpack
begin

unbundle bit_operations_syntax

text \<open>
  The constants of \<^verbatim>\<open>format/const.go\<close> that lay out a file, and the 19-byte fixheader of a tx block
  of \<^verbatim>\<open>format/fixheader.go\<close>. A \<^verbatim>\<open>[4]byte\<close> magic is a byte list of length 4. Every header with a
  known magic encodes, without a panic, to exactly 19 bytes that decode to it again.
\<close>

section \<open>Constants of the file format\<close>

type_synonym Filetype = string

definition FiletypeXLOG :: Filetype where "FiletypeXLOG = ''XLOG''"
definition FiletypeSNAP :: Filetype where "FiletypeSNAP = ''SNAP''"
definition FiletypeVYLOG :: Filetype where "FiletypeVYLOG = ''VYLOG''"
definition FiletypeRUN :: Filetype where "FiletypeRUN = ''RUN''"
definition FiletypeINDEX :: Filetype where "FiletypeINDEX = ''INDEX''"

lemmas filetype_defs = FiletypeXLOG_def FiletypeSNAP_def FiletypeVYLOG_def FiletypeRUN_def
  FiletypeINDEX_def

definition Ext :: "Filetype \<Rightarrow> error + string" where
  "Ext ft =
     (if ft = FiletypeXLOG then Inr ''.xlog''
      else if ft = FiletypeSNAP then Inr ''.snap''
      else if ft = FiletypeVYLOG then Inr ''.vylog''
      else if ft = FiletypeRUN then Inr ''.run''
      else if ft = FiletypeINDEX then Inr ''.index''
      else Inl [Block ErrUnknownFiletype])"

definition RowMarker :: bytes where "RowMarker = [0xD5, 0xBA, 0x0B, 0xAB]"
definition ZRowMarker :: bytes where "ZRowMarker = [0xD5, 0xBA, 0x0B, 0xBA]"
definition EOFMarker :: bytes where "EOFMarker = [0xD5, 0x10, 0xAD, 0xED]"

lemmas marker_defs = RowMarker_def ZRowMarker_def EOFMarker_def

definition MarkerSize :: nat where [simp]: "MarkerSize = 4"
definition FixheaderSize :: nat where [simp]: "FixheaderSize = 19"
definition CompressThreshold :: int where "CompressThreshold = 2 * 1024"
definition AutocommitThreshold :: nat where "AutocommitThreshold = 128 * 1024"
definition ZstdLevel :: int where "ZstdLevel = 3"
definition FormatVersion :: string where "FormatVersion = ''0.13''"
definition LegacyFormatVersion :: string where "LegacyFormatVersion = ''0.12''"

lemma marker_lengths [simp]:
  "length RowMarker = 4" "length ZRowMarker = 4" "length EOFMarker = 4"
  by (simp_all add: marker_defs)

lemma markers_distinct [simp]:
  "RowMarker \<noteq> ZRowMarker" "RowMarker \<noteq> EOFMarker" "ZRowMarker \<noteq> EOFMarker"
  "ZRowMarker \<noteq> RowMarker" "EOFMarker \<noteq> RowMarker" "EOFMarker \<noteq> ZRowMarker"
  by (simp_all add: marker_defs)

section \<open>The fixheader\<close>

record Fixheader =
  Magic :: bytes
  Len :: uint32
  FhCRC32P :: uint32
  FhCRC32C :: uint32

text \<open>A nil header, an overshoot and a wrong final size panic.\<close>

definition EncodeFixheader :: "Fixheader option \<Rightarrow> error + bytes" where
  "EncodeFixheader ho = (case ho of None \<Rightarrow> Inl [Go Panic] | Some h \<Rightarrow>
     (let out = Magic h;
          out = appendMPUint out (ucast (Len h));
          out = appendMPUint out (ucast (FhCRC32P h));
          out = appendMPUint out (ucast (FhCRC32C h))
      in if length out > FixheaderSize then Inl [Go Panic]
         else (let padding = FixheaderSize - length out;
                   out = (if padding > 0
                          then appendMPStrHeader out (padding - 1) @ replicate (padding - 1) 0
                          else out)
               in if length out \<noteq> FixheaderSize then Inl [Go Panic] else Inr out)))"

definition DecodeFixheaderInto :: "bytes \<Rightarrow> error + Fixheader" where
  "DecodeFixheaderInto b =
     (let magic = subslice b 0 4
      in if magic \<noteq> RowMarker \<and> magic \<noteq> ZRowMarker \<and> magic \<noteq> EOFMarker
         then Inl [Block ErrBadMagic]
         else (case readMPUint (drop 4 b) of
           Inl e \<Rightarrow> Inl (Block ErrFixheaderShape # e)
         | Inr (len, n1) \<Rightarrow>
             if len > 0xffffffff then Inl [Block ErrFixheaderShape]
             else (case readMPUint (drop (4 + n1) b) of
               Inl e \<Rightarrow> Inl (Block ErrFixheaderShape # e)
             | Inr (crc32p, n2) \<Rightarrow>
                 (case readMPUint (drop (4 + n1 + n2) b) of
                   Inl e \<Rightarrow> Inl (Block ErrFixheaderShape # e)
                 | Inr (crc32c, n3) \<Rightarrow>
                     (let off = 4 + n1 + n2 + n3;
                          h = \<lparr>Magic = magic, Len = ucast len, FhCRC32P = ucast crc32p,
                               FhCRC32C = ucast crc32c\<rparr>
                      in if off > FixheaderSize then Inl [Block ErrFixheaderShape]
                         else if off < FixheaderSize then
                           (case skipMP (drop off b) of
                              Inl e \<Rightarrow> Inl (Block ErrFixheaderShape # e)
                            | Inr consumed \<Rightarrow>
                                if off + consumed \<noteq> FixheaderSize then Inl [Block ErrFixheaderShape]
                                else Inr h)
                         else Inr h)))))"

definition DecodeFixheader :: "bytes \<Rightarrow> error + Fixheader" where
  "DecodeFixheader b =
     (case DecodeFixheaderInto b of Inl e \<Rightarrow> Inl e | Inr h \<Rightarrow> Inr h)"

definition known_magic :: "bytes \<Rightarrow> bool" where
  "known_magic m \<longleftrightarrow> m = RowMarker \<or> m = ZRowMarker \<or> m = EOFMarker"

lemma known_magic_length: "known_magic m \<Longrightarrow> length m = 4"
  by (auto simp: known_magic_def)

text \<open>The three integers of a fixheader, and the padding that fills it up to 19 bytes.\<close>

definition fixheader_uints :: "Fixheader \<Rightarrow> bytes" where
  "fixheader_uints h = appendMPUint [] (ucast (Len h)) @ appendMPUint [] (ucast (FhCRC32P h))
     @ appendMPUint [] (ucast (FhCRC32C h))"

definition fixheader_pad :: "nat \<Rightarrow> bytes" where
  "fixheader_pad p = (if p = 0 then [] else appendMPStrHeader [] (p - 1) @ replicate (p - 1) 0)"

lemma ucast32_le: "ucast (x :: uint32) \<le> (0xffffffff :: uint64)"
  by (rule ucast_le_max)

lemma fixheader_uints_length: "length (fixheader_uints h) \<le> 15"
  using appendMPUint_size32 [OF ucast32_le, of "Len h"]
    appendMPUint_size32 [OF ucast32_le, of "FhCRC32P h"]
    appendMPUint_size32 [OF ucast32_le, of "FhCRC32C h"]
  by (simp add: fixheader_uints_def)

lemma fixheader_pad_length: "p \<le> 32 \<Longrightarrow> length (fixheader_pad p) = p"
  by (cases p) (simp_all add: fixheader_pad_def appendMPStrHeader_def)

lemma fixheader_pad_value: "0 < p \<Longrightarrow> p \<le> 32 \<Longrightarrow> mp_value (fixheader_pad p)"
  using appendMPStrHeader_value [of "replicate (p - 1) 0"] by (simp add: fixheader_pad_def)

lemma appendMPStrHeader_append: "appendMPStrHeader buf n = buf @ appendMPStrHeader [] n"
  by (simp add: appendMPStrHeader_def)

lemma EncodeFixheader_layout:
  assumes "length (Magic h) = 4"
  shows "EncodeFixheader (Some h)
    = Inr (Magic h @ fixheader_uints h @ fixheader_pad (15 - length (fixheader_uints h)))"
proof -
  let ?u = "fixheader_uints h"
  have out: "appendMPUint (appendMPUint (appendMPUint (Magic h) (ucast (Len h))) (ucast (FhCRC32P h)))
      (ucast (FhCRC32C h)) = Magic h @ ?u"
    unfolding fixheader_uints_def
    by (subst (1 2 3) appendMPUint_append) simp
  obtain p where p: "length ?u + p = 15"
    using fixheader_uints_length [of h] le_iff_add by metis
  have pad: "(if p > 0 then appendMPStrHeader (Magic h @ ?u) (p - 1) @ replicate (p - 1) 0
      else Magic h @ ?u) = Magic h @ ?u @ fixheader_pad p"
    by (subst appendMPStrHeader_append) (simp add: fixheader_pad_def)
  have "FixheaderSize - length (Magic h @ ?u) = p" "\<not> length (Magic h @ ?u) > FixheaderSize"
    "length (Magic h @ ?u @ fixheader_pad p) = FixheaderSize" "15 - length ?u = p"
    using assms p fixheader_pad_length [of p] by simp_all
  then show ?thesis
    unfolding EncodeFixheader_def Let_def out option.case by (simp only: pad simp_thms if_False)
qed

lemma EncodeFixheader_length:
  "length (Magic h) = 4 \<Longrightarrow> EncodeFixheader (Some h) = Inr b \<Longrightarrow> length b = FixheaderSize"
  using fixheader_uints_length [of h] fixheader_pad_length [of "15 - length (fixheader_uints h)"]
  by (auto simp: EncodeFixheader_layout)

lemma DecodeFixheader_layout:
  assumes "known_magic (Magic h)" and "length (fixheader_uints h) + p = 15"
  shows "DecodeFixheader (Magic h @ fixheader_uints h @ fixheader_pad p) = Inr h"
proof -
  let ?a = "appendMPUint [] (ucast (Len h))" and ?b = "appendMPUint [] (ucast (FhCRC32P h))"
    and ?c = "appendMPUint [] (ucast (FhCRC32C h))"
  have m: "length (Magic h) = 4" using assms(1) by (rule known_magic_length)
  have p: "length ?a + (length ?b + length ?c) + p = 15"
    using assms(2) by (simp add: fixheader_uints_def)
  have skip: "p \<noteq> 0 \<Longrightarrow> skipMP (fixheader_pad p) = Inr p"
    using skipMP_value [OF fixheader_pad_value, of p "[]"] p fixheader_pad_length [of p] by simp
  have small: "\<not> (ucast (x :: uint32) :: uint64) > 0xffffffff" for x
    using ucast32_le [of x] by simp
  have uback: "ucast (ucast (x :: uint32) :: uint64) = x" for x
  proof (rule ucast_ucast_small)
    have "unat x < 2 ^ LENGTH(32)" by (rule unsigned_less)
    then show "unat x < 2 ^ LENGTH(64)" by simp
  qed
  show ?thesis
    using assms(1) m p skip
    by (auto simp: DecodeFixheader_def DecodeFixheaderInto_def Let_def fixheader_uints_def
        subslice_def known_magic_def mpuint_codec.dec_enc small uback)
qed

lemma EncodeFixheader_DecodeFixheader:
  assumes "known_magic (Magic h)"
  shows "\<exists>b. EncodeFixheader (Some h) = Inr b \<and> length b = FixheaderSize \<and> DecodeFixheader b = Inr h"
proof -
  have m: "length (Magic h) = 4" using assms by (rule known_magic_length)
  have "length (fixheader_uints h) + (15 - length (fixheader_uints h)) = 15"
    using fixheader_uints_length [of h] by simp
  from DecodeFixheader_layout [OF assms this] EncodeFixheader_length [OF m] EncodeFixheader_layout [OF m]
  show ?thesis by blast
qed

lemma DecodeFixheader_errors:
  "DecodeFixheaderInto b = Inl e \<Longrightarrow> set e \<subseteq> range Mp \<union> {Block ErrBadMagic, Block ErrFixheaderShape}"
  by (auto simp: DecodeFixheaderInto_def Let_def split: if_splits sum.splits prod.splits
      dest!: readMP_errors skipMP_errors)

section \<open>Properties\<close>

text \<open>
  every fixheader with one of the three magics encodes without a panic to exactly 19 bytes, and
  these decode to the same header.
\<close>

theorem fixheader_roundtrip:
  assumes "known_magic (Magic h)"
  shows "\<exists>b. EncodeFixheader (Some h) = Inr b \<and> length b = FixheaderSize \<and> DecodeFixheader b = Inr h"
  using assms by (rule EncodeFixheader_DecodeFixheader)

theorem fixheader_roundtrip_witness:
  "\<exists>b. EncodeFixheader (Some \<lparr>Magic = ZRowMarker, Len = 0xffffffff, FhCRC32P = 0, FhCRC32C = 0x80\<rparr>) = Inr b
    \<and> length b = FixheaderSize
    \<and> DecodeFixheader b = Inr \<lparr>Magic = ZRowMarker, Len = 0xffffffff, FhCRC32P = 0, FhCRC32C = 0x80\<rparr>"
  by (rule fixheader_roundtrip) (simp add: known_magic_def)

end
