(* ===== verification/Xrow.thy ===== *)
theory Xrow
  imports Fixheader
begin

unbundle bit_operations_syntax

text \<open>
  The row of a tx block (\<^verbatim>\<open>format/xrow.go\<close>): its header map and its body, the encoder with the
  short form of a single-statement transaction, and the decoder. The protocol numbers come from
  the package go-iproto; they are a parameter \<open>ip\<close> of the definitions. What an encoded row decodes
  to is stated for every row: \<open>xrow_canon\<close> says what the short form and the zero fields lose.
\<close>

section \<open>The constants of go-iproto\<close>

datatype iproto_const =
    IPROTO_REQUEST_TYPE | IPROTO_SYNC | IPROTO_REPLICA_ID | IPROTO_LSN | IPROTO_TIMESTAMP
  | IPROTO_SCHEMA_VERSION | IPROTO_GROUP_ID | IPROTO_TSN | IPROTO_FLAGS | IPROTO_STREAM_ID
  | IPROTO_FLAG_COMMIT | IPROTO_NOP
  | IPROTO_INSERT | IPROTO_REPLACE | IPROTO_DELETE | IPROTO_UPSERT
  | IPROTO_SPACE_ID | IPROTO_INDEX_ID | IPROTO_INDEX_BASE | IPROTO_KEY | IPROTO_TUPLE | IPROTO_OPS
  | IPROTO_TUPLE_META | IPROTO_OLD_TUPLE | IPROTO_NEW_TUPLE | IPROTO_ARROW
  | IPROTO_VCLOCK | IPROTO_TERM
  | IPROTO_RAFT_TERM | IPROTO_RAFT_VOTE | IPROTO_RAFT_STATE | IPROTO_RAFT_VCLOCK
  | IPROTO_RAFT_LEADER_ID | IPROTO_RAFT_IS_LEADER_SEEN
  | VY_INDEX_RUN_INFO | VY_INDEX_PAGE_INFO | VY_RUN_ROW_INDEX

text \<open>\<^verbatim>\<open>iproto.Key\<close>, \<^verbatim>\<open>iproto.Type\<close> and \<^verbatim>\<open>iproto.Flag\<close> are Go \<^verbatim>\<open>int\<close>s.\<close>

type_synonym iproto = "iproto_const \<Rightarrow> 64 word"

definition header_keys :: "iproto_const list" where
  "header_keys = [IPROTO_REQUEST_TYPE, IPROTO_SYNC, IPROTO_REPLICA_ID, IPROTO_LSN, IPROTO_TIMESTAMP,
     IPROTO_SCHEMA_VERSION, IPROTO_GROUP_ID, IPROTO_TSN, IPROTO_FLAGS, IPROTO_STREAM_ID]"

text \<open>
  What the code relies on: the header keys are distinct (the switch of the decoder would not
  compile otherwise) and below 32 (a \<^verbatim>\<open>Present\<close> bit would not fit its constant otherwise), and
  the commit flag is the bit 1, as the protocol documents it.
\<close>

definition iproto_ok :: "iproto \<Rightarrow> bool" where
  "iproto_ok ip \<longleftrightarrow> distinct (map ip header_keys) \<and> (\<forall>k\<in>set header_keys. ip k < 32)
     \<and> ip IPROTO_FLAG_COMMIT = 1"

section \<open>Rows\<close>

type_synonym Present = uint32

record XRow =
  Type :: "64 word"
  ReplicaID :: uint32
  GroupID :: uint32
  LSN :: int64
  TSN :: int64
  Timestamp :: float64
  Flags :: "64 word"
  BodyRaw :: bytes
  StreamID :: uint64
  Sync :: uint64
  SchemaVersion :: uint64
  Present :: Present

definition XRow0 :: XRow where
  "XRow0 = \<lparr>Type = 0, ReplicaID = 0, GroupID = 0, LSN = 0, TSN = 0, Timestamp = 0, Flags = 0,
     BodyRaw = [], StreamID = 0, Sync = 0, SchemaVersion = 0, Present = 0\<rparr>"

definition present_bit :: "iproto \<Rightarrow> iproto_const \<Rightarrow> Present" where
  "present_bit ip k = push_bit (unat (ip k)) 1"

definition PresentType :: "iproto \<Rightarrow> Present" where "PresentType ip = present_bit ip IPROTO_REQUEST_TYPE"
definition PresentSync :: "iproto \<Rightarrow> Present" where "PresentSync ip = present_bit ip IPROTO_SYNC"
definition PresentReplicaID :: "iproto \<Rightarrow> Present" where "PresentReplicaID ip = present_bit ip IPROTO_REPLICA_ID"
definition PresentLSN :: "iproto \<Rightarrow> Present" where "PresentLSN ip = present_bit ip IPROTO_LSN"
definition PresentTimestamp :: "iproto \<Rightarrow> Present" where "PresentTimestamp ip = present_bit ip IPROTO_TIMESTAMP"
definition PresentSchemaVersion :: "iproto \<Rightarrow> Present" where
  "PresentSchemaVersion ip = present_bit ip IPROTO_SCHEMA_VERSION"
definition PresentGroupID :: "iproto \<Rightarrow> Present" where "PresentGroupID ip = present_bit ip IPROTO_GROUP_ID"
definition PresentTSN :: "iproto \<Rightarrow> Present" where "PresentTSN ip = present_bit ip IPROTO_TSN"
definition PresentFlags :: "iproto \<Rightarrow> Present" where "PresentFlags ip = present_bit ip IPROTO_FLAGS"
definition PresentStreamID :: "iproto \<Rightarrow> Present" where "PresentStreamID ip = present_bit ip IPROTO_STREAM_ID"

lemmas Present_defs = PresentType_def PresentSync_def PresentReplicaID_def PresentLSN_def
  PresentTimestamp_def PresentSchemaVersion_def PresentGroupID_def PresentTSN_def PresentFlags_def
  PresentStreamID_def

definition HasType :: "iproto \<Rightarrow> XRow \<Rightarrow> bool" where "HasType ip r \<longleftrightarrow> Present r AND PresentType ip \<noteq> 0"
definition HasSync :: "iproto \<Rightarrow> XRow \<Rightarrow> bool" where "HasSync ip r \<longleftrightarrow> Present r AND PresentSync ip \<noteq> 0"
definition HasReplicaID :: "iproto \<Rightarrow> XRow \<Rightarrow> bool" where
  "HasReplicaID ip r \<longleftrightarrow> Present r AND PresentReplicaID ip \<noteq> 0"
definition HasLSN :: "iproto \<Rightarrow> XRow \<Rightarrow> bool" where "HasLSN ip r \<longleftrightarrow> Present r AND PresentLSN ip \<noteq> 0"
definition HasTimestamp :: "iproto \<Rightarrow> XRow \<Rightarrow> bool" where
  "HasTimestamp ip r \<longleftrightarrow> Present r AND PresentTimestamp ip \<noteq> 0"
definition HasSchemaVersion :: "iproto \<Rightarrow> XRow \<Rightarrow> bool" where
  "HasSchemaVersion ip r \<longleftrightarrow> Present r AND PresentSchemaVersion ip \<noteq> 0"
definition HasGroupID :: "iproto \<Rightarrow> XRow \<Rightarrow> bool" where
  "HasGroupID ip r \<longleftrightarrow> Present r AND PresentGroupID ip \<noteq> 0"
definition HasTSN :: "iproto \<Rightarrow> XRow \<Rightarrow> bool" where "HasTSN ip r \<longleftrightarrow> Present r AND PresentTSN ip \<noteq> 0"
definition HasFlags :: "iproto \<Rightarrow> XRow \<Rightarrow> bool" where "HasFlags ip r \<longleftrightarrow> Present r AND PresentFlags ip \<noteq> 0"
definition HasStreamID :: "iproto \<Rightarrow> XRow \<Rightarrow> bool" where
  "HasStreamID ip r \<longleftrightarrow> Present r AND PresentStreamID ip \<noteq> 0"

lemmas Has_defs = HasType_def HasSync_def HasReplicaID_def HasLSN_def HasTimestamp_def
  HasSchemaVersion_def HasGroupID_def HasTSN_def HasFlags_def HasStreamID_def

definition IsCommit :: "iproto \<Rightarrow> XRow \<Rightarrow> bool" where
  "IsCommit ip r \<longleftrightarrow> Flags r AND ip IPROTO_FLAG_COMMIT \<noteq> 0"

text \<open>The comparison \<^verbatim>\<open>f != 0\<close> of a \<^verbatim>\<open>float64\<close>: both zeros are equal to 0, a NaN is not.\<close>

definition float_nonzero :: "float64 \<Rightarrow> bool" where
  "float_nonzero f \<longleftrightarrow> f \<noteq> 0 \<and> f \<noteq> push_bit 63 1"

section \<open>Encoding\<close>

text \<open>
  The array \<open>hdr\<close> of \<^verbatim>\<open>EncodeXRow\<close>: the keys with the closures that append their values, in the
  order of the calls of \<^verbatim>\<open>add\<close>.
\<close>

type_synonym hdr_entry = "64 word \<times> (bytes \<Rightarrow> bytes)"

definition flagsToEncode :: "iproto \<Rightarrow> XRow \<Rightarrow> 64 word" where
  "flagsToEncode ip r =
     (let flags = Flags r AND NOT (ip IPROTO_FLAG_COMMIT)
      in if TSN r \<noteq> 0 \<and> IsCommit ip r \<and> TSN r \<noteq> LSN r then flags OR ip IPROTO_FLAG_COMMIT else flags)"

definition xrow_hdr :: "iproto \<Rightarrow> XRow \<Rightarrow> hdr_entry list" where
  "xrow_hdr ip r =
     [(ip IPROTO_REQUEST_TYPE, \<lambda>b. appendMPUint b (Type r))]
   @ (if Sync r \<noteq> 0 then [(ip IPROTO_SYNC, \<lambda>b. appendMPUint b (Sync r))] else [])
   @ (if SchemaVersion r \<noteq> 0
      then [(ip IPROTO_SCHEMA_VERSION, \<lambda>b. appendMPUint b (SchemaVersion r))] else [])
   @ (if ReplicaID r \<noteq> 0
      then [(ip IPROTO_REPLICA_ID, \<lambda>b. appendMPUint b (ucast (ReplicaID r)))] else [])
   @ (if GroupID r \<noteq> 0
      then [(ip IPROTO_GROUP_ID, \<lambda>b. appendMPUint b (ucast (GroupID r)))] else [])
   @ (if LSN r \<noteq> 0 then [(ip IPROTO_LSN, \<lambda>b. appendMPUint b (LSN r))] else [])
   @ (if float_nonzero (Timestamp r)
      then [(ip IPROTO_TIMESTAMP, \<lambda>b. appendMPDouble b (Timestamp r))] else [])
   @ (if TSN r \<noteq> 0 \<and> (TSN r \<noteq> LSN r \<or> \<not> IsCommit ip r)
      then [(ip IPROTO_TSN, \<lambda>b. appendMPUint b (LSN r - TSN r))] else [])
   @ (if StreamID r \<noteq> 0 then [(ip IPROTO_STREAM_ID, \<lambda>b. appendMPUint b (StreamID r))] else [])
   @ (if flagsToEncode ip r \<noteq> 0
      then [(ip IPROTO_FLAGS, \<lambda>b. appendMPUint b (flagsToEncode ip r))] else [])"

definition EncodeXRow :: "iproto \<Rightarrow> bytes \<Rightarrow> XRow option \<Rightarrow> error + bytes" where
  "EncodeXRow ip buf ro = (case ro of None \<Rightarrow> Inl [Block ErrNilRow] | Some r \<Rightarrow>
     (let hdr = xrow_hdr ip r;
          buf = appendMPMapHeader buf (length hdr);
          buf = foldl (\<lambda>buf (k, fn). fn (appendMPUint buf k)) buf hdr
      in Inr (if length (BodyRaw r) > 0 then buf @ BodyRaw r else buf)))"

section \<open>Decoding\<close>

text \<open>One case of the switch on the header key: a value is read at \<open>off\<close> and stored in the row.\<close>

definition hdr_uint :: "bytes \<Rightarrow> nat \<Rightarrow> (uint64 \<Rightarrow> XRow) \<Rightarrow> bool \<Rightarrow> error + (XRow \<times> bool \<times> nat)" where
  "hdr_uint b off store sawTSN = (case readMPUint (drop off b) of
     Inl e \<Rightarrow> Inl e | Inr (v, n) \<Rightarrow> Inr (store v, sawTSN, off + n))"

definition xrow_hdr_entry ::
    "iproto \<Rightarrow> bytes \<Rightarrow> 64 word \<Rightarrow> nat \<Rightarrow> XRow \<Rightarrow> bool \<Rightarrow> error + (XRow \<times> bool \<times> nat)" where
  "xrow_hdr_entry ip b key off r sawTSN =
     (let pres = (\<lambda>bit r. r\<lparr>Present := Present r OR bit\<rparr>) in
      if key = ip IPROTO_REQUEST_TYPE then
        hdr_uint b off (\<lambda>v. pres (PresentType ip) (r\<lparr>Type := v\<rparr>)) sawTSN
      else if key = ip IPROTO_SYNC then
        hdr_uint b off (\<lambda>v. pres (PresentSync ip) (r\<lparr>Sync := v\<rparr>)) sawTSN
      else if key = ip IPROTO_REPLICA_ID then
        hdr_uint b off (\<lambda>v. pres (PresentReplicaID ip) (r\<lparr>ReplicaID := ucast v\<rparr>)) sawTSN
      else if key = ip IPROTO_GROUP_ID then
        hdr_uint b off (\<lambda>v. pres (PresentGroupID ip) (r\<lparr>GroupID := ucast v\<rparr>)) sawTSN
      else if key = ip IPROTO_LSN then
        hdr_uint b off (\<lambda>v. pres (PresentLSN ip) (r\<lparr>LSN := v\<rparr>)) sawTSN
      else if key = ip IPROTO_TIMESTAMP then
        (case readMPDouble (drop off b) of Inl e \<Rightarrow> Inl e
         | Inr (v, n) \<Rightarrow> Inr (pres (PresentTimestamp ip) (r\<lparr>Timestamp := v\<rparr>), sawTSN, off + n))
      else if key = ip IPROTO_SCHEMA_VERSION then
        hdr_uint b off (\<lambda>v. pres (PresentSchemaVersion ip) (r\<lparr>SchemaVersion := v\<rparr>)) sawTSN
      else if key = ip IPROTO_TSN then
        hdr_uint b off (\<lambda>v. pres (PresentTSN ip) (r\<lparr>TSN := LSN r - v\<rparr>)) True
      else if key = ip IPROTO_FLAGS then
        hdr_uint b off (\<lambda>v. pres (PresentFlags ip) (r\<lparr>Flags := v\<rparr>)) sawTSN
      else if key = ip IPROTO_STREAM_ID then
        hdr_uint b off (\<lambda>v. pres (PresentStreamID ip) (r\<lparr>StreamID := v\<rparr>)) sawTSN
      else (case skipMP (drop off b) of Inl e \<Rightarrow> Inl e | Inr n \<Rightarrow> Inr (r, sawTSN, off + n)))"

fun xrow_hdr_loop ::
    "iproto \<Rightarrow> bytes \<Rightarrow> nat \<Rightarrow> nat \<Rightarrow> XRow \<Rightarrow> bool \<Rightarrow> error + (XRow \<times> bool \<times> nat)" where
  "xrow_hdr_loop ip b 0 off r sawTSN = Inr (r, sawTSN, off)"
| "xrow_hdr_loop ip b (Suc entries) off r sawTSN =
     (case readMPUint (drop off b) of Inl e \<Rightarrow> Inl e
      | Inr (key, n) \<Rightarrow>
          (case xrow_hdr_entry ip b key (off + n) r sawTSN of Inl e \<Rightarrow> Inl e
           | Inr (r', saw', off') \<Rightarrow> xrow_hdr_loop ip b entries off' r' saw'))"

definition xrow_infer :: "iproto \<Rightarrow> bool \<Rightarrow> XRow \<Rightarrow> XRow" where
  "xrow_infer ip sawTSN r =
     (if \<not> sawTSN then r\<lparr>TSN := LSN r, Flags := Flags r OR ip IPROTO_FLAG_COMMIT\<rparr> else r)"

definition xrow_body :: "iproto \<Rightarrow> bytes \<Rightarrow> nat \<Rightarrow> XRow \<Rightarrow> error + (XRow \<times> nat)" where
  "xrow_body ip b off r =
     (if Type r = ip IPROTO_NOP then Inr (r\<lparr>BodyRaw := []\<rparr>, off)
      else if off \<ge> length b then Inr (r\<lparr>BodyRaw := []\<rparr>, off)
      else (case skipMP (drop off b) of Inl e \<Rightarrow> Inl e
            | Inr bodyLen \<Rightarrow> Inr (r\<lparr>BodyRaw := subslice b off (off + bodyLen)\<rparr>, off + bodyLen)))"

definition DecodeXRowInto :: "iproto \<Rightarrow> bytes \<Rightarrow> error + (XRow \<times> nat)" where
  "DecodeXRowInto ip b =
     (if length b = 0 then Inl [Block ErrEmptyXRowInput]
      else (case readMPMapLen b of Inl e \<Rightarrow> Inl e
        | Inr (entries, hdrOff) \<Rightarrow>
            (case xrow_hdr_loop ip b entries hdrOff XRow0 False of Inl e \<Rightarrow> Inl e
             | Inr (r, sawTSN, off) \<Rightarrow> xrow_body ip b off (xrow_infer ip sawTSN r))))"

definition DecodeXRow :: "iproto \<Rightarrow> bytes \<Rightarrow> error + (XRow \<times> nat)" where
  "DecodeXRow ip b = (case DecodeXRowInto ip b of Inl e \<Rightarrow> Inl e | Inr (r, n) \<Rightarrow> Inr (r, n))"

section \<open>The header round trip\<close>

text \<open>The bytes of a list of header entries, keys with the bytes of their values.\<close>

definition hdr_bytes :: "(64 word \<times> bytes) list \<Rightarrow> bytes" where
  "hdr_bytes es = concat (map (\<lambda>(k, v). appendMPUint [] k @ v) es)"

lemma hdr_bytes_simps [simp]:
  "hdr_bytes [] = []" "hdr_bytes ((k, v) # es) = appendMPUint [] k @ v @ hdr_bytes es"
  "hdr_bytes (es @ fs) = hdr_bytes es @ hdr_bytes fs"
  by (simp_all add: hdr_bytes_def)

definition hdr_vals :: "hdr_entry list \<Rightarrow> (64 word \<times> bytes) list" where
  "hdr_vals hdr = map (\<lambda>(k, fn). (k, fn [])) hdr"

definition appends :: "hdr_entry \<Rightarrow> bool" where
  "appends e \<longleftrightarrow> (\<forall>b. snd e b = b @ snd e [])"

lemma appends_uint [simp]: "appends (k, \<lambda>b. appendMPUint b v)"
  by (simp add: appends_def) (metis appendMPUint_append)

lemma appends_double [simp]: "appends (k, \<lambda>b. appendMPDouble b v)"
  by (simp add: appends_def appendMPDouble_def)

lemma foldl_hdr: "\<forall>e\<in>set hdr. appends e \<Longrightarrow>
  foldl (\<lambda>buf (k, fn). fn (appendMPUint buf k)) buf hdr = buf @ hdr_bytes (hdr_vals hdr)"
proof (induction hdr arbitrary: buf)
  case (Cons e hdr)
  obtain k fn where e: "e = (k, fn)" by (cases e)
  then have "fn (appendMPUint buf k) = buf @ appendMPUint [] k @ fn []"
    using Cons.prems appendMPUint_append [of buf k]
    by (metis (no_types, lifting) append_assoc appends_def list.set_intros(1) snd_conv)
  then show ?case using Cons e by (simp add: hdr_vals_def)
qed (simp add: hdr_vals_def)

lemma xrow_hdr_appends: "\<forall>e\<in>set (xrow_hdr ip r). appends e"
  unfolding xrow_hdr_def by (simp only: set_append ball_Un) auto

lemma xrow_hdr_length: "length (xrow_hdr ip r) \<le> 10"
  unfolding xrow_hdr_def by simp

lemma appendMPMapHeader_append: "appendMPMapHeader buf n = buf @ appendMPMapHeader [] n"
  by (simp add: appendMPMapHeader_def)

definition xrow_bytes :: "iproto \<Rightarrow> XRow \<Rightarrow> bytes" where
  "xrow_bytes ip r = appendMPMapHeader [] (length (xrow_hdr ip r))
     @ hdr_bytes (hdr_vals (xrow_hdr ip r)) @ BodyRaw r"

lemma EncodeXRow_bytes: "EncodeXRow ip buf (Some r) = Inr (buf @ xrow_bytes ip r)"
  using appendMPMapHeader_append [of buf "length (xrow_hdr ip r)"]
  by (simp add: EncodeXRow_def Let_def foldl_hdr [OF xrow_hdr_appends] xrow_bytes_def)

text \<open>
  The decoder's view of such a list: \<open>hdr_steps es s s'\<close> when each entry's value, wherever it
  stands and whatever follows it, takes the loop from one row and flag to the next.
\<close>

definition entry_ok :: "iproto \<Rightarrow> 64 word \<times> bytes \<Rightarrow> XRow \<times> bool \<Rightarrow> XRow \<times> bool \<Rightarrow> bool" where
  "entry_ok ip e s s' \<longleftrightarrow> (\<forall>b off c. drop off b = snd e @ c \<longrightarrow>
     xrow_hdr_entry ip b (fst e) off (fst s) (snd s) = Inr (fst s', snd s', off + length (snd e)))"

fun hdr_steps :: "iproto \<Rightarrow> (64 word \<times> bytes) list \<Rightarrow> XRow \<times> bool \<Rightarrow> XRow \<times> bool \<Rightarrow> bool" where
  "hdr_steps ip [] s s' \<longleftrightarrow> s' = s"
| "hdr_steps ip (e # es) s s' \<longleftrightarrow> (\<exists>s1. entry_ok ip e s s1 \<and> hdr_steps ip es s1 s')"

lemma hdr_steps_append:
  "hdr_steps ip es s s1 \<Longrightarrow> hdr_steps ip fs s1 s2 \<Longrightarrow> hdr_steps ip (es @ fs) s s2"
  by (induction es arbitrary: s) auto

lemma xrow_hdr_loop_steps:
  assumes "hdr_steps ip es (r, saw) (r', saw')" and "drop off b = hdr_bytes es @ c"
  shows "xrow_hdr_loop ip b (length es) off r saw = Inr (r', saw', off + length (hdr_bytes es))"
  using assms
proof (induction es arbitrary: off r saw)
  case (Cons e es)
  obtain k v where e: "e = (k, v)" by (cases e)
  from Cons.prems(1) obtain r1 saw1 where s1: "entry_ok ip e (r, saw) (r1, saw1)"
    and rest: "hdr_steps ip es (r1, saw1) (r', saw')" by auto
  let ?n = "length (appendMPUint [] k)"
  have d: "drop off b = appendMPUint [] k @ v @ hdr_bytes es @ c"
    using Cons.prems(2) e by simp
  then have key: "readMPUint (drop off b) = Inr (k, ?n)"
    by (simp add: mpuint_codec.dec_enc)
  have dv: "drop (off + ?n) b = v @ hdr_bytes es @ c"
    using d by (metis append_eq_conv_conj drop_drop add.commute)
  then have "drop (off + ?n + length v) b = hdr_bytes es @ c"
    by (metis append_eq_conv_conj drop_drop add.commute)
  from Cons.IH [OF rest this] s1 dv show ?case
    by (simp add: e key entry_ok_def add.assoc)
qed simp

section \<open>The ten header keys\<close>

definition entry_if :: "bool \<Rightarrow> 64 word \<Rightarrow> bytes \<Rightarrow> (64 word \<times> bytes) list" where
  "entry_if c k v = (if c then [(k, v)] else [])"

lemma hdr_vals_simps:
  "hdr_vals (if c then [(k, fn)] else []) = entry_if c k (fn [])"
  "hdr_vals [(k, fn)] = entry_if True k (fn [])"
  "hdr_vals (a @ b) = hdr_vals a @ hdr_vals b"
  by (simp_all add: hdr_vals_def entry_if_def)

text \<open>The presence bit a key adds.\<close>

definition pbit :: "iproto \<Rightarrow> bool \<Rightarrow> iproto_const \<Rightarrow> Present" where
  "pbit ip c k = (if c then present_bit ip k else 0)"

lemma header_keys_eq:
  assumes "iproto_ok ip" "a \<in> set header_keys" "b \<in> set header_keys"
  shows "ip a = ip b \<longleftrightarrow> a = b"
  using assms inj_on_eq_iff [of ip "set header_keys" a b] by (simp add: iproto_ok_def distinct_map)

lemmas hdr_step_simps = entry_if_def pbit_def entry_ok_def xrow_hdr_entry_def Let_def header_keys_eq
  header_keys_def Present_defs hdr_uint_def mpuint_codec.dec_enc mpdouble_codec.dec_enc

lemma steps_type: "iproto_ok ip \<Longrightarrow> hdr_steps ip (entry_if c (ip IPROTO_REQUEST_TYPE) (appendMPUint [] v)) (r, saw)
    (r\<lparr>Type := (if c then v else Type r), Present := Present r OR pbit ip c IPROTO_REQUEST_TYPE\<rparr>, saw)"
  by (cases c) (simp_all add: hdr_step_simps)

lemma steps_sync: "iproto_ok ip \<Longrightarrow> hdr_steps ip (entry_if c (ip IPROTO_SYNC) (appendMPUint [] v)) (r, saw)
    (r\<lparr>Sync := (if c then v else Sync r), Present := Present r OR pbit ip c IPROTO_SYNC\<rparr>, saw)"
  by (cases c) (simp_all add: hdr_step_simps)

lemma steps_schema: "iproto_ok ip \<Longrightarrow> hdr_steps ip (entry_if c (ip IPROTO_SCHEMA_VERSION) (appendMPUint [] v)) (r, saw)
    (r\<lparr>SchemaVersion := (if c then v else SchemaVersion r), Present := Present r OR pbit ip c IPROTO_SCHEMA_VERSION\<rparr>, saw)"
  by (cases c) (simp_all add: hdr_step_simps)

lemma steps_replica: "iproto_ok ip \<Longrightarrow> hdr_steps ip (entry_if c (ip IPROTO_REPLICA_ID) (appendMPUint [] v)) (r, saw)
    (r\<lparr>ReplicaID := (if c then ucast v else ReplicaID r), Present := Present r OR pbit ip c IPROTO_REPLICA_ID\<rparr>, saw)"
  by (cases c) (simp_all add: hdr_step_simps)

lemma steps_group: "iproto_ok ip \<Longrightarrow> hdr_steps ip (entry_if c (ip IPROTO_GROUP_ID) (appendMPUint [] v)) (r, saw)
    (r\<lparr>GroupID := (if c then ucast v else GroupID r), Present := Present r OR pbit ip c IPROTO_GROUP_ID\<rparr>, saw)"
  by (cases c) (simp_all add: hdr_step_simps)

lemma steps_lsn: "iproto_ok ip \<Longrightarrow> hdr_steps ip (entry_if c (ip IPROTO_LSN) (appendMPUint [] v)) (r, saw)
    (r\<lparr>LSN := (if c then v else LSN r), Present := Present r OR pbit ip c IPROTO_LSN\<rparr>, saw)"
  by (cases c) (simp_all add: hdr_step_simps)

lemma steps_timestamp: "iproto_ok ip \<Longrightarrow> hdr_steps ip (entry_if c (ip IPROTO_TIMESTAMP) (appendMPDouble [] v)) (r, saw)
    (r\<lparr>Timestamp := (if c then v else Timestamp r), Present := Present r OR pbit ip c IPROTO_TIMESTAMP\<rparr>, saw)"
  by (cases c) (simp_all add: hdr_step_simps)

lemma steps_tsn: "iproto_ok ip \<Longrightarrow> hdr_steps ip (entry_if c (ip IPROTO_TSN) (appendMPUint [] v)) (r, saw)
    (r\<lparr>TSN := (if c then LSN r - v else TSN r), Present := Present r OR pbit ip c IPROTO_TSN\<rparr>, saw \<or> c)"
  by (cases c) (auto simp: hdr_step_simps)

lemma steps_stream: "iproto_ok ip \<Longrightarrow> hdr_steps ip (entry_if c (ip IPROTO_STREAM_ID) (appendMPUint [] v)) (r, saw)
    (r\<lparr>StreamID := (if c then v else StreamID r), Present := Present r OR pbit ip c IPROTO_STREAM_ID\<rparr>, saw)"
  by (cases c) (simp_all add: hdr_step_simps)

lemma steps_flags: "iproto_ok ip \<Longrightarrow> hdr_steps ip (entry_if c (ip IPROTO_FLAGS) (appendMPUint [] v)) (r, saw)
    (r\<lparr>Flags := (if c then v else Flags r), Present := Present r OR pbit ip c IPROTO_FLAGS\<rparr>, saw)"
  by (cases c) (simp_all add: hdr_step_simps)

lemmas hdr_chain = steps_type steps_sync steps_schema steps_replica steps_group steps_lsn
  steps_timestamp steps_tsn steps_stream steps_flags

section \<open>What an encoded row decodes to\<close>

definition emits_tsn :: "iproto \<Rightarrow> XRow \<Rightarrow> bool" where
  "emits_tsn ip r \<longleftrightarrow> TSN r \<noteq> 0 \<and> (TSN r \<noteq> LSN r \<or> \<not> IsCommit ip r)"

definition xrow_present :: "iproto \<Rightarrow> XRow \<Rightarrow> Present" where
  "xrow_present ip r = pbit ip True IPROTO_REQUEST_TYPE OR pbit ip (Sync r \<noteq> 0) IPROTO_SYNC
     OR pbit ip (SchemaVersion r \<noteq> 0) IPROTO_SCHEMA_VERSION OR pbit ip (ReplicaID r \<noteq> 0) IPROTO_REPLICA_ID
     OR pbit ip (GroupID r \<noteq> 0) IPROTO_GROUP_ID OR pbit ip (LSN r \<noteq> 0) IPROTO_LSN
     OR pbit ip (float_nonzero (Timestamp r)) IPROTO_TIMESTAMP OR pbit ip (emits_tsn ip r) IPROTO_TSN
     OR pbit ip (StreamID r \<noteq> 0) IPROTO_STREAM_ID OR pbit ip (flagsToEncode ip r \<noteq> 0) IPROTO_FLAGS"

definition hdr_result :: "iproto \<Rightarrow> XRow \<Rightarrow> XRow" where
  "hdr_result ip r = r\<lparr>TSN := (if emits_tsn ip r then TSN r else 0),
     Timestamp := (if float_nonzero (Timestamp r) then Timestamp r else 0),
     Flags := flagsToEncode ip r, BodyRaw := [], Present := xrow_present ip r\<rparr>"

lemma ucast32_back: "ucast (ucast (x :: uint32) :: uint64) = x"
proof (rule ucast_ucast_small)
  have "unat x < 2 ^ LENGTH(32)" by (rule unsigned_less)
  then show "unat x < 2 ^ LENGTH(64)" by simp
qed

lemma xrow_hdr_steps:
  assumes "iproto_ok ip"
  shows "hdr_steps ip (hdr_vals (xrow_hdr ip r)) (XRow0, False) (hdr_result ip r, emits_tsn ip r)"
proof -
  note chain = hdr_chain [OF assms]
  have "\<exists>s. hdr_steps ip (hdr_vals (xrow_hdr ip r)) (XRow0, False) s \<and> s = (hdr_result ip r, emits_tsn ip r)"
    unfolding xrow_hdr_def hdr_vals_simps
    apply (intro exI conjI)
     apply (rule hdr_steps_append, rule chain)+
     apply (rule chain)
    by (simp add: XRow0_def hdr_result_def xrow_present_def emits_tsn_def ucast32_back or.assoc)
  then show ?thesis by blast
qed


text \<open>
  The row a reader gets back: the zero TSN of a row that never was given one becomes its LSN with
  the commit flag set, a negative zero timestamp loses its sign, and the presence bits are those
  of the keys the encoder wrote.
\<close>

definition xrow_canon :: "iproto \<Rightarrow> XRow \<Rightarrow> XRow" where
  "xrow_canon ip r = r\<lparr>TSN := (if TSN r = 0 then LSN r else TSN r),
     Flags := (if TSN r = 0 then Flags r OR ip IPROTO_FLAG_COMMIT else Flags r),
     Timestamp := (if float_nonzero (Timestamp r) then Timestamp r else 0),
     Present := xrow_present ip r\<rparr>"

text \<open>
  A body the decoder can tell from the next row: none for a NOP row, one msgpack value for any
  other row, or none when the row ends its payload (\<open>final\<close>).
\<close>

definition body_ok :: "iproto \<Rightarrow> bool \<Rightarrow> XRow \<Rightarrow> bool" where
  "body_ok ip final r \<longleftrightarrow> (if Type r = ip IPROTO_NOP then BodyRaw r = []
     else mp_value (BodyRaw r) \<or> (final \<and> BodyRaw r = []))"

lemma commit_bit:
  fixes f c :: "64 word"
  assumes "c = 1"
  shows "f AND NOT c OR c = f OR c" "f AND c \<noteq> 0 \<Longrightarrow> f OR c = f" "f AND c = 0 \<Longrightarrow> f AND NOT c = f"
proof -
  show "f AND NOT c OR c = f OR c"
    by (rule bit_word_eqI) (auto simp: bit_simps)
  show "f AND c \<noteq> 0 \<Longrightarrow> f OR c = f"
    by (rule bit_word_eqI) (auto simp: assms bit_simps and_one_eq odd_iff_mod_2_eq_one bit_0)
  show "f AND c = 0 \<Longrightarrow> f AND NOT c = f"
    by (rule bit_word_eqI) (auto simp: assms bit_simps and_one_eq bit_0 even_iff_mod_2_eq_zero)
qed

lemma infer_hdr_result:
  assumes "iproto_ok ip"
  shows "(xrow_infer ip (emits_tsn ip r) (hdr_result ip r))\<lparr>BodyRaw := BodyRaw r\<rparr> = xrow_canon ip r"
proof -
  have "ip IPROTO_FLAG_COMMIT = 1" using assms by (simp add: iproto_ok_def)
  note c = commit_bit [OF this]
  consider "TSN r = 0" | "TSN r \<noteq> 0" "TSN r = LSN r" "IsCommit ip r"
    | "TSN r \<noteq> 0" "TSN r = LSN r" "\<not> IsCommit ip r" | "TSN r \<noteq> 0" "TSN r \<noteq> LSN r" by blast
  then show ?thesis
    by cases (simp_all add: xrow_infer_def hdr_result_def xrow_canon_def emits_tsn_def IsCommit_def
        flagsToEncode_def c Let_def)
qed

lemma Type_infer [simp]: "Type (xrow_infer ip s (hdr_result ip r)) = Type r"
  by (simp add: xrow_infer_def hdr_result_def)

lemma EncodeXRow_DecodeXRow:
  assumes "iproto_ok ip" and "body_ok ip (c = []) r"
  shows "DecodeXRow ip (xrow_bytes ip r @ c) = Inr (xrow_canon ip r, length (xrow_bytes ip r))"
proof -
  let ?hdr = "xrow_hdr ip r" and ?b = "xrow_bytes ip r @ c"
  let ?m = "appendMPMapHeader [] (length ?hdr)" and ?h = "hdr_bytes (hdr_vals ?hdr)"
  let ?r = "xrow_infer ip (emits_tsn ip r) (hdr_result ip r)"
  have "length ?hdr < 2 ^ 32" using xrow_hdr_length [of ip r] by simp
  then have m: "readMPMapLen ?b = Inr (length ?hdr, length ?m)"
    using mpmap_codec.dec_enc [of "length ?hdr" "?h @ BodyRaw r @ c"] by (simp add: xrow_bytes_def)
  have "drop (length ?m) ?b = ?h @ BodyRaw r @ c" by (simp add: xrow_bytes_def)
  from xrow_hdr_loop_steps [OF xrow_hdr_steps [OF assms(1)] this]
  have l: "xrow_hdr_loop ip ?b (length ?hdr) (length ?m) XRow0 False
      = Inr (hdr_result ip r, emits_tsn ip r, length ?m + length ?h)" by (simp add: hdr_vals_def)
  have d: "drop (length ?m + length ?h) ?b = BodyRaw r @ c" by (simp add: xrow_bytes_def)
  have body: "xrow_body ip ?b (length ?m + length ?h) ?r
      = Inr (?r\<lparr>BodyRaw := BodyRaw r\<rparr>, length (xrow_bytes ip r))"
  proof (cases "Type r = ip IPROTO_NOP \<or> BodyRaw r = []")
    case True
    then show ?thesis using assms(2) mp_value_nonempty [of "[]"]
      by (auto simp: xrow_body_def body_ok_def xrow_bytes_def)
  next
    case False
    then have v: "mp_value (BodyRaw r)" using assms(2) by (auto simp: body_ok_def split: if_splits)
    have "\<not> length ?b \<le> length ?m + length ?h" using False by (simp add: xrow_bytes_def)
    then show ?thesis using False skipMP_value [OF v, of c]
      by (simp add: xrow_body_def d subslice_def xrow_bytes_def)
  qed
  have "?b \<noteq> []" using m by (auto simp: readMPMapLen_def)
  then show ?thesis
    by (simp add: DecodeXRow_def DecodeXRowInto_def m l body infer_hdr_result [OF assms(1)])
qed

section \<open>Presence bits\<close>

lemma bit_present:
  assumes "iproto_ok ip" "k \<in> set header_keys"
  shows "bit (present_bit ip k) n \<longleftrightarrow> n = unat (ip k)"
proof -
  have "unat (ip k) < 32" using assms by (simp add: iproto_ok_def word_less_nat_alt)
  then show ?thesis by (auto simp: present_bit_def bit_simps)
qed

lemma has_bit:
  assumes "iproto_ok ip" "k \<in> set header_keys"
  shows "x AND present_bit ip k \<noteq> 0 \<longleftrightarrow> bit x (unat (ip k))"
proof -
  have "unat (ip k) < 32" using assms by (simp add: iproto_ok_def word_less_nat_alt)
  then have "x AND present_bit ip k \<noteq> 0 \<longleftrightarrow> (\<exists>n<32. bit x n \<and> n = unat (ip k))"
    using bit_eq_iff [of "x AND present_bit ip k" 0] by (simp add: bit_and_iff bit_present [OF assms])
  then show ?thesis using \<open>unat (ip k) < 32\<close> by blast
qed

lemma bit_pbit:
  assumes "iproto_ok ip" "k \<in> set header_keys" "k' \<in> set header_keys"
  shows "bit (pbit ip c k') (unat (ip k)) \<longleftrightarrow> c \<and> k' = k"
  using assms header_keys_eq [OF assms(1,3,2)] by (auto simp: pbit_def bit_present word_unat_eq_iff)

lemma Has_xrow_canon:
  assumes "iproto_ok ip"
  shows "HasType ip (xrow_canon ip r)"
    "HasSync ip (xrow_canon ip r) \<longleftrightarrow> Sync r \<noteq> 0"
    "HasReplicaID ip (xrow_canon ip r) \<longleftrightarrow> ReplicaID r \<noteq> 0"
    "HasLSN ip (xrow_canon ip r) \<longleftrightarrow> LSN r \<noteq> 0"
    "HasTimestamp ip (xrow_canon ip r) \<longleftrightarrow> float_nonzero (Timestamp r)"
    "HasSchemaVersion ip (xrow_canon ip r) \<longleftrightarrow> SchemaVersion r \<noteq> 0"
    "HasGroupID ip (xrow_canon ip r) \<longleftrightarrow> GroupID r \<noteq> 0"
    "HasTSN ip (xrow_canon ip r) \<longleftrightarrow> emits_tsn ip r"
    "HasFlags ip (xrow_canon ip r) \<longleftrightarrow> flagsToEncode ip r \<noteq> 0"
    "HasStreamID ip (xrow_canon ip r) \<longleftrightarrow> StreamID r \<noteq> 0"
  using assms
  by (simp_all add: Has_defs Present_defs xrow_canon_def xrow_present_def has_bit bit_or_iff bit_pbit
      header_keys_def)

section \<open>Bounds\<close>

lemma xrow_hdr_entry_off:
  "xrow_hdr_entry ip b k off r s = Inr (r', s', off') \<Longrightarrow> off \<le> length b \<Longrightarrow> off \<le> off' \<and> off' \<le> length b"
  by (auto simp: xrow_hdr_entry_def hdr_uint_def Let_def split: if_splits sum.splits prod.splits
      dest!: mpuint.dec_off_le mpdouble.dec_off_le skipMP_le)

lemma xrow_hdr_loop_off:
  "xrow_hdr_loop ip b k off r s = Inr (r', s', off') \<Longrightarrow> off \<le> length b \<Longrightarrow> off \<le> off' \<and> off' \<le> length b"
proof (induction k arbitrary: off r s)
  case (Suc k)
  then obtain key n r1 s1 off1 where key: "readMPUint (drop off b) = Inr (key, n)"
    and entry: "xrow_hdr_entry ip b key (off + n) r s = Inr (r1, s1, off1)"
    and rest: "xrow_hdr_loop ip b k off1 r1 s1 = Inr (r', s', off')"
    by (auto split: sum.splits prod.splits)
  from mpuint.dec_off_le [OF key Suc.prems(2)] have n: "off + n \<le> length b" .
  from xrow_hdr_entry_off [OF entry n] Suc.IH [OF rest] show ?case by simp
qed simp

lemma DecodeXRow_bounds:
  assumes "DecodeXRow ip b = Inr (r, n)"
  shows "0 < n \<and> n \<le> length b"
proof -
  from assms obtain k h r1 s off where m: "readMPMapLen b = Inr (k, h)"
    and l: "xrow_hdr_loop ip b k h XRow0 False = Inr (r1, s, off)"
    and body: "xrow_body ip b off (xrow_infer ip s r1) = Inr (r, n)"
    by (auto simp: DecodeXRow_def DecodeXRowInto_def split: sum.splits prod.splits if_splits)
  have h: "0 < h" "h \<le> length b" using mpmap.dec_pos [OF m] mpmap.dec_le [OF m] .
  from xrow_hdr_loop_off [OF l h(2)] body h(1) show ?thesis
    by (auto simp: xrow_body_def split: if_splits sum.splits dest: skipMP_le)
qed

section \<open>The documented protocol numbers\<close>

text \<open>An instance of the parameter with the numbers of the IPROTO documentation, for concrete rows.\<close>

definition iproto_numbers :: iproto where
  "iproto_numbers k = (case k of
     IPROTO_REQUEST_TYPE \<Rightarrow> 0x00 | IPROTO_SYNC \<Rightarrow> 0x01 | IPROTO_REPLICA_ID \<Rightarrow> 0x02 | IPROTO_LSN \<Rightarrow> 0x03
   | IPROTO_TIMESTAMP \<Rightarrow> 0x04 | IPROTO_SCHEMA_VERSION \<Rightarrow> 0x05 | IPROTO_GROUP_ID \<Rightarrow> 0x07
   | IPROTO_TSN \<Rightarrow> 0x08 | IPROTO_FLAGS \<Rightarrow> 0x09 | IPROTO_STREAM_ID \<Rightarrow> 0x0a
   | IPROTO_FLAG_COMMIT \<Rightarrow> 0x01 | IPROTO_NOP \<Rightarrow> 12
   | IPROTO_INSERT \<Rightarrow> 2 | IPROTO_REPLACE \<Rightarrow> 3 | IPROTO_DELETE \<Rightarrow> 5 | IPROTO_UPSERT \<Rightarrow> 9
   | IPROTO_SPACE_ID \<Rightarrow> 0x10 | IPROTO_INDEX_ID \<Rightarrow> 0x11 | IPROTO_INDEX_BASE \<Rightarrow> 0x15
   | IPROTO_KEY \<Rightarrow> 0x20 | IPROTO_TUPLE \<Rightarrow> 0x21 | IPROTO_OPS \<Rightarrow> 0x28 | IPROTO_TUPLE_META \<Rightarrow> 0x2a
   | IPROTO_OLD_TUPLE \<Rightarrow> 0x2c | IPROTO_NEW_TUPLE \<Rightarrow> 0x2d | IPROTO_ARROW \<Rightarrow> 0x36
   | IPROTO_VCLOCK \<Rightarrow> 0x26 | IPROTO_TERM \<Rightarrow> 0x53
   | IPROTO_RAFT_TERM \<Rightarrow> 0 | IPROTO_RAFT_VOTE \<Rightarrow> 1 | IPROTO_RAFT_STATE \<Rightarrow> 2 | IPROTO_RAFT_VCLOCK \<Rightarrow> 3
   | IPROTO_RAFT_LEADER_ID \<Rightarrow> 4 | IPROTO_RAFT_IS_LEADER_SEEN \<Rightarrow> 5
   | VY_INDEX_RUN_INFO \<Rightarrow> 100 | VY_INDEX_PAGE_INFO \<Rightarrow> 101 | VY_RUN_ROW_INDEX \<Rightarrow> 102)"

lemma iproto_numbers_ok: "iproto_ok iproto_numbers"
  by (simp add: iproto_ok_def header_keys_def iproto_numbers_def)

text \<open>A row of a two-row transaction, with the body \<open>{0x10: 5}\<close>, and a NOP row.\<close>

definition sample_row :: XRow where
  "sample_row = XRow0\<lparr>Type := 2, ReplicaID := 1, LSN := 8, TSN := 7, Timestamp := 0x3ff8000000000000,
     Flags := 1, BodyRaw := [0x81, 0x10, 0x05]\<rparr>"

definition sample_nop :: XRow where
  "sample_nop = XRow0\<lparr>Type := 12, LSN := 9, TSN := 9, Flags := 1\<rparr>"

lemma mp_value_skip: "skipMP b = Inr (length b) \<Longrightarrow> mp_value b"
  by (simp add: skipMP_iff)

lemma sample_body: "mp_value [0x81, 0x10, 0x05]"
  by (rule mp_value_skip) code_simp

lemma sample_rows_ok: "body_ok iproto_numbers False sample_row" "body_ok iproto_numbers False sample_nop"
  using sample_body by (simp_all add: body_ok_def sample_row_def sample_nop_def XRow0_def iproto_numbers_def)

section \<open>Properties\<close>

text \<open>
  C5: every row with a body that the decoder can delimit is encoded without an error, and decoding
  the bytes, whatever follows them, consumes exactly the encoded bytes and gives the row back in
  canonical form; the presence bits then tell exactly which keys the encoder wrote.
\<close>

theorem xrow_roundtrip:
  assumes "iproto_ok ip" and "body_ok ip (c = []) r"
  shows "\<exists>b. EncodeXRow ip [] (Some r) = Inr b
    \<and> DecodeXRow ip (b @ c) = Inr (xrow_canon ip r, length b)
    \<and> (HasLSN ip (xrow_canon ip r) \<longleftrightarrow> LSN r \<noteq> 0) \<and> (HasTSN ip (xrow_canon ip r) \<longleftrightarrow> emits_tsn ip r)"
  using EncodeXRow_bytes [of ip "[]" r] EncodeXRow_DecodeXRow [OF assms] Has_xrow_canon [OF assms(1)]
  by simp

theorem xrow_roundtrip_witness:
  "\<exists>b. EncodeXRow iproto_numbers [] (Some sample_row) = Inr b
    \<and> DecodeXRow iproto_numbers (b @ [0x80]) = Inr (xrow_canon iproto_numbers sample_row, length b)
    \<and> (HasLSN iproto_numbers (xrow_canon iproto_numbers sample_row) \<longleftrightarrow> LSN sample_row \<noteq> 0)
    \<and> (HasTSN iproto_numbers (xrow_canon iproto_numbers sample_row) \<longleftrightarrow> emits_tsn iproto_numbers sample_row)"
  by (rule xrow_roundtrip) (use iproto_numbers_ok sample_rows_ok in simp_all)

end
