(* ===== verification/Crc32c.thy ===== *)
theory Crc32c
  imports Prelude
begin

unbundle bit_operations_syntax

text \<open>
  \<^verbatim>\<open>format/crc32c.go\<close>: the CRC-32C of a block payload, computed by the table-driven
  \<^verbatim>\<open>hash/crc32\<close> of the standard library with both inversions cancelled. It equals the bit-serial
  division of the Castagnoli polynomial with initial value 0 and no final inversion, and it
  detects every change confined to four consecutive bytes.
\<close>

section \<open>The standard library's table-driven update\<close>

definition Castagnoli :: uint32 where
  "Castagnoli = 0x82f63b78"

definition crc_shift :: "uint32 \<Rightarrow> uint32" where
  "crc_shift c = (if bit c 0 then drop_bit 1 c XOR Castagnoli else drop_bit 1 c)"

definition crc32cTable :: "byte \<Rightarrow> uint32" where
  "crc32cTable i = (crc_shift ^^ 8) (ucast i)"

definition crc_table_step :: "(byte \<Rightarrow> uint32) \<Rightarrow> uint32 \<Rightarrow> byte \<Rightarrow> uint32" where
  "crc_table_step tab c v = tab (ucast c XOR v) XOR drop_bit 8 c"

definition crc32_Update :: "uint32 \<Rightarrow> (byte \<Rightarrow> uint32) \<Rightarrow> bytes \<Rightarrow> uint32" where
  "crc32_Update crc tab p = NOT (foldl (crc_table_step tab) (NOT crc) p)"

definition CRC32C :: "bytes \<Rightarrow> uint32" where
  "CRC32C data = crc32_Update (NOT 0) crc32cTable data XOR NOT 0"

section \<open>The bit-serial reference\<close>

definition crc_byte :: "uint32 \<Rightarrow> byte \<Rightarrow> uint32" where
  "crc_byte c v = (crc_shift ^^ 8) (c XOR ucast v)"

definition CRC32C_reference :: "bytes \<Rightarrow> uint32" where
  "CRC32C_reference data = foldl crc_byte 0 data"

lemma crc_shift_xor: "crc_shift (a XOR b) = crc_shift a XOR crc_shift b"
  by (rule bit_word_eqI) (auto simp: crc_shift_def bit_simps)

lemma crc_shifts_xor: "(crc_shift ^^ n) (a XOR b) = (crc_shift ^^ n) a XOR (crc_shift ^^ n) b"
  by (induction n) (simp_all add: crc_shift_xor)

lemma crc_shift_0 [simp]: "crc_shift 0 = 0"
  by (simp add: crc_shift_def)

lemma crc_shifts_0 [simp]: "(crc_shift ^^ n) 0 = 0"
  by (induction n) simp_all

lemma crc_shift_eq_0: "crc_shift a = 0 \<Longrightarrow> a = 0"
proof (rule ccontr)
  assume h: "crc_shift a = 0" and "a \<noteq> 0"
  have top: "bit (crc_shift a) 31 = bit a 0"
    by (auto simp: crc_shift_def bit_simps Castagnoli_def dest: bit_imp_le_length)
  with h have "\<not> bit a 0" by simp
  with h have "drop_bit 1 a = 0" by (simp add: crc_shift_def)
  have "bit a n = bit 0 n" for n
    using \<open>\<not> bit a 0\<close> \<open>drop_bit 1 a = 0\<close> bit_drop_bit_eq [of 1 a]
    by (cases n) (auto simp: fun_eq_iff)
  then have "a = 0" by (intro bit_word_eqI)
  with \<open>a \<noteq> 0\<close> show False by simp
qed

lemma crc_shifts_eq_0: "(crc_shift ^^ n) a = 0 \<Longrightarrow> a = 0"
  by (induction n) (auto dest: crc_shift_eq_0)

lemma word_xor_eq_0: "a XOR b = 0 \<longleftrightarrow> a = (b :: 'a::len word)"
  by (auto simp: bit_eq_iff bit_xor_iff)

lemma word_xor_cancel: "a XOR c = b XOR c \<longleftrightarrow> a = b" "c XOR a = c XOR b \<longleftrightarrow> a = (b :: 'a::len word)"
  by (auto simp: bit_eq_iff bit_xor_iff)

lemma crc_shifts_inj: "(crc_shift ^^ n) a = (crc_shift ^^ n) b \<Longrightarrow> a = b"
  using crc_shifts_eq_0 [of n "a XOR b"] by (simp add: crc_shifts_xor word_xor_eq_0)

text \<open>Shifting out zero bits does not touch the polynomial.\<close>

lemma crc_shifts_push:
  "n + k \<le> 32 \<Longrightarrow> w = take_bit k w \<Longrightarrow> (crc_shift ^^ n) (push_bit n w) = w"
proof (induction n)
  case 0
  then show ?case by simp
next
  case (Suc n)
  have "crc_shift (push_bit (Suc n) w) = push_bit n w"
  proof -
    have low: "\<not> bit (push_bit (Suc n) w) 0" by (simp only: bit_push_bit_iff) simp
    have "drop_bit 1 (push_bit (Suc n) w) = push_bit n w"
    proof (rule bit_word_eqI)
      fix i assume "i < LENGTH(32)"
      have "Suc i < 32" if "bit w (i - n)" "n \<le> i"
        using that Suc.prems by (metis Suc_eq_plus1 add.commute add.left_commute bit_take_bit_iff
            le_add_diff_inverse less_le_trans nat_add_left_cancel_less plus_1_eq_Suc)
      then show "bit (drop_bit 1 (push_bit (Suc n) w)) i = bit (push_bit n w) i"
        by (auto simp: bit_drop_bit_eq bit_push_bit_iff dest: bit_imp_le_length simp del: push_bit_Suc)
    qed
    with low show ?thesis by (simp add: crc_shift_def)
  qed
  with Suc show ?case by (simp add: funpow_swap1)
qed

lemma byte_word_take: "ucast (v :: byte) = take_bit 8 (ucast v :: uint32)"
  by (rule bit_word_eqI) (auto simp: bit_simps dest: bit_imp_le_length)

lemma crc_byte_table: "crc_table_step crc32cTable c v = crc_byte c v"
proof -
  have "c XOR ucast v = ucast (ucast c XOR v) XOR push_bit 8 (drop_bit 8 c)"
    by (rule bit_word_eqI) (auto simp: bit_simps dest: bit_imp_le_length)
  moreover have "(crc_shift ^^ 8) (push_bit 8 (drop_bit 8 c)) = drop_bit 8 c"
    by (rule crc_shifts_push [of 8 24]) (simp, rule bit_word_eqI, auto simp: bit_simps dest: bit_imp_le_length)
  ultimately show ?thesis
    by (simp add: crc_table_step_def crc32cTable_def crc_byte_def crc_shifts_xor)
qed

lemma CRC32C_eq_reference: "CRC32C data = CRC32C_reference data"
proof -
  have "crc_table_step crc32cTable = crc_byte"
    by (intro ext) (rule crc_byte_table)
  then show ?thesis
    by (simp add: CRC32C_def crc32_Update_def CRC32C_reference_def)
qed

section \<open>Error detection\<close>

fun le_word :: "bytes \<Rightarrow> uint32" where
  "le_word [] = 0"
| "le_word (v # vs) = ucast v XOR push_bit 8 (le_word vs)"

lemma le_word_bits: "bit (le_word vs) n \<Longrightarrow> n < 8 * length vs"
proof (induction vs arbitrary: n)
  case Nil
  then show ?case by simp
next
  case (Cons v vs)
  then have "bit (ucast v :: uint32) n \<or> (8 \<le> n \<and> bit (le_word vs) (n - 8))"
    by (auto simp: bit_simps)
  then show ?case
  proof
    assume "bit (ucast v :: uint32) n"
    then show ?thesis by (auto simp: bit_simps dest: bit_imp_le_length)
  next
    assume "8 \<le> n \<and> bit (le_word vs) (n - 8)"
    with Cons.IH [of "n - 8"] show ?thesis by simp
  qed
qed

lemma le_word_take: "length vs \<le> k \<Longrightarrow> le_word vs = take_bit (8 * k) (le_word vs)"
  by (rule bit_word_eqI) (auto simp: bit_take_bit_iff dest: le_word_bits)

lemma le_word_inj:
  "length us = length vs \<Longrightarrow> length us \<le> 4 \<Longrightarrow> le_word us = le_word vs \<Longrightarrow> us = vs"
proof (induction us vs rule: list_induct2)
  case Nil
  then show ?case by simp
next
  case (Cons u us v vs)
  have eq: "bit (le_word (u # us)) n = bit (le_word (v # vs)) n" for n
    using Cons.prems(2) by simp
  have "u = v"
  proof (rule bit_word_eqI)
    fix n assume "n < LENGTH(8)"
    then show "bit u n = bit v n" using eq [of n] by (simp add: bit_simps)
  qed
  moreover have "le_word us = le_word vs"
  proof (rule bit_word_eqI)
    fix n
    have len: "n < 24" if "bit (le_word us) n \<or> bit (le_word vs) n"
      using that Cons.prems(1) Cons.hyps le_word_bits [of us n] le_word_bits [of vs n] by auto
    show "bit (le_word us) n = bit (le_word vs) n"
      using eq [of "n + 8"] \<open>u = v\<close> len by (auto simp: bit_simps)
  qed
  ultimately show ?case using Cons by simp
qed

text \<open>Up to four bytes are folded into the register as one little-endian word.\<close>

lemma foldl_crc_word:
  "length vs \<le> 4 \<Longrightarrow> foldl crc_byte s vs = (crc_shift ^^ (8 * length vs)) (s XOR le_word vs)"
proof (induction vs arbitrary: s)
  case Nil
  then show ?case by simp
next
  case (Cons v vs)
  let ?m = "8 * length vs"
  have push: "(crc_shift ^^ 8) (push_bit 8 (le_word vs)) = le_word vs"
    using Cons.prems by (intro crc_shifts_push [of 8 24] le_word_take [of vs 3, simplified]) simp_all
  have "foldl crc_byte s (v # vs) = (crc_shift ^^ ?m) (crc_byte s v XOR le_word vs)"
    using Cons by simp
  also have "crc_byte s v XOR le_word vs = (crc_shift ^^ 8) (s XOR le_word (v # vs))"
    unfolding crc_byte_def le_word.simps
    by (subst push [symmetric]) (simp add: crc_shifts_xor [symmetric] xor.assoc)
  finally show ?case by (simp add: funpow_add [symmetric, unfolded comp_def, THEN fun_cong] add.commute)
qed

lemma foldl_crc_inj: "foldl crc_byte a vs = foldl crc_byte b vs \<Longrightarrow> a = b"
proof (induction vs arbitrary: a b)
  case (Cons v vs)
  then have "crc_byte a v = crc_byte b v" by simp
  then have "a XOR ucast v = b XOR ucast v" unfolding crc_byte_def by (rule crc_shifts_inj)
  then show ?case by (simp add: word_xor_cancel)
qed simp

lemma CRC32C_burst:
  assumes "length u = length v" and "length u \<le> 4" and "u \<noteq> v"
  shows "CRC32C (xs @ u @ ys) \<noteq> CRC32C (xs @ v @ ys)"
proof
  assume "CRC32C (xs @ u @ ys) = CRC32C (xs @ v @ ys)"
  then have "foldl crc_byte (foldl crc_byte 0 xs) u = foldl crc_byte (foldl crc_byte 0 xs) v"
    by (simp add: CRC32C_eq_reference CRC32C_reference_def foldl_crc_inj)
  then have "(crc_shift ^^ (8 * length v)) (foldl crc_byte 0 xs XOR le_word u)
      = (crc_shift ^^ (8 * length v)) (foldl crc_byte 0 xs XOR le_word v)"
    using assms(1,2) by (simp only: foldl_crc_word)
  then have "foldl crc_byte 0 xs XOR le_word u = foldl crc_byte 0 xs XOR le_word v"
    by (rule crc_shifts_inj)
  then have "le_word u = le_word v" by (simp add: word_xor_cancel)
  with assms le_word_inj show False by blast
qed

section \<open>Properties\<close>

text \<open>
  C26: the checksum of a payload, computed with the standard library's table and the two inversions
  the code cancels, is the bit-serial CRC-32C division with initial value 0 and no final inversion.
\<close>

theorem crc32c_is_reference: "CRC32C data = CRC32C_reference data"
  by (rule CRC32C_eq_reference)

end
