(* ===== verification/TxBlock.thy ===== *)
theory TxBlock
  imports Xrow Crc32c
begin

unbundle bit_operations_syntax

text \<open>
  The tx block of \<^verbatim>\<open>format/tx.go\<close> and \<^verbatim>\<open>format/compress.go\<close>: the compression policy, the framing of a
  payload behind a fixheader with its CRC, and the decoder that checks the CRC and cuts the payload
  into rows. The zstd codec is a parameter. A block decodes to the rows it was made of, and a
  damaged payload is reported.
\<close>

section \<open>Compression\<close>

text \<open>
  The package zstd: \<open>EncodeAll level\<close> never fails, \<open>DecodeAll maxMemory\<close> may. Only what the package
  documents is assumed of it: a frame decodes to what was encoded, as long as the content is within
  the memory limit of the decoder.
\<close>

record zstd =
  EncodeAll :: "int \<Rightarrow> bytes \<Rightarrow> bytes"
  DecodeAll :: "nat \<Rightarrow> bytes \<Rightarrow> go_error + bytes"

definition zstd_ok :: "zstd \<Rightarrow> bool" where
  "zstd_ok z \<longleftrightarrow> (\<forall>lvl maxMem p. length p \<le> maxMem \<longrightarrow> DecodeAll z maxMem (EncodeAll z lvl p) = Inr p)"

record Compression =
  Disabled :: bool
  Level :: int
  Threshold :: int

definition ResolvedLevel :: "Compression \<Rightarrow> int" where
  "ResolvedLevel c = (if Level c = 0 then ZstdLevel else Level c)"

definition resolvedThreshold :: "Compression \<Rightarrow> int" where
  "resolvedThreshold c = (if Threshold c = 0 then CompressThreshold else Threshold c)"

definition Compresses :: "Compression \<Rightarrow> nat \<Rightarrow> bool" where
  "Compresses c plainLen \<longleftrightarrow> \<not> Disabled c \<and> int plainLen \<ge> resolvedThreshold c"

definition MaxDecompressedTxSize :: nat where
  "MaxDecompressedTxSize = 64 * 2 ^ 20"

definition CompressTxInto :: "zstd \<Rightarrow> bytes \<Rightarrow> int \<Rightarrow> error + bytes" where
  "CompressTxInto z payload level = Inr (EncodeAll z level payload)"

definition CompressTx :: "zstd \<Rightarrow> bytes \<Rightarrow> error + bytes" where
  "CompressTx z payload = CompressTxInto z payload ZstdLevel"

definition DecompressTx :: "zstd \<Rightarrow> bytes \<Rightarrow> error + bytes" where
  "DecompressTx z payload =
     (case DecodeAll z MaxDecompressedTxSize payload of Inl e \<Rightarrow> Inl [Go e] | Inr out \<Rightarrow> Inr out)"

section \<open>Encoding a block\<close>

record TxOptions =
  TxCompression :: Compression

primrec AppendTxBlockPayload :: "iproto \<Rightarrow> bytes \<Rightarrow> XRow list \<Rightarrow> error + bytes" where
  "AppendTxBlockPayload ip dst [] = Inr dst"
| "AppendTxBlockPayload ip dst (r # rows) =
     (case EncodeXRow ip dst (Some r) of Inl e \<Rightarrow> Inl e | Inr dst' \<Rightarrow> AppendTxBlockPayload ip dst' rows)"

definition AppendFramedBlock :: "zstd \<Rightarrow> bytes \<Rightarrow> bytes \<Rightarrow> Compression \<Rightarrow> error + bytes" where
  "AppendFramedBlock z dst plain c =
     (case (if Compresses c (length plain)
            then (case CompressTxInto z plain (ResolvedLevel c) of
                    Inl e \<Rightarrow> Inl e | Inr compressed \<Rightarrow> Inr (compressed, ZRowMarker))
            else Inr (plain, RowMarker)) of
        Inl e \<Rightarrow> Inl e
      | Inr (payload, magic) \<Rightarrow>
          (let h = \<lparr>Magic = magic, Len = of_nat (length payload), FhCRC32P = 0,
                    FhCRC32C = CRC32C payload\<rparr>
           in case EncodeFixheader (Some h) of
                Inl e \<Rightarrow> Inl e
              | Inr fh \<Rightarrow> Inr (dst @ fh @ payload)))"

definition AppendTxBlock ::
    "iproto \<Rightarrow> zstd \<Rightarrow> bytes \<Rightarrow> XRow list \<Rightarrow> TxOptions \<Rightarrow> error + bytes" where
  "AppendTxBlock ip z dst rows opts =
     (case AppendTxBlockPayload ip [] rows of Inl e \<Rightarrow> Inl e
      | Inr plain \<Rightarrow> AppendFramedBlock z dst plain (TxCompression opts))"

definition EncodeTxBlock :: "iproto \<Rightarrow> zstd \<Rightarrow> XRow list \<Rightarrow> TxOptions \<Rightarrow> error + bytes" where
  "EncodeTxBlock ip z rows opts = AppendTxBlock ip z [] rows opts"

section \<open>Cutting a payload into rows\<close>

fun split_hdr :: "iproto \<Rightarrow> bytes \<Rightarrow> nat \<Rightarrow> nat \<Rightarrow> 64 word \<Rightarrow> bool \<Rightarrow> error + (64 word \<times> bool \<times> nat)" where
  "split_hdr ip payload 0 cur rowType sawType = Inr (rowType, sawType, cur)"
| "split_hdr ip payload (Suc entries) cur rowType sawType =
     (case readMPUint (drop cur payload) of Inl e \<Rightarrow> Inl e
      | Inr (key, n) \<Rightarrow>
          if key = ip IPROTO_REQUEST_TYPE then
            (case readMPUint (drop (cur + n) payload) of Inl e \<Rightarrow> Inl e
             | Inr (t, n2) \<Rightarrow> split_hdr ip payload entries (cur + n + n2) t True)
          else
            (case skipMP (drop (cur + n) payload) of Inl e \<Rightarrow> Inl e
             | Inr n2 \<Rightarrow> split_hdr ip payload entries (cur + n + n2) rowType sawType))"

text \<open>One round of the loop: the offset behind the row that starts at \<open>off\<close>.\<close>

definition split_row :: "iproto \<Rightarrow> bytes \<Rightarrow> nat \<Rightarrow> error + nat" where
  "split_row ip payload off =
     (case readMPMapLen (drop off payload) of Inl e \<Rightarrow> Inl e
      | Inr (entries, hdrPrefix) \<Rightarrow>
          (case split_hdr ip payload entries (off + hdrPrefix) 0 False of Inl e \<Rightarrow> Inl e
           | Inr (rowType, sawType, cur) \<Rightarrow>
               if \<not> sawType then Inl [Block ErrMissingType]
               else if rowType \<noteq> ip IPROTO_NOP \<and> cur < length payload then
                 (case skipMP (drop cur payload) of Inl e \<Rightarrow> Inl e | Inr n \<Rightarrow> Inr (cur + n))
               else Inr cur))"

lemma split_hdr_off:
  "split_hdr ip p k cur t s = Inr (t', s', cur') \<Longrightarrow> cur \<le> length p \<Longrightarrow> cur \<le> cur' \<and> cur' \<le> length p"
proof (induction k arbitrary: cur t s)
  case (Suc k)
  from Suc.prems(1) obtain key n cur1 t1 s1 where key: "readMPUint (drop cur p) = Inr (key, n)"
    and rest: "split_hdr ip p k cur1 t1 s1 = Inr (t', s', cur')"
    and cur1: "\<exists>v. readMPUint (drop (cur + n) p) = Inr (v, cur1 - (cur + n)) \<and> cur + n \<le> cur1
        \<or> skipMP (drop (cur + n) p) = Inr (cur1 - (cur + n)) \<and> cur + n \<le> cur1"
    by (auto split: sum.splits prod.splits if_splits)
  have n: "cur + n \<le> length p" using mpuint.dec_off_le [OF key Suc.prems(2)] .
  with cur1 have "cur + n \<le> cur1 \<and> cur1 \<le> length p"
    by (auto dest!: mpuint.dec_le skipMP_le)
  with Suc.IH [OF rest] show ?case by simp
qed simp

lemma split_row_off:
  assumes "split_row ip p off = Inr off'" and "off \<le> length p"
  shows "off < off' \<and> off' \<le> length p"
proof -
  from assms(1) obtain k h t s cur where m: "readMPMapLen (drop off p) = Inr (k, h)"
    and l: "split_hdr ip p k (off + h) 0 False = Inr (t, s, cur)"
    and r: "off' = cur \<or> (\<exists>n. skipMP (drop cur p) = Inr n \<and> off' = cur + n)"
    by (auto simp: split_row_def split: sum.splits prod.splits if_splits)
  have "off < off + h" "off + h \<le> length p"
    using mpmap.dec_pos [OF m] mpmap.dec_off_le [OF m assms(2)] by simp_all
  with split_hdr_off [OF l] r show ?thesis by (auto dest: skipMP_le)
qed

function splitRows_loop :: "iproto \<Rightarrow> bytes \<Rightarrow> nat \<Rightarrow> bytes list \<Rightarrow> error + bytes list" where
  "splitRows_loop ip payload off out =
     (if off < length payload then
        (case split_row ip payload off of Inl e \<Rightarrow> Inl e
         | Inr off' \<Rightarrow> splitRows_loop ip payload off' (out @ [subslice payload off off']))
      else Inr out)"
  by pat_completeness auto
termination
  by (relation "measure (\<lambda>(ip, payload, off, out). length payload - off)")
    (auto dest: split_row_off)

declare splitRows_loop.simps [simp del]

definition splitRows :: "iproto \<Rightarrow> bytes \<Rightarrow> error + bytes list" where
  "splitRows ip payload = splitRows_loop ip payload 0 []"

section \<open>Decoding a block\<close>

definition DecodeTxBlock :: "iproto \<Rightarrow> zstd \<Rightarrow> bytes \<Rightarrow> error + (bytes list \<times> bytes \<times> nat)" where
  "DecodeTxBlock ip z b =
     (if length b < FixheaderSize then Inl [Block ErrShortFixheader]
      else (case DecodeFixheader (take FixheaderSize b) of Inl e \<Rightarrow> Inl e
        | Inr h \<Rightarrow>
            if Magic h = EOFMarker then Inl [Block ErrEOFMarkerBlock]
            else if unat (Len h) > length b - FixheaderSize then Inl [Block ErrShortFixheader]
            else (let onDisk = subslice b FixheaderSize (FixheaderSize + unat (Len h))
                  in if CRC32C onDisk \<noteq> FhCRC32C h then Inl [Block ErrBadCRC]
                     else (case (if Magic h = ZRowMarker then DecompressTx z onDisk else Inr onDisk) of
                             Inl e \<Rightarrow> Inl e
                           | Inr plain \<Rightarrow>
                               (case splitRows ip plain of Inl e \<Rightarrow> Inl e
                                | Inr rowSlices \<Rightarrow> Inr (rowSlices, plain, FixheaderSize + unat (Len h)))))))"

section \<open>The cut is a partition\<close>

lemma splitRows_loop_parts:
  "splitRows_loop ip p off out = Inr res \<Longrightarrow> off \<le> length p \<Longrightarrow>
    \<exists>ss. res = out @ ss \<and> concat ss = drop off p \<and> (\<forall>s\<in>set ss. s \<noteq> [])"
proof (induction ip p off out rule: splitRows_loop.induct)
  case (1 ip p off out)
  show ?case
  proof (cases "off < length p")
    case False
    with "1.prems" show ?thesis by (simp add: splitRows_loop.simps)
  next
    case True
    with "1.prems" obtain off' where row: "split_row ip p off = Inr off'"
      and rest: "splitRows_loop ip p off' (out @ [subslice p off off']) = Inr res"
      by (auto simp: splitRows_loop.simps [of ip p off] split: sum.splits)
    have b: "off < off'" "off' \<le> length p" using split_row_off [OF row "1.prems"(2)] by simp_all
    obtain ss where ss: "res = out @ [subslice p off off'] @ ss" "concat ss = drop off' p" "\<forall>s\<in>set ss. s \<noteq> []"
      using "1.IH" [OF True row rest b(2)] by auto
    moreover have "subslice p off off' \<noteq> []"
      using b length_slice [of p off off'] by (metis diff_is_0_eq length_0_conv min_def not_le zero_less_diff less_le_trans)
    ultimately show ?thesis
      using b drop_eq_slice_append [of off off' p] by (intro exI [of _ "subslice p off off' # ss"]) auto
  qed
qed

lemma splitRows_parts:
  "splitRows ip p = Inr ss \<Longrightarrow> concat ss = p \<and> (\<forall>s\<in>set ss. s \<noteq> [])"
  using splitRows_loop_parts [of ip p 0 "[]" ss] by (auto simp: splitRows_def)

section \<open>Cutting encoded rows\<close>

lemma split_hdr_skip:
  assumes "\<forall>e\<in>set es. fst e \<noteq> ip IPROTO_REQUEST_TYPE \<and> mp_value (snd e)" and "drop cur p = hdr_bytes es @ c"
  shows "split_hdr ip p (length es) cur t s = Inr (t, s, cur + length (hdr_bytes es))"
  using assms
proof (induction es arbitrary: cur)
  case (Cons e es)
  obtain k v where e: "e = (k, v)" by (cases e)
  let ?n = "length (appendMPUint [] k)"
  have d: "drop cur p = appendMPUint [] k @ v @ hdr_bytes es @ c" using Cons.prems(2) e by simp
  have dv: "drop (cur + ?n) p = v @ hdr_bytes es @ c"
    using d by (metis append_eq_conv_conj drop_drop add.commute)
  have dr: "drop (cur + ?n + length v) p = hdr_bytes es @ c"
    using dv by (metis append_eq_conv_conj drop_drop add.commute)
  have v: "mp_value v" "k \<noteq> ip IPROTO_REQUEST_TYPE" using Cons.prems(1) e by simp_all
  from Cons.IH [OF _ dr] Cons.prems(1) show ?case
    by (simp add: e d mpuint_codec.dec_enc v dv skipMP_value add.assoc)
qed simp

lemma appendMPDouble_value [simp]: "mp_value (appendMPDouble [] v)"
  by (rule mp_value_scalar) (simp add: appendMPDouble_def mpHead_defs)

lemma ball_entry_if: "(\<forall>e\<in>set (entry_if c k v). P e) \<longleftrightarrow> (c \<longrightarrow> P (k, v))"
  by (simp add: entry_if_def)

lemma xrow_hdr_vals:
  assumes "iproto_ok ip"
  obtains es where "hdr_vals (xrow_hdr ip r) = (ip IPROTO_REQUEST_TYPE, appendMPUint [] (Type r)) # es"
    and "\<forall>e\<in>set es. fst e \<noteq> ip IPROTO_REQUEST_TYPE \<and> mp_value (snd e)"
proof
  let ?es = "tl (hdr_vals (xrow_hdr ip r))"
  have one: "entry_if True k v = [(k, v)]" for k v by (simp add: entry_if_def)
  show "hdr_vals (xrow_hdr ip r) = (ip IPROTO_REQUEST_TYPE, appendMPUint [] (Type r)) # ?es"
    unfolding xrow_hdr_def hdr_vals_simps one by simp
  show "\<forall>e\<in>set ?es. fst e \<noteq> ip IPROTO_REQUEST_TYPE \<and> mp_value (snd e)"
    unfolding xrow_hdr_def hdr_vals_simps one unfolding append_Cons append_Nil list.sel
    by (simp add: ball_Un ball_entry_if header_keys_eq [OF assms] header_keys_def)
qed

lemma length_hdr_vals [simp]: "length (hdr_vals hdr) = length hdr"
  by (simp add: hdr_vals_def)

lemma drop_append_drop: "drop n b = u @ c \<Longrightarrow> drop (n + length u) b = c"
  by (metis append_eq_conv_conj drop_drop add.commute)

lemma split_row_encoded:
  assumes ok: "iproto_ok ip" "body_ok ip (c = []) r" and d: "drop off p = xrow_bytes ip r @ c"
    and le: "off \<le> length p"
  shows "split_row ip p off = Inr (off + length (xrow_bytes ip r))"
proof -
  let ?n = "length (xrow_hdr ip r)" and ?h = "hdr_bytes (hdr_vals (xrow_hdr ip r))"
  let ?m = "appendMPMapHeader [] ?n" and ?t = "appendMPUint [] (Type r)" and ?k = "appendMPUint [] (ip IPROTO_REQUEST_TYPE)"
  obtain es where es: "hdr_vals (xrow_hdr ip r) = (ip IPROTO_REQUEST_TYPE, ?t) # es"
    and skip: "\<forall>e\<in>set es. fst e \<noteq> ip IPROTO_REQUEST_TYPE \<and> mp_value (snd e)"
    using xrow_hdr_vals [OF ok(1)] by blast
  have n: "?n = Suc (length es)" using arg_cong [OF es, of length] by simp
  have "?n < 2 ^ 32" using xrow_hdr_length [of ip r] by simp
  then have m: "readMPMapLen (drop off p) = Inr (?n, length ?m)"
    using mpmap_codec.dec_enc [of ?n "?h @ BodyRaw r @ c"] by (simp add: d xrow_bytes_def)
  have d1: "drop (off + length ?m) p = ?k @ ?t @ hdr_bytes es @ BodyRaw r @ c"
    using d by (intro drop_append_drop) (simp add: xrow_bytes_def es)
  have d2: "drop (off + length ?m + length ?k) p = ?t @ hdr_bytes es @ BodyRaw r @ c"
    using d1 by (rule drop_append_drop)
  have d3: "drop (off + length ?m + length ?k + length ?t) p = hdr_bytes es @ BodyRaw r @ c"
    using d2 by (rule drop_append_drop)
  let ?cur = "off + length ?m + length ?k + length ?t + length (hdr_bytes es)"
  have d4: "drop ?cur p = BodyRaw r @ c" using d3 by (rule drop_append_drop)
  have l: "split_hdr ip p ?n (off + length ?m) 0 False = Inr (Type r, True, ?cur)"
    unfolding n using split_hdr_skip [where c = "BodyRaw r @ c" and ip = ip, OF skip d3, unfolded n]
    by (simp add: d1 [unfolded n] d2 [unfolded n] mpuint_codec.dec_enc)
  have cur: "?cur + length (BodyRaw r) = off + length (xrow_bytes ip r)"
    by (simp add: xrow_bytes_def es)
  have lt: "?cur < length p \<longleftrightarrow> BodyRaw r @ c \<noteq> []" using d4 by (metis drop_eq_Nil not_le)
  have "mp_value (BodyRaw r) \<Longrightarrow> skipMP (BodyRaw r @ c) = Inr (length (BodyRaw r))" by (rule skipMP_value)
  moreover have "\<not> mp_value []" using mp_value_nonempty by blast
  ultimately show ?thesis
    using ok(2) cur lt by (auto simp: split_row_def m l d4 body_ok_def split: if_splits)
qed

text \<open>A payload of rows: every row but the last has a body unless it is a NOP.\<close>

fun rows_ok :: "iproto \<Rightarrow> XRow list \<Rightarrow> bool" where
  "rows_ok ip [] \<longleftrightarrow> True"
| "rows_ok ip (r # rs) \<longleftrightarrow> body_ok ip (rs = []) r \<and> rows_ok ip rs"

definition payload_bytes :: "iproto \<Rightarrow> XRow list \<Rightarrow> bytes" where
  "payload_bytes ip rows = concat (map (xrow_bytes ip) rows)"

lemma AppendTxBlockPayload_bytes: "AppendTxBlockPayload ip dst rows = Inr (dst @ payload_bytes ip rows)"
  by (induction rows arbitrary: dst) (simp_all add: EncodeXRow_bytes payload_bytes_def)

lemma xrow_bytes_nonempty [simp]: "xrow_bytes ip r \<noteq> []"
  by (simp add: xrow_bytes_def appendMPMapHeader_def)

lemma payload_bytes_empty [simp]: "payload_bytes ip rows = [] \<longleftrightarrow> rows = []"
  by (cases rows) (simp_all add: payload_bytes_def)

lemma splitRows_loop_encoded:
  assumes "iproto_ok ip" "rows_ok ip rows" "drop off p = payload_bytes ip rows" "off \<le> length p"
  shows "splitRows_loop ip p off out = Inr (out @ map (xrow_bytes ip) rows)"
  using assms(2-)
proof (induction rows arbitrary: off out)
  case Nil
  then show ?case by (simp add: splitRows_loop.simps payload_bytes_def)
next
  case (Cons r rows)
  let ?o = "off + length (xrow_bytes ip r)"
  have d: "drop off p = xrow_bytes ip r @ payload_bytes ip rows"
    using Cons.prems(2) by (simp add: payload_bytes_def)
  have "body_ok ip (payload_bytes ip rows = []) r" using Cons.prems(1) by simp
  from split_row_encoded [OF assms(1) this d Cons.prems(3)]
  have row: "split_row ip p off = Inr ?o" .
  have lt: "off < length p" using d by (metis append_is_Nil_conv drop_eq_Nil not_le xrow_bytes_nonempty)
  have "length (drop off p) = length (xrow_bytes ip r) + length (payload_bytes ip rows)" by (simp add: d)
  then have le: "?o \<le> length p" using lt by simp
  have "subslice p off ?o = xrow_bytes ip r" by (simp add: subslice_def d)
  with Cons.IH [OF _ drop_append_drop [OF d] le] Cons.prems(1) lt row show ?case
    by (simp add: splitRows_loop.simps [of ip p off])
qed

lemma splitRows_encoded:
  "iproto_ok ip \<Longrightarrow> rows_ok ip rows \<Longrightarrow> splitRows ip (payload_bytes ip rows) = Inr (map (xrow_bytes ip) rows)"
  by (simp add: splitRows_def splitRows_loop_encoded)

lemma body_ok_final: "body_ok ip b r \<Longrightarrow> body_ok ip True r"
  by (auto simp: body_ok_def)

lemma rows_ok_body: "rows_ok ip rows \<Longrightarrow> r \<in> set rows \<Longrightarrow> body_ok ip True r"
  by (induction rows) (auto dest: body_ok_final)

lemma DecodeXRow_rows:
  assumes "iproto_ok ip" "rows_ok ip rows"
  shows "map (DecodeXRow ip) (map (xrow_bytes ip) rows)
    = map (\<lambda>r. Inr (xrow_canon ip r, length (xrow_bytes ip r))) rows"
  using EncodeXRow_DecodeXRow [OF assms(1), of "[]"] rows_ok_body [OF assms(2)] by simp

section \<open>Framing\<close>

text \<open>The bytes of a payload on disk, and the limits the framing puts on them.\<close>

definition on_disk :: "zstd \<Rightarrow> Compression \<Rightarrow> bytes \<Rightarrow> bytes" where
  "on_disk z c plain =
     (if Compresses c (length plain) then EncodeAll z (ResolvedLevel c) plain else plain)"

definition frame_ok :: "zstd \<Rightarrow> Compression \<Rightarrow> bytes \<Rightarrow> bool" where
  "frame_ok z c plain \<longleftrightarrow> length (on_disk z c plain) < 2 ^ 32
     \<and> (Compresses c (length plain) \<longrightarrow> zstd_ok z \<and> length plain \<le> MaxDecompressedTxSize)"

definition frame_header :: "zstd \<Rightarrow> Compression \<Rightarrow> bytes \<Rightarrow> Fixheader" where
  "frame_header z c plain = \<lparr>Magic = (if Compresses c (length plain) then ZRowMarker else RowMarker),
     Len = of_nat (length (on_disk z c plain)), FhCRC32P = 0, FhCRC32C = CRC32C (on_disk z c plain)\<rparr>"

lemma frame_header_bytes:
  obtains fh where "EncodeFixheader (Some (frame_header z c plain)) = Inr fh" "length fh = FixheaderSize"
    "DecodeFixheader fh = Inr (frame_header z c plain)"
proof -
  have "known_magic (Magic (frame_header z c plain))" by (simp add: frame_header_def known_magic_def)
  from EncodeFixheader_DecodeFixheader [OF this] that show ?thesis by blast
qed

lemma AppendFramedBlock_frame:
  "EncodeFixheader (Some (frame_header z c plain)) = Inr fh \<Longrightarrow>
    AppendFramedBlock z dst plain c = Inr (dst @ fh @ on_disk z c plain)"
  by (auto simp: AppendFramedBlock_def CompressTxInto_def on_disk_def frame_header_def Let_def
      split: if_splits)

lemma DecodeTxBlock_frame:
  assumes fh: "length fh = FixheaderSize" "DecodeFixheader fh = Inr (frame_header z c plain)"
    and ok: "frame_ok z c plain"
  shows "DecodeTxBlock ip z (fh @ on_disk z c plain @ rest) = (case splitRows ip plain of Inl e \<Rightarrow> Inl e
    | Inr ss \<Rightarrow> Inr (ss, plain, FixheaderSize + length (on_disk z c plain)))"
proof -
  let ?d = "on_disk z c plain"
  have len: "unat (Len (frame_header z c plain)) = length ?d"
    using ok unat_of_nat_small [where 'a = 32, of "length ?d"] by (simp add: frame_ok_def frame_header_def)
  have sl: "subslice (fh @ ?d @ rest) FixheaderSize (FixheaderSize + length ?d) = ?d"
    using fh(1) slice_full_append [of fh "?d @ rest" "length ?d"] by simp
  have "Compresses c (length plain) \<Longrightarrow> DecompressTx z ?d = Inr plain"
    using ok by (simp add: frame_ok_def DecompressTx_def on_disk_def zstd_ok_def)
  then have plain: "(if Magic (frame_header z c plain) = ZRowMarker then DecompressTx z ?d else Inr ?d) = Inr plain"
    by (simp add: frame_header_def on_disk_def)
  have m: "Magic (frame_header z c plain) \<noteq> EOFMarker" "FhCRC32C (frame_header z c plain) = CRC32C ?d"
    by (simp_all add: frame_header_def)
  have t: "take FixheaderSize (fh @ ?d @ rest) = fh" using fh(1) by simp
  show ?thesis
    using fh(1) m unfolding DecodeTxBlock_def t fh(2)
    by (simp del: FixheaderSize_def add: len sl plain split: sum.splits)
qed

section \<open>A concrete codec and concrete rows\<close>

text \<open>An instance of the zstd parameter that stores the content, and the policies used below.\<close>

definition zstd_store :: zstd where
  "zstd_store = \<lparr>EncodeAll = \<lambda>_ p. p,
     DecodeAll = \<lambda>maxMem p. if length p \<le> maxMem then Inr p else Inl ErrZstd\<rparr>"

lemma zstd_store_ok: "zstd_ok zstd_store"
  by (simp add: zstd_ok_def zstd_store_def)

definition compress_all :: Compression where
  "compress_all = \<lparr>Disabled = False, Level = 0, Threshold = 1\<rparr>"

definition compress_none :: Compression where
  "compress_none = \<lparr>Disabled = True, Level = 0, Threshold = 0\<rparr>"

lemma frame_ok_store: "length p \<le> 1000 \<Longrightarrow> frame_ok zstd_store c p"
  by (simp add: frame_ok_def on_disk_def zstd_store_ok MaxDecompressedTxSize_def) (simp add: zstd_store_def)

lemma sample_payload_small:
  "length (payload_bytes iproto_numbers [sample_row, sample_nop]) \<le> 1000"
  "payload_bytes iproto_numbers [XRow0\<lparr>Type := 12\<rparr>] = [0x81, 0x00, 0x0c]"
  by code_simp+

lemma sample_rows_tx: "rows_ok iproto_numbers [sample_row, sample_nop]"
  using sample_rows_ok body_ok_final by simp

section \<open>Properties\<close>

text \<open>
  C3: the rows of a transaction, encoded as a tx block under any compression policy, come back:
  the block decodes, whatever follows it, consuming exactly its own bytes, to one slice per row and
  to the plain payload, and each slice decodes to its row in canonical form. The payload has to fit
  the 32-bit length field and, where it is compressed, the memory limit of the decoder.
\<close>

theorem tx_block_roundtrip:
  assumes "iproto_ok ip" and "rows_ok ip rows" and "frame_ok z (TxCompression opts) (payload_bytes ip rows)"
  shows "\<exists>b slices. EncodeTxBlock ip z rows opts = Inr b
    \<and> DecodeTxBlock ip z (b @ rest) = Inr (slices, concat slices, length b)
    \<and> map (DecodeXRow ip) slices = map (\<lambda>r. Inr (xrow_canon ip r, length (xrow_bytes ip r))) rows"
proof -
  let ?p = "payload_bytes ip rows" and ?c = "TxCompression opts"
  obtain fh where fh: "EncodeFixheader (Some (frame_header z ?c ?p)) = Inr fh" "length fh = FixheaderSize"
    "DecodeFixheader fh = Inr (frame_header z ?c ?p)" by (rule frame_header_bytes)
  have enc: "EncodeTxBlock ip z rows opts = Inr (fh @ on_disk z ?c ?p)"
    using AppendFramedBlock_frame [OF fh(1), of "[]"]
    by (simp add: EncodeTxBlock_def AppendTxBlock_def AppendTxBlockPayload_bytes)
  have "DecodeTxBlock ip z ((fh @ on_disk z ?c ?p) @ rest)
      = Inr (map (xrow_bytes ip) rows, ?p, length (fh @ on_disk z ?c ?p))"
    using DecodeTxBlock_frame [OF fh(2,3) assms(3), of ip rest] fh(2)
    by (simp add: splitRows_encoded [OF assms(1,2)])
  with enc DecodeXRow_rows [OF assms(1,2)] show ?thesis
    by (intro exI [of _ "fh @ on_disk z ?c ?p"] exI [of _ "map (xrow_bytes ip) rows"])
      (simp add: payload_bytes_def)
qed

theorem tx_block_roundtrip_witness:
  "\<exists>b slices. EncodeTxBlock iproto_numbers zstd_store [sample_row, sample_nop] \<lparr>TxCompression = compress_all\<rparr> = Inr b
    \<and> DecodeTxBlock iproto_numbers zstd_store (b @ [1, 2]) = Inr (slices, concat slices, length b)
    \<and> map (DecodeXRow iproto_numbers) slices
      = map (\<lambda>r. Inr (xrow_canon iproto_numbers r, length (xrow_bytes iproto_numbers r))) [sample_row, sample_nop]"
  by (rule tx_block_roundtrip [OF iproto_numbers_ok sample_rows_tx])
    (simp add: frame_ok_store [OF sample_payload_small(1)])

text \<open>
  C4: damage is detected. When a block decodes, and up to four consecutive bytes of its payload on
  disk are replaced by different ones, decoding reports the checksum error, compressed or not.
\<close>

theorem tx_block_damage_detected:
  assumes "DecodeTxBlock ip z (fh @ xs @ u @ ys) = Inr (slices, plain, n)"
    and "length fh = FixheaderSize" and "FixheaderSize + length xs + length u \<le> n"
    and "length v = length u" and "length u \<le> 4" and "v \<noteq> u"
  shows "DecodeTxBlock ip z (fh @ xs @ v @ ys) = Inl [Block ErrBadCRC]"
proof -
  have t: "take FixheaderSize (fh @ w) = fh" for w using assms(2) by simp
  from assms(1) obtain h where h: "DecodeFixheader fh = Inr h" "Magic h \<noteq> EOFMarker"
    "unat (Len h) \<le> length (xs @ u @ ys)" "n = FixheaderSize + unat (Len h)"
    and crc: "CRC32C (subslice (fh @ xs @ u @ ys) FixheaderSize n) = FhCRC32C h"
    unfolding DecodeTxBlock_def t using assms(2)
    by (auto simp: Let_def split: if_splits sum.splits simp del: FixheaderSize_def)
  obtain k where k: "n = FixheaderSize + length xs + length u + k"
    using assms(3) le_iff_add by blast
  have sl: "subslice (fh @ xs @ w @ ys) FixheaderSize n = xs @ w @ take k ys" if "length w = length u" for w
    using k that assms(2) by (simp add: subslice_def)
  have "CRC32C (xs @ v @ take k ys) \<noteq> FhCRC32C h"
    using CRC32C_burst [OF assms(4), of xs "take k ys"] assms(4-6) crc sl [of u] by simp
  then show ?thesis
    using h sl [OF assms(4)] assms(2,4) unfolding DecodeTxBlock_def t
    by (simp add: Let_def del: FixheaderSize_def)
qed

theorem tx_block_damage_detected_witness:
  "\<exists>fh. length fh = FixheaderSize
    \<and> DecodeTxBlock iproto_numbers zstd_store (fh @ [0x81, 0x00] @ [0x0c] @ []) = Inr ([[0x81, 0x00, 0x0c]], [0x81, 0x00, 0x0c], 22)
    \<and> DecodeTxBlock iproto_numbers zstd_store (fh @ [0x81, 0x00] @ [0x02] @ []) = Inl [Block ErrBadCRC]"
proof -
  let ?p = "[0x81, 0x00, 0x0c] :: bytes"
  obtain fh where fh: "length fh = FixheaderSize"
    "DecodeFixheader fh = Inr (frame_header zstd_store compress_none ?p)" by (rule frame_header_bytes)
  have "rows_ok iproto_numbers [XRow0\<lparr>Type := 12\<rparr>]"
    by (simp add: body_ok_def XRow0_def iproto_numbers_def)
  from splitRows_encoded [OF iproto_numbers_ok this] sample_payload_small(2)
  have "splitRows iproto_numbers ?p = Inr [?p]" by (simp add: payload_bytes_def)
  with DecodeTxBlock_frame [OF fh frame_ok_store, of iproto_numbers "[]"]
  have d: "DecodeTxBlock iproto_numbers zstd_store (fh @ [0x81, 0x00] @ [0x0c] @ []) = Inr ([?p], ?p, 22)"
    by (simp add: on_disk_def compress_none_def Compresses_def)
  from tx_block_damage_detected [OF d fh(1), of "[0x02]"] fh(1) d show ?thesis by auto
qed

end
