(* ===== verification/XlogMeta.thy ===== *)
theory XlogMeta
  imports VClock Fixheader "HOL-Library.List_Lexorder" "HOL-Library.Char_ord" "HOL-Library.Multiset"
begin

unbundle bit_operations_syntax

text \<open>
  The text header of every file (\<^verbatim>\<open>format/meta.go\<close>): its encoder, with the insertion sort that makes
  the order of the extra lines deterministic, and its decoder, a loop over the lines of a buffered
  reader. The package uuid is a parameter. A header that can be written is read back.
\<close>

section \<open>Buffered readers\<close>

text \<open>
  A buffered reader: the bytes still to come, and the error the source ends with once they are
  delivered (\<^verbatim>\<open>io.EOF\<close> at the end of a file).
\<close>

record bufreader =
  br_rest :: bytes
  br_err :: error

definition ReadString :: "bufreader \<Rightarrow> byte \<Rightarrow> (error + string) \<times> bufreader" where
  "ReadString r delim = (case dropWhile (\<lambda>x. x \<noteq> delim) (br_rest r) of
     [] \<Rightarrow> (Inl (br_err r), r\<lparr>br_rest := []\<rparr>)
   | d # rest \<Rightarrow> (Inr (bytes_str (takeWhile (\<lambda>x. x \<noteq> delim) (br_rest r) @ [d])), r\<lparr>br_rest := rest\<rparr>))"

section \<open>The header\<close>

text \<open>The package uuid: a \<^verbatim>\<open>[16]byte\<close> value prints as text that parses back.\<close>

record uuidlib =
  uuid_String :: "bytes \<Rightarrow> string"
  uuid_Parse :: "string \<Rightarrow> error + bytes"

definition hex_alphabet :: string where
  "hex_alphabet = ''0123456789abcdef-''"

definition uuid_ok :: "uuidlib \<Rightarrow> bool" where
  "uuid_ok u \<longleftrightarrow> (\<forall>x. length x = 16 \<longrightarrow> uuid_Parse u (uuid_String u x) = Inr x
     \<and> uuid_String u x \<noteq> [] \<and> set (uuid_String u x) \<subseteq> set hex_alphabet)"

record Meta =
  MFiletype :: Filetype
  FormatVer :: string
  Version :: string
  InstanceUUID :: bytes
  MVClock :: VClock
  PrevVClock :: VClock
  Extras :: "(string \<times> string) list option"

definition Extras_entries :: "Meta \<Rightarrow> (string \<times> string) list" where
  "Extras_entries m = (case Extras m of None \<Rightarrow> [] | Some es \<Rightarrow> es)"

definition Meta_Clone :: "Meta option \<Rightarrow> Meta option" where
  "Meta_Clone mo = (case mo of None \<Rightarrow> None
     | Some m \<Rightarrow> Some \<lparr>MFiletype = MFiletype m, FormatVer = FormatVer m, Version = Version m,
         InstanceUUID = InstanceUUID m, MVClock = VClock_Clone (MVClock m),
         PrevVClock = VClock_Clone (PrevVClock m), Extras = Extras m\<rparr>)"

section \<open>The insertion sort\<close>

fun sort_inner :: "string list \<Rightarrow> nat \<Rightarrow> string list" where
  "sort_inner a 0 = a"
| "sort_inner a (Suc j) =
     (if a ! j > a ! Suc j then sort_inner (a[j := a ! Suc j, Suc j := a ! j]) j else a)"

definition sortStrings :: "string list \<Rightarrow> string list" where
  "sortStrings a = foldl sort_inner a [1..<length a]"

section \<open>Encoding\<close>

definition EncodeMeta :: "uuidlib \<Rightarrow> error option \<Rightarrow> Meta option \<Rightarrow> error + string" where
  "EncodeMeta u werr mo = (case mo of None \<Rightarrow> Inl [MetaE ErrNilMetaValue] | Some m \<Rightarrow>
     if MFiletype m = [] then Inl [MetaE ErrEmptyFiletype]
     else if FormatVer m \<noteq> [] \<and> FormatVer m \<noteq> FormatVersion \<and> FormatVer m \<noteq> LegacyFormatVersion
     then Inl [MetaE ErrMetaBadVersion]
     else (let ver = (if FormatVer m \<noteq> [] then FormatVer m else FormatVersion);
               nl = [CHR 0x0a];
               keys = sortStrings (map fst (Extras_entries m));
               text = MFiletype m @ nl @ ver @ nl @ ''Version: '' @ Version m @ nl
                 @ ''Instance: '' @ uuid_String u (InstanceUUID m) @ nl
                 @ ''VClock: '' @ VClock_String (MVClock m) @ nl
                 @ (if length (ventries (PrevVClock m)) > 0
                    then ''PrevVClock: '' @ VClock_String (PrevVClock m) @ nl else [])
                 @ concat (map (\<lambda>k. k @ '': '' @ the (map_of (Extras_entries m) k) @ nl) keys)
                 @ nl
           in case werr of Some e \<Rightarrow> Inl e | None \<Rightarrow> Inr text))"

section \<open>Decoding\<close>

record MetaOptions =
  AcceptV012 :: bool

definition readMetaLine :: "bufreader \<Rightarrow> (error + string) \<times> bufreader" where
  "readMetaLine r = (case ReadString r 0x0a of
     (Inl e, r') \<Rightarrow> (if errors_Is e (Go EOF) then (Inl [MetaE ErrMetaTruncated], r') else (Inl e, r'))
   | (Inr line, r') \<Rightarrow> (Inr (TrimRight1 (CHR 0x0d) (TrimRight1 (CHR 0x0a) line)), r'))"

definition meta_set :: "uuidlib \<Rightarrow> Meta \<Rightarrow> string \<Rightarrow> string \<Rightarrow> error + Meta" where
  "meta_set u m key val =
     (if key = ''Version'' then Inr (m\<lparr>Version := val\<rparr>)
      else if key = ''Instance'' \<or> key = ''Server'' then
        (case uuid_Parse u val of Inl e \<Rightarrow> Inl (MetaE ErrMetaBadFormat # e)
         | Inr x \<Rightarrow> Inr (m\<lparr>InstanceUUID := x\<rparr>))
      else if key = ''VClock'' then
        (case ParseVClock val of Inl e \<Rightarrow> Inl (MetaE ErrMetaBadFormat # e)
         | Inr v \<Rightarrow> Inr (m\<lparr>MVClock := v\<rparr>))
      else if key = ''PrevVClock'' then
        (case ParseVClock val of Inl e \<Rightarrow> Inl (MetaE ErrMetaBadFormat # e)
         | Inr v \<Rightarrow> Inr (m\<lparr>PrevVClock := v\<rparr>))
      else Inr (m\<lparr>Extras := Some (entries_set (Extras_entries m) key val)\<rparr>))"

lemma readMetaLine_shorter:
  "readMetaLine r = (Inr line, r') \<Longrightarrow> length (br_rest r') < length (br_rest r)"
proof -
  assume "readMetaLine r = (Inr line, r')"
  then obtain d where "dropWhile (\<lambda>x. x \<noteq> 0x0a) (br_rest r) = d # br_rest r'"
    by (auto simp: readMetaLine_def ReadString_def split: list.splits if_splits)
  then show ?thesis by (metis length_dropWhile_le length_Cons Suc_le_eq)
qed

function meta_loop :: "uuidlib \<Rightarrow> Meta \<Rightarrow> bufreader \<Rightarrow> (error + Meta) \<times> bufreader" where
  "meta_loop u m r = (case readMetaLine r of
     (Inl e, r') \<Rightarrow> (Inl e, r')
   | (Inr line, r') \<Rightarrow>
       if line = [] then (Inr m, r')
       else (case Cut line (CHR '':'') of
          None \<Rightarrow> (Inl [MetaE ErrMetaBadFormat], r')
        | Some (before, after) \<Rightarrow>
            (case meta_set u m (TrimSpace before) (TrimSpace after) of
               Inl e \<Rightarrow> (Inl e, r')
             | Inr m' \<Rightarrow> meta_loop u m' r')))"
  by pat_completeness auto
termination
  by (relation "measure (\<lambda>(u, m, r). length (br_rest r))") (auto dest: readMetaLine_shorter [OF sym])

declare meta_loop.simps [simp del]

definition DecodeMeta :: "uuidlib \<Rightarrow> bufreader option \<Rightarrow> MetaOptions \<Rightarrow> (error + Meta) \<times> bufreader option" where
  "DecodeMeta u ro opts = (case ro of None \<Rightarrow> (Inl [MetaE ErrNilMetaReader], None) | Some r \<Rightarrow>
     (case readMetaLine r of (Inl e, r1) \<Rightarrow> (Inl e, Some r1)
      | (Inr ft, r1) \<Rightarrow>
          if ft \<notin> {FiletypeXLOG, FiletypeSNAP, FiletypeVYLOG, FiletypeRUN, FiletypeINDEX}
          then (Inl [MetaE ErrMetaBadFormat], Some r1)
          else (case readMetaLine r1 of (Inl e, r2) \<Rightarrow> (Inl e, Some r2)
            | (Inr ver, r2) \<Rightarrow>
                if ver \<noteq> FormatVersion \<and> \<not> (ver = LegacyFormatVersion \<and> AcceptV012 opts)
                then (Inl [MetaE ErrMetaBadVersion], Some r2)
                else map_prod (\<lambda>x. x) Some
                  (meta_loop u \<lparr>MFiletype = ft, FormatVer = ver, Version = [],
                     InstanceUUID = replicate 16 0, MVClock = None, PrevVClock = None, Extras = None\<rparr> r2))))"

section \<open>The insertion sort sorts\<close>

lemma swap_mset: "Suc j < length a \<Longrightarrow> mset (a[j := a ! Suc j, Suc j := a ! j]) = mset a"
  by (rule mset_swap) simp_all

lemma sort_inner_mset: "j < length a \<Longrightarrow> mset (sort_inner a j) = mset a \<and> length (sort_inner a j) = length a"
proof (induction a j rule: sort_inner.induct)
  case (2 a j)
  then show ?case using swap_mset [of j a] by auto
qed simp

text \<open>
  The invariant of the inner loop: the first \<open>i + 1\<close> elements are sorted but for the one at \<open>j\<close>,
  which may have to move further to the front.
\<close>

lemma sort_inner_sorted:
  assumes "j \<le> i" "i < length a"
    and "\<And>p q. p < q \<Longrightarrow> q \<le> i \<Longrightarrow> q \<noteq> j \<Longrightarrow> a ! p \<le> a ! q"
  shows "sorted (take (Suc i) (sort_inner a j)) \<and> drop (Suc i) (sort_inner a j) = drop (Suc i) a"
  using assms
proof (induction a j rule: sort_inner.induct)
  case (1 a)
  then show ?case by (auto simp: sorted_iff_nth_mono_less)
next
  case (2 a j)
  show ?case
  proof (cases "a ! j > a ! Suc j")
    case True
    let ?b = "a[j := a ! Suc j, Suc j := a ! j]"
    have "?b ! p \<le> ?b ! q" if "p < q" "q \<le> i" "q \<noteq> j" for p q
      using that 2(2,3) 2(4) [of p q] 2(4) [of p j] 2(4) [of j q] True
      by (auto simp: nth_list_update)
    from "2.IH" [OF True _ _ this] 2(2,3) True show ?thesis by simp
  next
    case False
    have "a ! p \<le> a ! q" if "p < q" "q \<le> i" for p q
    proof (cases "q = Suc j")
      case True
      then show ?thesis using that False 2(4) [of p j] 2(2) by (cases "p = j") auto
    qed (use that 2(4) in auto)
    then show ?thesis using False 2(3) by (auto simp: sorted_iff_nth_mono_less)
  qed
qed

lemma sortStrings_outer:
  "k \<le> length a \<Longrightarrow> sorted (take k (foldl sort_inner a [1..<k])) \<and> mset (foldl sort_inner a [1..<k]) = mset a
    \<and> length (foldl sort_inner a [1..<k]) = length a"
proof (induction k)
  case (Suc k)
  show ?case
  proof (cases "k = 0")
    case True
    then show ?thesis using Suc.prems by (cases a) auto
  next
    case False
    let ?b = "foldl sort_inner a [1..<k]"
    have IH: "sorted (take k ?b)" "mset ?b = mset a" "length ?b = length a" using Suc by simp_all
    have "?b ! p \<le> ?b ! q" if "p < q" "q \<le> k" "q \<noteq> k" for p q
      using IH(1) that Suc.prems IH(3) by (auto simp: sorted_iff_nth_mono_less)
    from sort_inner_sorted [of k k ?b, OF _ _ this] sort_inner_mset [of k ?b] IH(2,3) Suc.prems False
    show ?thesis by (simp add: upt_Suc_append)
  qed
qed simp

lemma sortStrings_sorted: "sorted (sortStrings a) \<and> mset (sortStrings a) = mset a"
  using sortStrings_outer [of "length a" a] by (auto simp: sortStrings_def)

section \<open>Lines\<close>

lemma str_bytes_newline: "(0x0a :: byte) \<in> set (str_bytes s) \<longleftrightarrow> CHR 0x0a \<in> set s"
proof -
  have "(of_nat (of_char c) :: byte) = 0x0a \<longleftrightarrow> c = CHR 0x0a" for c
  proof -
    have "(of_nat (of_char c) :: byte) = 0x0a \<longleftrightarrow> unat (of_nat (of_char c) :: byte) = 10"
      by (simp add: word_unat_eq_iff)
    also have "\<dots> \<longleftrightarrow> of_char c = (of_char (CHR 0x0a) :: nat)" by (simp add: unat_of_char)
    finally show ?thesis by (simp only: of_char_eq_iff)
  qed
  then show ?thesis by (force simp: str_bytes_def)
qed

definition line_ok :: "string \<Rightarrow> bool" where
  "line_ok l \<longleftrightarrow> CHR 0x0a \<notin> set l \<and> (l = [] \<or> last l \<noteq> CHR 0x0d)"

definition rd :: "string \<Rightarrow> bytes \<Rightarrow> error \<Rightarrow> bufreader" where
  "rd s rest e = \<lparr>br_rest = str_bytes s @ rest, br_err = e\<rparr>"

lemma TrimRight1_id: "l = [] \<or> last l \<noteq> c \<Longrightarrow> TrimRight1 c l = l"
  by (cases l rule: rev_cases) (auto simp: TrimRight1_def)

lemma TrimRight1_one: "l = [] \<or> last l \<noteq> c \<Longrightarrow> TrimRight1 c (l @ [c]) = l"
  by (cases l rule: rev_cases) (auto simp: TrimRight1_def)

lemma readMetaLine_line:
  assumes "line_ok l"
  shows "readMetaLine (rd (l @ [CHR 0x0a] @ s) rest e) = (Inr l, rd s rest e)"
proof -
  have nl: "\<forall>x\<in>set (str_bytes l). x \<noteq> 0x0a" using assms str_bytes_newline [of l] by (auto simp: line_ok_def)
  have cons: "str_bytes (CHR 0x0a # x) = 0x0a # str_bytes x" for x by (simp add: str_bytes_def)
  then have "bytes_str (str_bytes l @ [0x0a]) = l @ [CHR 0x0a]"
    using bytes_str_str_bytes [of "l @ [CHR 0x0a]"] by (simp add: str_bytes_def)
  then have r: "ReadString (rd (l @ [CHR 0x0a] @ s) rest e) 0x0a = (Inr (l @ [CHR 0x0a]), rd s rest e)"
    using nl by (simp add: ReadString_def rd_def dropWhile_append2 takeWhile_append2 cons)
  have "l = [] \<or> last l \<noteq> CHR 0x0a" using assms last_in_set [of l] unfolding line_ok_def by metis
  then show ?thesis
    unfolding readMetaLine_def r using assms by (simp add: TrimRight1_one TrimRight1_id line_ok_def)
qed

text \<open>A trimmed text without a line break can stand as a value, and as a key when it has no colon.\<close>

definition value_ok :: "string \<Rightarrow> bool" where
  "value_ok v \<longleftrightarrow> TrimSpace (CHR '' '' # v) = v \<and> line_ok v"

definition key_ok :: "string \<Rightarrow> bool" where
  "key_ok k \<longleftrightarrow> TrimSpace k = k \<and> CHR 0x0a \<notin> set k \<and> CHR '':'' \<notin> set k"

lemma meta_loop_line:
  assumes "key_ok k" "value_ok v" "meta_set u m k v = Inr m'"
  shows "meta_loop u m (rd (k @ '': '' @ v @ [CHR 0x0a] @ s) rest e) = meta_loop u m' (rd s rest e)"
proof -
  let ?l = "k @ '': '' @ v"
  have "line_ok ?l" using assms(1,2) by (auto simp: line_ok_def value_ok_def key_ok_def)
  from readMetaLine_line [OF this, of s rest e]
  have line: "readMetaLine (rd (k @ '': '' @ v @ [CHR 0x0a] @ s) rest e) = (Inr ?l, rd s rest e)" by simp
  have "Cut ?l (CHR '':'') = Some (k, CHR '' '' # v)"
    using assms(1) Cut_sep [of "CHR '':''" k "CHR '' '' # v"] by (simp add: key_ok_def)
  then show ?thesis
    using assms line by (simp add: meta_loop.simps [of u m] key_ok_def value_ok_def)
qed

lemma meta_loop_end: "meta_loop u m (rd ([CHR 0x0a] @ s) rest e) = (Inr m, rd s rest e)"
  using readMetaLine_line [of "[]" s rest e] by (simp add: meta_loop.simps [of u m] line_ok_def)

section \<open>The header round trip\<close>

definition reserved_keys :: "string list" where
  "reserved_keys = [''Version'', ''Instance'', ''Server'', ''VClock'', ''PrevVClock'']"

definition meta_ok :: "Meta \<Rightarrow> bool" where
  "meta_ok m \<longleftrightarrow> MFiletype m \<in> {FiletypeXLOG, FiletypeSNAP, FiletypeVYLOG, FiletypeRUN, FiletypeINDEX}
     \<and> FormatVer m \<in> {[], FormatVersion, LegacyFormatVersion} \<and> value_ok (Version m)
     \<and> length (InstanceUUID m) = 16 \<and> vclock_wf (MVClock m) \<and> vclock_wf (PrevVClock m)
     \<and> distinct (map fst (Extras_entries m))
     \<and> (\<forall>(k, v)\<in>set (Extras_entries m). key_ok k \<and> value_ok v \<and> k \<notin> set reserved_keys)"

definition vclock_canon :: "VClock \<Rightarrow> VClock" where
  "vclock_canon v = Some (map (\<lambda>r. (r, vget v r)) (sort (vids v)))"

definition extras_canon :: "Meta \<Rightarrow> (string \<times> string) list" where
  "extras_canon m = map (\<lambda>k. (k, the (map_of (Extras_entries m) k))) (sortStrings (map fst (Extras_entries m)))"

definition meta_canon :: "Meta \<Rightarrow> Meta" where
  "meta_canon m = m\<lparr>FormatVer := (if FormatVer m = [] then FormatVersion else FormatVer m),
     MVClock := vclock_canon (MVClock m),
     PrevVClock := (if ventries (PrevVClock m) = [] then None else vclock_canon (PrevVClock m)),
     Extras := (if Extras_entries m = [] then None else Some (extras_canon m))\<rparr>"

lemma value_ok_plain: "no_space_ends v \<Longrightarrow> CHR 0x0a \<notin> set v \<Longrightarrow> value_ok v"
proof -
  assume "no_space_ends v" "CHR 0x0a \<notin> set v"
  moreover have "CHR 0x0d \<in> last ` set space_seqs" by (auto simp: space_seqs_def)
  ultimately show ?thesis by (auto simp: value_ok_def TrimSpace_space line_ok_def no_space_ends_def)
qed

lemma no_space_ends_list: "s \<noteq> [] \<Longrightarrow> set s \<subseteq> set hex_alphabet \<Longrightarrow> no_space_ends s"
proof -
  assume s: "s \<noteq> []" "set s \<subseteq> set hex_alphabet"
  have "list_all (\<lambda>c. c \<notin> set (map hd space_seqs) \<and> c \<notin> set (map last space_seqs)) hex_alphabet"
    by code_simp
  then have "c \<notin> hd ` set space_seqs \<and> c \<notin> last ` set space_seqs" if "c \<in> set s" for c
    using that s(2) unfolding list_all_iff set_map by blast
  with s(1) show ?thesis by (simp add: no_space_ends_def)
qed

lemma uuid_value_ok: "uuid_ok u \<Longrightarrow> length x = 16 \<Longrightarrow> value_ok (uuid_String u x)"
  unfolding uuid_ok_def
  by (intro value_ok_plain no_space_ends_list) (auto simp: hex_alphabet_def)

lemma VClock_String_value: "value_ok (VClock_String v)"
proof (rule value_ok_plain)
  show "no_space_ends (VClock_String v)"
    by (rule no_space_text) (simp_all add: VClock_String_def text_chars_def)
  have d: "CHR 0x0a \<notin> set (FormatUint n)" "CHR 0x0a \<notin> set (FormatInt i)" for n i
    using text_FormatUint(2) [of n] text_FormatInt(2) [of i] unfolding digit_chars_list by auto
  have "CHR 0x0a \<notin> set (vclock_entries_str v i rids)" for i rids
    by (induction rids arbitrary: i) (simp_all add: d)
  then show "CHR 0x0a \<notin> set (VClock_String v)" by (simp add: VClock_String_def)
qed

lemma reserved_key_ok: "k \<in> set reserved_keys \<Longrightarrow> key_ok k"
proof -
  have "list_all (\<lambda>k. TrimSpace k = k \<and> CHR 0x0a \<notin> set k \<and> CHR '':'' \<notin> set k) reserved_keys" by code_simp
  then show "k \<in> set reserved_keys \<Longrightarrow> key_ok k" by (auto simp: list_all_iff key_ok_def)
qed

lemma known_key_ok: "key_ok ''Version''" "key_ok ''Instance''" "key_ok ''VClock''" "key_ok ''PrevVClock''"
  by (rule reserved_key_ok, simp add: reserved_keys_def)+

lemma meta_loop_extras:
  assumes "\<forall>k\<in>set ks. key_ok k \<and> value_ok (f k) \<and> k \<notin> set reserved_keys"
    and "distinct (map fst (Extras_entries m) @ ks)"
  shows "meta_loop u m (rd (concat (map (\<lambda>k. k @ '': '' @ f k @ [CHR 0x0a]) ks) @ s) rest e)
    = meta_loop u (m\<lparr>Extras := (if ks = [] then Extras m else Some (Extras_entries m @ map (\<lambda>k. (k, f k)) ks))\<rparr>)
        (rd s rest e)"
  using assms
proof (induction ks arbitrary: m)
  case (Cons k ks)
  let ?m = "m\<lparr>Extras := Some (Extras_entries m @ [(k, f k)])\<rparr>"
  have k: "key_ok k" "value_ok (f k)" "k \<notin> set reserved_keys" using Cons.prems(1) by simp_all
  have "k \<notin> fst ` set (Extras_entries m)" using Cons.prems(2) by auto
  then have set: "meta_set u m k (f k) = Inr ?m"
    using k(3) by (auto simp: meta_set_def reserved_keys_def entries_set_fresh)
  have E: "Extras_entries ?m = Extras_entries m @ [(k, f k)]" by (simp add: Extras_entries_def)
  from meta_loop_line [OF k(1,2) set] Cons.IH [of ?m] Cons.prems E show ?case by simp
qed simp

lemma DecodeMeta_EncodeMeta:
  assumes "uuid_ok u" "meta_ok m" "FormatVer m = LegacyFormatVersion \<Longrightarrow> AcceptV012 opts"
  obtains hdr where "EncodeMeta u None (Some m) = Inr hdr"
    and "DecodeMeta u (Some (rd hdr rest e)) opts = (Inr (meta_canon m), Some (rd [] rest e))"
proof -
  let ?nl = "[CHR 0x0a]" and ?ver = "if FormatVer m \<noteq> [] then FormatVer m else FormatVersion"
  let ?keys = "sortStrings (map fst (Extras_entries m))" and ?f = "\<lambda>k. the (map_of (Extras_entries m) k)"
  let ?prev = "if length (ventries (PrevVClock m)) > 0 then ''PrevVClock: '' @ VClock_String (PrevVClock m) @ ?nl else []"
  let ?extras = "concat (map (\<lambda>k. k @ '': '' @ ?f k @ ?nl) ?keys)"
  let ?text = "MFiletype m @ ?nl @ ?ver @ ?nl @ ''Version: '' @ Version m @ ?nl
     @ ''Instance: '' @ uuid_String u (InstanceUUID m) @ ?nl @ ''VClock: '' @ VClock_String (MVClock m) @ ?nl
     @ ?prev @ ?extras @ ?nl"
  let ?m0 = "\<lparr>MFiletype = MFiletype m, FormatVer = ?ver, Version = [], InstanceUUID = replicate 16 0,
     MVClock = None, PrevVClock = None, Extras = None\<rparr>"
  let ?m3 = "?m0\<lparr>Version := Version m, InstanceUUID := InstanceUUID m, MVClock := vclock_canon (MVClock m)\<rparr>"
  let ?m4 = "?m3\<lparr>PrevVClock := (if ventries (PrevVClock m) = [] then None else vclock_canon (PrevVClock m))\<rparr>"
  have ft: "MFiletype m \<in> {FiletypeXLOG, FiletypeSNAP, FiletypeVYLOG, FiletypeRUN, FiletypeINDEX}"
    and ver: "?ver \<in> {FormatVersion, LegacyFormatVersion}" "?ver = LegacyFormatVersion \<longrightarrow> AcceptV012 opts"
    using assms(2,3) by (auto simp: meta_ok_def FormatVersion_def LegacyFormatVersion_def)
  have enc: "EncodeMeta u None (Some m) = Inr ?text"
    using ft assms(2) by (auto simp: EncodeMeta_def meta_ok_def filetype_defs Let_def)
  have lines: "line_ok (MFiletype m)" "line_ok ?ver"
    using ft ver(1) by (auto simp: line_ok_def filetype_defs FormatVersion_def LegacyFormatVersion_def)
  have "meta_set u ?m0 ''Version'' (Version m) = Inr (?m0\<lparr>Version := Version m\<rparr>)"
    "meta_set u (?m0\<lparr>Version := Version m\<rparr>) ''Instance'' (uuid_String u (InstanceUUID m))
      = Inr (?m0\<lparr>Version := Version m, InstanceUUID := InstanceUUID m\<rparr>)"
    "meta_set u (?m0\<lparr>Version := Version m, InstanceUUID := InstanceUUID m\<rparr>) ''VClock'' (VClock_String (MVClock m)) = Inr ?m3"
    using assms(1,2) ParseVClock_String [of "MVClock m"]
    by (simp_all add: meta_set_def uuid_ok_def meta_ok_def vclock_canon_def)
  note head = meta_loop_line [OF known_key_ok(1) _ this(1)] meta_loop_line [OF known_key_ok(2) _ this(2)]
    meta_loop_line [OF known_key_ok(3) VClock_String_value this(3)]
  have prev: "meta_loop u ?m3 (rd (?prev @ s) rest e) = meta_loop u ?m4 (rd s rest e)" for s
    using assms(2) ParseVClock_String [of "PrevVClock m"]
      meta_loop_line [OF known_key_ok(4) VClock_String_value, of u ?m3 "PrevVClock m" ?m4 s rest e]
    by (simp add: meta_set_def meta_ok_def vclock_canon_def)
  have keys: "set ?keys = fst ` set (Extras_entries m)" "distinct ?keys" "?keys = [] \<longleftrightarrow> Extras_entries m = []"
    using sortStrings_sorted [of "map fst (Extras_entries m)"] assms(2)
    by (metis list.set_map set_mset_mset, metis meta_ok_def mset_eq_imp_distinct_iff, metis Nil_is_map_conv mset_zero_iff)
  have "map_of (Extras_entries m) k = Some (?f k)" if "k \<in> set ?keys" for k
    using that keys(1) by (metis map_of_eq_None_iff option.collapse)
  then have "\<forall>k\<in>set ?keys. key_ok k \<and> value_ok (?f k) \<and> k \<notin> set reserved_keys"
    using assms(2) by (auto simp: meta_ok_def dest!: map_of_SomeD)
  note extras = meta_loop_extras [OF this, of ?m4 u ?nl rest e]
  have E4: "Extras_entries ?m4 = []" by (simp add: Extras_entries_def)
  have "?m4\<lparr>Extras := (if ?keys = [] then Extras ?m4 else Some (Extras_entries ?m4 @ map (\<lambda>k. (k, ?f k)) ?keys))\<rparr> = meta_canon m"
    unfolding E4 keys(3) by (cases m) (simp add: meta_canon_def extras_canon_def)
  then have "meta_loop u ?m4 (rd (?extras @ ?nl) rest e) = (Inr (meta_canon m), rd [] rest e)"
    using extras meta_loop_end [of u "meta_canon m" "[]" rest e] keys(2) unfolding E4 by simp
  then have "meta_loop u ?m0 (rd (''Version: '' @ Version m @ ?nl @ ''Instance: '' @ uuid_String u (InstanceUUID m) @ ?nl
      @ ''VClock: '' @ VClock_String (MVClock m) @ ?nl @ ?prev @ ?extras @ ?nl) rest e) = (Inr (meta_canon m), rd [] rest e)"
    using head prev uuid_value_ok [OF assms(1)] assms(2) by (simp add: meta_ok_def)
  with readMetaLine_line [OF lines(1)] readMetaLine_line [OF lines(2)] ft ver
  have "DecodeMeta u (Some (rd ?text rest e)) opts = (Inr (meta_canon m), Some (rd [] rest e))"
    by (simp add: DecodeMeta_def)
  with enc that show ?thesis by blast
qed

section \<open>A concrete uuid codec\<close>

text \<open>An instance of the uuid parameter: the 8-4-4-4-12 hexadecimal form.\<close>

definition hexd :: "nat \<Rightarrow> char" where
  "hexd i = ''0123456789abcdef'' ! i"

definition hexv :: "char \<Rightarrow> nat option" where
  "hexv c = find (\<lambda>i. hexd i = c) [0..<16]"

definition hex_bytes :: "bytes \<Rightarrow> string" where
  "hex_bytes xs = concat (map (\<lambda>b. [hexd (unat b div 16), hexd (unat b mod 16)]) xs)"

fun unhex :: "string \<Rightarrow> error + bytes" where
  "unhex [] = Inr []"
| "unhex (a # b # s) = (case (hexv a, hexv b, unhex s) of
     (Some i, Some j, Inr xs) \<Rightarrow> Inr (of_nat (16 * i + j) # xs) | _ \<Rightarrow> Inl [Go ErrUUID])"
| "unhex _ = Inl [Go ErrUUID]"

definition uuid_hex :: uuidlib where
  "uuid_hex = \<lparr>uuid_String = \<lambda>x. hex_bytes (subslice x 0 4) @ ''-'' @ hex_bytes (subslice x 4 6) @ ''-''
       @ hex_bytes (subslice x 6 8) @ ''-'' @ hex_bytes (subslice x 8 10) @ ''-'' @ hex_bytes (subslice x 10 16),
     uuid_Parse = \<lambda>s. unhex (filter (\<lambda>c. c \<noteq> CHR ''-'') s)\<rparr>"

lemma hexd_facts: "i < 16 \<Longrightarrow> hexv (hexd i) = Some i"
proof -
  have "list_all (\<lambda>i. hexv (hexd i) = Some i) [0..<16]" by code_simp
  then show "i < 16 \<Longrightarrow> hexv (hexd i) = Some i" by (simp add: list_all_iff)
qed

lemma byte_nibbles: "unat (b :: byte) div 16 < 16" "unat b mod 16 < 16"
proof -
  have "unat b < 2 ^ LENGTH(8)" by (rule unsigned_less)
  then show "unat b div 16 < 16" by (simp add: div_less_iff_less_mult)
qed simp

lemma hex_bytes_chars: "c \<in> set (hex_bytes xs) \<Longrightarrow> \<exists>i<16. c = hexd i"
  by (induction xs) (auto simp: hex_bytes_def intro: byte_nibbles)

lemma hexd_chars: "i < 16 \<Longrightarrow> hexd i \<in> set hex_alphabet" "i < 16 \<Longrightarrow> hexd i \<noteq> CHR ''-''"
proof -
  have "list_all (\<lambda>i. hexd i \<in> set hex_alphabet \<and> hexd i \<noteq> CHR ''-'') [0..<16]" by code_simp
  then have *: "\<forall>i\<in>{0..<16}. hexd i \<in> set hex_alphabet \<and> hexd i \<noteq> CHR ''-''"
    unfolding list_all_iff set_upt .
  show "i < 16 \<Longrightarrow> hexd i \<in> set hex_alphabet" "i < 16 \<Longrightarrow> hexd i \<noteq> CHR ''-''"
    using bspec [OF *, of i] by simp_all
qed

lemma unhex_hex_bytes: "unhex (hex_bytes xs) = Inr xs"
proof (induction xs)
  case (Cons b xs)
  have "of_nat (16 * (unat b div 16) + unat b mod 16) = b" by simp
  with Cons show ?case
    using hexd_facts [OF byte_nibbles(1) [of b]] hexd_facts [OF byte_nibbles(2) [of b]]
    by (simp add: hex_bytes_def)
qed (simp add: hex_bytes_def)

lemma filter_hex_bytes: "filter (\<lambda>c. c \<noteq> CHR ''-'') (hex_bytes xs) = hex_bytes xs"
  unfolding filter_id_conv using hex_bytes_chars hexd_chars(2) by metis

lemma hex_bytes_append: "hex_bytes (a @ b) = hex_bytes a @ hex_bytes b"
  by (simp add: hex_bytes_def)

lemma uuid_hex_ok: "uuid_ok uuid_hex"
proof -
  have "uuid_Parse uuid_hex (uuid_String uuid_hex x) = Inr x \<and> uuid_String uuid_hex x \<noteq> []
      \<and> set (uuid_String uuid_hex x) \<subseteq> set hex_alphabet" if "length x = 16" for x
  proof -
    have "subslice x 0 4 @ subslice x 4 6 @ subslice x 6 8 @ subslice x 8 10 @ subslice x 10 16 = x"
      using that by (simp flip: slice_split) (simp add: subslice_def)
    then have "hex_bytes (subslice x 0 4) @ hex_bytes (subslice x 4 6) @ hex_bytes (subslice x 6 8)
        @ hex_bytes (subslice x 8 10) @ hex_bytes (subslice x 10 16) = hex_bytes x"
      by (metis hex_bytes_append)
    then have "uuid_Parse uuid_hex (uuid_String uuid_hex x) = Inr x"
      by (simp add: uuid_hex_def filter_hex_bytes unhex_hex_bytes)
    moreover have "set (hex_bytes y) \<subseteq> set hex_alphabet" for y
      using hex_bytes_chars hexd_chars(1) by blast
    then have "set (uuid_String uuid_hex x) \<subseteq> set hex_alphabet"
      by (simp only: uuid_hex_def uuidlib.simps set_append Un_subset_iff) (simp add: hex_alphabet_def)
    ultimately show ?thesis by (simp add: uuid_hex_def)
  qed
  then show ?thesis by (simp add: uuid_ok_def)
qed

section \<open>Properties\<close>

text \<open>
  C18: a meta header that is well formed (a known file type and version, values without surrounding
  space or line breaks, extra keys that are not reserved) is encoded without an error, and reading
  the bytes back returns it in canonical form (clocks and extra lines sorted, an empty previous
  clock absent) with the reader left exactly behind the header, whatever follows.
\<close>

theorem meta_roundtrip:
  assumes "uuid_ok u" "meta_ok m" "FormatVer m = LegacyFormatVersion \<longrightarrow> AcceptV012 opts"
  shows "\<exists>hdr. EncodeMeta u None (Some m) = Inr hdr
    \<and> DecodeMeta u (Some \<lparr>br_rest = str_bytes hdr @ rest, br_err = e\<rparr>) opts
      = (Inr (meta_canon m), Some \<lparr>br_rest = rest, br_err = e\<rparr>)"
proof -
  obtain hdr where "EncodeMeta u None (Some m) = Inr hdr"
    "DecodeMeta u (Some (rd hdr rest e)) opts = (Inr (meta_canon m), Some (rd [] rest e))"
    by (rule DecodeMeta_EncodeMeta [OF assms(1,2), of opts]) (use assms(3) in simp)
  then show ?thesis by (auto simp: rd_def str_bytes_def)
qed

definition sample_meta :: Meta where
  "sample_meta = \<lparr>MFiletype = FiletypeXLOG, FormatVer = [], Version = ''3.1'', InstanceUUID = replicate 16 0xab,
     MVClock = Some [(2, 5), (1, 7)], PrevVClock = Some [(1, 3)], Extras = Some [(''Note'', ''x y''), (''A'', [])]\<rparr>"

lemma sample_meta_ok: "meta_ok sample_meta"
proof -
  have v: "value_ok ''3.1''" "value_ok ''x y''" "value_ok []" "key_ok ''Note''" "key_ok ''A''"
    unfolding value_ok_def line_ok_def key_ok_def by code_simp+
  then show ?thesis
    by (simp add: meta_ok_def sample_meta_def Extras_entries_def vclock_wf_def vids_def reserved_keys_def)
qed

theorem meta_roundtrip_witness:
  "\<exists>hdr. EncodeMeta uuid_hex None (Some sample_meta) = Inr hdr
    \<and> DecodeMeta uuid_hex (Some \<lparr>br_rest = str_bytes hdr @ [0xd5], br_err = [Go EOF]\<rparr>) \<lparr>AcceptV012 = False\<rparr>
      = (Inr (meta_canon sample_meta), Some \<lparr>br_rest = [0xd5], br_err = [Go EOF]\<rparr>)"
  by (rule meta_roundtrip [OF uuid_hex_ok sample_meta_ok]) (simp add: sample_meta_def LegacyFormatVersion_def)

text \<open>the inline insertion sort of the extra keys returns a sorted permutation.\<close>

theorem sortStrings_correct: "sorted (sortStrings a) \<and> mset (sortStrings a) = mset a"
  by (rule sortStrings_sorted)

end
