(* ===== verification/Reader.thy ===== *)
theory Reader
  imports TxBlock XlogMeta
begin

unbundle bit_operations_syntax

text \<open>
  The forward-only cursor over a file (\<^verbatim>\<open>reader/reader.go\<close>, \<^verbatim>\<open>reader/cursor.go\<close>): construction, the
  streaming cursor over a buffered reader, the in-memory cursor over a byte slice, and the row and
  transaction loops they share. Slices are values: the aliasing of buffers and bodies, which decides
  how long a returned body stays valid, is not modelled. Every loop is a total function: its
  termination proof is the proof that the cursor always moves forward.
\<close>

section \<open>State\<close>

record readerCfg =
  skipCorruptTx :: bool
  ignoreMissingEOF :: bool
  metaOpts :: MetaOptions
  aliasBodies :: bool

definition readerCfg0 :: readerCfg where
  "readerCfg0 = \<lparr>skipCorruptTx = False, ignoreMissingEOF = False, metaOpts = \<lparr>AcceptV012 = False\<rparr>,
     aliasBodies = False\<rparr>"

type_synonym ReaderOption = "readerCfg \<Rightarrow> readerCfg"

definition SkipCorruptTx :: ReaderOption where "SkipCorruptTx c = c\<lparr>skipCorruptTx := True\<rparr>"
definition IgnoreMissingEOF :: ReaderOption where "IgnoreMissingEOF c = c\<lparr>ignoreMissingEOF := True\<rparr>"
definition AcceptV012Opt :: ReaderOption where "AcceptV012Opt c = c\<lparr>metaOpts := \<lparr>AcceptV012 = True\<rparr>\<rparr>"
definition WithAliasBodies :: ReaderOption where "WithAliasBodies c = c\<lparr>aliasBodies := True\<rparr>"

record Reader =
  cfg :: readerCfg
  owned :: bool
  br :: "bufreader option"
  rmeta :: Meta
  plain :: bytes
  plainOff :: nat
  eofSeen :: bool
  markerSeen :: bool
  consumed :: nat
  blockBytes :: nat
  scanErr :: "error option"
  bodyArena :: bytes
  txView :: "XRow list"
  cur :: XRow
  buf :: bytes
  pos :: nat

definition MaxTxPayloadLen :: nat where
  "MaxTxPayloadLen = 2 ^ 30"

section \<open>Construction\<close>

definition reader_init :: "readerCfg \<Rightarrow> bufreader option \<Rightarrow> Meta \<Rightarrow> bytes \<Rightarrow> nat \<Rightarrow> nat \<Rightarrow> Reader" where
  "reader_init c b m img p off = \<lparr>cfg = c, owned = False, br = b, rmeta = m, plain = [], plainOff = 0,
     eofSeen = False, markerSeen = False, consumed = off, blockBytes = 0, scanErr = None,
     bodyArena = [], txView = [], cur = XRow0, buf = img, pos = p\<rparr>"

definition apply_options :: "ReaderOption list \<Rightarrow> readerCfg" where
  "apply_options opts = foldl (\<lambda>c opt. opt c) readerCfg0 opts"

text \<open>
  The bytes pulled into the buffer less the bytes still buffered are the bytes the header took:
  the length of the source less what is left of it.
\<close>

definition newReader :: "uuidlib \<Rightarrow> bufreader \<Rightarrow> ReaderOption list \<Rightarrow> error + Reader" where
  "newReader u src opts =
     (let c = apply_options opts in
      case DecodeMeta u (Some src) (metaOpts c) of
        (Inr m, Some b) \<Rightarrow> Inr (reader_init c (Some b) m [] 0 (length (br_rest src) - length (br_rest b)))
      | (Inr m, None) \<Rightarrow> Inl [Go Panic]
      | (Inl e, _) \<Rightarrow> Inl e)"

definition newReaderBytes :: "uuidlib \<Rightarrow> bytes \<Rightarrow> ReaderOption list \<Rightarrow> error + Reader" where
  "newReaderBytes u b opts =
     (let c = apply_options opts in
      case DecodeMeta u (Some \<lparr>br_rest = b, br_err = [Go EOF]\<rparr>) (metaOpts c) of
        (Inr m, Some br') \<Rightarrow>
          (let off = length b - length (br_rest br') in Inr (reader_init c None m b off off))
      | (Inr m, None) \<Rightarrow> Inl [Go Panic]
      | (Inl e, _) \<Rightarrow> Inl e)"

text \<open>A file is its bytes; reading past them gives \<^verbatim>\<open>io.EOF\<close>.\<close>

definition newReaderAt :: "uuidlib \<Rightarrow> bytes \<Rightarrow> nat \<Rightarrow> ReaderOption list \<Rightarrow> error + Reader" where
  "newReaderAt u f blockOffset opts =
     (let c = apply_options opts in
      case DecodeMeta u (Some \<lparr>br_rest = f, br_err = [Go EOF]\<rparr>) (metaOpts c) of
        (Inr m, Some b) \<Rightarrow>
          (let metaSize = length f - length (br_rest b);
               off = (if blockOffset < metaSize then metaSize else blockOffset)
           in Inr (reader_init c (Some \<lparr>br_rest = drop off f, br_err = [Go EOF]\<rparr>) m [] 0 off))
      | (Inr m, None) \<Rightarrow> Inl [Go Panic]
      | (Inl e, _) \<Rightarrow> Inl e)"

text \<open>
  The path-shaped constructors on a file system, a map from paths to contents; \<open>closeErr\<close> is what
  closing the file returns.
\<close>

type_synonym filesystem = "string \<Rightarrow> bytes option"

definition own_or_close :: "error option \<Rightarrow> error + Reader \<Rightarrow> error + Reader" where
  "own_or_close closeErr res = (case res of
     Inl e \<Rightarrow> (case closeErr of None \<Rightarrow> Inl e | Some ce \<Rightarrow> Inl (e @ ce))
   | Inr r \<Rightarrow> Inr (r\<lparr>owned := True\<rparr>))"

definition Open :: "uuidlib \<Rightarrow> filesystem \<Rightarrow> error option \<Rightarrow> string \<Rightarrow> ReaderOption list \<Rightarrow> error + Reader" where
  "Open u fs closeErr path opts = (case fs path of
     None \<Rightarrow> Inl [Go OsErrNotExist]
   | Some f \<Rightarrow> own_or_close closeErr (newReader u \<lparr>br_rest = f, br_err = [Go EOF]\<rparr> opts))"

definition OpenAt ::
    "uuidlib \<Rightarrow> filesystem \<Rightarrow> error option \<Rightarrow> string \<Rightarrow> nat \<Rightarrow> ReaderOption list \<Rightarrow> error + Reader" where
  "OpenAt u fs closeErr path blockOffset opts = (case fs path of
     None \<Rightarrow> Inl [Go OsErrNotExist]
   | Some f \<Rightarrow> own_or_close closeErr (newReaderAt u f blockOffset opts))"

definition ReadHeader ::
    "uuidlib \<Rightarrow> filesystem \<Rightarrow> error option \<Rightarrow> string \<Rightarrow> ReaderOption list \<Rightarrow> error + Meta" where
  "ReadHeader u fs closeErr path opts = (case Open u fs closeErr path opts of
     Inl e \<Rightarrow> Inl e
   | Inr r \<Rightarrow> (case Meta_Clone (Some (rmeta r)) of None \<Rightarrow> Inl [Go Panic] | Some m \<Rightarrow> Inr m))"

text \<open>
  An \<^verbatim>\<open>io/fs.FS\<close> opens a name with its own error, or as a file of bytes.
\<close>

type_synonym iofs = "string \<Rightarrow> error + bytes"

definition OpenFS :: "uuidlib \<Rightarrow> iofs \<Rightarrow> error option \<Rightarrow> string \<Rightarrow> ReaderOption list \<Rightarrow> error + Reader" where
  "OpenFS u fsys closeErr name opts = (case fsys name of
     Inl e \<Rightarrow> Inl e
   | Inr f \<Rightarrow> own_or_close closeErr (newReader u \<lparr>br_rest = f, br_err = [Go EOF]\<rparr> opts))"

definition ReadHeaderFS :: "uuidlib \<Rightarrow> iofs \<Rightarrow> error option \<Rightarrow> string \<Rightarrow> ReaderOption list \<Rightarrow> error + Meta" where
  "ReadHeaderFS u fsys closeErr name opts = (case OpenFS u fsys closeErr name opts of
     Inl e \<Rightarrow> Inl e
   | Inr r \<Rightarrow> (case Meta_Clone (Some (rmeta r)) of None \<Rightarrow> Inl [Go Panic] | Some m \<Rightarrow> Inr m))"

definition Offset :: "Reader \<Rightarrow> nat" where "Offset r = consumed r"
definition SawEOFMarker :: "Reader \<Rightarrow> bool" where "SawEOFMarker r = markerSeen r"

definition Reader_Close :: "error option \<Rightarrow> Reader \<Rightarrow> error option \<times> Reader" where
  "Reader_Close closeErr r =
     (if \<not> owned r then (None, r) else (closeErr, r\<lparr>owned := False\<rparr>))"

section \<open>The buffered source\<close>

definition Peek :: "bufreader \<Rightarrow> nat \<Rightarrow> error option \<times> bytes" where
  "Peek b n = (if n \<le> length (br_rest b) then (None, take n (br_rest b)) else (Some (br_err b), br_rest b))"

definition ReadFull :: "bufreader \<Rightarrow> nat \<Rightarrow> (error + bytes) \<times> bufreader" where
  "ReadFull b n =
     (if n \<le> length (br_rest b) then (Inr (take n (br_rest b)), b\<lparr>br_rest := drop n (br_rest b)\<rparr>)
      else (Inl (if br_rest b \<noteq> [] \<and> br_err b = [Go EOF] then [Go ErrUnexpectedEOF] else br_err b),
            b\<lparr>br_rest := []\<rparr>))"

definition is_magic :: "bytes \<Rightarrow> bool" where
  "is_magic b \<longleftrightarrow> b = RowMarker \<or> b = ZRowMarker \<or> b = EOFMarker"

definition handleMissingEOF :: "Reader \<Rightarrow> error option \<times> Reader" where
  "handleMissingEOF r =
     (if ignoreMissingEOF (cfg r) then (None, r\<lparr>eofSeen := True\<rparr>) else (Some [Rd ErrTruncated], r))"

text \<open>What is left once bytes are discarded until a magic is next or fewer than 4 remain.\<close>

fun scan_rest :: "bytes \<Rightarrow> bytes" where
  "scan_rest [] = []"
| "scan_rest (x # b) = (if length (x # b) < MarkerSize then x # b
     else if is_magic (take MarkerSize (x # b)) then x # b else scan_rest b)"

section \<open>The streaming cursor\<close>

text \<open>These run with \<open>br = Some b\<close>; they take the buffered reader \<open>b\<close> apart.\<close>

definition set_rest :: "Reader \<Rightarrow> bufreader \<Rightarrow> bytes \<Rightarrow> Reader" where
  "set_rest r b rest = r\<lparr>br := Some (b\<lparr>br_rest := rest\<rparr>)\<rparr>"

definition peekMagic :: "bufreader \<Rightarrow> error + bytes" where
  "peekMagic b = (case Peek b MarkerSize of
     (Some e, p) \<Rightarrow>
       if errors_Is e (Go EOF) \<and> length p = 0 then Inl [Go EOF]
       else if errors_Is e (Go EOF) \<or> errors_Is e (Go ErrUnexpectedEOF) then Inl [Rd ErrTruncated]
       else Inl e
   | (None, p) \<Rightarrow> Inr p)"

definition scanForwardToMagic :: "Reader \<Rightarrow> bufreader \<Rightarrow> error option \<times> Reader" where
  "scanForwardToMagic r b =
     (let b' = b\<lparr>br_rest := scan_rest (br_rest b)\<rparr>; r' = r\<lparr>br := Some b'\<rparr>
      in case Peek b' MarkerSize of
           (Some e, p) \<Rightarrow>
             if errors_Is e (Go EOF) then handleMissingEOF r'
             else if errors_Is e (Go ErrUnexpectedEOF) then (Some [Rd ErrTruncated], r')
             else (Some e, r')
         | (None, _) \<Rightarrow> (None, r'))"

definition short_read :: "error \<Rightarrow> error" where
  "short_read e = (if errors_Is e (Go EOF) \<or> errors_Is e (Go ErrUnexpectedEOF) then [Rd ErrTruncated] else e)"

definition resync :: "(error option \<times> Reader) \<Rightarrow> error option \<times> Reader" where
  "resync s = (case s of (Some e, r) \<Rightarrow> (Some e, r) | (None, r) \<Rightarrow> (Some [Rd ErrResync], r))"

text \<open>The decoded block is stored in the row cursor.\<close>

definition stash_block :: "zstd \<Rightarrow> Reader \<Rightarrow> Fixheader \<Rightarrow> bytes \<Rightarrow> error option \<times> Reader" where
  "stash_block z r h payload =
     (case (if Magic h = ZRowMarker then DecompressTx z payload else Inr payload) of
        Inl e \<Rightarrow> (Some e, r)
      | Inr p \<Rightarrow> (None, r\<lparr>plain := p, plainOff := 0, blockBytes := FixheaderSize + unat (Len h)\<rparr>))"

definition readTxBlock :: "zstd \<Rightarrow> Reader \<Rightarrow> bufreader \<Rightarrow> error option \<times> Reader" where
  "readTxBlock z r b = (case ReadFull b FixheaderSize of
     (Inl e, b1) \<Rightarrow> (Some (short_read e), r\<lparr>br := Some b1\<rparr>)
   | (Inr fhBuf, b1) \<Rightarrow>
       (case DecodeFixheaderInto fhBuf of Inl e \<Rightarrow> (Some e, r\<lparr>br := Some b1\<rparr>)
        | Inr h \<Rightarrow>
            if unat (Len h) > MaxTxPayloadLen then (Some [Rd ErrTxTooLarge], r\<lparr>br := Some b1\<rparr>)
            else (case ReadFull b1 (unat (Len h)) of
               (Inl e, b2) \<Rightarrow> (Some (short_read e), r\<lparr>br := Some b2\<rparr>)
             | (Inr txBuf, b2) \<Rightarrow>
                 if CRC32C txBuf \<noteq> FhCRC32C h then
                   (if skipCorruptTx (cfg r) then resync (scanForwardToMagic r b2)
                    else (Some [Rd ErrCorruptCRC], r\<lparr>br := Some b2\<rparr>))
                 else stash_block z (r\<lparr>br := Some b2\<rparr>) h txBuf)))"

definition readBlockRaw :: "Reader \<Rightarrow> bufreader \<Rightarrow> (error + bytes) \<times> Reader" where
  "readBlockRaw r b = (case ReadFull b FixheaderSize of
     (Inl e, b1) \<Rightarrow> (Inl (short_read e), r\<lparr>br := Some b1\<rparr>)
   | (Inr fhBuf, b1) \<Rightarrow>
       (case DecodeFixheaderInto fhBuf of Inl e \<Rightarrow> (Inl e, r\<lparr>br := Some b1\<rparr>)
        | Inr h \<Rightarrow>
            if unat (Len h) > MaxTxPayloadLen then (Inl [Rd ErrTxTooLarge], r\<lparr>br := Some b1\<rparr>)
            else (case ReadFull b1 (unat (Len h)) of
               (Inl e, b2) \<Rightarrow> (Inl (short_read e), r\<lparr>br := Some b2\<rparr>)
             | (Inr payload, b2) \<Rightarrow>
                 if CRC32C payload \<noteq> FhCRC32C h then
                   (if skipCorruptTx (cfg r) then
                      (case resync (scanForwardToMagic r b2) of
                         (Some e, r') \<Rightarrow> (Inl e, r') | (None, r') \<Rightarrow> (Inl [Go Panic], r'))
                    else (Inl [Rd ErrCorruptCRC], r\<lparr>br := Some b2\<rparr>))
                 else (Inr (fhBuf @ payload),
                       r\<lparr>br := Some b2, consumed := consumed r + (FixheaderSize + unat (Len h))\<rparr>))))"

text \<open>
  One round of the retry loops of \<^verbatim>\<open>loadNextTx\<close> and \<^verbatim>\<open>NextBlockRaw\<close>: the result the loop returns, or
  the state it continues in.
\<close>

datatype 'a round = Done "error + 'a" | Again

definition load_round :: "zstd \<Rightarrow> Reader \<Rightarrow> bufreader \<Rightarrow> unit round \<times> Reader" where
  "load_round z r b = (case peekMagic b of
     Inl e \<Rightarrow>
       if errors_Is e (Go EOF) then
         (case handleMissingEOF r of (Some e', r') \<Rightarrow> (Done (Inl e'), r') | (None, r') \<Rightarrow> (Done (Inr ()), r'))
       else (Done (Inl e), r)
   | Inr magic \<Rightarrow>
       if magic = EOFMarker then
         (Done (Inr ()), (set_rest r b (drop MarkerSize (br_rest b)))\<lparr>eofSeen := True, markerSeen := True\<rparr>)
       else if magic = RowMarker \<or> magic = ZRowMarker then
         (case readTxBlock z r b of
            (Some e, r') \<Rightarrow> if errors_Is e (Rd ErrResync) then (Again, r') else (Done (Inl e), r')
          | (None, r') \<Rightarrow> (Done (Inr ()), r'))
       else if skipCorruptTx (cfg r) then
         (case scanForwardToMagic r b of (Some e, r') \<Rightarrow> (Done (Inl e), r') | (None, r') \<Rightarrow> (Again, r'))
       else (Done (Inl [Rd ErrUnknownMagic]), r))"

definition raw_round :: "Reader \<Rightarrow> bufreader \<Rightarrow> bytes round \<times> Reader" where
  "raw_round r b = (case peekMagic b of
     Inl e \<Rightarrow>
       if errors_Is e (Go EOF) then
         (case handleMissingEOF r of (Some e', r') \<Rightarrow> (Done (Inl e'), r') | (None, r') \<Rightarrow> (Done (Inl [Go EOF]), r'))
       else (Done (Inl e), r)
   | Inr magic \<Rightarrow>
       if magic = EOFMarker then
         (Done (Inl [Go EOF]), (set_rest r b (drop MarkerSize (br_rest b)))\<lparr>eofSeen := True, markerSeen := True\<rparr>)
       else if magic = RowMarker \<or> magic = ZRowMarker then
         (case readBlockRaw r b of
            (Inl e, r') \<Rightarrow> if errors_Is e (Rd ErrResync) then (Again, r') else (Done (Inl e), r')
          | (Inr block, r') \<Rightarrow> (Done (Inr block), r'))
       else if skipCorruptTx (cfg r) then
         (case scanForwardToMagic r b of (Some e, r') \<Rightarrow> (Done (Inl e), r') | (None, r') \<Rightarrow> (Again, r'))
       else (Done (Inl [Rd ErrUnknownMagic]), r))"

text \<open>How much input is left; every continued round and every loaded block makes it smaller.\<close>

definition input_left :: "Reader \<Rightarrow> nat" where
  "input_left r = (case br r of Some b \<Rightarrow> length (br_rest b) | None \<Rightarrow> length (buf r) - pos r)"

lemma scan_rest_length: "length (scan_rest b) \<le> length b"
  by (induction b rule: scan_rest.induct) (auto simp del: MarkerSize_def)

lemma scan_rest_short:
  "length b < MarkerSize \<Longrightarrow> scan_rest b = b"
  by (cases b) simp_all

lemma scan_rest_less:
  "MarkerSize \<le> length b \<Longrightarrow> \<not> is_magic (take MarkerSize b) \<Longrightarrow> length (scan_rest b) < length b"
  using scan_rest_length by (cases b) (auto simp: less_Suc_eq_le)

lemma scan_rest_stops: "length (scan_rest b) < MarkerSize \<or> is_magic (take MarkerSize (scan_rest b))"
  by (induction b rule: scan_rest.induct) auto

lemma handleMissingEOF_left: "handleMissingEOF r = (e, r') \<Longrightarrow> br r' = br r \<and> buf r' = buf r \<and> pos r' = pos r"
  by (auto simp: handleMissingEOF_def split: if_splits)

lemma scanForwardToMagic_left:
  "scanForwardToMagic r b = (e, r') \<Longrightarrow> br r' = Some (b\<lparr>br_rest := scan_rest (br_rest b)\<rparr>) \<and> pos r' = pos r \<and> buf r' = buf r"
  by (auto simp: scanForwardToMagic_def Let_def split: prod.splits option.splits if_splits
      dest!: handleMissingEOF_left)

lemma resync_left: "resync s = (e, r') \<Longrightarrow> r' = snd s"
  by (auto simp: resync_def split: prod.splits option.splits)

lemma ReadFull_less: "ReadFull b n = (x, b') \<Longrightarrow> 0 < n \<Longrightarrow> br_rest b \<noteq> [] \<Longrightarrow> length (br_rest b') < length (br_rest b)"
  by (auto simp: ReadFull_def split: if_splits)

lemma ReadFull_le: "ReadFull b n = (x, b') \<Longrightarrow> length (br_rest b') \<le> length (br_rest b)"
  by (auto simp: ReadFull_def split: if_splits)

lemma stash_block_left:
  "stash_block z r h p = (e, r') \<Longrightarrow> br r' = br r \<and> buf r' = buf r \<and> pos r' = pos r
    \<and> (\<forall>s. e = Some s \<longrightarrow> set s \<subseteq> range Go)"
  by (auto simp: stash_block_def DecompressTx_def split: sum.splits if_splits)

lemma input_left_br: "br r = Some b \<Longrightarrow> input_left r = length (br_rest b)"
  by (simp add: input_left_def)

lemma resync_scan_left:
  "resync (scanForwardToMagic r b) = (e, r') \<Longrightarrow> br r' = Some (b\<lparr>br_rest := scan_rest (br_rest b)\<rparr>)"
  using scanForwardToMagic_left by (metis prod.collapse resync_left)

lemma readTxBlock_left:
  assumes "readTxBlock z r b = (e, r')" and "br_rest b \<noteq> []"
  shows "\<exists>b'. br r' = Some b' \<and> length (br_rest b') < length (br_rest b)"
proof -
  obtain x1 b1 where b1: "ReadFull b FixheaderSize = (x1, b1)" by (cases "ReadFull b FixheaderSize")
  have l1: "length (br_rest b1) < length (br_rest b)" using ReadFull_less [OF b1] assms(2) by simp
  have "\<exists>b'. br r' = Some b' \<and> length (br_rest b') \<le> length (br_rest b1)"
    using assms(1) b1
    by (auto simp: readTxBlock_def split: sum.splits if_splits prod.splits
        dest!: stash_block_left resync_scan_left ReadFull_le intro: le_trans [OF scan_rest_length] simp del: FixheaderSize_def)
  with l1 show ?thesis by fastforce
qed

lemma readBlockRaw_left:
  assumes "readBlockRaw r b = (e, r')" and "br_rest b \<noteq> []"
  shows "\<exists>b'. br r' = Some b' \<and> length (br_rest b') < length (br_rest b)"
proof -
  obtain x1 b1 where b1: "ReadFull b FixheaderSize = (x1, b1)" by (cases "ReadFull b FixheaderSize")
  have l1: "length (br_rest b1) < length (br_rest b)" using ReadFull_less [OF b1] assms(2) by simp
  have "\<exists>b'. br r' = Some b' \<and> length (br_rest b') \<le> length (br_rest b1)"
    using assms(1) b1
    by (auto simp: readBlockRaw_def split: sum.splits if_splits prod.splits option.splits
        dest!: resync_scan_left ReadFull_le intro: le_trans [OF scan_rest_length] simp del: FixheaderSize_def)
  with l1 show ?thesis by fastforce
qed

lemma peekMagic_Inr: "peekMagic b = Inr m \<Longrightarrow> MarkerSize \<le> length (br_rest b) \<and> m = take MarkerSize (br_rest b)"
  by (auto simp: peekMagic_def Peek_def split: if_splits)

lemma scan_left:
  assumes "scanForwardToMagic r b = (e, r')" "peekMagic b = Inr m" "\<not> is_magic m"
  shows "\<exists>b'. br r' = Some b' \<and> length (br_rest b') < length (br_rest b)"
  using scanForwardToMagic_left [OF assms(1)] scan_rest_less [of "br_rest b"] peekMagic_Inr [OF assms(2)] assms(3)
  by auto

lemma load_round_left:
  assumes "load_round z r b = (Again, r')"
  shows "\<exists>b'. br r' = Some b' \<and> length (br_rest b') < length (br_rest b)"
proof -
  from assms obtain m where m: "peekMagic b = Inr m"
    by (cases "peekMagic b") (auto simp: load_round_def split: if_splits prod.splits option.splits)
  then have ne: "br_rest b \<noteq> []" using peekMagic_Inr [OF m] by auto
  show ?thesis
    using assms m readTxBlock_left [OF _ ne] scan_left [OF _ m]
    by (auto simp: load_round_def is_magic_def split: if_splits prod.splits option.splits)
qed

lemma raw_round_left:
  assumes "raw_round r b = (Again, r')"
  shows "\<exists>b'. br r' = Some b' \<and> length (br_rest b') < length (br_rest b)"
proof -
  from assms obtain m where m: "peekMagic b = Inr m"
    by (cases "peekMagic b") (auto simp: raw_round_def split: if_splits prod.splits option.splits)
  then have ne: "br_rest b \<noteq> []" using peekMagic_Inr [OF m] by auto
  show ?thesis
    using assms m readBlockRaw_left [OF _ ne] scan_left [OF _ m]
    by (auto simp: raw_round_def is_magic_def split: if_splits prod.splits option.splits sum.splits)
qed

function load_loop :: "zstd \<Rightarrow> Reader \<Rightarrow> bufreader \<Rightarrow> (error + unit) \<times> Reader" where
  "load_loop z r b = (case load_round z r b of
     (Done res, r') \<Rightarrow> (res, r')
   | (Again, r') \<Rightarrow> (case br r' of None \<Rightarrow> (Inl [Go Panic], r') | Some b' \<Rightarrow> load_loop z r' b'))"
  by pat_completeness auto
termination
  by (relation "measure (\<lambda>(z, r, b). length (br_rest b))") (auto dest: load_round_left [OF sym])

function raw_loop :: "Reader \<Rightarrow> bufreader \<Rightarrow> (error + bytes) \<times> Reader" where
  "raw_loop r b = (case raw_round r b of
     (Done res, r') \<Rightarrow> (res, r')
   | (Again, r') \<Rightarrow> (case br r' of None \<Rightarrow> (Inl [Go Panic], r') | Some b' \<Rightarrow> raw_loop r' b'))"
  by pat_completeness auto
termination
  by (relation "measure (\<lambda>(r, b). length (br_rest b))") (auto dest: raw_round_left [OF sym])

declare load_loop.simps [simp del] raw_loop.simps [simp del]

section \<open>The in-memory cursor\<close>

function scanForwardToMagicBytes :: "Reader \<Rightarrow> error option \<times> Reader" where
  "scanForwardToMagicBytes r =
     (if length (buf r) - pos r < MarkerSize then handleMissingEOF r
      else if is_magic (subslice (buf r) (pos r) (pos r + MarkerSize)) then (None, r)
      else scanForwardToMagicBytes (r\<lparr>pos := pos r + 1\<rparr>))"
  by pat_completeness auto
termination
  by (relation "measure (\<lambda>r. length (buf r) - pos r)") auto

declare scanForwardToMagicBytes.simps [simp del]

definition readTxBlockBytes :: "zstd \<Rightarrow> Reader \<Rightarrow> error option \<times> Reader" where
  "readTxBlockBytes z r =
     (if length (buf r) - pos r < FixheaderSize then (Some [Rd ErrTruncated], r)
      else (case DecodeFixheaderInto (subslice (buf r) (pos r) (pos r + FixheaderSize)) of
          Inl e \<Rightarrow> (Some e, r)
        | Inr h \<Rightarrow>
            if unat (Len h) > MaxTxPayloadLen then (Some [Rd ErrTxTooLarge], r)
            else (let payloadStart = pos r + FixheaderSize; payloadEnd = payloadStart + unat (Len h)
                  in if payloadEnd > length (buf r) then (Some [Rd ErrTruncated], r)
                     else (let payload = subslice (buf r) payloadStart payloadEnd
                           in if CRC32C payload \<noteq> FhCRC32C h then
                                (if skipCorruptTx (cfg r)
                                 then resync (scanForwardToMagicBytes (r\<lparr>pos := payloadEnd\<rparr>))
                                 else (Some [Rd ErrCorruptCRC], r))
                              else (case stash_block z r h payload of
                                      (Some e, r') \<Rightarrow> (Some e, r')
                                    | (None, r') \<Rightarrow> (None, r'\<lparr>pos := payloadEnd\<rparr>))))))"

definition readBlockRawBytes :: "Reader \<Rightarrow> (error + bytes) \<times> Reader" where
  "readBlockRawBytes r =
     (if length (buf r) - pos r < FixheaderSize then (Inl [Rd ErrTruncated], r)
      else (case DecodeFixheaderInto (subslice (buf r) (pos r) (pos r + FixheaderSize)) of
          Inl e \<Rightarrow> (Inl e, r)
        | Inr h \<Rightarrow>
            if unat (Len h) > MaxTxPayloadLen then (Inl [Rd ErrTxTooLarge], r)
            else (let total = FixheaderSize + unat (Len h)
                  in if pos r + total > length (buf r) then (Inl [Rd ErrTruncated], r)
                     else (let payload = subslice (buf r) (pos r + FixheaderSize) (pos r + total)
                           in if CRC32C payload \<noteq> FhCRC32C h then
                                (if skipCorruptTx (cfg r) then
                                   (case resync (scanForwardToMagicBytes (r\<lparr>pos := pos r + total\<rparr>)) of
                                      (Some e, r') \<Rightarrow> (Inl e, r') | (None, r') \<Rightarrow> (Inl [Go Panic], r'))
                                 else (Inl [Rd ErrCorruptCRC], r))
                              else (Inr (subslice (buf r) (pos r) (pos r + total)),
                                    r\<lparr>pos := pos r + total, consumed := consumed r + total\<rparr>)))))"

definition load_round_bytes :: "zstd \<Rightarrow> Reader \<Rightarrow> unit round \<times> Reader" where
  "load_round_bytes z r =
     (if length (buf r) - pos r < MarkerSize then
        (if pos r = length (buf r) then
           (case handleMissingEOF r of (Some e, r') \<Rightarrow> (Done (Inl e), r') | (None, r') \<Rightarrow> (Done (Inr ()), r'))
         else (Done (Inl [Rd ErrTruncated]), r))
      else (let magic = subslice (buf r) (pos r) (pos r + MarkerSize) in
        if magic = EOFMarker then
          (Done (Inr ()), r\<lparr>pos := pos r + MarkerSize, eofSeen := True, markerSeen := True\<rparr>)
        else if magic = RowMarker \<or> magic = ZRowMarker then
          (case readTxBlockBytes z r of
             (Some e, r') \<Rightarrow> if errors_Is e (Rd ErrResync) then (Again, r') else (Done (Inl e), r')
           | (None, r') \<Rightarrow> (Done (Inr ()), r'))
        else if skipCorruptTx (cfg r) then
          (case scanForwardToMagicBytes r of (Some e, r') \<Rightarrow> (Done (Inl e), r') | (None, r') \<Rightarrow> (Again, r'))
        else (Done (Inl [Rd ErrUnknownMagic]), r)))"

definition raw_round_bytes :: "Reader \<Rightarrow> bytes round \<times> Reader" where
  "raw_round_bytes r =
     (if length (buf r) - pos r < MarkerSize then
        (if pos r = length (buf r) then
           (case handleMissingEOF r of (Some e, r') \<Rightarrow> (Done (Inl e), r') | (None, r') \<Rightarrow> (Done (Inl [Go EOF]), r'))
         else (Done (Inl [Rd ErrTruncated]), r))
      else (let magic = subslice (buf r) (pos r) (pos r + MarkerSize) in
        if magic = EOFMarker then
          (Done (Inl [Go EOF]), r\<lparr>pos := pos r + MarkerSize, eofSeen := True, markerSeen := True\<rparr>)
        else if magic = RowMarker \<or> magic = ZRowMarker then
          (case readBlockRawBytes r of
             (Inl e, r') \<Rightarrow> if errors_Is e (Rd ErrResync) then (Again, r') else (Done (Inl e), r')
           | (Inr block, r') \<Rightarrow> (Done (Inr block), r'))
        else if skipCorruptTx (cfg r) then
          (case scanForwardToMagicBytes r of (Some e, r') \<Rightarrow> (Done (Inl e), r') | (None, r') \<Rightarrow> (Again, r'))
        else (Done (Inl [Rd ErrUnknownMagic]), r)))"

lemma scanForwardToMagicBytes_left:
  "scanForwardToMagicBytes r = (e, r') \<Longrightarrow> br r' = br r \<and> buf r' = buf r \<and> pos r \<le> pos r' \<and> cfg r' = cfg r"
proof (induction r rule: scanForwardToMagicBytes.induct)
  case (1 r)
  show ?case
  proof (cases "length (buf r) - pos r < MarkerSize \<or> is_magic (subslice (buf r) (pos r) (pos r + MarkerSize))")
    case True
    with "1.prems" show ?thesis
      by (auto simp: scanForwardToMagicBytes.simps [of r] handleMissingEOF_def split: if_splits)
  next
    case False
    with "1.prems" "1.IH" show ?thesis by (simp add: scanForwardToMagicBytes.simps [of r])
  qed
qed

lemma scanForwardToMagicBytes_less:
  assumes "scanForwardToMagicBytes r = (e, r')" "\<not> length (buf r) - pos r < MarkerSize"
    "\<not> is_magic (subslice (buf r) (pos r) (pos r + MarkerSize))"
  shows "buf r' = buf r \<and> br r' = br r \<and> pos r < pos r'"
proof -
  have "scanForwardToMagicBytes (r\<lparr>pos := pos r + 1\<rparr>) = (e, r')"
    using assms by (simp add: scanForwardToMagicBytes.simps [of r])
  from scanForwardToMagicBytes_left [OF this] show ?thesis by simp
qed

lemma resync_bytes_left:
  "resync (scanForwardToMagicBytes r) = (e, r') \<Longrightarrow> br r' = br r \<and> buf r' = buf r \<and> pos r \<le> pos r'"
  using scanForwardToMagicBytes_left by (metis prod.collapse resync_left)

text \<open>The retry sentinel comes from a resync only, and then the cursor has moved.\<close>

lemma readTxBlockBytes_left:
  assumes "readTxBlockBytes z r = (e, r')"
  shows "br r' = br r \<and> buf r' = buf r \<and> (e = None \<or> (\<exists>s. e = Some s \<and> Rd ErrResync \<in> set s) \<longrightarrow> pos r < pos r')"
  using assms
  by (auto simp: readTxBlockBytes_def Let_def split: if_splits sum.splits prod.splits option.splits
      dest!: stash_block_left resync_bytes_left DecodeFixheader_errors)

lemma readBlockRawBytes_left:
  assumes "readBlockRawBytes r = (x, r')"
  shows "br r' = br r \<and> buf r' = buf r \<and> (\<forall>s. x = Inl s \<and> Rd ErrResync \<in> set s \<longrightarrow> pos r < pos r')"
  using assms
  by (auto simp: readBlockRawBytes_def Let_def split: if_splits sum.splits prod.splits option.splits
      dest!: resync_bytes_left DecodeFixheader_errors)

lemma load_round_bytes_left:
  "load_round_bytes z r = (Again, r') \<Longrightarrow> br r' = br r \<and> buf r' = buf r \<and> length (buf r') - pos r' < length (buf r) - pos r"
  using readTxBlockBytes_left [of z r] scanForwardToMagicBytes_less [of r]
  by (auto simp: load_round_bytes_def Let_def is_magic_def split: if_splits prod.splits option.splits)

lemma raw_round_bytes_left:
  "raw_round_bytes r = (Again, r') \<Longrightarrow> br r' = br r \<and> buf r' = buf r \<and> length (buf r') - pos r' < length (buf r) - pos r"
  using readBlockRawBytes_left [of r] scanForwardToMagicBytes_less [of r]
  by (auto simp: raw_round_bytes_def Let_def is_magic_def split: if_splits prod.splits option.splits sum.splits)

function load_loop_bytes :: "zstd \<Rightarrow> Reader \<Rightarrow> (error + unit) \<times> Reader" where
  "load_loop_bytes z r = (case load_round_bytes z r of
     (Done res, r') \<Rightarrow> (res, r') | (Again, r') \<Rightarrow> load_loop_bytes z r')"
  by pat_completeness auto
termination
  by (relation "measure (\<lambda>(z, r). length (buf r) - pos r)") (auto dest: load_round_bytes_left [OF sym])

function nextBlockRawBytes :: "Reader \<Rightarrow> (error + bytes) \<times> Reader" where
  "nextBlockRawBytes r = (case raw_round_bytes r of
     (Done res, r') \<Rightarrow> (res, r') | (Again, r') \<Rightarrow> nextBlockRawBytes r')"
  by pat_completeness auto
termination
  by (relation "measure (\<lambda>r. length (buf r) - pos r)") (auto dest: raw_round_bytes_left [OF sym])

declare load_loop_bytes.simps [simp del] nextBlockRawBytes.simps [simp del]

section \<open>The row cursor\<close>

text \<open>The previous block is drained: the resume offset moves past it.\<close>

definition drain_block :: "Reader \<Rightarrow> Reader" where
  "drain_block r = r\<lparr>consumed := consumed r + blockBytes r, blockBytes := 0\<rparr>"

definition loadNextTxBytes :: "zstd \<Rightarrow> Reader \<Rightarrow> (error + unit) \<times> Reader" where
  "loadNextTxBytes z r = load_loop_bytes z (drain_block r)"

definition loadNextTx :: "zstd \<Rightarrow> Reader \<Rightarrow> (error + unit) \<times> Reader" where
  "loadNextTx z r = (case br r of None \<Rightarrow> loadNextTxBytes z r | Some b \<Rightarrow> load_loop z (drain_block r) b)"

definition NextBlockRaw :: "Reader \<Rightarrow> (error + bytes) \<times> Reader" where
  "NextBlockRaw r = (if eofSeen r then (Inl [Go EOF], r)
     else (case br r of None \<Rightarrow> nextBlockRawBytes r | Some b \<Rightarrow> raw_loop r b))"

text \<open>A load that does not reach the end of the stream has consumed input.\<close>

lemma load_round_done:
  assumes "load_round z r b = (Done (Inr u), r')"
  shows "eofSeen r' \<or> (\<exists>b'. br r' = Some b' \<and> length (br_rest b') < length (br_rest b))"
proof (cases "peekMagic b")
  case (Inl e)
  with assms show ?thesis
    by (auto simp: load_round_def handleMissingEOF_def split: if_splits prod.splits option.splits)
next
  case (Inr m)
  then have "br_rest b \<noteq> []" using peekMagic_Inr by fastforce
  with assms Inr readTxBlock_left [of z r b] show ?thesis
    by (auto simp: load_round_def split: if_splits prod.splits option.splits)
qed

lemma load_loop_left:
  "load_loop z r b = (Inr u, r') \<Longrightarrow>
    eofSeen r' \<or> (\<exists>b'. br r' = Some b' \<and> length (br_rest b') < length (br_rest b))"
proof (induction z r b rule: load_loop.induct)
  case (1 z r b)
  obtain o1 r1 where r1: "load_round z r b = (o1, r1)" by (cases "load_round z r b")
  show ?case
  proof (cases o1)
    case (Done res)
    with "1.prems" r1 have "load_round z r b = (Done (Inr u), r')" by (simp add: load_loop.simps [of z r b])
    then show ?thesis by (rule load_round_done)
  next
    case Again
    with r1 load_round_left obtain b1 where b1: "br r1 = Some b1" "length (br_rest b1) < length (br_rest b)" by blast
    with "1.prems" r1 Again have "load_loop z r1 b1 = (Inr u, r')" by (simp add: load_loop.simps [of z r b])
    from "1.IH" [OF r1 [symmetric, unfolded Again] _ b1(1) this] Again r1 b1(2) show ?thesis by fastforce
  qed
qed

lemma load_loop_bytes_left:
  "load_loop_bytes z r = (Inr u, r') \<Longrightarrow>
    br r' = br r \<and> buf r' = buf r \<and> (eofSeen r' \<or> length (buf r') - pos r' < length (buf r) - pos r)"
proof (induction z r rule: load_loop_bytes.induct)
  case (1 z r)
  obtain o1 r1 where r1: "load_round_bytes z r = (o1, r1)" by (cases "load_round_bytes z r")
  show ?case
  proof (cases o1)
    case (Done res)
    with "1.prems" r1 have "load_round_bytes z r = (Done (Inr u), r')" by (simp add: load_loop_bytes.simps [of z r])
    then show ?thesis using readTxBlockBytes_left [of z r]
      by (auto simp: load_round_bytes_def handleMissingEOF_def Let_def split: if_splits prod.splits option.splits)
  next
    case Again
    with "1.prems" r1 have "load_loop_bytes z r1 = (Inr u, r')" by (simp add: load_loop_bytes.simps [of z r])
    with "1.IH" [OF r1 [symmetric, unfolded Again]] load_round_bytes_left [of z r r1] Again r1 show ?thesis by auto
  qed
qed

lemma drain_block_simps [simp]:
  "br (drain_block r) = br r" "buf (drain_block r) = buf r" "pos (drain_block r) = pos r"
  "cfg (drain_block r) = cfg r" "eofSeen (drain_block r) = eofSeen r"
  by (simp_all add: drain_block_def)

lemma loadNextTx_left:
  assumes "loadNextTx z r = (Inr u, r')" and "\<not> eofSeen r'"
  shows "input_left r' < input_left r"
proof (cases "br r")
  case None
  with assms load_loop_bytes_left [of z "drain_block r" u r'] show ?thesis
    by (auto simp: loadNextTx_def loadNextTxBytes_def input_left_def)
next
  case (Some b)
  with assms load_loop_left [of z "drain_block r" b u r'] show ?thesis
    by (auto simp: loadNextTx_def input_left_def)
qed

text \<open>The loop that loads blocks until one has rows; \<open>False\<close> at the end of the stream.\<close>

function load_rows :: "zstd \<Rightarrow> Reader \<Rightarrow> (error + bool) \<times> Reader" where
  "load_rows z r =
     (if plainOff r \<ge> length (plain r) then
        (case loadNextTx z r of
           (Inl e, r') \<Rightarrow> (Inl e, r')
         | (Inr u, r') \<Rightarrow> if eofSeen r' then (Inr False, r') else load_rows z r')
      else (Inr True, r))"
  by pat_completeness auto
termination
  by (relation "measure (\<lambda>(z, r). input_left r)") (auto dest: loadNextTx_left [OF sym])

declare load_rows.simps [simp del]

definition Next :: "iproto \<Rightarrow> zstd \<Rightarrow> Reader \<Rightarrow> (error + XRow) \<times> Reader" where
  "Next ip z r =
     (if eofSeen r then (Inl [Go EOF], r)
      else (case load_rows z r of
          (Inl e, r') \<Rightarrow> (Inl e, r')
        | (Inr False, r') \<Rightarrow> (Inl [Go EOF], r')
        | (Inr True, r') \<Rightarrow>
            (case DecodeXRowInto ip (drop (plainOff r') (plain r')) of
               Inl e \<Rightarrow> (Inl e, r')
             | Inr (row, n) \<Rightarrow>
                 if n = 0 then (Inl [Rd ErrZeroLengthDecode], r')
                 else (Inr row, r'\<lparr>plainOff := plainOff r' + n\<rparr>))))"

text \<open>
  The decode step of \<^verbatim>\<open>Scan\<close> and \<^verbatim>\<open>ScanTx\<close>: the row read, or None with the error stored in \<open>scanErr\<close>.
  What a failed decode leaves in the destination row is not modelled.
\<close>

definition scanRow :: "iproto \<Rightarrow> zstd \<Rightarrow> Reader \<Rightarrow> XRow option \<times> Reader" where
  "scanRow ip z r =
     (if eofSeen r \<or> scanErr r \<noteq> None then (None, r)
      else (case load_rows z r of
          (Inl e, r') \<Rightarrow> (None, r'\<lparr>scanErr := Some e\<rparr>)
        | (Inr False, r') \<Rightarrow> (None, r')
        | (Inr True, r') \<Rightarrow>
            (case DecodeXRowInto ip (drop (plainOff r') (plain r')) of
               Inl e \<Rightarrow> (None, r'\<lparr>scanErr := Some e\<rparr>)
             | Inr (row, n) \<Rightarrow>
                 if n = 0 then (None, r'\<lparr>scanErr := Some [Rd ErrZeroLengthDecode]\<rparr>)
                 else if \<not> aliasBodies (cfg r') \<and> length (BodyRaw row) > 0 then
                   (let start = length (bodyArena r'); arena = bodyArena r' @ BodyRaw row
                    in (Some (row\<lparr>BodyRaw := subslice arena start (length arena)\<rparr>),
                        r'\<lparr>bodyArena := arena, plainOff := plainOff r' + n\<rparr>))
                 else (Some row, r'\<lparr>plainOff := plainOff r' + n\<rparr>))))"

definition Scan :: "iproto \<Rightarrow> zstd \<Rightarrow> Reader \<Rightarrow> bool \<times> Reader" where
  "Scan ip z r = (case scanRow ip z r of
     (Some row, r') \<Rightarrow> (True, r'\<lparr>cur := row\<rparr>) | (None, r') \<Rightarrow> (False, r'))"

definition Row :: "Reader \<Rightarrow> XRow" where "Row r = cur r"
definition Err :: "Reader \<Rightarrow> error option" where "Err r = scanErr r"
definition Tx :: "Reader \<Rightarrow> XRow list" where "Tx r = txView r"

definition Recycle :: "Reader \<Rightarrow> Reader" where
  "Recycle r = r\<lparr>bodyArena := [], txView := [], cur := XRow0\<rparr>"

text \<open>Every row read moves the cursor: less input is left, or the same block is further decoded.\<close>

definition cursor_measure :: "Reader \<Rightarrow> nat \<times> nat" where
  "cursor_measure r = (input_left r, length (plain r) - plainOff r)"

lemma load_rows_left:
  "load_rows z r = (Inr b, r') \<Longrightarrow> (b \<longrightarrow> (r' = r \<or> input_left r' < input_left r) \<and> plainOff r' < length (plain r'))
    \<and> (\<not> b \<longrightarrow> eofSeen r')"
proof (induction z r rule: load_rows.induct)
  case (1 z r)
  show ?case
  proof (cases "plainOff r \<ge> length (plain r)")
    case False
    with "1.prems" show ?thesis by (auto simp: load_rows.simps [of z r])
  next
    case True
    with "1.prems" obtain u r1 where l: "loadNextTx z r = (Inr u, r1)"
      by (cases "loadNextTx z r") (auto simp: load_rows.simps [of z r] split: sum.splits)
    show ?thesis
    proof (cases "eofSeen r1")
      case True
      with "1.prems" l \<open>length (plain r) \<le> plainOff r\<close> show ?thesis by (auto simp: load_rows.simps [of z r])
    next
      case False
      with "1.prems" l True have "load_rows z r1 = (Inr b, r')" by (simp add: load_rows.simps [of z r])
      from "1.IH" [OF True l [symmetric] refl False this] loadNextTx_left [OF l False] show ?thesis by auto
    qed
  qed
qed

lemma advance_progress:
  assumes "load_rows z r = (Inr True, r1)" "n \<noteq> 0" "input_left r' = input_left r1" "plain r' = plain r1"
    "plainOff r' = plainOff r1 + n"
  shows "(cursor_measure r', cursor_measure r) \<in> less_than <*lex*> less_than"
  using load_rows_left [OF assms(1)] assms(2-) by (auto simp: cursor_measure_def)

lemma input_left_update [simp]:
  "input_left (r\<lparr>plainOff := n\<rparr>) = input_left r" "input_left (r\<lparr>bodyArena := a\<rparr>) = input_left r"
  "input_left (r\<lparr>txView := v\<rparr>) = input_left r" "input_left (r\<lparr>scanErr := e\<rparr>) = input_left r"
  by (simp_all add: input_left_def split: option.splits)

lemma Next_progress:
  assumes "Next ip z r = (Inr row, r')"
  shows "(cursor_measure r', cursor_measure r) \<in> less_than <*lex*> less_than"
proof -
  from assms obtain r1 n where "load_rows z r = (Inr True, r1)" "n \<noteq> 0" "r' = r1\<lparr>plainOff := plainOff r1 + n\<rparr>"
    by (auto simp: Next_def split: if_splits sum.splits prod.splits bool.splits)
  then show ?thesis by (intro advance_progress [of z r r1 n r']) simp_all
qed

lemma scanRow_progress:
  assumes "scanRow ip z r = (Some row, r')"
  shows "(cursor_measure r', cursor_measure r) \<in> less_than <*lex*> less_than"
proof -
  from assms obtain r1 n a where "load_rows z r = (Inr True, r1)" "n \<noteq> 0"
    "r' = r1\<lparr>bodyArena := a, plainOff := plainOff r1 + n\<rparr> \<or> r' = r1\<lparr>plainOff := plainOff r1 + n\<rparr>"
    by (auto simp: scanRow_def Let_def split: if_splits sum.splits prod.splits bool.splits)
  then show ?thesis by (intro advance_progress [of z r r1 n r']) auto
qed

section \<open>Transactions\<close>

function next_tx_loop :: "iproto \<Rightarrow> zstd \<Rightarrow> Reader \<Rightarrow> XRow list \<Rightarrow> (error + XRow list) \<times> Reader" where
  "next_tx_loop ip z r rows = (case Next ip z r of
     (Inl e, r') \<Rightarrow>
       if errors_Is e (Go EOF) then
         (if length rows = 0 then (Inl [Go EOF], r') else (Inl [Rd ErrTruncated], r'))
       else (Inl e, r')
   | (Inr row, r') \<Rightarrow>
       if IsCommit ip row then (Inr (rows @ [row]), r') else next_tx_loop ip z r' (rows @ [row]))"
  by pat_completeness auto
termination
  by (relation "inv_image (less_than <*lex*> less_than) (\<lambda>(ip, z, r, rows). cursor_measure r)")
    (auto intro: wf_inv_image dest: Next_progress [OF sym])

record Transaction =
  TxRows :: "XRow list"
  StartLSN :: int64

definition NextTx :: "iproto \<Rightarrow> zstd \<Rightarrow> Reader \<Rightarrow> (error + Transaction) \<times> Reader" where
  "NextTx ip z r = (case next_tx_loop ip z r [] of
     (Inl e, r') \<Rightarrow> (Inl e, r')
   | (Inr rows, r') \<Rightarrow> (Inr \<lparr>TxRows = rows, StartLSN = LSN (rows ! 0)\<rparr>, r'))"

function scan_tx_loop :: "iproto \<Rightarrow> zstd \<Rightarrow> Reader \<Rightarrow> bool \<times> Reader" where
  "scan_tx_loop ip z r = (case scanRow ip z r of
     (None, r') \<Rightarrow>
       if scanErr r' = None \<and> length (txView r') > 0 then (False, r'\<lparr>scanErr := Some [Rd ErrTruncated]\<rparr>)
       else (False, r')
   | (Some row, r') \<Rightarrow>
       if IsCommit ip row then (True, r'\<lparr>txView := txView r' @ [row]\<rparr>)
       else scan_tx_loop ip z (r'\<lparr>txView := txView r' @ [row]\<rparr>))"
  by pat_completeness auto
termination
  by (relation "inv_image (less_than <*lex*> less_than) (\<lambda>(ip, z, r). cursor_measure r)")
    (auto intro: wf_inv_image dest: scanRow_progress [OF sym] simp: cursor_measure_def)

declare next_tx_loop.simps [simp del] scan_tx_loop.simps [simp del]

definition ScanTx :: "iproto \<Rightarrow> zstd \<Rightarrow> Reader \<Rightarrow> bool \<times> Reader" where
  "ScanTx ip z r = (if eofSeen r \<or> scanErr r \<noteq> None then (False, r)
     else scan_tx_loop ip z (r\<lparr>txView := []\<rparr>))"

text \<open>
  The range-over iterators: \<open>yield\<close> is the body of the loop that consumes them, on a state of its
  own; it tells whether it goes on.
\<close>

function Rows :: "iproto \<Rightarrow> zstd \<Rightarrow> ('s \<Rightarrow> error + XRow \<Rightarrow> 's \<times> bool) \<Rightarrow> 's \<Rightarrow> Reader \<Rightarrow> 's \<times> Reader" where
  "Rows ip z yield s r = (case Next ip z r of
     (Inl e, r') \<Rightarrow> if errors_Is e (Go EOF) then (s, r') else (fst (yield s (Inl e)), r')
   | (Inr row, r') \<Rightarrow>
       (case yield s (Inr row) of (s', True) \<Rightarrow> Rows ip z yield s' r' | (s', False) \<Rightarrow> (s', r')))"
  by pat_completeness auto
termination
  by (relation "inv_image (less_than <*lex*> less_than) (\<lambda>(ip, z, yield, s, r). cursor_measure r)")
    (auto intro: wf_inv_image dest: Next_progress [OF sym])

declare Rows.simps [simp del]

lemma cursor_less_trans:
  "(a, b) \<in> less_than <*lex*> less_than \<Longrightarrow> (b, c) \<in> less_than <*lex*> less_than \<Longrightarrow>
    (a, c :: nat \<times> nat) \<in> less_than <*lex*> less_than"
  by (cases a; cases b; cases c) auto

lemma next_tx_loop_progress:
  "next_tx_loop ip z r rows = (Inr tx, r') \<Longrightarrow> (cursor_measure r', cursor_measure r) \<in> less_than <*lex*> less_than"
proof (induction ip z r rows rule: next_tx_loop.induct)
  case (1 ip z r rows)
  from "1.prems" obtain row r1 where n: "Next ip z r = (Inr row, r1)"
    by (cases "Next ip z r") (auto simp: next_tx_loop.simps [of ip z r rows] split: sum.splits if_splits)
  note p = Next_progress [OF n]
  show ?case
  proof (cases "IsCommit ip row")
    case True
    with "1.prems" n p show ?thesis by (auto simp: next_tx_loop.simps [of ip z r rows])
  next
    case False
    with "1.prems" n have "next_tx_loop ip z r1 (rows @ [row]) = (Inr tx, r')"
      by (simp add: next_tx_loop.simps [of ip z r rows])
    from "1.IH" [OF n [symmetric] refl False this] p show ?thesis by (rule cursor_less_trans)
  qed
qed

lemma NextTx_progress:
  "NextTx ip z r = (Inr tx, r') \<Longrightarrow> (cursor_measure r', cursor_measure r) \<in> less_than <*lex*> less_than"
  using next_tx_loop_progress [of ip z r "[]"] by (auto simp: NextTx_def split: prod.splits sum.splits)

function Txs :: "iproto \<Rightarrow> zstd \<Rightarrow> ('s \<Rightarrow> error + Transaction \<Rightarrow> 's \<times> bool) \<Rightarrow> 's \<Rightarrow> Reader \<Rightarrow> 's \<times> Reader" where
  "Txs ip z yield s r = (case NextTx ip z r of
     (Inl e, r') \<Rightarrow> if errors_Is e (Go EOF) then (s, r') else (fst (yield s (Inl e)), r')
   | (Inr tx, r') \<Rightarrow>
       (case yield s (Inr tx) of (s', True) \<Rightarrow> Txs ip z yield s' r' | (s', False) \<Rightarrow> (s', r')))"
  by pat_completeness auto
termination
  by (relation "inv_image (less_than <*lex*> less_than) (\<lambda>(ip, z, yield, s, r). cursor_measure r)")
    (auto intro: wf_inv_image dest: NextTx_progress [OF sym])

declare Txs.simps [simp del]

end
