(* ===== verification/ReaderSim.thy ===== *)
theory ReaderSim
  imports Reader
begin

text \<open>
  The in-memory cursor is a refinement of the streaming one: from the same file, with the same
  options, both deliver the same rows, blocks and errors. \<open>stream m\<close> is the streaming reader that
  stands where the in-memory reader \<open>m\<close> stands. After an error the two may stand elsewhere (the
  stream has consumed the bytes it failed on), so the states are related until an error is returned.
\<close>

section \<open>The simulation\<close>

definition sbuf :: "Reader \<Rightarrow> bufreader" where
  "sbuf m = \<lparr>br_rest = drop (pos m) (buf m), br_err = [Go EOF]\<rparr>"

definition stream :: "Reader \<Rightarrow> Reader" where
  "stream m = m\<lparr>br := Some (sbuf m), buf := [], pos := 0\<rparr>"

definition in_memory :: "Reader \<Rightarrow> bool" where
  "in_memory m \<longleftrightarrow> br m = None \<and> pos m \<le> length (buf m)"

lemma stream_simps [simp]:
  "br (stream m) = Some (sbuf m)" "cfg (stream m) = cfg m" "eofSeen (stream m) = eofSeen m"
  "markerSeen (stream m) = markerSeen m" "plain (stream m) = plain m" "plainOff (stream m) = plainOff m"
  "consumed (stream m) = consumed m" "blockBytes (stream m) = blockBytes m" "scanErr (stream m) = scanErr m"
  "bodyArena (stream m) = bodyArena m" "txView (stream m) = txView m" "rmeta (stream m) = rmeta m"
  by (simp_all add: stream_def)

lemma sbuf_simps [simp]: "br_err (sbuf m) = [Go EOF]" "br_rest (sbuf m) = drop (pos m) (buf m)"
  by (simp_all add: sbuf_def)

lemma sbuf_same [simp]: "(sbuf m)\<lparr>br_rest := drop (pos m) (buf m)\<rparr> = sbuf m"
  by (simp add: sbuf_def)

lemma stream_update:
  "(stream m)\<lparr>plain := x, plainOff := y, blockBytes := n\<rparr> = stream (m\<lparr>plain := x, plainOff := y, blockBytes := n\<rparr>)"
  "(stream m)\<lparr>eofSeen := b\<rparr> = stream (m\<lparr>eofSeen := b\<rparr>)"
  "(stream m)\<lparr>plainOff := y\<rparr> = stream (m\<lparr>plainOff := y\<rparr>)"
  "(stream m)\<lparr>consumed := n, blockBytes := k\<rparr> = stream (m\<lparr>consumed := n, blockBytes := k\<rparr>)"
  "(stream m)\<lparr>br := Some \<lparr>br_rest = drop p (buf m), br_err = [Go EOF]\<rparr>\<rparr> = stream (m\<lparr>pos := p\<rparr>)"
  by (cases m; simp add: stream_def sbuf_def)+

lemma scan_rest_drop:
  "p \<le> length b \<Longrightarrow> scan_rest (drop p b) =
    (if length b - p < MarkerSize then drop p b
     else if is_magic (subslice b p (p + MarkerSize)) then drop p b else scan_rest (drop (p + 1) b))"
proof (cases "drop p b")
  case (Cons x xs)
  then have xs: "xs = drop (p + 1) b" by (metis Suc_eq_plus1 drop_Suc list.sel(3) tl_drop)
  have len: "length (x # xs) = length b - p" by (metis Cons length_drop)
  have "subslice b p (p + MarkerSize) = take MarkerSize (x # xs)" by (simp add: subslice_def Cons)
  then show ?thesis unfolding Cons scan_rest.simps len by (simp add: xs)
qed simp

lemma handleMissingEOF_stream:
  "handleMissingEOF m = (e, m') \<Longrightarrow> handleMissingEOF (stream m) = (e, stream m')"
  by (auto simp: handleMissingEOF_def stream_update split: if_splits)

lemma scan_stream:
  "in_memory m \<Longrightarrow> scanForwardToMagicBytes m = (e, m') \<Longrightarrow>
    scanForwardToMagic (stream m) (sbuf m) = (e, stream m') \<and> in_memory m'"
proof (induction m rule: scanForwardToMagicBytes.induct)
  case (1 m)
  have p: "pos m \<le> length (buf m)" "br m = None" using "1.prems"(1) by (simp_all add: in_memory_def)
  let ?short = "length (buf m) - pos m < MarkerSize"
  let ?magic = "is_magic (subslice (buf m) (pos m) (pos m + MarkerSize))"
  note rest = scan_rest_drop [OF p(1)]
  have same: "(stream m)\<lparr>br := Some (sbuf m)\<rparr> = stream m" by (simp add: stream_def)
  consider "?short" | "\<not> ?short" "?magic" | "\<not> ?short" "\<not> ?magic" by blast
  then show ?case
  proof cases
    case 1
    with "1.prems"(2) p handleMissingEOF_stream [of m e m'] show ?thesis
      by (auto simp: scanForwardToMagicBytes.simps [of m] scanForwardToMagic_def rest Peek_def same Let_def
          in_memory_def handleMissingEOF_def split: if_splits)
  next
    case 2
    have stop: "scan_rest (drop (pos m) (buf m)) = drop (pos m) (buf m)" unfolding rest using 2 by (simp del: MarkerSize_def)
    have "(e, m') = (None, m)" using 2 "1.prems"(2) by (simp add: scanForwardToMagicBytes.simps [of m])
    moreover have "scanForwardToMagic (stream m) (sbuf m) = (None, stream m)"
      using 2 by (simp add: scanForwardToMagic_def stop Peek_def same Let_def)
    ultimately show ?thesis using "1.prems"(1) by simp
  next
    case 3
    let ?m = "m\<lparr>pos := pos m + 1\<rparr>"
    have im: "in_memory ?m" using 3 p by (auto simp: in_memory_def)
    have "scanForwardToMagicBytes ?m = (e, m')" using "1.prems"(2) 3 by (simp add: scanForwardToMagicBytes.simps [of m])
    from "1.IH" [OF 3 im this] have ih: "scanForwardToMagic (stream ?m) (sbuf ?m) = (e, stream m')" "in_memory m'" by simp_all
    have "scanForwardToMagic (stream m) (sbuf m) = scanForwardToMagic (stream ?m) (sbuf ?m)"
      using rest 3 by (simp add: scanForwardToMagic_def stream_def sbuf_def Let_def)
    with ih show ?thesis by simp
  qed
qed

lemma scanForwardToMagicBytes_error:
  "scanForwardToMagicBytes m = (e, m') \<Longrightarrow> e = None \<or> e = Some [Rd ErrTruncated]"
proof (induction m rule: scanForwardToMagicBytes.induct)
  case (1 m)
  then show ?case by (auto simp: scanForwardToMagicBytes.simps [of m] handleMissingEOF_def split: if_splits)
qed

lemma readTxBlockBytes_resync:
  assumes "readTxBlockBytes z m = (e1, m1)" "e1 = Some e" "Rd ErrResync \<in> set e"
  shows "e = [Rd ErrResync]"
  using assms
  by (auto simp: readTxBlockBytes_def resync_def Let_def split: if_splits sum.splits prod.splits option.splits
      dest!: stash_block_left DecodeFixheader_errors scanForwardToMagicBytes_error)

lemma readBlockRawBytes_resync:
  assumes "readBlockRawBytes m = (y, m1)" "y = Inl e" "Rd ErrResync \<in> set e"
  shows "e = [Rd ErrResync]"
  using assms
  by (auto simp: readBlockRawBytes_def resync_def Let_def split: if_splits sum.splits prod.splits option.splits
      dest!: DecodeFixheader_errors scanForwardToMagicBytes_error)

lemma ReadFull_sbuf:
  "pos m \<le> length (buf m) \<Longrightarrow> ReadFull (sbuf m) n =
    (if pos m + n \<le> length (buf m)
     then (Inr (subslice (buf m) (pos m) (pos m + n)), sbuf (m\<lparr>pos := pos m + n\<rparr>))
     else (Inl (if pos m < length (buf m) then [Go ErrUnexpectedEOF] else [Go EOF]), (sbuf m)\<lparr>br_rest := []\<rparr>))"
  by (auto simp: ReadFull_def subslice_def sbuf_def add.commute)

lemma short_read_eof: "short_read (if c then [Go ErrUnexpectedEOF] else [Go EOF]) = [Rd ErrTruncated]"
  by (simp add: short_read_def)

lemma stream_pos: "(stream m)\<lparr>br := Some (sbuf (m\<lparr>pos := p\<rparr>))\<rparr> = stream (m\<lparr>pos := p\<rparr>)"
  by (cases m) (simp add: stream_def sbuf_def)

lemma stash_stream:
  "stash_block z (stream m) h p = (case stash_block z m h p of (e, m') \<Rightarrow> (e, stream m'))"
  by (auto simp: stash_block_def stream_update split: sum.splits)

lemma stash_pos:
  "stash_block z (m\<lparr>pos := q\<rparr>) h p = (case stash_block z m h p of (e, m') \<Rightarrow> (e, m'\<lparr>pos := q\<rparr>))"
  by (auto simp: stash_block_def split: sum.splits)

lemma scan_stream_pos:
  assumes "br m = None" "p \<le> length (buf m)" "scanForwardToMagicBytes (m\<lparr>pos := p\<rparr>) = (e, m')"
  shows "scanForwardToMagic (stream m) (sbuf (m\<lparr>pos := p\<rparr>)) = (e, stream m') \<and> in_memory m'"
proof -
  have "scanForwardToMagic (stream (m\<lparr>pos := p\<rparr>)) (sbuf (m\<lparr>pos := p\<rparr>)) = (e, stream m') \<and> in_memory m'"
    by (rule scan_stream) (use assms in \<open>simp_all add: in_memory_def\<close>)
  moreover have "scanForwardToMagic (stream m) b = scanForwardToMagic (stream (m\<lparr>pos := p\<rparr>)) b" for b
    by (simp add: scanForwardToMagic_def stream_def Let_def)
  ultimately show ?thesis by simp
qed

text \<open>A block is read with the same result; where it is not a hard error, the states correspond.\<close>

definition soft :: "error option \<Rightarrow> bool" where
  "soft e \<longleftrightarrow> e = None \<or> e = Some [Rd ErrResync]"

lemma readTxBlock_stream:
  assumes "in_memory m" "readTxBlockBytes z m = (e, m')"
  shows "\<exists>s'. readTxBlock z (stream m) (sbuf m) = (e, s') \<and> (soft e \<longrightarrow> s' = stream m' \<and> in_memory m')"
proof -
  have p: "pos m \<le> length (buf m)" "br m = None" using assms(1) by (simp_all add: in_memory_def)
  note rf = ReadFull_sbuf [OF p(1), of FixheaderSize]
  show ?thesis
  proof (cases "length (buf m) - pos m < FixheaderSize")
    case True
    then have "\<not> pos m + FixheaderSize \<le> length (buf m)" using p by simp
    with True assms(2) rf show ?thesis
      by (auto simp: readTxBlock_def readTxBlockBytes_def short_read_eof soft_def simp del: FixheaderSize_def)
  next
    case False
    let ?m1 = "m\<lparr>pos := pos m + FixheaderSize\<rparr>"
    have fits: "pos m + FixheaderSize \<le> length (buf m)" using False p by simp
    with rf have r1: "ReadFull (sbuf m) FixheaderSize = (Inr (subslice (buf m) (pos m) (pos m + FixheaderSize)), sbuf ?m1)"
      by simp
    show ?thesis
    proof (cases "DecodeFixheaderInto (subslice (buf m) (pos m) (pos m + FixheaderSize))")
      case (Inl e')
      have "Rd ErrResync \<notin> set e'" using DecodeFixheader_errors [OF Inl] by auto
      with False assms(2) Inl r1 show ?thesis
        by (auto simp: readTxBlock_def readTxBlockBytes_def soft_def simp del: FixheaderSize_def)
    next
      case (Inr h)
      let ?stop = "pos m + FixheaderSize + unat (Len h)"
      have r2: "ReadFull (sbuf ?m1) (unat (Len h)) =
          (if ?stop \<le> length (buf m) then (Inr (subslice (buf m) (pos m + FixheaderSize) ?stop), sbuf (m\<lparr>pos := ?stop\<rparr>))
           else (Inl (if pos m + FixheaderSize < length (buf m) then [Go ErrUnexpectedEOF] else [Go EOF]), (sbuf ?m1)\<lparr>br_rest := []\<rparr>))"
        using ReadFull_sbuf [of ?m1 "unat (Len h)"] fits by (simp del: FixheaderSize_def)
      show ?thesis
      proof (cases "unat (Len h) > MaxTxPayloadLen \<or> ?stop > length (buf m)")
        case True
        with False assms(2) Inr r1 r2 show ?thesis
          by (auto simp: readTxBlock_def readTxBlockBytes_def soft_def short_read_eof Let_def simp del: FixheaderSize_def)
      next
        case ok: False
        let ?pay = "subslice (buf m) (pos m + FixheaderSize) ?stop"
        show ?thesis
        proof (cases "CRC32C ?pay = FhCRC32C h")
          case True
          with False assms(2) Inr ok have "(case stash_block z m h ?pay of (Some e, r') \<Rightarrow> (Some e, r')
              | (None, r') \<Rightarrow> (None, r'\<lparr>pos := ?stop\<rparr>)) = (e, m')"
            by (simp add: readTxBlockBytes_def Let_def del: FixheaderSize_def)
          then have "stash_block z (m\<lparr>pos := ?stop\<rparr>) h ?pay = (e, if e = None then m' else m'\<lparr>pos := ?stop\<rparr>)"
            unfolding stash_pos by (auto split: prod.splits option.splits)
          then have "stash_block z (stream (m\<lparr>pos := ?stop\<rparr>)) h ?pay = (e, stream (if e = None then m' else m'\<lparr>pos := ?stop\<rparr>))"
            unfolding stash_stream by simp
          then have "readTxBlock z (stream m) (sbuf m) = (e, stream (if e = None then m' else m'\<lparr>pos := ?stop\<rparr>))"
            using Inr r1 r2 ok True by (simp add: readTxBlock_def stream_pos del: FixheaderSize_def)
          moreover have "e \<noteq> Some [Rd ErrResync]"
            using stash_block_left [OF \<open>stash_block z (m\<lparr>pos := ?stop\<rparr>) h ?pay = _\<close>] by auto
          moreover have "e = None \<Longrightarrow> in_memory m'"
            using stash_block_left [OF \<open>stash_block z (m\<lparr>pos := ?stop\<rparr>) h ?pay = _\<close>] p ok by (simp add: in_memory_def)
          ultimately show ?thesis by (auto simp: soft_def)
        next
          case bad: False
          show ?thesis
          proof (cases "skipCorruptTx (cfg m)")
            case True
            obtain e1 m1 where s: "scanForwardToMagicBytes (m\<lparr>pos := ?stop\<rparr>) = (e1, m1)" by fastforce
            from scan_stream_pos [OF p(2) _ s] ok
            have "scanForwardToMagic (stream m) (sbuf (m\<lparr>pos := ?stop\<rparr>)) = (e1, stream m1)" "in_memory m1" by simp_all
            with True s False assms(2) Inr r1 r2 ok bad show ?thesis
              by (cases e1) (auto simp: readTxBlock_def readTxBlockBytes_def resync_def Let_def soft_def simp del: FixheaderSize_def)
          next
            case False
            with \<open>\<not> length (buf m) - pos m < FixheaderSize\<close> assms(2) Inr r1 r2 ok bad show ?thesis
              by (auto simp: readTxBlock_def readTxBlockBytes_def soft_def Let_def simp del: FixheaderSize_def)
          qed
        qed
      qed
    qed
  qed
qed


lemma readBlockRaw_stream:
  assumes "in_memory m" "readBlockRawBytes m = (x, m')"
  shows "\<exists>s'. readBlockRaw (stream m) (sbuf m) = (x, s')
    \<and> ((\<exists>b. x = Inr b) \<or> x = Inl [Rd ErrResync] \<longrightarrow> s' = stream m' \<and> in_memory m')
    \<and> (\<forall>e. x = Inl e \<longrightarrow> Go EOF \<notin> set e)"
proof -
  have p: "pos m \<le> length (buf m)" "br m = None" using assms(1) by (simp_all add: in_memory_def)
  note rf = ReadFull_sbuf [OF p(1), of FixheaderSize]
  show ?thesis
  proof (cases "length (buf m) - pos m < FixheaderSize")
    case True
    then have "\<not> pos m + FixheaderSize \<le> length (buf m)" using p by simp
    with True assms(2) rf show ?thesis
      by (auto simp: readBlockRaw_def readBlockRawBytes_def short_read_eof simp del: FixheaderSize_def)
  next
    case False
    let ?m1 = "m\<lparr>pos := pos m + FixheaderSize\<rparr>"
    have fits: "pos m + FixheaderSize \<le> length (buf m)" using False p by simp
    with rf have r1: "ReadFull (sbuf m) FixheaderSize = (Inr (subslice (buf m) (pos m) (pos m + FixheaderSize)), sbuf ?m1)"
      by simp
    show ?thesis
    proof (cases "DecodeFixheaderInto (subslice (buf m) (pos m) (pos m + FixheaderSize))")
      case (Inl e')
      have "Rd ErrResync \<notin> set e'" "Go EOF \<notin> set e'" using DecodeFixheader_errors [OF Inl] by auto
      with False assms(2) Inl r1 show ?thesis
        by (auto simp: readBlockRaw_def readBlockRawBytes_def simp del: FixheaderSize_def)
    next
      case (Inr h)
      let ?total = "FixheaderSize + unat (Len h)"
      let ?stop = "pos m + ?total"
      have r2: "ReadFull (sbuf ?m1) (unat (Len h)) =
          (if ?stop \<le> length (buf m) then (Inr (subslice (buf m) (pos m + FixheaderSize) ?stop), sbuf (m\<lparr>pos := ?stop\<rparr>))
           else (Inl (if pos m + FixheaderSize < length (buf m) then [Go ErrUnexpectedEOF] else [Go EOF]), (sbuf ?m1)\<lparr>br_rest := []\<rparr>))"
        using ReadFull_sbuf [of ?m1 "unat (Len h)"] fits by (simp del: FixheaderSize_def add: add.assoc)
      show ?thesis
      proof (cases "unat (Len h) > MaxTxPayloadLen \<or> ?stop > length (buf m)")
        case True
        with False assms(2) Inr r1 r2 show ?thesis
          by (auto simp: readBlockRaw_def readBlockRawBytes_def short_read_eof Let_def simp del: FixheaderSize_def)
      next
        case ok: False
        let ?pay = "subslice (buf m) (pos m + FixheaderSize) ?stop"
        show ?thesis
        proof (cases "CRC32C ?pay = FhCRC32C h")
          case True
          have join: "subslice (buf m) (pos m) ?stop = subslice (buf m) (pos m) (pos m + FixheaderSize) @ ?pay"
            by (simp add: subslice_def take_add drop_drop add.commute del: FixheaderSize_def)
          have st: "stream m\<lparr>br := Some (sbuf (m\<lparr>pos := ?stop\<rparr>)), consumed := consumed m + ?total\<rparr>
              = stream (m\<lparr>pos := ?stop, consumed := consumed m + ?total\<rparr>)"
            by (cases m) (simp add: stream_def sbuf_def)
          from True False assms(2) Inr r1 r2 ok st p show ?thesis
            by (auto simp: readBlockRaw_def readBlockRawBytes_def Let_def join in_memory_def simp del: FixheaderSize_def)
        next
          case bad: False
          show ?thesis
          proof (cases "skipCorruptTx (cfg m)")
            case True
            obtain e1 m1 where s: "scanForwardToMagicBytes (m\<lparr>pos := ?stop\<rparr>) = (e1, m1)" by fastforce
            from scan_stream_pos [OF p(2) _ s] ok
            have "scanForwardToMagic (stream m) (sbuf (m\<lparr>pos := ?stop\<rparr>)) = (e1, stream m1)" "in_memory m1" by simp_all
            moreover have "e1 = None \<or> e1 = Some [Rd ErrTruncated]" using scanForwardToMagicBytes_error [OF s] .
            ultimately show ?thesis using True s False assms(2) Inr r1 r2 ok bad
              by (auto simp: readBlockRaw_def readBlockRawBytes_def resync_def Let_def simp del: FixheaderSize_def)
          next
            case False
            with \<open>\<not> length (buf m) - pos m < FixheaderSize\<close> assms(2) Inr r1 r2 ok bad show ?thesis
              by (auto simp: readBlockRaw_def readBlockRawBytes_def Let_def simp del: FixheaderSize_def)
          qed
        qed
      qed
    qed
  qed
qed


section \<open>Rounds and loops\<close>

lemma peekMagic_sbuf:
  "pos m \<le> length (buf m) \<Longrightarrow> peekMagic (sbuf m) =
    (if length (buf m) - pos m < MarkerSize then (if pos m = length (buf m) then Inl [Go EOF] else Inl [Rd ErrTruncated])
     else Inr (subslice (buf m) (pos m) (pos m + MarkerSize)))"
  by (auto simp: peekMagic_def Peek_def subslice_def)

lemma marker_stream:
  "(set_rest (stream m) (sbuf m) (drop (MarkerSize + pos m) (buf m)))\<lparr>eofSeen := True, markerSeen := True\<rparr>
    = stream (m\<lparr>pos := pos m + MarkerSize, eofSeen := True, markerSeen := True\<rparr>)"
  by (cases m) (simp add: set_rest_def stream_def sbuf_def add.commute)

lemma is_magic_cases: "\<not> (x = EOFMarker \<or> x = RowMarker \<or> x = ZRowMarker) \<longleftrightarrow> \<not> is_magic x"
  by (auto simp: is_magic_def)

text \<open>\<open>steady\<close>: the outcomes after which the cursor may be used on.\<close>

definition steady :: "'a round \<Rightarrow> bool" where
  "steady x \<longleftrightarrow> (\<forall>e. x = Done (Inl e) \<longrightarrow> e = [Go EOF])"

lemma steady_simps [simp]: "steady Again" "steady (Done (Inr a))" "steady (Done (Inl e)) \<longleftrightarrow> e = [Go EOF]"
  by (simp_all add: steady_def)

lemma load_round_stream:
  assumes "in_memory m" "load_round_bytes z m = (x, m')"
  shows "\<exists>s'. load_round z (stream m) (sbuf m) = (x, s')
    \<and> ((\<forall>e. x \<noteq> Done (Inl e)) \<longrightarrow> s' = stream m' \<and> in_memory m')"
proof -
  have p: "pos m \<le> length (buf m)" "br m = None" using assms(1) by (simp_all add: in_memory_def)
  note pk = peekMagic_sbuf [OF p(1)]
  let ?magic = "subslice (buf m) (pos m) (pos m + MarkerSize)"
  consider "length (buf m) - pos m < MarkerSize" | "\<not> length (buf m) - pos m < MarkerSize" "?magic = EOFMarker"
    | "\<not> length (buf m) - pos m < MarkerSize" "?magic \<noteq> EOFMarker" "?magic = RowMarker \<or> ?magic = ZRowMarker"
    | "\<not> length (buf m) - pos m < MarkerSize" "\<not> (?magic = EOFMarker \<or> ?magic = RowMarker \<or> ?magic = ZRowMarker)" by blast
  then show ?thesis
  proof cases
    case 1
    obtain e1 m1 where h: "handleMissingEOF m = (e1, m1)" by fastforce
    from handleMissingEOF_stream [OF h] handleMissingEOF_left [OF h] h 1 assms(2) pk p show ?thesis
      by (cases e1) (auto simp: load_round_def load_round_bytes_def in_memory_def simp del: MarkerSize_def split: if_splits)
  next
    case 2
    with assms(2) pk p show ?thesis
      by (auto simp: load_round_def load_round_bytes_def marker_stream in_memory_def Let_def simp del: MarkerSize_def)
  next
    case 3
    obtain e1 m1 where t: "readTxBlockBytes z m = (e1, m1)" by fastforce
    from readTxBlock_stream [OF assms(1) t] obtain s1 where
      s1: "readTxBlock z (stream m) (sbuf m) = (e1, s1)" "soft e1 \<longrightarrow> s1 = stream m1 \<and> in_memory m1" by blast
    have only: "Rd ErrResync \<in> set e \<Longrightarrow> e = [Rd ErrResync]" if "e1 = Some e" for e
      using readTxBlockBytes_resync [OF t that] .
    from 3 s1 t assms(2) pk only show ?thesis
      by (cases e1) (auto simp: load_round_def load_round_bytes_def soft_def errors_Is_def Let_def simp del: MarkerSize_def split: if_splits)
  next
    case 4
    obtain e1 m1 where t: "scanForwardToMagicBytes m = (e1, m1)" by fastforce
    from scan_stream [OF assms(1) t] 4 t assms(2) pk show ?thesis
      by (cases e1) (auto simp: load_round_def load_round_bytes_def Let_def simp del: MarkerSize_def split: if_splits)
  qed
qed


lemma raw_round_stream:
  assumes "in_memory m" "raw_round_bytes m = (x, m')"
  shows "\<exists>s'. raw_round (stream m) (sbuf m) = (x, s') \<and> (steady x \<longrightarrow> s' = stream m' \<and> in_memory m')"
proof -
  have p: "pos m \<le> length (buf m)" "br m = None" using assms(1) by (simp_all add: in_memory_def)
  note pk = peekMagic_sbuf [OF p(1)]
  let ?magic = "subslice (buf m) (pos m) (pos m + MarkerSize)"
  consider "length (buf m) - pos m < MarkerSize" | "\<not> length (buf m) - pos m < MarkerSize" "?magic = EOFMarker"
    | "\<not> length (buf m) - pos m < MarkerSize" "?magic \<noteq> EOFMarker" "?magic = RowMarker \<or> ?magic = ZRowMarker"
    | "\<not> length (buf m) - pos m < MarkerSize" "\<not> (?magic = EOFMarker \<or> ?magic = RowMarker \<or> ?magic = ZRowMarker)" by blast
  then show ?thesis
  proof cases
    case 1
    obtain e1 m1 where h: "handleMissingEOF m = (e1, m1)" by fastforce
    have e1: "e1 = None \<or> e1 = Some [Rd ErrTruncated]" using h by (auto simp: handleMissingEOF_def split: if_splits)
    from handleMissingEOF_stream [OF h] handleMissingEOF_left [OF h] h 1 assms(2) pk p e1 show ?thesis
      by (cases e1) (auto simp: raw_round_def raw_round_bytes_def in_memory_def simp del: MarkerSize_def split: if_splits)
  next
    case 2
    with assms(2) pk p show ?thesis
      by (auto simp: raw_round_def raw_round_bytes_def marker_stream in_memory_def Let_def simp del: MarkerSize_def)
  next
    case 3
    obtain y m1 where t: "readBlockRawBytes m = (y, m1)" by fastforce
    from readBlockRaw_stream [OF assms(1) t] obtain s1 where
      s1: "readBlockRaw (stream m) (sbuf m) = (y, s1)"
        "(\<exists>b. y = Inr b) \<or> y = Inl [Rd ErrResync] \<longrightarrow> s1 = stream m1 \<and> in_memory m1"
        "\<forall>e. y = Inl e \<longrightarrow> Go EOF \<notin> set e" by blast
    have only: "Rd ErrResync \<in> set e \<Longrightarrow> e = [Rd ErrResync]" if "y = Inl e" for e
      using readBlockRawBytes_resync [OF t that] .
    from 3 s1 t assms(2) pk only show ?thesis
      by (cases y) (auto simp: raw_round_def raw_round_bytes_def Let_def simp del: MarkerSize_def split: if_splits)
  next
    case 4
    obtain e1 m1 where t: "scanForwardToMagicBytes m = (e1, m1)" by fastforce
    from scan_stream [OF assms(1) t] 4 t assms(2) pk show ?thesis
      by (cases e1) (auto simp: raw_round_def raw_round_bytes_def Let_def simp del: MarkerSize_def split: if_splits)
  qed
qed

lemma load_loop_stream:
  "in_memory m \<Longrightarrow> load_loop_bytes z m = (x, m') \<Longrightarrow>
    \<exists>s'. load_loop z (stream m) (sbuf m) = (x, s') \<and> (\<forall>u. x = Inr u \<longrightarrow> s' = stream m' \<and> in_memory m')"
proof (induction z m rule: load_loop_bytes.induct)
  case (1 z m)
  obtain o1 m1 where r1: "load_round_bytes z m = (o1, m1)" by fastforce
  from load_round_stream [OF "1.prems"(1) r1] obtain s1 where
    s1: "load_round z (stream m) (sbuf m) = (o1, s1)" "(\<forall>e. o1 \<noteq> Done (Inl e)) \<longrightarrow> s1 = stream m1 \<and> in_memory m1" by blast
  show ?case
  proof (cases o1)
    case (Done res)
    with r1 s1 "1.prems" show ?thesis
      by (auto simp: load_loop.simps [of z "stream m"] load_loop_bytes.simps [of z m])
  next
    case Again
    with r1 "1.prems" have "load_loop_bytes z m1 = (x, m')" by (simp add: load_loop_bytes.simps [of z m])
    from "1.IH" [OF r1 [symmetric, unfolded Again] refl _ this] s1 Again r1 show ?thesis
      by (auto simp: load_loop.simps [of z "stream m"])
  qed
qed

lemma raw_loop_stream:
  "in_memory m \<Longrightarrow> nextBlockRawBytes m = (x, m') \<Longrightarrow>
    \<exists>s'. raw_loop (stream m) (sbuf m) = (x, s') \<and> (steady (Done x) \<longrightarrow> s' = stream m' \<and> in_memory m')"
proof (induction m rule: nextBlockRawBytes.induct)
  case (1 m)
  obtain o1 m1 where r1: "raw_round_bytes m = (o1, m1)" by fastforce
  from raw_round_stream [OF "1.prems"(1) r1] obtain s1 where
    s1: "raw_round (stream m) (sbuf m) = (o1, s1)" "steady o1 \<longrightarrow> s1 = stream m1 \<and> in_memory m1" by blast
  show ?case
  proof (cases o1)
    case (Done res)
    with r1 s1 "1.prems" show ?thesis
      by (auto simp: raw_loop.simps [of "stream m"] nextBlockRawBytes.simps [of m])
  next
    case Again
    with r1 "1.prems" have "nextBlockRawBytes m1 = (x, m')" by (simp add: nextBlockRawBytes.simps [of m])
    from "1.IH" [OF r1 [symmetric, unfolded Again] refl _ this] s1 Again r1 show ?thesis
      by (auto simp: raw_loop.simps [of "stream m"])
  qed
qed

lemma loadNextTx_stream:
  assumes "in_memory m" "loadNextTx z m = (x, m')"
  shows "\<exists>s'. loadNextTx z (stream m) = (x, s') \<and> (\<forall>u. x = Inr u \<longrightarrow> s' = stream m' \<and> in_memory m')"
proof -
  have "load_loop_bytes z (drain_block m) = (x, m')" using assms by (simp add: loadNextTx_def loadNextTxBytes_def in_memory_def)
  moreover have "in_memory (drain_block m)" using assms(1) by (simp add: in_memory_def)
  moreover have "drain_block (stream m) = stream (drain_block m)" by (simp add: drain_block_def stream_update)
  ultimately show ?thesis using load_loop_stream [of "drain_block m" z x m']
    by (simp add: loadNextTx_def sbuf_def)
qed

lemma load_rows_stream:
  "in_memory m \<Longrightarrow> load_rows z m = (x, m') \<Longrightarrow>
    \<exists>s'. load_rows z (stream m) = (x, s') \<and> (\<forall>u. x = Inr u \<longrightarrow> s' = stream m' \<and> in_memory m')"
proof (induction z m rule: load_rows.induct)
  case (1 z m)
  show ?case
  proof (cases "plainOff m \<ge> length (plain m)")
    case True
    obtain y m1 where l: "loadNextTx z m = (y, m1)" by fastforce
    from loadNextTx_stream [OF "1.prems"(1) l] obtain s1 where
      s1: "loadNextTx z (stream m) = (y, s1)" "\<forall>u. y = Inr u \<longrightarrow> s1 = stream m1 \<and> in_memory m1" by blast
    show ?thesis
    proof (cases "\<exists>u. y = Inr u \<and> \<not> eofSeen m1")
      case again: True
      then obtain u where u: "y = Inr u" "\<not> eofSeen m1" by blast
      with True l "1.prems"(2) have "load_rows z m1 = (x, m')" by (simp add: load_rows.simps [of z m])
      from "1.IH" [OF True l [symmetric] u(1) u(2) _ this] s1 u True show ?thesis
        by (simp add: load_rows.simps [of z "stream m"])
    next
      case False
      with True l s1 "1.prems" show ?thesis
        by (cases y) (auto simp: load_rows.simps [of z "stream m"] load_rows.simps [of z m])
    qed
  next
    case False
    then have "load_rows z (stream m) = (Inr True, stream m)" by (simp add: load_rows.simps [of z "stream m"])
    moreover have "(x, m') = (Inr True, m)" using False "1.prems"(2) by (simp add: load_rows.simps [of z m])
    ultimately show ?thesis using "1.prems"(1) by simp
  qed
qed

lemma Next_stream:
  assumes "in_memory m" "Next ip z m = (x, m')"
  shows "\<exists>s'. Next ip z (stream m) = (x, s') \<and> (\<forall>row. x = Inr row \<longrightarrow> s' = stream m' \<and> in_memory m')"
proof (cases "eofSeen m")
  case True
  with assms show ?thesis by (auto simp: Next_def)
next
  case False
  obtain y m1 where l: "load_rows z m = (y, m1)" by fastforce
  from load_rows_stream [OF assms(1) l] obtain s1 where
    s1: "load_rows z (stream m) = (y, s1)" "\<forall>u. y = Inr u \<longrightarrow> s1 = stream m1 \<and> in_memory m1" by blast
  from s1 l assms(2) False show ?thesis
    by (cases y) (auto simp: Next_def stream_update in_memory_def split: bool.splits sum.splits if_splits)
qed


lemma Rows_stream:
  "in_memory m \<Longrightarrow> fst (Rows ip z yield s (stream m)) = fst (Rows ip z yield s m)"
proof (induction ip z yield s m rule: Rows.induct)
  case (1 ip z yield s m)
  obtain x m1 where n: "Next ip z m = (x, m1)" by fastforce
  from Next_stream [OF "1.prems" n] obtain s1 where
    s1: "Next ip z (stream m) = (x, s1)" "\<forall>row. x = Inr row \<longrightarrow> s1 = stream m1 \<and> in_memory m1" by blast
  note unf = Rows.simps [of ip z yield s m] Rows.simps [of ip z yield s "stream m"]
  show ?case
  proof (cases x)
    case (Inl e)
    with n s1 show ?thesis by (simp add: unf)
  next
    case (Inr row)
    obtain s' go where y: "yield s (Inr row) = (s', go)" by fastforce
    from "1.IH" [OF n [symmetric] Inr y [symmetric]] s1 Inr n y show ?thesis
      by (cases go) (simp_all add: unf)
  qed
qed

lemma next_tx_loop_stream:
  "in_memory m \<Longrightarrow> next_tx_loop ip z m rows = (x, m') \<Longrightarrow>
    \<exists>s'. next_tx_loop ip z (stream m) rows = (x, s') \<and> (\<forall>tx. x = Inr tx \<longrightarrow> s' = stream m' \<and> in_memory m')"
proof (induction ip z m rows rule: next_tx_loop.induct)
  case (1 ip z m rows)
  obtain y m1 where n: "Next ip z m = (y, m1)" by fastforce
  from Next_stream [OF "1.prems"(1) n] obtain s1 where
    s1: "Next ip z (stream m) = (y, s1)" "\<forall>row. y = Inr row \<longrightarrow> s1 = stream m1 \<and> in_memory m1" by blast
  note unf = next_tx_loop.simps [of ip z m rows] next_tx_loop.simps [of ip z "stream m" rows]
  show ?case
  proof (cases y)
    case (Inl e)
    with n s1 "1.prems"(2) show ?thesis by (auto simp: unf split: if_splits)
  next
    case (Inr row)
    show ?thesis
    proof (cases "IsCommit ip row")
      case True
      with n s1 "1.prems"(2) Inr show ?thesis by (auto simp: unf)
    next
      case False
      with n "1.prems"(2) Inr have "next_tx_loop ip z m1 (rows @ [row]) = (x, m')" by (simp add: unf)
      from "1.IH" [OF n [symmetric] Inr False _ this] s1 Inr False show ?thesis by (simp add: unf)
    qed
  qed
qed

lemma NextTx_stream:
  assumes "in_memory m" "NextTx ip z m = (x, m')"
  shows "\<exists>s'. NextTx ip z (stream m) = (x, s') \<and> (\<forall>tx. x = Inr tx \<longrightarrow> s' = stream m' \<and> in_memory m')"
proof -
  obtain y m1 where l: "next_tx_loop ip z m [] = (y, m1)" by fastforce
  from next_tx_loop_stream [OF assms(1) l] l assms(2) show ?thesis
    by (cases y) (auto simp: NextTx_def)
qed

lemma Txs_stream:
  "in_memory m \<Longrightarrow> fst (Txs ip z yield s (stream m)) = fst (Txs ip z yield s m)"
proof (induction ip z yield s m rule: Txs.induct)
  case (1 ip z yield s m)
  obtain x m1 where n: "NextTx ip z m = (x, m1)" by fastforce
  from NextTx_stream [OF "1.prems" n] obtain s1 where
    s1: "NextTx ip z (stream m) = (x, s1)" "\<forall>tx. x = Inr tx \<longrightarrow> s1 = stream m1 \<and> in_memory m1" by blast
  note unf = Txs.simps [of ip z yield s m] Txs.simps [of ip z yield s "stream m"]
  show ?case
  proof (cases x)
    case (Inl e)
    with n s1 show ?thesis by (simp add: unf)
  next
    case (Inr tx)
    obtain s' go where y: "yield s (Inr tx) = (s', go)" by fastforce
    from "1.IH" [OF n [symmetric] Inr y [symmetric]] s1 Inr n y show ?thesis
      by (cases go) (simp_all add: unf)
  qed
qed

text \<open>The results of a client that asks for raw blocks up to the first error.\<close>

fun raw_calls :: "nat \<Rightarrow> Reader \<Rightarrow> (error + bytes) list" where
  "raw_calls 0 r = []"
| "raw_calls (Suc n) r = (case NextBlockRaw r of
     (Inl e, r') \<Rightarrow> [Inl e] | (Inr block, r') \<Rightarrow> Inr block # raw_calls n r')"

lemma NextBlockRaw_stream:
  assumes "in_memory m" "NextBlockRaw m = (x, m')"
  shows "\<exists>s'. NextBlockRaw (stream m) = (x, s') \<and> (\<forall>b. x = Inr b \<longrightarrow> s' = stream m' \<and> in_memory m')"
  using assms raw_loop_stream [of m x m'] by (auto simp: NextBlockRaw_def in_memory_def split: if_splits)

lemma raw_calls_stream: "in_memory m \<Longrightarrow> raw_calls n (stream m) = raw_calls n m"
proof (induction n arbitrary: m)
  case (Suc n)
  obtain x m' where x: "NextBlockRaw m = (x, m')" by fastforce
  from NextBlockRaw_stream [OF Suc.prems x] x Suc.IH show ?case by (cases x) auto
qed simp

section \<open>Construction\<close>

text \<open>Reading the header takes a prefix of the source and leaves its final error alone.\<close>

definition took_prefix :: "bufreader \<Rightarrow> bufreader \<Rightarrow> bool" where
  "took_prefix b b' \<longleftrightarrow> (\<exists>k\<le>length (br_rest b). b' = b\<lparr>br_rest := drop k (br_rest b)\<rparr>)"

lemma took_prefix_trans: "took_prefix a b \<Longrightarrow> took_prefix b c \<Longrightarrow> took_prefix a c"
  unfolding took_prefix_def by (auto simp: add.commute) (metis Nat.le_diff_conv2 add.commute)

lemma readMetaLine_prefix: "readMetaLine b = (Inr line, b') \<Longrightarrow> took_prefix b b'"
proof -
  assume a: "readMetaLine b = (Inr line, b')"
  let ?t = "takeWhile (\<lambda>x. x \<noteq> 0x0a) (br_rest b)"
  from a obtain d where d: "dropWhile (\<lambda>x. x \<noteq> 0x0a) (br_rest b) = d # br_rest b'" "b' = b\<lparr>br_rest := br_rest b'\<rparr>"
    by (auto simp: readMetaLine_def ReadString_def split: list.splits if_splits)
  then have "br_rest b = ?t @ d # br_rest b'" by (metis takeWhile_dropWhile_id)
  then have "br_rest b' = drop (length ?t + 1) (br_rest b)" "length ?t + 1 \<le> length (br_rest b)"
    by (metis append_Cons append_Nil append_assoc append_eq_conv_conj length_append_singleton Suc_eq_plus1, 
        metis Suc_eq_plus1 Suc_leI length_append length_Cons less_add_Suc1 add_Suc_right)
  with d(2) show ?thesis unfolding took_prefix_def by metis
qed

lemma meta_loop_prefix: "meta_loop u m b = (Inr m', b') \<Longrightarrow> took_prefix b b'"
proof (induction u m b rule: meta_loop.induct)
  case (1 u m b)
  from "1.prems" obtain line b1 where l: "readMetaLine b = (Inr line, b1)"
    by (auto simp: meta_loop.simps [of u m b] split: prod.splits sum.splits)
  note p = readMetaLine_prefix [OF l]
  show ?case
  proof (cases "line = []")
    case True
    with "1.prems" l p show ?thesis by (simp add: meta_loop.simps [of u m b])
  next
    case False
    with "1.prems" l obtain x y m1 where s: "Cut line (CHR '':'') = Some (x, y)" "meta_set u m (TrimSpace x) (TrimSpace y) = Inr m1"
      "meta_loop u m1 b1 = (Inr m', b')"
      by (auto simp: meta_loop.simps [of u m b] split: option.splits sum.splits)
    from "1.IH" [OF l [symmetric] refl False s(1) refl s(2,3)] p show ?thesis by (blast intro: took_prefix_trans)
  qed
qed

lemma DecodeMeta_prefix:
  assumes "DecodeMeta u (Some b) opts = (Inr m, bo)"
  shows "\<exists>b'. bo = Some b' \<and> took_prefix b b'"
proof -
  from assms obtain ft b1 ver b2 m0 where "readMetaLine b = (Inr ft, b1)" "readMetaLine b1 = (Inr ver, b2)"
    "map_prod (\<lambda>x. x) Some (meta_loop u m0 b2) = (Inr m, bo)"
    unfolding DecodeMeta_def option.case by (force split: prod.splits sum.splits if_splits)
  then show ?thesis
    by (cases "meta_loop u m0 b2") (auto dest!: readMetaLine_prefix meta_loop_prefix intro: took_prefix_trans)
qed

lemma newReader_stream:
  "newReader u \<lparr>br_rest = f, br_err = [Go EOF]\<rparr> opts = map_sum id stream (newReaderBytes u f opts)
   \<and> (\<forall>m. newReaderBytes u f opts = Inr m \<longrightarrow> in_memory m)"
proof (cases "fst (DecodeMeta u (Some \<lparr>br_rest = f, br_err = [Go EOF]\<rparr>) (metaOpts (apply_options opts)))")
  case (Inl e)
  then show ?thesis by (auto simp: newReader_def newReaderBytes_def Let_def split: prod.splits)
next
  case (Inr m)
  then obtain bo where d: "DecodeMeta u (Some \<lparr>br_rest = f, br_err = [Go EOF]\<rparr>) (metaOpts (apply_options opts)) = (Inr m, bo)"
    by (metis prod.collapse)
  from DecodeMeta_prefix [OF this] obtain k where "k \<le> length f" "bo = Some \<lparr>br_rest = drop k f, br_err = [Go EOF]\<rparr>"
    by (auto simp: took_prefix_def)
  with d show ?thesis
    by (auto simp: newReader_def newReaderBytes_def Let_def reader_init_def stream_def sbuf_def in_memory_def)
qed

section \<open>Properties\<close>


end
