(* ===== verification/ReaderFile.thy ===== *)
theory ReaderFile
  imports ReaderSim
begin

unbundle bit_operations_syntax

text \<open>
  What a reader delivers on a well-formed file. A reader that stands in front of well-formed blocks
  represents the list of the rows still to come; \<^verbatim>\<open>Next\<close> takes the head of that list and \<^verbatim>\<open>NextTx\<close>
  takes the rows up to the next commit. The loops over either are treated once, in a locale.
\<close>

section \<open>Cursors\<close>

text \<open>
  A cursor that represents the list of the items to come and ends with a given error, and the
  range-over loop on it: the contract of \<^verbatim>\<open>Next\<close> and \<^verbatim>\<open>Rows\<close>, and of \<^verbatim>\<open>NextTx\<close> and \<^verbatim>\<open>Txs\<close>.
\<close>

text \<open>What a loop body does with a list of items: its final state, and whether it took them all.\<close>

primrec feed :: "('s \<Rightarrow> error + 'i \<Rightarrow> 's \<times> bool) \<Rightarrow> 's \<Rightarrow> 'i list \<Rightarrow> 's \<times> bool" where
  "feed yield s [] = (s, True)"
| "feed yield s (i # is) = (case yield s (Inr i) of (s', True) \<Rightarrow> feed yield s' is | (s', False) \<Rightarrow> (s', False))"

lemma feed_collect: "feed (\<lambda>s x. (s @ [x], True)) acc is = (acc @ map Inr is, True)"
  by (induction "is" arbitrary: acc) simp_all

locale cursor =
  fixes fetch :: "'r \<Rightarrow> (error + 'i) \<times> 'r"
    and iter :: "('s \<Rightarrow> error + 'i \<Rightarrow> 's \<times> bool) \<Rightarrow> 's \<Rightarrow> 'r \<Rightarrow> 's \<times> 'r"
    and rep :: "'r \<Rightarrow> 'i list \<Rightarrow> bool"
    and ending :: error
    and drained :: "'r \<Rightarrow> bool"
  assumes iter_unfold: "iter yield s r = (case fetch r of
      (Inl e, r') \<Rightarrow> if errors_Is e (Go EOF) then (s, r') else (fst (yield s (Inl e)), r')
    | (Inr i, r') \<Rightarrow> (case yield s (Inr i) of (s', True) \<Rightarrow> iter yield s' r' | (s', False) \<Rightarrow> (s', r')))"
    and fetch_item: "rep r (i # is) \<Longrightarrow> \<exists>r'. fetch r = (Inr i, r') \<and> rep r' is"
    and fetch_end: "rep r [] \<Longrightarrow> \<exists>r'. fetch r = (Inl ending, r') \<and> drained r'"
begin

lemma iter_feed:
  "rep r is \<Longrightarrow> \<exists>r'. iter yield s r = (case feed yield s is of
     (s', True) \<Rightarrow> if errors_Is ending (Go EOF) then s' else fst (yield s' (Inl ending)) | (s', False) \<Rightarrow> s', r')
   \<and> (snd (feed yield s is) \<longrightarrow> drained r')"
proof (induction "is" arbitrary: r s)
  case Nil
  from fetch_end [OF Nil] show ?case by (auto simp: iter_unfold [of yield s r])
next
  case (Cons i "is")
  from fetch_item [OF Cons.prems] obtain r1 where r1: "fetch r = (Inr i, r1)" "rep r1 is" by blast
  obtain s' go where y: "yield s (Inr i) = (s', go)" by fastforce
  from Cons.IH [OF r1(2), of s'] r1(1) y show ?case by (cases go) (auto simp: iter_unfold [of yield s r])
qed

end

section \<open>Well-formed blocks\<close>

text \<open>\<open>b\<close> are the bytes on disk of a block that holds \<open>rows\<close>, framed under some policy.\<close>

definition good_block :: "iproto \<Rightarrow> zstd \<Rightarrow> bytes \<Rightarrow> XRow list \<Rightarrow> bool" where
  "good_block ip z b rows \<longleftrightarrow> rows \<noteq> [] \<and> rows_ok ip rows \<and>
     (\<exists>c. frame_ok z c (payload_bytes ip rows) \<and> length (on_disk z c (payload_bytes ip rows)) \<le> MaxTxPayloadLen
        \<and> AppendFramedBlock z [] (payload_bytes ip rows) c = Inr b)"

lemma good_block_layout:
  assumes "good_block ip z b rows"
  obtains fh d h where "b = fh @ d" "length fh = FixheaderSize" "DecodeFixheaderInto fh = Inr h"
    "take MarkerSize fh = Magic h" "Magic h = RowMarker \<or> Magic h = ZRowMarker" "unat (Len h) = length d"
    "length d \<le> MaxTxPayloadLen" "CRC32C d = FhCRC32C h"
    "(if Magic h = ZRowMarker then DecompressTx z d else Inr d) = Inr (payload_bytes ip rows)"
proof -
  let ?p = "payload_bytes ip rows"
  from assms obtain c where c: "frame_ok z c ?p" "length (on_disk z c ?p) \<le> MaxTxPayloadLen"
    "AppendFramedBlock z [] ?p c = Inr b" by (auto simp: good_block_def)
  let ?h = "frame_header z c ?p" and ?d = "on_disk z c ?p"
  have m: "Magic ?h = RowMarker \<or> Magic ?h = ZRowMarker" by (simp add: frame_header_def)
  obtain fh where fh: "EncodeFixheader (Some ?h) = Inr fh" "length fh = FixheaderSize" "DecodeFixheader fh = Inr ?h"
    by (rule frame_header_bytes)
  have "length (Magic ?h) = MarkerSize" using m by auto
  with fh(1) EncodeFixheader_layout [of ?h] have "take MarkerSize fh = Magic ?h" by auto
  moreover have "unat (Len ?h) = length ?d"
    using c(1) unat_of_nat_small [where 'a = 32, of "length ?d"] by (simp add: frame_ok_def frame_header_def)
  moreover have "Compresses c (length ?p) \<Longrightarrow> DecompressTx z ?d = Inr ?p"
    using c(1) by (simp add: frame_ok_def DecompressTx_def on_disk_def zstd_ok_def)
  then have "(if Magic ?h = ZRowMarker then DecompressTx z ?d else Inr ?d) = Inr ?p"
    by (simp add: frame_header_def on_disk_def)
  moreover have "b = fh @ ?d" using AppendFramedBlock_frame [OF fh(1), of "[]"] c(3) by simp
  moreover have "DecodeFixheaderInto fh = Inr ?h" using fh(3) by (simp add: DecodeFixheader_def split: sum.splits)
  moreover have "CRC32C ?d = FhCRC32C ?h" by (simp add: frame_header_def)
  ultimately show ?thesis using that [of fh ?d ?h] c(2) fh(2) m by blast
qed

text \<open>\<open>b\<close> is a block whose payload does not match its checksum.\<close>

definition damaged_block :: "bytes \<Rightarrow> bool" where
  "damaged_block b \<longleftrightarrow> (\<exists>fh d h. b = fh @ d \<and> length fh = FixheaderSize \<and> DecodeFixheaderInto fh = Inr h
     \<and> take MarkerSize fh = Magic h \<and> (Magic h = RowMarker \<or> Magic h = ZRowMarker) \<and> unat (Len h) = length d
     \<and> length d \<le> MaxTxPayloadLen \<and> CRC32C d \<noteq> FhCRC32C h)"

text \<open>A block as the configured reader sees it: read, or skipped when damaged blocks are.\<close>

definition chunk :: "iproto \<Rightarrow> zstd \<Rightarrow> readerCfg \<Rightarrow> bytes \<Rightarrow> XRow list \<Rightarrow> bool" where
  "chunk ip z c b rows \<longleftrightarrow> good_block ip z b rows \<or> skipCorruptTx c \<and> damaged_block b \<and> rows = []"

text \<open>Bytes at which the scan for a magic stops at once.\<close>

definition synced :: "bytes \<Rightarrow> bool" where
  "synced b \<longleftrightarrow> scan_rest b = b"

lemma synced_magic: "is_magic (take MarkerSize b) \<Longrightarrow> synced b"
  by (cases b) (simp_all add: synced_def)

lemma synced_short: "length b < MarkerSize \<Longrightarrow> synced b"
  by (simp add: synced_def scan_rest_short del: MarkerSize_def)

lemma chunk_magic: "chunk ip z c b rows \<Longrightarrow> is_magic (take MarkerSize (b @ rest))"
  by (auto simp: chunk_def damaged_block_def is_magic_def elim!: good_block_layout)

lemma synced_chunks: "list_all2 (chunk ip z c) blks rowss \<Longrightarrow> synced tail \<Longrightarrow> synced (concat blks @ tail)"
  by (cases blks) (auto simp: list_all2_Cons1 intro!: synced_magic elim: chunk_magic)

section \<open>Loading a block\<close>

lemma ReadFull_prefix:
  "br_rest b = u @ rest \<Longrightarrow> ReadFull b (length u) = (Inr u, b\<lparr>br_rest := rest\<rparr>)"
  by (simp add: ReadFull_def)

text \<open>The two reads of a block that is there in full.\<close>

lemma ReadFull_block:
  assumes "length fh = FixheaderSize" "br_rest b = fh @ d @ rest"
  shows "ReadFull b FixheaderSize = (Inr fh, b\<lparr>br_rest := d @ rest\<rparr>)"
    "ReadFull (b\<lparr>br_rest := d @ rest\<rparr>) (length d) = (Inr d, b\<lparr>br_rest := rest\<rparr>)"
  using ReadFull_prefix [of b fh "d @ rest"] ReadFull_prefix [of "b\<lparr>br_rest := d @ rest\<rparr>" d rest] assms
  by simp_all

lemma load_round_good:
  assumes "good_block ip z blk rows" "br_rest b = blk @ rest"
  shows "load_round z r b = (Done (Inr ()), r\<lparr>br := Some (b\<lparr>br_rest := rest\<rparr>), plain := payload_bytes ip rows,
    plainOff := 0, blockBytes := length blk\<rparr>)"
proof -
  from assms(1) obtain fh d h where l: "blk = fh @ d" "length fh = FixheaderSize" "DecodeFixheaderInto fh = Inr h"
    "take MarkerSize fh = Magic h" "Magic h = RowMarker \<or> Magic h = ZRowMarker" "unat (Len h) = length d"
    "length d \<le> MaxTxPayloadLen" "CRC32C d = FhCRC32C h"
    "(if Magic h = ZRowMarker then DecompressTx z d else Inr d) = Inr (payload_bytes ip rows)" by (rule good_block_layout)
  have "peekMagic b = Inr (Magic h)" using l(1,2,4) assms(2) by (simp add: peekMagic_def Peek_def)
  moreover have "Magic h \<noteq> EOFMarker" using l(5) by auto
  ultimately show ?thesis
    using l ReadFull_block [OF l(2), of b d rest] assms(2)
    by (auto simp: load_round_def readTxBlock_def stash_block_def simp del: FixheaderSize_def RowMarker_def ZRowMarker_def)
qed

lemma load_round_damaged:
  assumes "damaged_block blk" "br_rest b = blk @ rest" "br_err b = [Go EOF]" "skipCorruptTx (cfg r)" "synced rest" "MarkerSize \<le> length rest"
  shows "load_round z r b = (Again, r\<lparr>br := Some (b\<lparr>br_rest := rest\<rparr>)\<rparr>)"
proof -
  from assms(1) obtain fh d h where l: "blk = fh @ d" "length fh = FixheaderSize" "DecodeFixheaderInto fh = Inr h"
    "take MarkerSize fh = Magic h" "Magic h = RowMarker \<or> Magic h = ZRowMarker" "unat (Len h) = length d"
    "length d \<le> MaxTxPayloadLen" "CRC32C d \<noteq> FhCRC32C h" by (auto simp: damaged_block_def)
  have "peekMagic b = Inr (Magic h)" using l(1,2,4) assms(2) by (simp add: peekMagic_def Peek_def)
  moreover have "Magic h \<noteq> EOFMarker" using l(5) by auto
  moreover have "scanForwardToMagic r (b\<lparr>br_rest := rest\<rparr>) = (None, r\<lparr>br := Some (b\<lparr>br_rest := rest\<rparr>)\<rparr>)"
    using assms(5,6) by (simp add: scanForwardToMagic_def synced_def Peek_def Let_def)
  ultimately show ?thesis
    using l ReadFull_block [OF l(2), of b d rest] assms(2,4)
    by (auto simp: load_round_def readTxBlock_def resync_def simp del: FixheaderSize_def RowMarker_def ZRowMarker_def)
qed

text \<open>
  What comes after the last block: loading there ends the stream (\<open>e\<close> is \<^verbatim>\<open>io.EOF\<close>) or fails with \<open>e\<close>,
  and leaves a reader with \<open>P\<close>.
\<close>

definition tail_gives :: "zstd \<Rightarrow> readerCfg \<Rightarrow> bytes \<Rightarrow> error \<Rightarrow> (Reader \<Rightarrow> bool) \<Rightarrow> bool" where
  "tail_gives z c tail e P \<longleftrightarrow> synced tail \<and>
     (\<forall>r b. br r = Some b \<and> br_rest b = tail \<and> br_err b = [Go EOF] \<and> cfg r = c \<longrightarrow>
       (\<exists>r'. (load_loop z r b = (Inl e, r') \<or> e = [Go EOF] \<and> load_loop z r b = (Inr (), r') \<and> eofSeen r') \<and> P r'))"


text \<open>
  The reader stands in front of \<open>rows\<close>: what is left of the current block, then the blocks to come,
  then \<open>tail\<close>.
\<close>

definition ahead :: "iproto \<Rightarrow> zstd \<Rightarrow> readerCfg \<Rightarrow> bytes \<Rightarrow> Reader \<Rightarrow> XRow list \<Rightarrow> bool" where
  "ahead ip z c tail r rows \<longleftrightarrow> \<not> eofSeen r \<and> cfg r = c \<and> (\<exists>b pend blks rowss. br r = Some b \<and> br_err b = [Go EOF]
     \<and> drop (plainOff r) (plain r) = payload_bytes ip pend \<and> plainOff r \<le> length (plain r) \<and> rows_ok ip pend
     \<and> list_all2 (chunk ip z c) blks rowss \<and> br_rest b = concat blks @ tail
     \<and> ((\<exists>b\<in>set blks. damaged_block b) \<longrightarrow> MarkerSize \<le> length tail) \<and> rows = pend @ concat rowss)"

lemma ahead_pending:
  assumes "iproto_ok ip" "ahead ip z c tail r (row # rows)" "plainOff r < length (plain r)"
  shows "\<exists>r'. Next ip z r = (Inr (xrow_canon ip row), r') \<and> ahead ip z c tail r' rows"
proof -
  from assms(2) obtain b pend blks rowss where a: "\<not> eofSeen r" "cfg r = c" "br r = Some b" "br_err b = [Go EOF]"
    "drop (plainOff r) (plain r) = payload_bytes ip pend" "rows_ok ip pend" "list_all2 (chunk ip z c) blks rowss"
    "br_rest b = concat blks @ tail" "(\<exists>b\<in>set blks. damaged_block b) \<longrightarrow> MarkerSize \<le> length tail"
    "row # rows = pend @ concat rowss"
    by (auto simp: ahead_def)
  with assms(3) obtain pend' where p: "pend = row # pend'" by (cases pend) (auto simp: payload_bytes_def)
  let ?n = "length (xrow_bytes ip row)"
  have d: "drop (plainOff r) (plain r) = xrow_bytes ip row @ payload_bytes ip pend'" using a(5) p by (simp add: payload_bytes_def)
  have "DecodeXRow ip (drop (plainOff r) (plain r)) = Inr (xrow_canon ip row, ?n)"
    unfolding d using a(6) p by (intro EncodeXRow_DecodeXRow [OF assms(1)]) simp
  then have dec: "DecodeXRowInto ip (drop (plainOff r) (plain r)) = Inr (xrow_canon ip row, ?n)"
    by (simp add: DecodeXRow_def split: sum.splits prod.splits)
  have "load_rows z r = (Inr True, r)" using assms(3) by (simp add: load_rows.simps)
  with dec a(1) have "Next ip z r = (Inr (xrow_canon ip row), r\<lparr>plainOff := plainOff r + ?n\<rparr>)"
    by (simp add: Next_def)
  moreover have "plainOff r + ?n \<le> length (plain r)" using arg_cong [OF d, of length] assms(3) by simp
  moreover have "drop (plainOff r + ?n) (plain r) = payload_bytes ip pend'" using d by (rule drop_append_drop)
  ultimately show ?thesis using a p by (auto simp: ahead_def)
qed

text \<open>Loading skips damaged blocks up to the next good one or the tail.\<close>

lemma load_loop_chunks:
  assumes "list_all2 (chunk ip z c) blks rowss" "synced tail"
    "(\<exists>b\<in>set blks. damaged_block b) \<longrightarrow> MarkerSize \<le> length tail"
    "cfg r = c" "br r = Some b" "br_err b = [Go EOF]" "br_rest b = concat blks @ tail" "\<not> eofSeen r"
  shows "if concat rowss = [] then \<exists>r' b'. load_loop z r b = load_loop z r' b' \<and> br r' = Some b' \<and> br_err b' = [Go EOF]
      \<and> br_rest b' = tail \<and> cfg r' = c
    else \<exists>r'. load_loop z r b = (Inr (), r') \<and> plainOff r' < length (plain r') \<and> ahead ip z c tail r' (concat rowss)"
  using assms
proof (induction blks rowss arbitrary: r b rule: list_all2_induct)
  case Nil
  then show ?case by auto
next
  case (Cons blk blks brows rowss)
  let ?b = "b\<lparr>br_rest := concat blks @ tail\<rparr>"
  have b: "br_rest b = blk @ concat blks @ tail" using Cons.prems by simp
  from Cons.hyps(1) consider "good_block ip z blk brows" | "skipCorruptTx c" "damaged_block blk" "brows = []"
    by (auto simp: chunk_def)
  then show ?case
  proof cases
    case 1
    let ?r = "r\<lparr>br := Some ?b, plain := payload_bytes ip brows, plainOff := 0, blockBytes := length blk\<rparr>"
    have l: "load_loop z r b = (Inr (), ?r)" using load_round_good [OF 1 b, of r] by (simp add: load_loop.simps [of z r b])
    have ne: "brows \<noteq> []" "rows_ok ip brows" using 1 by (simp_all add: good_block_def)
    have "ahead ip z c tail ?r (concat (brows # rowss))" unfolding ahead_def using Cons.prems Cons.hyps(2) ne
      by (intro conjI exI [of _ ?b] exI [of _ brows] exI [of _ blks] exI [of _ rowss]) simp_all
    with l ne show ?thesis by simp
  next
    case 2
    let ?r = "r\<lparr>br := Some ?b\<rparr>"
    have ln: "MarkerSize \<le> length tail" using 2 Cons.prems(2) by auto
    have "load_round z r b = (Again, ?r)"
      by (rule load_round_damaged [OF 2(2) b Cons.prems(5) _ synced_chunks [OF Cons.hyps(2) Cons.prems(1)]])
        (use Cons.prems 2 ln in auto)
    then have l: "load_loop z r b = load_loop z ?r ?b" by (simp add: load_loop.simps [of z r b])
    from Cons.IH [of ?r ?b] Cons.prems ln show ?thesis unfolding l using 2(3) by simp
  qed
qed

lemma loadNextTx_br: "br r = Some b \<Longrightarrow> loadNextTx z r = load_loop z (drain_block r) b"
  by (simp add: loadNextTx_def)

lemma ahead_refill:
  assumes "ahead ip z c tail r rows" "\<not> plainOff r < length (plain r)" "tail_gives z c tail e P"
  shows "if rows = [] then \<exists>r'. (load_rows z r = (Inl e, r') \<or> e = [Go EOF] \<and> load_rows z r = (Inr False, r')) \<and> P r'
    else \<exists>r'. load_rows z r = (Inr True, r') \<and> plainOff r' < length (plain r') \<and> ahead ip z c tail r' rows"
proof -
  let ?d = "drain_block r"
  from assms(1,2) obtain b blks rowss where a: "\<not> eofSeen r" "cfg r = c" "br r = Some b" "br_err b = [Go EOF]"
    "list_all2 (chunk ip z c) blks rowss" "br_rest b = concat blks @ tail"
    "(\<exists>b\<in>set blks. damaged_block b) \<longrightarrow> MarkerSize \<le> length tail" "rows = concat rowss"
    by (auto simp: ahead_def eq_commute [of "[]"])
  have "synced tail" using assms(3) by (simp add: tail_gives_def)
  from load_loop_chunks [OF a(5) this a(7), of ?d b] a(1-4,6)
  have l: "if rows = [] then \<exists>r' b'. load_loop z ?d b = load_loop z r' b' \<and> br r' = Some b' \<and> br_err b' = [Go EOF]
      \<and> br_rest b' = tail \<and> cfg r' = c
    else \<exists>r'. load_loop z ?d b = (Inr (), r') \<and> plainOff r' < length (plain r') \<and> ahead ip z c tail r' rows"
    using a(8) by simp
  show ?thesis
  proof (cases "rows = []")
    case True
    with l assms(3) obtain r' where "load_loop z ?d b = (Inl e, r') \<or> e = [Go EOF] \<and> load_loop z ?d b = (Inr (), r') \<and> eofSeen r'" "P r'"
      unfolding tail_gives_def by (metis (no_types))
    with True assms(2) a(3) show ?thesis by (auto simp: load_rows.simps [of z r] loadNextTx_br)
  next
    case False
    with l obtain r' where r': "load_loop z ?d b = (Inr (), r')" "plainOff r' < length (plain r')" "ahead ip z c tail r' rows" by auto
    moreover have "\<not> eofSeen r'" using r'(3) by (simp add: ahead_def)
    ultimately show ?thesis using False assms(2) a(3)
      by (simp add: load_rows.simps [of z r] loadNextTx_br load_rows.simps [of z r'])
  qed
qed

lemma Next_load_rows: "\<not> eofSeen r \<Longrightarrow> \<not> eofSeen r' \<Longrightarrow> load_rows z r = (Inr True, r') \<Longrightarrow> Next ip z r = Next ip z r'"
proof -
  assume a: "\<not> eofSeen r" "\<not> eofSeen r'" "load_rows z r = (Inr True, r')"
  then have "load_rows z r' = (Inr True, r')" using load_rows_left [of z r True r'] by (simp add: load_rows.simps)
  with a show ?thesis by (simp add: Next_def)
qed

section \<open>The row cursor\<close>

definition rows_rep :: "iproto \<Rightarrow> zstd \<Rightarrow> readerCfg \<Rightarrow> bytes \<Rightarrow> error \<Rightarrow> (Reader \<Rightarrow> bool) \<Rightarrow> Reader \<Rightarrow> XRow list \<Rightarrow> bool" where
  "rows_rep ip z c tail e P r items \<longleftrightarrow> iproto_ok ip \<and> tail_gives z c tail e P
     \<and> (\<exists>rows. ahead ip z c tail r rows \<and> items = map (xrow_canon ip) rows)"

lemma Next_item:
  assumes "rows_rep ip z c tail e P r (i # items)"
  shows "\<exists>r'. Next ip z r = (Inr i, r') \<and> rows_rep ip z c tail e P r' items"
proof -
  from assms obtain row rows where a: "ahead ip z c tail r (row # rows)" "i = xrow_canon ip row" "items = map (xrow_canon ip) rows"
    and t: "iproto_ok ip" "tail_gives z c tail e P" by (auto simp: rows_rep_def)
  show ?thesis
  proof (cases "plainOff r < length (plain r)")
    case True
    with ahead_pending [OF t(1) a(1)] a t show ?thesis by (auto simp: rows_rep_def)
  next
    case False
    from ahead_refill [OF a(1) False t(2)] obtain r1 where
      r1: "load_rows z r = (Inr True, r1)" "plainOff r1 < length (plain r1)" "ahead ip z c tail r1 (row # rows)" by auto
    have "Next ip z r = Next ip z r1"
      using a(1) r1 by (intro Next_load_rows) (simp_all add: ahead_def)
    with ahead_pending [OF t(1) r1(3,2)] a t show ?thesis by (auto simp: rows_rep_def)
  qed
qed

lemma Next_end:
  assumes "rows_rep ip z c tail e P r []"
  shows "\<exists>r'. Next ip z r = (Inl e, r') \<and> P r'"
proof -
  from assms have a: "ahead ip z c tail r []" "tail_gives z c tail e P" by (simp_all add: rows_rep_def)
  then have "\<not> plainOff r < length (plain r)" by (auto simp: ahead_def payload_bytes_def)
  with ahead_refill [OF a(1) _ a(2)] a show ?thesis by (auto simp: Next_def ahead_def)
qed

interpretation row_cursor: cursor "Next ip z" "Rows ip z" "rows_rep ip z c tail e P" e P
proof unfold_locales
  show "Rows ip z yield s r = (case Next ip z r of
      (Inl e, r') \<Rightarrow> if errors_Is e (Go EOF) then (s, r') else (fst (yield s (Inl e)), r')
    | (Inr i, r') \<Rightarrow> (case yield s (Inr i) of (s', True) \<Rightarrow> Rows ip z yield s' r' | (s', False) \<Rightarrow> (s', r')))"
    for yield s r by (rule Rows.simps)
qed (auto dest: Next_item Next_end)

section \<open>Transactions\<close>

text \<open>Rows grouped by commit, the way \<^verbatim>\<open>NextTx\<close> groups them; every group ends in a commit row.\<close>

definition is_tx :: "iproto \<Rightarrow> XRow list \<Rightarrow> bool" where
  "is_tx ip rows \<longleftrightarrow> rows \<noteq> [] \<and> IsCommit ip (last rows) \<and> (\<forall>r\<in>set (butlast rows). \<not> IsCommit ip r)"

definition tx_of :: "XRow list \<Rightarrow> Transaction" where
  "tx_of rows = \<lparr>TxRows = rows, StartLSN = LSN (rows ! 0)\<rparr>"

definition txs_rep ::
    "iproto \<Rightarrow> zstd \<Rightarrow> readerCfg \<Rightarrow> bytes \<Rightarrow> error \<Rightarrow> (Reader \<Rightarrow> bool) \<Rightarrow> Reader \<Rightarrow> Transaction list \<Rightarrow> bool" where
  "txs_rep ip z c tail e P r txs \<longleftrightarrow> (e = [Go EOF] \<or> Go EOF \<notin> set e) \<and> (\<exists>rowss. rows_rep ip z c tail e P r (concat rowss)
     \<and> (\<forall>rows\<in>set rowss. is_tx ip rows) \<and> txs = map tx_of rowss)"

lemma next_tx_loop_rows:
  "rows_rep ip z c tail e P r (rows @ later) \<Longrightarrow> is_tx ip rows \<Longrightarrow>
    \<exists>r'. next_tx_loop ip z r acc = (Inr (acc @ rows), r') \<and> rows_rep ip z c tail e P r' later"
proof (induction rows arbitrary: r acc)
  case Nil
  then show ?case by (simp add: is_tx_def)
next
  case (Cons row rows)
  from row_cursor.fetch_item [of ip z c tail e P r row "rows @ later"] Cons.prems(1) obtain r1
    where r1: "Next ip z r = (Inr row, r1)" "rows_rep ip z c tail e P r1 (rows @ later)" by auto
  show ?case
  proof (cases "rows = []")
    case True
    with r1 Cons.prems(2) show ?thesis by (simp add: next_tx_loop.simps [of ip z r] is_tx_def)
  next
    case False
    with Cons.prems(2) have "is_tx ip rows" "\<not> IsCommit ip row" by (auto simp: is_tx_def)
    with Cons.IH [OF r1(2), of "acc @ [row]"] r1 show ?thesis by (simp add: next_tx_loop.simps [of ip z r])
  qed
qed

interpretation tx_cursor: cursor "NextTx ip z" "Txs ip z" "txs_rep ip z c tail e P" e P
proof unfold_locales
  show "Txs ip z yield s r = (case NextTx ip z r of
      (Inl e, r') \<Rightarrow> if errors_Is e (Go EOF) then (s, r') else (fst (yield s (Inl e)), r')
    | (Inr i, r') \<Rightarrow> (case yield s (Inr i) of (s', True) \<Rightarrow> Txs ip z yield s' r' | (s', False) \<Rightarrow> (s', r')))"
    for yield s r by (rule Txs.simps)
  show "\<exists>r'. NextTx ip z r = (Inr tx, r') \<and> txs_rep ip z c tail e P r' txs" if "txs_rep ip z c tail e P r (tx # txs)" for r tx txs
  proof -
    from that obtain rows rowss where t: "rows_rep ip z c tail e P r (rows @ concat rowss)" "is_tx ip rows"
      "\<forall>rows\<in>set rowss. is_tx ip rows" "tx = tx_of rows" "txs = map tx_of rowss" "e = [Go EOF] \<or> Go EOF \<notin> set e"
      by (auto simp: txs_rep_def Cons_eq_map_conv)
    from next_tx_loop_rows [OF t(1,2), of "[]"] t show ?thesis by (auto simp: NextTx_def tx_of_def txs_rep_def)
  qed
  show "\<exists>r'. NextTx ip z r = (Inl e, r') \<and> P r'" if "txs_rep ip z c tail e P r []" for r
  proof -
    from that have t: "rows_rep ip z c tail e P r []" "e = [Go EOF] \<or> Go EOF \<notin> set e" by (auto simp: txs_rep_def)
    from row_cursor.fetch_end [OF t(1)] t(2) show ?thesis by (auto simp: NextTx_def next_tx_loop.simps [of ip z r])
  qed
qed


section \<open>What the file ends with\<close>

definition at_end :: "Reader \<Rightarrow> bool" where
  "at_end r \<longleftrightarrow> eofSeen r \<and> SawEOFMarker r"

lemma tail_round:
  assumes "synced tail" "\<And>r b. br r = Some b \<Longrightarrow> br_rest b = tail \<Longrightarrow> br_err b = [Go EOF] \<Longrightarrow> cfg r = c \<Longrightarrow>
      \<exists>r'. (load_round z r b = (Done (Inl e), r') \<or> e = [Go EOF] \<and> load_round z r b = (Done (Inr ()), r') \<and> eofSeen r') \<and> P r'"
  shows "tail_gives z c tail e P"
  unfolding tail_gives_def
proof (intro conjI allI impI assms(1))
  fix r :: Reader and b assume "br r = Some b \<and> br_rest b = tail \<and> br_err b = [Go EOF] \<and> cfg r = c"
  with assms(2) [of r b] show "\<exists>r'. (load_loop z r b = (Inl e, r') \<or> e = [Go EOF] \<and> load_loop z r b = (Inr (), r') \<and> eofSeen r') \<and> P r'"
    by (auto simp: load_loop.simps [of z r b])
qed

lemma tail_marker: "tail_gives z c (EOFMarker @ rest) [Go EOF] at_end"
  by (rule tail_round)
    (auto intro!: synced_magic simp: is_magic_def load_round_def peekMagic_def Peek_def set_rest_def at_end_def SawEOFMarker_def)

lemma tail_missing:
  "tail_gives z c [] (if ignoreMissingEOF c then [Go EOF] else [Rd ErrTruncated]) (\<lambda>r. ignoreMissingEOF c \<longrightarrow> eofSeen r)"
  by (rule tail_round)
    (auto simp: synced_def load_round_def peekMagic_def Peek_def handleMissingEOF_def)

text \<open>A block cut short anywhere but at its start, as a writer that died leaves it.\<close>

lemma tail_torn:
  assumes "good_block ip z blk rows" "0 < k" "k < length blk"
  shows "tail_gives z c (take k blk) [Rd ErrTruncated] (\<lambda>r. True)"
proof -
  from assms(1) obtain fh d h where l: "blk = fh @ d" "length fh = FixheaderSize" "DecodeFixheaderInto fh = Inr h"
    "take MarkerSize fh = Magic h" "Magic h = RowMarker \<or> Magic h = ZRowMarker" "unat (Len h) = length d"
    "length d \<le> MaxTxPayloadLen" by (rule good_block_layout) blast
  have mg: "take MarkerSize (take k blk) = Magic h" if "MarkerSize \<le> k" using that l(1,2,4) by (simp add: min_absorb1)
  have sy: "synced (take k blk)"
  proof (cases "k < MarkerSize")
    case True
    then show ?thesis by (intro synced_short) simp
  next
    case False
    then show ?thesis using mg l(5) by (intro synced_magic) (auto simp: is_magic_def)
  qed
  show ?thesis
  proof (rule tail_round [OF sy])
    fix r :: Reader and b assume b: "br r = Some b" "br_rest b = take k blk" "br_err b = [Go EOF]" "cfg r = c"
    have ne: "take k blk \<noteq> []" "length (take k blk) = k" using assms(2,3) by auto
    show "\<exists>r'. (load_round z r b = (Done (Inl [Rd ErrTruncated]), r')
        \<or> [Rd ErrTruncated] = [Go EOF] \<and> load_round z r b = (Done (Inr ()), r') \<and> eofSeen r') \<and> True"
    proof (cases "k < MarkerSize")
      case True
      then have "peekMagic b = Inl [Rd ErrTruncated]" using b ne by (simp add: peekMagic_def Peek_def)
      then show ?thesis by (simp add: load_round_def)
    next
      case False
      then have pk: "peekMagic b = Inr (Magic h)" using b ne mg by (simp add: peekMagic_def Peek_def)
      have "\<exists>r'. readTxBlock z r b = (Some [Rd ErrTruncated], r')"
      proof (cases "k < FixheaderSize")
        case True
        then show ?thesis using b ne by (simp add: readTxBlock_def ReadFull_def short_read_def)
      next
        case False
        then have t: "take k blk = fh @ take (k - FixheaderSize) d" using l(1,2) by simp
        have "k - FixheaderSize < length d" using assms(3) l(1,2) False by simp
        with ReadFull_prefix [of b fh "take (k - FixheaderSize) d"] b(2,3) t l show ?thesis
          by (auto simp: readTxBlock_def short_read_def ReadFull_def [of "b\<lparr>br_rest := _\<rparr>"] simp del: FixheaderSize_def)
      qed
      then show ?thesis using pk l(5) by (auto simp: load_round_def)
    qed
  qed
qed

lemma tail_damaged:
  assumes "damaged_block blk" "\<not> skipCorruptTx c"
  shows "tail_gives z c (blk @ rest) [Rd ErrCorruptCRC] (\<lambda>r. True)"
proof -
  from assms(1) obtain fh d h where l: "blk = fh @ d" "length fh = FixheaderSize" "DecodeFixheaderInto fh = Inr h"
    "take MarkerSize fh = Magic h" "Magic h = RowMarker \<or> Magic h = ZRowMarker" "unat (Len h) = length d"
    "length d \<le> MaxTxPayloadLen" "CRC32C d \<noteq> FhCRC32C h" by (auto simp: damaged_block_def)
  have mg: "take MarkerSize (blk @ rest) = Magic h" using l(1,2,4) by simp
  have sy: "synced (blk @ rest)" using mg l(5) by (intro synced_magic) (auto simp: is_magic_def)
  show ?thesis
  proof (rule tail_round [OF sy])
    fix r :: Reader and b assume b: "br r = Some b" "br_rest b = blk @ rest" "br_err b = [Go EOF]" "cfg r = c"
    have "peekMagic b = Inr (Magic h)" using b mg l(1,2) by (simp add: peekMagic_def Peek_def)
    moreover have "Magic h \<noteq> EOFMarker" using l(5) by auto
    ultimately have "load_round z r b = (Done (Inl [Rd ErrCorruptCRC]), r\<lparr>br := Some (b\<lparr>br_rest := rest\<rparr>)\<rparr>)"
      using l ReadFull_block [OF l(2), of b d rest] b assms(2)
      by (auto simp: load_round_def readTxBlock_def simp del: FixheaderSize_def RowMarker_def ZRowMarker_def)
    then show "\<exists>r'. (load_round z r b = (Done (Inl [Rd ErrCorruptCRC]), r')
        \<or> [Rd ErrCorruptCRC] = [Go EOF] \<and> load_round z r b = (Done (Inr ()), r') \<and> eofSeen r') \<and> True" by simp
  qed
qed

text \<open>Replacing up to four consecutive payload bytes damages a good block.\<close>

lemma burst_damages:
  assumes "good_block ip z (fh @ xs @ u @ ys) rows" "length fh = FixheaderSize"
    "length v = length u" "length u \<le> 4" "v \<noteq> u"
  shows "damaged_block (fh @ xs @ v @ ys)"
proof -
  from assms(1) obtain fh' d h where l: "fh @ xs @ u @ ys = fh' @ d" "length fh' = FixheaderSize" "DecodeFixheaderInto fh' = Inr h"
    "take MarkerSize fh' = Magic h" "Magic h = RowMarker \<or> Magic h = ZRowMarker" "unat (Len h) = length d"
    "length d \<le> MaxTxPayloadLen" "CRC32C d = FhCRC32C h" by (rule good_block_layout) blast
  from l(1,2) assms(2) have "fh' = fh" "d = xs @ u @ ys" by (simp_all add: append_eq_append_conv)
  with l CRC32C_burst [OF assms(3), of xs ys] assms show ?thesis
    unfolding damaged_block_def by (intro exI [of _ fh] exI [of _ "xs @ v @ ys"] exI [of _ h]) auto
qed

section \<open>Opening a file\<close>

lemma newReader_ahead:
  assumes "uuid_ok u" "meta_ok m" "FormatVer m = LegacyFormatVersion \<longrightarrow> AcceptV012 (metaOpts (apply_options opts))"
    "EncodeMeta u None (Some m) = Inr hdr" "list_all2 (chunk ip z (apply_options opts)) blks rowss"
    "(\<exists>b\<in>set blks. damaged_block b) \<longrightarrow> MarkerSize \<le> length tail"
  shows "\<exists>r. newReader u \<lparr>br_rest = str_bytes hdr @ concat blks @ tail, br_err = [Go EOF]\<rparr> opts = Inr r
    \<and> rmeta r = meta_canon m \<and> Offset r = length (str_bytes hdr)
    \<and> ahead ip z (apply_options opts) tail r (concat rowss)"
proof -
  obtain hdr' where h: "EncodeMeta u None (Some m) = Inr hdr'"
    "DecodeMeta u (Some (rd hdr' (concat blks @ tail) [Go EOF])) (metaOpts (apply_options opts))
      = (Inr (meta_canon m), Some (rd [] (concat blks @ tail) [Go EOF]))"
    by (rule DecodeMeta_EncodeMeta [OF assms(1,2)]) (use assms(3) in simp)
  let ?r = "reader_init (apply_options opts) (Some (rd [] (concat blks @ tail) [Go EOF])) (meta_canon m) [] 0 (length (str_bytes hdr))"
  have "newReader u \<lparr>br_rest = str_bytes hdr @ concat blks @ tail, br_err = [Go EOF]\<rparr> opts = Inr ?r"
    using h assms(4) by (simp add: newReader_def rd_def str_bytes_def Let_def)
  moreover have "ahead ip z (apply_options opts) tail ?r (concat rowss)"
    unfolding ahead_def using assms(5,6)
    by (intro conjI exI [of _ "rd [] (concat blks @ tail) [Go EOF]"] exI [of _ "[]"] exI [of _ blks] exI [of _ rowss])
      (simp_all add: reader_init_def rd_def payload_bytes_def str_bytes_def)
  ultimately show ?thesis by (auto simp: reader_init_def Offset_def)
qed


lemma chunks_good: "list_all2 (good_block ip z) blks rowss \<Longrightarrow> list_all2 (chunk ip z c) blks rowss"
  by (erule list_all2_mono) (simp add: chunk_def)

lemma good_not_damaged: "good_block ip z b rows \<Longrightarrow> \<not> damaged_block b"
proof
  assume "good_block ip z b rows" "damaged_block b"
  then obtain fh d h fh' d' h' where "b = fh @ d" "length fh = FixheaderSize" "DecodeFixheaderInto fh = Inr h" "CRC32C d = FhCRC32C h"
    "b = fh' @ d'" "length fh' = FixheaderSize" "DecodeFixheaderInto fh' = Inr h'" "CRC32C d' \<noteq> FhCRC32C h'"
    by (auto simp: damaged_block_def elim!: good_block_layout)
  then show False by (simp add: append_eq_append_conv)
qed

lemma goods_not_damaged: "list_all2 (good_block ip z) blks rowss \<Longrightarrow> \<not> (\<exists>b\<in>set blks. damaged_block b)"
  by (metis good_not_damaged in_set_conv_nth list_all2_conv_all_nth)

abbreviation collect :: "'a list \<Rightarrow> 'a \<Rightarrow> 'a list \<times> bool" where
  "collect \<equiv> \<lambda>s x. (s @ [x], True)"

lemma Rows_collect:
  assumes "rows_rep ip z c tail e P r items"
  shows "\<exists>r'. Rows ip z collect [] r = (map Inr items @ (if errors_Is e (Go EOF) then [] else [Inl e]), r') \<and> P r'"
  using row_cursor.iter_feed [OF assms, of collect "[]"] by (auto simp: feed_collect)

lemma Txs_collect:
  assumes "txs_rep ip z c tail e P r txs"
  shows "\<exists>r'. Txs ip z collect [] r = (map Inr txs @ (if errors_Is e (Go EOF) then [] else [Inl e]), r') \<and> P r'"
  using tx_cursor.iter_feed [OF assms, of collect "[]"] by (auto simp: feed_collect)

section \<open>A concrete file\<close>

definition sample_tx :: "XRow list" where
  "sample_tx = [sample_row, sample_nop]"

lemma sample_block: "\<exists>b. good_block iproto_numbers zstd_store b sample_tx"
proof -
  let ?p = "payload_bytes iproto_numbers sample_tx"
  have len: "length ?p \<le> 1000" using sample_payload_small(1) by (simp add: sample_tx_def)
  obtain fh where fh: "EncodeFixheader (Some (frame_header zstd_store compress_all ?p)) = Inr fh" by (rule frame_header_bytes)
  have "length (on_disk zstd_store compress_all ?p) \<le> MaxTxPayloadLen"
    using len by (simp add: on_disk_def zstd_store_def MaxTxPayloadLen_def)
  with AppendFramedBlock_frame [OF fh, of "[]"] frame_ok_store [OF len] sample_rows_tx show ?thesis
    unfolding good_block_def sample_tx_def by blast
qed

lemma sample_block_parts:
  "\<exists>fh v ys. good_block iproto_numbers zstd_store (fh @ [] @ [v] @ ys) sample_tx \<and> length fh = FixheaderSize"
proof -
  obtain b where b: "good_block iproto_numbers zstd_store b sample_tx" using sample_block by blast
  obtain fh d h where l: "b = fh @ d" "length fh = FixheaderSize" "DecodeFixheaderInto fh = Inr h"
    "take MarkerSize fh = Magic h" "Magic h = RowMarker \<or> Magic h = ZRowMarker" "unat (Len h) = length d"
    "length d \<le> MaxTxPayloadLen" "CRC32C d = FhCRC32C h"
    "(if Magic h = ZRowMarker then DecompressTx zstd_store d else Inr d) = Inr (payload_bytes iproto_numbers sample_tx)"
    by (rule good_block_layout [OF b])
  from l(9) have "d = payload_bytes iproto_numbers sample_tx"
    by (auto simp: DecompressTx_def zstd_store_def split: if_splits)
  then have "d \<noteq> []" by (simp add: sample_tx_def)
  with b l(1,2) show ?thesis by (cases d) auto
qed

lemma sample_txs:
  "\<forall>tx\<in>set [[xrow_canon iproto_numbers sample_row], [xrow_canon iproto_numbers sample_nop]]. is_tx iproto_numbers tx"
  unfolding is_tx_def by code_simp

lemma sample_hdr: "\<exists>hdr. EncodeMeta uuid_hex None (Some sample_meta) = Inr hdr"
  by (rule DecodeMeta_EncodeMeta [OF uuid_hex_ok sample_meta_ok, of "\<lparr>AcceptV012 = True\<rparr>"]) simp_all

section \<open>Properties\<close>








end
