(* ===== verification/ReaderResume.thy ===== *)
theory ReaderResume
  imports ReaderFile
begin

text \<open>
  Resuming: what \<^verbatim>\<open>Offset\<close> reports and what \<^verbatim>\<open>OpenAt\<close> does with it, on any file. The states a reader
  goes through are an inductive set; their invariant ties the resume offset to the bytes of the file.
\<close>

section \<open>The states of a reading pass\<close>

inductive reads :: "uuidlib \<Rightarrow> iproto \<Rightarrow> zstd \<Rightarrow> bytes \<Rightarrow> ReaderOption list \<Rightarrow> Reader \<Rightarrow> bool"
  for u ip z f opts where
  opened: "newReader u \<lparr>br_rest = f, br_err = [Go EOF]\<rparr> opts = Inr r \<Longrightarrow> reads u ip z f opts r"
| next_row: "reads u ip z f opts r \<Longrightarrow> Next ip z r = (Inr row, r') \<Longrightarrow> reads u ip z f opts r'"

text \<open>A round that loads a block takes its bytes and depends on nothing else of the reader.\<close>

definition loads :: "zstd \<Rightarrow> readerCfg \<Rightarrow> bytes \<Rightarrow> bytes \<Rightarrow> nat \<Rightarrow> bool" where
  "loads z c rest p n \<longleftrightarrow> 0 < n \<and> n \<le> length rest \<and> (\<forall>r. cfg r = c \<longrightarrow>
     load_round z r \<lparr>br_rest = rest, br_err = [Go EOF]\<rparr> = (Done (Inr ()),
       r\<lparr>br := Some \<lparr>br_rest = drop n rest, br_err = [Go EOF]\<rparr>, plain := p, plainOff := 0, blockBytes := n\<rparr>))"

lemma bufreader_eta: "br_err b = e \<Longrightarrow> b = \<lparr>br_rest = br_rest b, br_err = e\<rparr>"
  by (cases b) simp

lemma load_round_loads:
  assumes "load_round z r b = (Done (Inr v), r')" "\<not> eofSeen r'" "br_err b = [Go EOF]"
  obtains p n where "loads z (cfg r) (br_rest b) p n"
    "r' = r\<lparr>br := Some \<lparr>br_rest = drop n (br_rest b), br_err = [Go EOF]\<rparr>, plain := p, plainOff := 0, blockBytes := n\<rparr>"
proof -
  from assms(1,2) obtain m where m: "peekMagic b = Inr m" "m = RowMarker \<or> m = ZRowMarker" "m \<noteq> EOFMarker"
    and t: "readTxBlock z r b = (None, r')"
    by (auto simp: load_round_def handleMissingEOF_def split: sum.splits if_splits prod.splits option.splits)
  from t obtain fh b1 h d b2 where s: "ReadFull b FixheaderSize = (Inr fh, b1)" "DecodeFixheaderInto fh = Inr h"
    "\<not> unat (Len h) > MaxTxPayloadLen" "ReadFull b1 (unat (Len h)) = (Inr d, b2)" "CRC32C d = FhCRC32C h"
    "stash_block z (r\<lparr>br := Some b2\<rparr>) h d = (None, r')"
    by (auto simp: readTxBlock_def resync_def split: prod.splits sum.splits if_splits option.splits simp del: FixheaderSize_def)
  from s(6) obtain p where p: "(if Magic h = ZRowMarker then DecompressTx z d else Inr d) = Inr p"
    by (cases "if Magic h = ZRowMarker then DecompressTx z d else Inr d") (simp_all add: stash_block_def)
  let ?n = "FixheaderSize + unat (Len h)"
  have b2: "b2 = b\<lparr>br_rest := drop ?n (br_rest b)\<rparr>" "?n \<le> length (br_rest b)"
    using s(1,4) by (auto simp: ReadFull_def add.commute split: if_splits)
  have e: "b\<lparr>br_rest := drop ?n (br_rest b)\<rparr> = \<lparr>br_rest = drop ?n (br_rest b), br_err = [Go EOF]\<rparr>"
    using assms(3) by (cases b) simp
  have each: "load_round z r0 b = (Done (Inr ()),
      r0\<lparr>br := Some \<lparr>br_rest = drop ?n (br_rest b), br_err = [Go EOF]\<rparr>, plain := p, plainOff := 0, blockBytes := ?n\<rparr>)" for r0
    using m s(1-5) p b2 e by (auto simp: load_round_def readTxBlock_def stash_block_def simp del: FixheaderSize_def)
  then have "loads z (cfg r) (br_rest b) p ?n"
    unfolding loads_def bufreader_eta [OF assms(3), symmetric] using b2(2) by (auto simp del: FixheaderSize_def) simp
  with each [of r] assms(1) show ?thesis by (intro that) simp_all
qed

section \<open>The invariant\<close>

text \<open>
  The source stands behind the current block, the current block starts at the resume offset, and
  reading there again loads it again.
\<close>

definition positioned :: "zstd \<Rightarrow> readerCfg \<Rightarrow> nat \<Rightarrow> bytes \<Rightarrow> Reader \<Rightarrow> bool" where
  "positioned z c metaSize f r \<longleftrightarrow> cfg r = c \<and> \<not> eofSeen r \<and> metaSize \<le> Offset r \<and> consumed r + blockBytes r \<le> length f
     \<and> br r = Some \<lparr>br_rest = drop (consumed r + blockBytes r) f, br_err = [Go EOF]\<rparr>
     \<and> (if blockBytes r = 0 then plain r = [] else loads z c (drop (Offset r) f) (plain r) (blockBytes r))"

lemma ReadFull_err:
  "ReadFull b n = (x, b') \<Longrightarrow> br_err b = [Go EOF] \<Longrightarrow>
    br_err b' = [Go EOF] \<and> (\<forall>e. x = Inl e \<longrightarrow> short_read e = [Rd ErrTruncated])"
  by (auto simp: ReadFull_def short_read_def split: if_splits)

lemma load_round_strict:
  assumes "br_err b = [Go EOF]" "\<not> skipCorruptTx (cfg r)"
  shows "load_round z r b \<noteq> (Again, r')"
proof
  assume a: "load_round z r b = (Again, r')"
  then obtain e where "readTxBlock z r b = (Some e, r')" "Rd ErrResync \<in> set e"
    using assms(2) by (auto simp: load_round_def split: sum.splits if_splits prod.splits option.splits)
  then show False using assms
    by (auto simp: readTxBlock_def split: sum.splits if_splits prod.splits
        dest!: stash_block_left DecodeFixheader_errors ReadFull_err)
qed

lemma load_rows_positioned:
  "positioned z c ms f r \<Longrightarrow> \<not> skipCorruptTx c \<Longrightarrow> load_rows z r = (Inr True, r') \<Longrightarrow> positioned z c ms f r'"
proof (induction z r rule: load_rows.induct)
  case (1 z r)
  show ?case
  proof (cases "plainOff r \<ge> length (plain r)")
    case False
    with "1.prems" show ?thesis by (simp add: load_rows.simps [of z r])
  next
    case True
    let ?o = "consumed r + blockBytes r"
    let ?b = "\<lparr>br_rest = drop ?o f, br_err = [Go EOF]\<rparr>"
    have r: "br r = Some ?b" "cfg r = c" "ms \<le> consumed r" "?o \<le> length f" "\<not> eofSeen r" using "1.prems"(1) by (auto simp: positioned_def Offset_def)
    from True "1.prems"(3) obtain v r1 where l: "loadNextTx z r = (Inr v, r1)" "\<not> eofSeen r1" "load_rows z r1 = (Inr True, r')"
      by (auto simp: load_rows.simps [of z r] split: prod.splits sum.splits if_splits)
    obtain x r2 where x: "load_round z (drain_block r) ?b = (x, r2)" by fastforce
    with load_round_strict [of ?b "drain_block r" z r2] r(2) "1.prems"(2) have "x \<noteq> Again" by auto
    with l(1) x r(1) have x1: "load_round z (drain_block r) ?b = (Done (Inr v), r1)"
      by (cases x) (simp_all add: loadNextTx_br load_loop.simps)
    then obtain p n where p: "loads z c (drop ?o f) p n"
      "r1 = (drain_block r)\<lparr>br := Some \<lparr>br_rest = drop n (drop ?o f), br_err = [Go EOF]\<rparr>, plain := p, plainOff := 0, blockBytes := n\<rparr>"
      using load_round_loads [OF x1 l(2)] r(2) by auto
    then have "positioned z c ms f r1" using r
      by (auto simp: positioned_def Offset_def drain_block_def loads_def add.commute add.left_commute)
    from "1.IH" [OF True l(1) [symmetric] refl l(2) this "1.prems"(2) l(3)] show ?thesis .
  qed
qed

lemma positioned_plainOff: "positioned z c ms f r \<Longrightarrow> positioned z c ms f (r\<lparr>plainOff := n\<rparr>)"
  by (auto simp: positioned_def Offset_def split: if_splits)

definition metaSize_of :: "uuidlib \<Rightarrow> bytes \<Rightarrow> MetaOptions \<Rightarrow> nat" where
  "metaSize_of u f o1 = length f - (case DecodeMeta u (Some \<lparr>br_rest = f, br_err = [Go EOF]\<rparr>) o1 of
     (_, Some b) \<Rightarrow> length (br_rest b) | (_, None) \<Rightarrow> 0)"

lemma reads_positioned:
  assumes "reads u ip z f opts r" "\<not> skipCorruptTx (apply_options opts)"
  shows "positioned z (apply_options opts) (metaSize_of u f (metaOpts (apply_options opts))) f r"
  using assms(1)
proof induction
  case (opened r)
  then obtain m b where d: "DecodeMeta u (Some \<lparr>br_rest = f, br_err = [Go EOF]\<rparr>) (metaOpts (apply_options opts)) = (Inr m, Some b)"
    "r = reader_init (apply_options opts) (Some b) m [] 0 (length f - length (br_rest b))"
    by (auto simp: newReader_def Let_def split: prod.splits sum.splits option.splits)
  from DecodeMeta_prefix [OF d(1)] obtain k where "k \<le> length f" "b = \<lparr>br_rest = drop k f, br_err = [Go EOF]\<rparr>"
    by (auto simp: took_prefix_def)
  with d show ?case by (simp add: positioned_def Offset_def metaSize_of_def reader_init_def)
next
  case (next_row r row r')
  from next_row(2) obtain r1 n where "load_rows z r = (Inr True, r1)" "r' = r1\<lparr>plainOff := n\<rparr>"
    by (auto simp: Next_def split: if_splits sum.splits prod.splits bool.splits)
  with load_rows_positioned [OF next_row(3) assms(2)] positioned_plainOff show ?case by simp
qed

section \<open>The last block\<close>

lemma Next_loaded:
  assumes "iproto_ok ip" "\<not> eofSeen r" "drop (plainOff r) (plain r) = payload_bytes ip (row # pend)" "rows_ok ip (row # pend)"
  shows "Next ip z r = (Inr (xrow_canon ip row), r\<lparr>plainOff := plainOff r + length (xrow_bytes ip row)\<rparr>)"
proof -
  have d: "drop (plainOff r) (plain r) = xrow_bytes ip row @ payload_bytes ip pend" using assms(3) by (simp add: payload_bytes_def)
  then have "plainOff r < length (plain r)" by (metis append_is_Nil_conv drop_eq_Nil not_le xrow_bytes_nonempty)
  then have "load_rows z r = (Inr True, r)" by (simp add: load_rows.simps)
  moreover have "DecodeXRow ip (drop (plainOff r) (plain r)) = Inr (xrow_canon ip row, length (xrow_bytes ip row))"
    unfolding d using assms(4) by (intro EncodeXRow_DecodeXRow [OF assms(1)]) simp
  ultimately show ?thesis using assms(2) by (simp add: Next_def DecodeXRow_def split: sum.splits prod.splits)
qed

lemma Rows_last_block:
  assumes "iproto_ok ip" "\<not> eofSeen r" "br r = Some b" "br_rest b = EOFMarker" "plainOff r \<le> length (plain r)"
    "drop (plainOff r) (plain r) = payload_bytes ip pend" "rows_ok ip pend"
  shows "\<exists>r'. Rows ip z collect acc r = (acc @ map (\<lambda>row. Inr (xrow_canon ip row)) pend, r')
    \<and> Offset r' = consumed r + blockBytes r \<and> SawEOFMarker r'"
  using assms(2-)
proof (induction pend arbitrary: r acc)
  case Nil
  then have "plainOff r \<ge> length (plain r)" by (simp add: payload_bytes_def)
  moreover have "load_round z (drain_block r) b = (Done (Inr ()), (set_rest (drain_block r) b [])\<lparr>eofSeen := True, markerSeen := True\<rparr>)"
    using Nil(3) by (simp add: load_round_def peekMagic_def Peek_def)
  then have "loadNextTx z r = (Inr (), (set_rest (drain_block r) b [])\<lparr>eofSeen := True, markerSeen := True\<rparr>)"
    using Nil(2) by (simp add: loadNextTx_br load_loop.simps)
  ultimately show ?case using Nil(1)
    by (simp add: Rows.simps [of ip z _ acc] Next_def load_rows.simps [of z r] Offset_def SawEOFMarker_def set_rest_def drain_block_def)
next
  case (Cons row pend)
  let ?r = "r\<lparr>plainOff := plainOff r + length (xrow_bytes ip row)\<rparr>"
  have d: "drop (plainOff r) (plain r) = xrow_bytes ip row @ payload_bytes ip pend" using Cons.prems(5) by (simp add: payload_bytes_def)
  have n: "Next ip z r = (Inr (xrow_canon ip row), ?r)" using Next_loaded [OF assms(1) Cons.prems(1,5,6)] .
  have "plainOff ?r \<le> length (plain ?r)" using arg_cong [OF d, of length] Cons.prems(4) by simp
  moreover have "drop (plainOff ?r) (plain ?r) = payload_bytes ip pend" using drop_append_drop [OF d] by simp
  ultimately show ?case
    using Cons.IH [of ?r "acc @ [Inr (xrow_canon ip row)]"] Cons.prems n by (simp add: Rows.simps [of ip z _ acc r])
qed

section \<open>Properties\<close>

text \<open>
  C24: resuming is exact at block granularity, on any file. After any number of rows read without
  \<^verbatim>\<open>SkipCorruptTx\<close>, opening the file at the reported offset succeeds with the header read before;
  when no block is loaded yet the new reader stands where the old one does, and otherwise its first
  load brings back the current block, from its first row, with the rest of the file behind it: no
  row still to come is lost, and only rows of the current block are delivered again.
\<close>

theorem resume_at_offset:
  assumes "reads u ip z f opts r" and "\<not> skipCorruptTx (apply_options opts)"
  shows "\<exists>r2. newReaderAt u f (Offset r) opts = Inr r2 \<and> Offset r2 = Offset r \<and> cfg r2 = cfg r
    \<and> (if blockBytes r = 0 then br r2 = br r \<and> plain r2 = plain r
       else (\<exists>r3. loadNextTx z r2 = (Inr (), r3) \<and> br r3 = br r \<and> plain r3 = plain r \<and> plainOff r3 = 0
         \<and> Offset r3 = Offset r \<and> blockBytes r3 = blockBytes r))"
proof -
  let ?c = "apply_options opts"
  note p = reads_positioned [OF assms]
  from assms(1) obtain m b where d: "DecodeMeta u (Some \<lparr>br_rest = f, br_err = [Go EOF]\<rparr>) (metaOpts ?c) = (Inr m, Some b)"
    by (induction) (auto simp: newReader_def Let_def split: prod.splits sum.splits option.splits)
  let ?b = "\<lparr>br_rest = drop (Offset r) f, br_err = [Go EOF]\<rparr>"
  let ?r2 = "reader_init ?c (Some ?b) m [] 0 (Offset r)"
  have "newReaderAt u f (Offset r) opts = Inr ?r2"
    using d p by (auto simp: newReaderAt_def positioned_def metaSize_of_def Let_def)
  moreover have "\<exists>r3. loadNextTx z ?r2 = (Inr (), r3) \<and> br r3 = br r \<and> plain r3 = plain r \<and> plainOff r3 = 0
         \<and> Offset r3 = Offset r \<and> blockBytes r3 = blockBytes r" if "blockBytes r \<noteq> 0"
  proof -
    have "loads z ?c (drop (Offset r) f) (plain r) (blockBytes r)" using p that by (simp add: positioned_def)
    then have "load_round z (drain_block ?r2) ?b = (Done (Inr ()), (drain_block ?r2)\<lparr>br := br r, plain := plain r,
        plainOff := 0, blockBytes := blockBytes r\<rparr>)"
      using p by (simp add: loads_def positioned_def reader_init_def Offset_def add.commute)
    then show ?thesis by (simp add: reader_init_def loadNextTx_br load_loop.simps Offset_def drain_block_def)
  qed
  moreover have "blockBytes r = 0 \<Longrightarrow> br ?r2 = br r \<and> plain ?r2 = plain r" "cfg ?r2 = cfg r" "Offset ?r2 = Offset r"
    using p by (simp_all add: positioned_def reader_init_def Offset_def)
  ultimately show ?thesis by auto
qed

theorem resume_at_offset_witness:
  "\<exists>f r r2 r3. reads uuid_hex iproto_numbers zstd_store f [] r \<and> blockBytes r \<noteq> 0
    \<and> newReaderAt uuid_hex f (Offset r) [] = Inr r2 \<and> loadNextTx zstd_store r2 = (Inr (), r3) \<and> plain r3 = plain r"
proof -
  obtain hdr b where s: "EncodeMeta uuid_hex None (Some sample_meta) = Inr hdr"
    "good_block iproto_numbers zstd_store b sample_tx" using sample_hdr sample_block by auto
  let ?f = "str_bytes hdr @ concat [b] @ EOFMarker"
  have g: "list_all2 (chunk iproto_numbers zstd_store (apply_options [])) [b] [sample_tx]" using s(2) by (simp add: chunk_def)
  from newReader_ahead [OF uuid_hex_ok sample_meta_ok _ s(1) g, of EOFMarker] obtain r
    where r: "newReader uuid_hex \<lparr>br_rest = ?f, br_err = [Go EOF]\<rparr> [] = Inr r"
      "ahead iproto_numbers zstd_store (apply_options []) EOFMarker r sample_tx"
    by (auto simp: sample_meta_def LegacyFormatVersion_def)
  then have "rows_rep iproto_numbers zstd_store (apply_options []) EOFMarker [Go EOF] at_end r (map (xrow_canon iproto_numbers) sample_tx)"
    using tail_marker [of zstd_store "apply_options []" "[]"] iproto_numbers_ok by (auto simp: rows_rep_def)
  then obtain row r1 where n: "Next iproto_numbers zstd_store r = (Inr row, r1)"
    using Next_item unfolding sample_tx_def by (metis list.simps(9))
  have rd1: "reads uuid_hex iproto_numbers zstd_store ?f [] r1" using n opened [OF r(1)] by (rule next_row [rotated])
  have strict: "\<not> skipCorruptTx (apply_options [])" by (simp add: apply_options_def readerCfg0_def)
  from n obtain r' k where "load_rows zstd_store r = (Inr True, r')" "r1 = r'\<lparr>plainOff := k\<rparr>"
    by (auto simp: Next_def split: if_splits sum.splits prod.splits bool.splits)
  with load_rows_left have "plain r1 \<noteq> []" by fastforce
  with reads_positioned [OF rd1 strict] have "blockBytes r1 \<noteq> 0" by (auto simp: positioned_def split: if_splits)
  with resume_at_offset [OF rd1 strict] rd1 show ?thesis by auto
qed

text \<open>
  C27: with \<^verbatim>\<open>SkipCorruptTx\<close> the reported offset is wrong after a skip: the bytes skipped are not
  counted. On a file with a damaged block in front of a good one, every row of the good block is
  delivered and the end marker is seen, yet the offset reported then is short of the end of the
  blocks by the length of the damaged block, and need not be a block boundary.
\<close>

theorem skip_corrupt_offset_short:
  assumes "iproto_ok ip" "uuid_ok u" "meta_ok m"
    and "FormatVer m = LegacyFormatVersion \<longrightarrow> AcceptV012 (metaOpts (apply_options opts))"
    and "EncodeMeta u None (Some m) = Inr hdr" "skipCorruptTx (apply_options opts)"
    and "damaged_block bad" "good_block ip z blk rows"
  shows "\<exists>r r'. newReader u \<lparr>br_rest = str_bytes hdr @ bad @ blk @ EOFMarker, br_err = [Go EOF]\<rparr> opts = Inr r
    \<and> Rows ip z collect [] r = (map (\<lambda>row. Inr (xrow_canon ip row)) rows, r') \<and> SawEOFMarker r'
    \<and> Offset r' + length bad = length (str_bytes hdr) + length bad + length blk"
proof -
  let ?c = "apply_options opts" and ?b = "\<lambda>s. \<lparr>br_rest = s, br_err = [Go EOF]\<rparr>"
  have "list_all2 (chunk ip z ?c) [bad, blk] [[], rows]" using assms(6-8) by (simp add: chunk_def)
  from newReader_ahead [OF assms(2-5) this, of EOFMarker] obtain r
    where r: "newReader u (?b (str_bytes hdr @ bad @ blk @ EOFMarker)) opts = Inr r" "Offset r = length (str_bytes hdr)" by auto
  obtain hdr' where h: "EncodeMeta u None (Some m) = Inr hdr'"
    "DecodeMeta u (Some (rd hdr' (bad @ blk @ EOFMarker) [Go EOF])) (metaOpts ?c)
      = (Inr (meta_canon m), Some (rd [] (bad @ blk @ EOFMarker) [Go EOF]))"
    by (rule DecodeMeta_EncodeMeta [OF assms(2,3)]) (use assms(4) in simp)
  then have init: "r = reader_init ?c (Some (?b (bad @ blk @ EOFMarker))) (meta_canon m) [] 0 (length (str_bytes hdr))"
    using r assms(5) by (simp add: newReader_def rd_def str_bytes_def Let_def)
  have f: "br r = Some (?b (bad @ blk @ EOFMarker))" "\<not> eofSeen r" "plain r = []" "consumed r = length (str_bytes hdr)"
    "cfg r = ?c" "drain_block r = r" by (simp_all add: init reader_init_def drain_block_def)
  let ?r1 = "r\<lparr>br := Some (?b (blk @ EOFMarker))\<rparr>"
  let ?r2 = "r\<lparr>br := Some (?b EOFMarker), plain := payload_bytes ip rows, plainOff := 0, blockBytes := length blk\<rparr>"
  have "synced (blk @ EOFMarker)"
    using assms(8) by (intro synced_magic chunk_magic [of ip z ?c blk rows]) (simp add: chunk_def)
  then have "load_round z r (?b (bad @ blk @ EOFMarker)) = (Again, ?r1)"
    using load_round_damaged [OF assms(7), of "?b (bad @ blk @ EOFMarker)" "blk @ EOFMarker" r z] assms(6) f(5) by simp
  moreover have "load_round z ?r1 (?b (blk @ EOFMarker)) = (Done (Inr ()), ?r2)"
    using load_round_good [OF assms(8), of "?b (blk @ EOFMarker)" EOFMarker ?r1] by simp
  ultimately have "loadNextTx z r = (Inr (), ?r2)"
    using f(1,6) by (simp add: loadNextTx_def load_loop.simps [of z r] load_loop.simps [of z ?r1])
  then have l: "load_rows z r = (Inr True, ?r2)"
    using assms(8) f(2,3) by (simp add: load_rows.simps [of z r] load_rows.simps [of z ?r2] good_block_def)
  have "Rows ip z collect [] r = Rows ip z collect [] ?r2"
    using Next_load_rows [OF f(2) _ l, of ip] f(2) by (simp add: Rows.simps [of ip z _ "[]"])
  moreover have "rows_ok ip rows" using assms(8) by (simp add: good_block_def)
  ultimately show ?thesis using Rows_last_block [OF assms(1), of ?r2 "?b EOFMarker" rows z "[]"] r f(2,4) by auto
qed

theorem skip_corrupt_offset_short_witness:
  "\<exists>hdr bad blk r r'. bad \<noteq> []
    \<and> newReader uuid_hex \<lparr>br_rest = str_bytes hdr @ bad @ blk @ EOFMarker, br_err = [Go EOF]\<rparr> [SkipCorruptTx] = Inr r
    \<and> Rows iproto_numbers zstd_store collect [] r = (map (\<lambda>row. Inr (xrow_canon iproto_numbers row)) sample_tx, r') \<and> SawEOFMarker r'
    \<and> Offset r' + length bad = length (str_bytes hdr) + length bad + length blk"
proof -
  obtain hdr blk fh v ys where s: "EncodeMeta uuid_hex None (Some sample_meta) = Inr hdr"
    "good_block iproto_numbers zstd_store blk sample_tx"
    "good_block iproto_numbers zstd_store (fh @ [] @ [v] @ ys) sample_tx" "length fh = FixheaderSize"
    using sample_hdr sample_block sample_block_parts by force
  let ?bad = "fh @ [] @ [v + 1] @ ys"
  have "damaged_block ?bad" using burst_damages [OF s(3,4), of "[v + 1]"] by simp
  moreover have "?bad \<noteq> []" "skipCorruptTx (apply_options [SkipCorruptTx])"
    by (simp_all add: apply_options_def SkipCorruptTx_def)
  moreover have "\<exists>r r'. newReader uuid_hex \<lparr>br_rest = str_bytes hdr @ ?bad @ blk @ EOFMarker, br_err = [Go EOF]\<rparr> [SkipCorruptTx] = Inr r
    \<and> Rows iproto_numbers zstd_store collect [] r = (map (\<lambda>row. Inr (xrow_canon iproto_numbers row)) sample_tx, r') \<and> SawEOFMarker r'
    \<and> Offset r' + length ?bad = length (str_bytes hdr) + length ?bad + length blk"
    using calculation skip_corrupt_offset_short [OF iproto_numbers_ok uuid_hex_ok sample_meta_ok _ s(1), of "[SkipCorruptTx]" ?bad zstd_store blk sample_tx] s(2)
    by (simp add: sample_meta_def LegacyFormatVersion_def)
  ultimately show ?thesis by blast
qed

end
