(* ===== verification/GoFiles.thy ===== *)
theory GoFiles
  imports ReaderResume "HOL-Library.Sublist"
begin

text \<open>
  What the writers use of Go's standard library: the calls of package os on files and directories,
  and the buffered writer of package bufio. A file is an inode with contents; directories map paths to
  inodes. Both exist twice: as the running system sees them, and as a power loss would leave them
  (what was synced). Every call may fail; the failures are arguments.
\<close>

section \<open>The file system\<close>

record world =
  names :: "string \<Rightarrow> nat option"
  content :: "nat \<Rightarrow> bytes"
  kept_names :: "string \<Rightarrow> nat option"
  kept_content :: "nat \<Rightarrow> bytes"
  fresh :: nat
  room :: "nat option"

text \<open>
  \<open>room\<close> is the number of bytes the device still takes (None: no limit); a write past it is short and
  fails. \<open>faults\<close> says how each kind of call ends when it is made: None is success.
\<close>

record faults =
  writeErr :: error
  openErr :: "error option"
  fsyncErr :: "error option"
  closeErr :: "error option"
  renameErr :: "error option"
  removeErr :: "error option"
  dirErr :: "error option"

definition no_faults :: faults where
  "no_faults = \<lparr>writeErr = [Go (IoFailure 0)], openErr = None, fsyncErr = None, closeErr = None, renameErr = None,
     removeErr = None, dirErr = None\<rparr>"

definition file_of :: "world \<Rightarrow> string \<Rightarrow> bytes option" where
  "file_of w p = map_option (content w) (names w p)"

text \<open>The file a power loss leaves at a path: the contents that were synced under the names that were.\<close>

definition kept_file :: "world \<Rightarrow> string \<Rightarrow> bytes option" where
  "kept_file w p = map_option (kept_content w) (kept_names w p)"

definition file_write :: "faults \<Rightarrow> nat \<Rightarrow> bytes \<Rightarrow> world \<Rightarrow> nat \<times> error option \<times> world" where
  "file_write fl ino p w =
     (let n = (case room w of None \<Rightarrow> length p | Some k \<Rightarrow> min k (length p))
      in (n, if n < length p then Some (writeErr fl) else None,
          w\<lparr>content := (content w)(ino := content w ino @ take n p), room := map_option (\<lambda>k. k - n) (room w)\<rparr>))"

definition OpenExcl :: "faults \<Rightarrow> string \<Rightarrow> world \<Rightarrow> (error + nat) \<times> world" where
  "OpenExcl fl p w = (case openErr fl of Some e \<Rightarrow> (Inl e, w)
     | None \<Rightarrow> if names w p \<noteq> None then (Inl [Go OsErrExist], w)
         else (Inr (fresh w), w\<lparr>names := (names w)(p \<mapsto> fresh w), content := (content w)(fresh w := []),
                 kept_content := (kept_content w)(fresh w := []), fresh := fresh w + 1\<rparr>))"

definition file_sync :: "faults \<Rightarrow> nat \<Rightarrow> world \<Rightarrow> error option \<times> world" where
  "file_sync fl ino w = (case fsyncErr fl of Some e \<Rightarrow> (Some e, w)
     | None \<Rightarrow> (None, w\<lparr>kept_content := (kept_content w)(ino := content w ino)\<rparr>))"

definition Rename :: "faults \<Rightarrow> string \<Rightarrow> string \<Rightarrow> world \<Rightarrow> error option \<times> world" where
  "Rename fl old new w = (case renameErr fl of Some e \<Rightarrow> (Some e, w)
     | None \<Rightarrow> (case names w old of None \<Rightarrow> (Some [Go OsErrNotExist], w)
         | Some ino \<Rightarrow> (None, w\<lparr>names := (names w)(old := None, new \<mapsto> ino)\<rparr>)))"

definition os_Remove :: "faults \<Rightarrow> string \<Rightarrow> world \<Rightarrow> error option \<times> world" where
  "os_Remove fl p w = (case removeErr fl of Some e \<Rightarrow> (Some e, w)
     | None \<Rightarrow> if names w p = None then (Some [Go OsErrNotExist], w) else (None, w\<lparr>names := (names w)(p := None)\<rparr>))"

definition SyncDir :: "faults \<Rightarrow> string \<Rightarrow> world \<Rightarrow> error option \<times> world" where
  "SyncDir fl d w = (case dirErr fl of Some e \<Rightarrow> (Some e, w)
     | None \<Rightarrow> (None, w\<lparr>kept_names := (\<lambda>p. if filepath_Dir p = d then names w p else kept_names w p)\<rparr>))"

section \<open>Buffered writers\<close>

text \<open>\<^verbatim>\<open>bufio.Writer\<close> with a buffer of \<open>AutocommitThreshold\<close> bytes, as every writer here has it.\<close>

record bufwriter =
  bw_ino :: nat
  bw_buf :: bytes
  bw_err :: "error option"

definition NewWriterSize :: "nat \<Rightarrow> bufwriter" where
  "NewWriterSize ino = \<lparr>bw_ino = ino, bw_buf = [], bw_err = None\<rparr>"

definition Available :: "bufwriter \<Rightarrow> nat" where
  "Available b = AutocommitThreshold - length (bw_buf b)"

definition bw_Flush :: "faults \<Rightarrow> bufwriter \<Rightarrow> world \<Rightarrow> error option \<times> bufwriter \<times> world" where
  "bw_Flush fl b w = (case bw_err b of Some e \<Rightarrow> (Some e, b, w)
     | None \<Rightarrow> if bw_buf b = [] then (None, b, w)
         else (case file_write fl (bw_ino b) (bw_buf b) w of
             (n, Some e, w') \<Rightarrow> (Some e, b\<lparr>bw_buf := drop n (bw_buf b), bw_err := Some e\<rparr>, w')
           | (n, None, w') \<Rightarrow> (None, b\<lparr>bw_buf := []\<rparr>, w')))"

lemma bw_Flush_buf: "bw_Flush fl b w = (None, b', w') \<Longrightarrow> bw_buf b' = [] \<and> bw_err b' = None \<and> bw_ino b' = bw_ino b"
  by (auto simp: bw_Flush_def split: option.splits prod.splits if_splits)

function bw_Write :: "faults \<Rightarrow> bytes \<Rightarrow> bufwriter \<Rightarrow> world \<Rightarrow> error option \<times> bufwriter \<times> world" where
  "bw_Write fl p b w =
     (if bw_err b \<noteq> None then (bw_err b, b, w)
      else if length p \<le> Available b then (None, b\<lparr>bw_buf := bw_buf b @ p\<rparr>, w)
      else if bw_buf b = [] then
        (case file_write fl (bw_ino b) p w of
           (n, Some e, w') \<Rightarrow> (Some e, b\<lparr>bw_err := Some e\<rparr>, w')
         | (n, None, w') \<Rightarrow> (None, b, w'))
      else
        (let n = Available b in
         case bw_Flush fl (b\<lparr>bw_buf := bw_buf b @ take n p\<rparr>) w of
           (Some e, b', w') \<Rightarrow> (Some e, b', w')
         | (None, b', w') \<Rightarrow> bw_Write fl (drop n p) b' w'))"
  by pat_completeness auto
termination
proof (relation "measure (\<lambda>(fl, p, b, w). length p + length (bw_buf b))")
  fix fl p b w n x y b' w' y'
  assume a: "\<not> bw_err b \<noteq> None" "\<not> length p \<le> Available b" "bw_buf b \<noteq> []" "n = Available b"
    "(x, y) = bw_Flush fl (b\<lparr>bw_buf := bw_buf b @ take n p\<rparr>) w" "x = None" "(b', w') = y"
  then have "bw_buf b' = []" using bw_Flush_buf by metis
  moreover have "0 < length (bw_buf b)" using a(3) by simp
  ultimately show "((fl, drop n p, b', w'), (fl, p, b, w)) \<in> measure (\<lambda>(fl, p, b, w). length p + length (bw_buf b))"
    by (auto intro: le_less_trans [OF diff_le_self])
qed simp

declare bw_Write.simps [simp del]

section \<open>What reaches the file\<close>

text \<open>Everything a buffered writer has accepted: what is in the file and what is still buffered.\<close>

definition accepted :: "world \<Rightarrow> bufwriter \<Rightarrow> bytes" where
  "accepted w b = content w (bw_ino b) @ bw_buf b"

text \<open>A step of a buffered writer wrote to its own file and changes nothing else.\<close>

definition wrote :: "nat \<Rightarrow> world \<Rightarrow> world \<Rightarrow> bytes \<Rightarrow> bool" where
  "wrote ino w w' s \<longleftrightarrow> (\<exists>k. w' = w\<lparr>content := (content w)(ino := content w ino @ s), room := k\<rparr>
     \<and> (case room w of None \<Rightarrow> k = None | Some i \<Rightarrow> length s \<le> i \<and> k = Some (i - length s)))"

lemma wrote_refl: "wrote ino w w []"
  by (auto simp: wrote_def split: option.splits intro!: exI [of _ "room w"])

lemma wrote_trans: "wrote ino w w' s \<Longrightarrow> wrote ino w' w'' t \<Longrightarrow> wrote ino w w'' (s @ t)"
  by (auto simp: wrote_def split: option.splits)

lemma wrote_simps:
  assumes "wrote ino w w' s"
  shows "names w' = names w" "kept_names w' = kept_names w" "kept_content w' = kept_content w" "fresh w' = fresh w"
    "content w' ino = content w ino @ s" "i \<noteq> ino \<Longrightarrow> content w' i = content w i"
  using assms by (auto simp: wrote_def)

lemma file_write_wrote:
  "file_write fl ino p w = (n, e, w') \<Longrightarrow> wrote ino w w' (take n p) \<and> (e = None \<longrightarrow> n = length p) \<and> n \<le> length p"
  by (auto simp: file_write_def wrote_def Let_def split: option.splits if_splits)

lemma bw_Flush_wrote:
  assumes "bw_Flush fl b w = (e, b', w')"
  shows "bw_ino b' = bw_ino b \<and> bw_err b' = e \<and> (\<exists>s. wrote (bw_ino b) w w' s \<and> bw_buf b = s @ bw_buf b')
    \<and> (e = None \<longrightarrow> bw_buf b' = [])"
proof (cases "bw_err b = None \<and> bw_buf b \<noteq> []")
  case False
  with assms show ?thesis by (auto simp: bw_Flush_def intro: wrote_refl split: option.splits)
next
  case True
  obtain n e1 w1 where f: "file_write fl (bw_ino b) (bw_buf b) w = (n, e1, w1)" by (metis prod_cases3)
  with True assms file_write_wrote [OF f] show ?thesis
    by (cases e1) (auto simp: bw_Flush_def intro!: exI [of _ "take n (bw_buf b)"])
qed

lemma bw_Write_wrote:
  "bw_Write fl p b w = (e, b', w') \<Longrightarrow> bw_ino b' = bw_ino b \<and> bw_err b' = e
    \<and> (\<exists>s. wrote (bw_ino b) w w' s \<and> (e = None \<longrightarrow> bw_buf b @ p = s @ bw_buf b') \<and> prefix s (bw_buf b @ p))"
proof (induction fl p b w rule: bw_Write.induct)
  case (1 fl p b w)
  note unf = bw_Write.simps [of fl p b w]
  consider "bw_err b \<noteq> None" | "bw_err b = None" "length p \<le> Available b"
    | "bw_err b = None" "\<not> length p \<le> Available b" "bw_buf b = []"
    | "bw_err b = None" "\<not> length p \<le> Available b" "bw_buf b \<noteq> []" by blast
  then show ?case
  proof cases
    case 3
    obtain n e1 w1 where f: "file_write fl (bw_ino b) p w = (n, e1, w1)" by (metis prod_cases3)
    with 3 "1.prems" file_write_wrote [OF f] show ?thesis
      by (cases e1) (auto simp: unf take_is_prefix)
  next
    case 4
    let ?n = "Available b" and ?b = "b\<lparr>bw_buf := bw_buf b @ take (Available b) p\<rparr>"
    obtain e1 b1 w1 where f: "bw_Flush fl ?b w = (e1, b1, w1)" by (metis prod_cases3)
    from bw_Flush_wrote [OF f] obtain s where s: "bw_ino b1 = bw_ino b" "bw_err b1 = e1" "wrote (bw_ino b) w w1 s"
      "bw_buf b @ take ?n p = s @ bw_buf b1" "e1 = None \<longrightarrow> bw_buf b1 = []" by auto
    show ?thesis
    proof (cases e1)
      case (Some x)
      have "(e, b', w') = (Some x, b1, w1)" using 4 f "1.prems" Some by (simp add: unf Let_def)
      moreover have "bw_buf b @ p = s @ bw_buf b1 @ drop ?n p" using s(4) by (metis append.assoc append_take_drop_id)
      ultimately show ?thesis using s(1,2,3) Some by (intro conjI exI [of _ s]) (auto simp: prefix_def)
    next
      case None
      with 4 f "1.prems" have r: "bw_Write fl (drop ?n p) b1 w1 = (e, b', w')" by (simp add: unf Let_def)
      have "\<not> bw_err b \<noteq> None" using 4 by simp
      from "1.IH" [OF this 4(2,3) refl f [symmetric] None refl r] s None obtain s2 where
        t: "bw_ino b' = bw_ino b" "bw_err b' = e" "wrote (bw_ino b) w1 w' s2"
        "e = None \<longrightarrow> drop ?n p = s2 @ bw_buf b'" "prefix s2 (drop ?n p)" by auto
      have j: "bw_buf b @ p = s @ drop ?n p" using s(4,5) None by (metis append.assoc append_Nil2 append_take_drop_id)
      have "e = None \<longrightarrow> bw_buf b @ p = (s @ s2) @ bw_buf b'" "prefix (s @ s2) (bw_buf b @ p)" using t(4,5) j by simp_all
      with t(1,2) wrote_trans [OF s(3) t(3)] show ?thesis by (intro conjI exI [of _ "s @ s2"]) simp_all
    qed
  qed (use "1.prems" in \<open>auto simp: unf intro: wrote_refl\<close>)
qed


text \<open>While the device has room, nothing fails and everything is accepted in order.\<close>

definition fits :: "world \<Rightarrow> bufwriter \<Rightarrow> nat \<Rightarrow> bool" where
  "fits w b n \<longleftrightarrow> (case room w of None \<Rightarrow> True | Some k \<Rightarrow> length (bw_buf b) + n \<le> k)"

lemma file_write_room:
  "(case room w of None \<Rightarrow> True | Some k \<Rightarrow> length p \<le> k) \<Longrightarrow> \<exists>w'. file_write fl ino p w = (length p, None, w')"
  by (auto simp: file_write_def Let_def split: option.splits)

lemma bw_Flush_none: "bw_err b = None \<Longrightarrow> fits w b 0 \<Longrightarrow> fst (bw_Flush fl b w) = None"
  using file_write_room [where w = w and p = "bw_buf b" and fl = fl and ino = "bw_ino b"]
  by (auto simp: bw_Flush_def fits_def split: option.splits prod.splits)

lemma wrote_fits:
  "wrote ino w w' s \<Longrightarrow> length (bw_buf b) + n = length s + length (bw_buf b') + n' \<Longrightarrow> fits w b n \<Longrightarrow> fits w' b' n'"
  by (auto simp: wrote_def fits_def split: option.splits)

lemma bw_Write_none: "bw_err b = None \<Longrightarrow> fits w b (length p) \<Longrightarrow> fst (bw_Write fl p b w) = None"
proof (induction fl p b w rule: bw_Write.induct)
  case (1 fl p b w)
  note unf = bw_Write.simps [of fl p b w]
  let ?n = "Available b" and ?b = "b\<lparr>bw_buf := bw_buf b @ take (Available b) p\<rparr>"
  consider "length p \<le> Available b" | "\<not> length p \<le> Available b" "bw_buf b = []"
    | "\<not> length p \<le> Available b" "bw_buf b \<noteq> []" by blast
  then show ?case
  proof cases
    case 2
    have "case room w of None \<Rightarrow> True | Some k \<Rightarrow> length p \<le> k" using "1.prems"(2) 2 by (auto simp: fits_def split: option.splits)
    from file_write_room [OF this, of fl "bw_ino b"] 2 "1.prems" show ?thesis by (auto simp: unf)
  next
    case 3
    have "fits w ?b 0" using "1.prems"(2) 3 by (auto simp: fits_def split: option.splits)
    with bw_Flush_none [of ?b w fl] "1.prems"(1) obtain b1 w1 where f: "bw_Flush fl ?b w = (None, b1, w1)"
      by (cases "bw_Flush fl ?b w") auto
    from bw_Flush_wrote [OF f] obtain s where s: "wrote (bw_ino b) w w1 s" "bw_buf b @ take ?n p = s @ bw_buf b1" "bw_buf b1 = []"
      "bw_err b1 = None" by auto
    have len: "length (bw_buf b) + length p = length s + length (bw_buf b1) + length (drop ?n p)"
      using arg_cong [OF s(2), of length] 3 by simp
    have "\<not> bw_err b \<noteq> None" using "1.prems"(1) by simp
    from "1.IH" [OF this 3 refl f [symmetric] refl refl s(4) wrote_fits [OF s(1) len "1.prems"(2)]] f 3 "1.prems"(1)
    show ?thesis by (simp add: unf Let_def)
  qed (use "1.prems" in \<open>simp add: unf\<close>)
qed

lemma bw_Write_ok:
  assumes "bw_err b = None" "fits w b (length p + n)"
  obtains b' w' s where "bw_Write fl p b w = (None, b', w')" "bw_ino b' = bw_ino b" "bw_err b' = None"
    "accepted w' b' = accepted w b @ p" "fits w' b' n" "wrote (bw_ino b) w w' s"
proof -
  have "fits w b (length p)" using assms(2) by (auto simp: fits_def split: option.splits)
  from bw_Write_none [OF assms(1) this, of fl] obtain b' w' where r: "bw_Write fl p b w = (None, b', w')"
    by (cases "bw_Write fl p b w") auto
  from bw_Write_wrote [OF r] obtain s where s: "bw_ino b' = bw_ino b" "bw_err b' = None" "wrote (bw_ino b) w w' s"
    "bw_buf b @ p = s @ bw_buf b'" by auto
  have "accepted w' b' = accepted w b @ p" using wrote_simps(5) [OF s(3)] s(1,4) by (simp add: accepted_def)
  moreover have "fits w' b' n"
    using wrote_fits [OF s(3) _ assms(2), of b' n] arg_cong [OF s(4), of length] by simp
  ultimately show ?thesis using that r s by blast
qed

lemma bw_Flush_ok:
  assumes "bw_err b = None" "fits w b n"
  obtains b' w' s where "bw_Flush fl b w = (None, b', w')" "bw_ino b' = bw_ino b" "bw_err b' = None" "bw_buf b' = []"
    "content w' (bw_ino b) = accepted w b" "fits w' b' n" "wrote (bw_ino b) w w' s"
proof -
  have "fits w b 0" using assms(2) by (auto simp: fits_def split: option.splits)
  from bw_Flush_none [OF assms(1) this, of fl] obtain b' w' where r: "bw_Flush fl b w = (None, b', w')"
    by (cases "bw_Flush fl b w") auto
  from bw_Flush_wrote [OF r] obtain s where s: "bw_ino b' = bw_ino b" "bw_err b' = None" "wrote (bw_ino b) w w' s"
    "bw_buf b = s" "bw_buf b' = []" by auto
  have "content w' (bw_ino b) = accepted w b" using wrote_simps(5) [OF s(3)] s(4) by (simp add: accepted_def)
  moreover have "fits w' b' n"
    using wrote_fits [OF s(3) _ assms(2), of b' n] s(4,5) by simp
  ultimately show ?thesis using that r s by blast
qed

end
