(* ===== verification/Writer.thy ===== *)
theory Writer
  imports GoFiles
begin

unbundle bit_operations_syntax

text \<open>
  The file writer (\<^verbatim>\<open>writer/writer.go\<close>, \<^verbatim>\<open>writer/txfix.go\<close>, \<^verbatim>\<open>writer/options.go\<close>): creation under a
  temporary name, the transaction accumulator, block framing, and the close protocol that publishes
  the file. Every operation returns its error, the writer and the world after it. The reusable
  encoding buffers have no effect and are left out.
\<close>

section \<open>Configuration\<close>

datatype SyncMode = SyncNone | SyncNormal | SyncDataSync

record writerCfg =
  compression :: Compression
  cfg_version :: string
  cfg_sync :: SyncMode

definition defaultCfg :: writerCfg where
  "defaultCfg = \<lparr>compression = \<lparr>Disabled = False, Level = 0, Threshold = 0\<rparr>, cfg_version = [], cfg_sync = SyncNormal\<rparr>"

type_synonym WriterOption = "writerCfg \<Rightarrow> writerCfg"

definition WithCompression :: "Compression \<Rightarrow> WriterOption" where "WithCompression policy c = c\<lparr>compression := policy\<rparr>"
definition NoCompression :: WriterOption where "NoCompression c = c\<lparr>compression := (compression c)\<lparr>Disabled := True\<rparr>\<rparr>"
definition VersionOpt :: "string \<Rightarrow> WriterOption" where "VersionOpt s c = c\<lparr>cfg_version := s\<rparr>"
definition SyncOpt :: "SyncMode \<Rightarrow> WriterOption" where "SyncOpt mode c = c\<lparr>cfg_sync := mode\<rparr>"

section \<open>State and construction\<close>

record Writer =
  wcfg :: writerCfg
  wpath :: string
  inprogressPath :: string
  wf :: "nat option"
  bw :: bufwriter
  txRows :: "XRow list"
  bufferedPayloadEstimate :: nat
  closed :: bool

text \<open>Options are applied in order; a missing version is filled into the header.\<close>

definition resolveCfg :: "Meta option \<Rightarrow> WriterOption list \<Rightarrow> error + (writerCfg \<times> Meta)" where
  "resolveCfg mo opts = (case mo of None \<Rightarrow> Inl [Wr ErrNilMeta]
     | Some m \<Rightarrow> (let c = foldl (\<lambda>c opt. opt c) defaultCfg opts
         in Inr (c, if Version m = [] then m\<lparr>Version := (if cfg_version c \<noteq> [] then cfg_version c else ''go-xlog/0.1'')\<rparr> else m)))"

text \<open>Encoding the header into a buffered writer: one write of the whole text.\<close>

definition encode_meta_to :: "uuidlib \<Rightarrow> faults \<Rightarrow> Meta \<Rightarrow> bufwriter \<Rightarrow> world \<Rightarrow> error option \<times> bufwriter \<times> world" where
  "encode_meta_to u fl m b w = (case EncodeMeta u None (Some m) of
     Inl e \<Rightarrow> (Some e, b, w)
   | Inr hdr \<Rightarrow> bw_Write fl (str_bytes hdr) b w)"

definition Create :: "uuidlib \<Rightarrow> faults \<Rightarrow> string \<Rightarrow> Meta option \<Rightarrow> WriterOption list \<Rightarrow> world \<Rightarrow> (error + Writer) \<times> world" where
  "Create u fl path mo opts w = (case resolveCfg mo opts of Inl e \<Rightarrow> (Inl e, w)
     | Inr (c, m) \<Rightarrow>
         (let inprogress = path @ ''.inprogress''
          in case OpenExcl fl inprogress w of
               (Inl e, w1) \<Rightarrow> (Inl e, w1)
             | (Inr f, w1) \<Rightarrow>
                 (case encode_meta_to u fl m (NewWriterSize f) w1 of
                    (Some e, b, w2) \<Rightarrow> (Inl e, snd (os_Remove fl inprogress w2))
                  | (None, b, w2) \<Rightarrow> (Inr \<lparr>wcfg = c, wpath = path, inprogressPath = inprogress, wf = Some f, bw = b,
                                         txRows = [], bufferedPayloadEstimate = 0, closed = False\<rparr>, w2))))"

text \<open>A destination of the caller's is the inode its writes append to; \<open>None\<close> is a nil one.\<close>

definition NewWriter :: "uuidlib \<Rightarrow> faults \<Rightarrow> nat option \<Rightarrow> Meta option \<Rightarrow> WriterOption list \<Rightarrow> world \<Rightarrow> (error + Writer) \<times> world" where
  "NewWriter u fl dst mo opts w = (case dst of None \<Rightarrow> (Inl [Wr ErrNilDst], w)
     | Some f \<Rightarrow> (case resolveCfg mo opts of Inl e \<Rightarrow> (Inl e, w)
         | Inr (c, m) \<Rightarrow>
             (case encode_meta_to u fl m (NewWriterSize f) w of
                (Some e, b, w2) \<Rightarrow> (Inl e, w2)
              | (None, b, w2) \<Rightarrow> (Inr \<lparr>wcfg = c, wpath = [], inprogressPath = [], wf = None, bw = b,
                                     txRows = [], bufferedPayloadEstimate = 0, closed = False\<rparr>, w2))))"

section \<open>Transaction identity\<close>

definition assignTxIDs :: "iproto \<Rightarrow> XRow list \<Rightarrow> XRow list" where
  "assignTxIDs ip rows = (if rows = [] then [] else
     (let tsn = LSN (rows ! 0); lst = length rows - 1
      in map (\<lambda>(i, r). let r = r\<lparr>TSN := tsn\<rparr>;
                           r = r\<lparr>Flags := Flags r AND NOT (ip IPROTO_FLAG_COMMIT)\<rparr>
                       in if i = lst then r\<lparr>Flags := Flags r OR ip IPROTO_FLAG_COMMIT\<rparr> else r)
           (enumerate 0 rows)))"

section \<open>Writing blocks\<close>

type_synonym writer_result = "error option \<times> Writer \<times> world"

definition writeFramed :: "zstd \<Rightarrow> faults \<Rightarrow> bytes \<Rightarrow> Writer \<Rightarrow> world \<Rightarrow> writer_result" where
  "writeFramed z fl plainb wr w =
     (let c = compression (wcfg wr) in
      case (if Compresses c (length plainb)
            then (case CompressTxInto z plainb (ResolvedLevel c) of
                    Inl e \<Rightarrow> Inl e | Inr compressed \<Rightarrow> Inr (compressed, ZRowMarker))
            else Inr (plainb, RowMarker)) of
        Inl e \<Rightarrow> (Some e, wr, w)
      | Inr (payload, magic) \<Rightarrow>
          (case EncodeFixheader (Some \<lparr>Magic = magic, Len = of_nat (length payload), FhCRC32P = 0,
                                       FhCRC32C = CRC32C payload\<rparr>) of
             Inl e \<Rightarrow> (Some e, wr, w)
           | Inr fhBuf \<Rightarrow>
               (case bw_Write fl fhBuf (bw wr) w of
                  (Some e, b1, w1) \<Rightarrow> (Some e, wr\<lparr>bw := b1\<rparr>, w1)
                | (None, b1, w1) \<Rightarrow>
                    (case bw_Write fl payload b1 w1 of (e, b2, w2) \<Rightarrow> (e, wr\<lparr>bw := b2\<rparr>, w2)))))"

definition encodeAndWriteTx :: "iproto \<Rightarrow> zstd \<Rightarrow> faults \<Rightarrow> XRow list \<Rightarrow> Writer \<Rightarrow> world \<Rightarrow> writer_result" where
  "encodeAndWriteTx ip z fl rows wr w = (case AppendTxBlockPayload ip [] rows of
     Inl e \<Rightarrow> (Some e, wr, w)
   | Inr encScratch \<Rightarrow> writeFramed z fl encScratch wr w)"

definition CommitTx :: "iproto \<Rightarrow> zstd \<Rightarrow> faults \<Rightarrow> Writer \<Rightarrow> world \<Rightarrow> writer_result" where
  "CommitTx ip z fl wr w =
     (if closed wr then (Some [Wr ErrClosed], wr, w)
      else if length (txRows wr) = 0 then (None, wr, w)
      else (let rows = assignTxIDs ip (txRows wr); wr = wr\<lparr>txRows := rows\<rparr>
            in case encodeAndWriteTx ip z fl rows wr w of
                 (Some e, wr', w') \<Rightarrow> (Some e, wr', w')
               | (None, wr', w') \<Rightarrow> (None, wr'\<lparr>txRows := [], bufferedPayloadEstimate := 0\<rparr>, w')))"

definition WriteRow :: "iproto \<Rightarrow> zstd \<Rightarrow> faults \<Rightarrow> XRow \<Rightarrow> Writer \<Rightarrow> world \<Rightarrow> writer_result" where
  "WriteRow ip z fl r wr w =
     (if closed wr then (Some [Wr ErrClosed], wr, w)
      else (let wr = wr\<lparr>txRows := txRows wr @ [r],
                        bufferedPayloadEstimate := bufferedPayloadEstimate wr + length (BodyRaw r)\<rparr>
            in if IsCommit ip r \<and> bufferedPayloadEstimate wr \<ge> AutocommitThreshold then CommitTx ip z fl wr w
               else (None, wr, w)))"

text \<open>The caller's rows are stamped in place: the rows after the call are returned as well.\<close>

definition WriteTx :: "iproto \<Rightarrow> zstd \<Rightarrow> faults \<Rightarrow> XRow list \<Rightarrow> Writer \<Rightarrow> world \<Rightarrow> XRow list \<times> writer_result" where
  "WriteTx ip z fl rows wr w =
     (if closed wr then (rows, Some [Wr ErrClosed], wr, w)
      else if length (txRows wr) \<noteq> 0 then (rows, Some [Wr ErrPendingWriteRow], wr, w)
      else if length rows = 0 then (rows, Some [Wr ErrEmptyRows], wr, w)
      else (let rows = assignTxIDs ip rows in (rows, encodeAndWriteTx ip z fl rows wr w)))"

definition WriteBlock :: "iproto \<Rightarrow> zstd \<Rightarrow> faults \<Rightarrow> XRow list \<Rightarrow> Writer \<Rightarrow> world \<Rightarrow> writer_result" where
  "WriteBlock ip z fl rows wr w =
     (if closed wr then (Some [Wr ErrClosed], wr, w)
      else if length (txRows wr) \<noteq> 0 then (Some [Wr ErrPendingWriteRow], wr, w)
      else if length rows = 0 then (Some [Wr ErrEmptyBlock], wr, w)
      else encodeAndWriteTx ip z fl rows wr w)"

definition WriteRawBlock :: "faults \<Rightarrow> bytes \<Rightarrow> Writer \<Rightarrow> world \<Rightarrow> writer_result" where
  "WriteRawBlock fl block wr w =
     (if closed wr then (Some [Wr ErrClosed], wr, w)
      else if length (txRows wr) \<noteq> 0 then (Some [Wr ErrPendingWriteRow], wr, w)
      else if length block < FixheaderSize then (Some [Wr ErrInvalidRawBlock], wr, w)
      else (let magic = take MarkerSize block
            in if magic \<noteq> RowMarker \<and> magic \<noteq> ZRowMarker then (Some [Wr ErrInvalidRawBlock], wr, w)
               else (case bw_Write fl block (bw wr) w of (e, b, w') \<Rightarrow> (e, wr\<lparr>bw := b\<rparr>, w'))))"

definition writeBlockPayload :: "zstd \<Rightarrow> faults \<Rightarrow> bytes \<Rightarrow> Writer \<Rightarrow> world \<Rightarrow> writer_result" where
  "writeBlockPayload z fl plainb wr w =
     (if closed wr then (Some [Wr ErrClosed], wr, w)
      else if length (txRows wr) \<noteq> 0 then (Some [Wr ErrPendingWriteRow], wr, w)
      else if length plainb = 0 then (Some [Wr ErrEmptyBlock], wr, w)
      else writeFramed z fl plainb wr w)"

section \<open>Sync, close and discard\<close>

text \<open>\<^verbatim>\<open>fdatasync\<close> and \<^verbatim>\<open>f.Sync\<close> make the same contents durable.\<close>

definition syncFile :: "faults \<Rightarrow> Writer \<Rightarrow> world \<Rightarrow> error option \<times> world" where
  "syncFile fl wr w = (case wf wr of None \<Rightarrow> (None, w)
     | Some f \<Rightarrow> (case cfg_sync (wcfg wr) of
         SyncNone \<Rightarrow> (None, w)
       | SyncDataSync \<Rightarrow> file_sync fl f w
       | SyncNormal \<Rightarrow> file_sync fl f w))"

definition Writer_Sync :: "faults \<Rightarrow> Writer \<Rightarrow> world \<Rightarrow> writer_result" where
  "Writer_Sync fl wr w =
     (if closed wr then (Some [Wr ErrClosed], wr, w)
      else (case bw_Flush fl (bw wr) w of
          (Some e, b, w1) \<Rightarrow> (Some e, wr\<lparr>bw := b\<rparr>, w1)
        | (None, b, w1) \<Rightarrow> (case syncFile fl wr w1 of (e, w2) \<Rightarrow> (e, wr\<lparr>bw := b\<rparr>, w2))))"

text \<open>The file is closed without looking at the result; the writer gives it up.\<close>

definition releaseFile :: "Writer \<Rightarrow> Writer" where
  "releaseFile wr = (if wf wr \<noteq> None then wr\<lparr>wf := None\<rparr> else wr)"

definition close_fail :: "error \<Rightarrow> Writer \<Rightarrow> world \<Rightarrow> writer_result" where
  "close_fail e wr w = (Some e, releaseFile (wr\<lparr>closed := True\<rparr>), w)"

text \<open>Steps 5 to 7 of \<^verbatim>\<open>Close\<close>: closing the descriptor, the rename, and the sync of the directory.\<close>

definition close_publish :: "faults \<Rightarrow> Writer \<Rightarrow> world \<Rightarrow> writer_result" where
  "close_publish fl wr w =
     (let wr = wr\<lparr>closed := True, wf := None\<rparr> in
      case closeErr fl of Some e \<Rightarrow> (Some e, wr, w)
      | None \<Rightarrow>
          (case Rename fl (inprogressPath wr) (wpath wr) w of
             (Some e, w1) \<Rightarrow> (Some e, wr, w1)
           | (None, w1) \<Rightarrow>
               if cfg_sync (wcfg wr) \<noteq> SyncNone then
                 (case SyncDir fl (filepath_Dir (wpath wr)) w1 of (e, w2) \<Rightarrow> (e, wr, w2))
               else (None, wr, w1)))"

definition Writer_Close :: "iproto \<Rightarrow> zstd \<Rightarrow> faults \<Rightarrow> Writer \<Rightarrow> world \<Rightarrow> writer_result" where
  "Writer_Close ip z fl wr w =
     (if closed wr then (Some [Wr ErrClosed], wr, w)
      else (case CommitTx ip z fl wr w of
          (Some e, wr1, w1) \<Rightarrow> close_fail e wr1 w1
        | (None, wr1, w1) \<Rightarrow>
            (case bw_Write fl EOFMarker (bw wr1) w1 of
               (Some e, b2, w2) \<Rightarrow> close_fail e (wr1\<lparr>bw := b2\<rparr>) w2
             | (None, b2, w2) \<Rightarrow>
                 (case bw_Flush fl b2 w2 of
                    (Some e, b3, w3) \<Rightarrow> close_fail e (wr1\<lparr>bw := b3\<rparr>) w3
                  | (None, b3, w3) \<Rightarrow>
                      (let wr3 = wr1\<lparr>bw := b3\<rparr> in
                       if wf wr3 = None then (None, wr3\<lparr>closed := True\<rparr>, w3)
                       else (case syncFile fl wr3 w3 of
                               (Some e, w4) \<Rightarrow> close_fail e wr3 w4
                             | (None, w4) \<Rightarrow> close_publish fl wr3 w4))))))"

definition Discard :: "faults \<Rightarrow> Writer \<Rightarrow> world \<Rightarrow> writer_result" where
  "Discard fl wr w =
     (if closed wr then (Some [Wr ErrClosed], wr, w)
      else (let wr = wr\<lparr>closed := True\<rparr> in
        if wf wr = None \<and> inprogressPath wr = [] then (None, wr, w)
        else (let firstErr = (if wf wr \<noteq> None then closeErr fl else None); wr = wr\<lparr>wf := None\<rparr>
              in case os_Remove fl (inprogressPath wr) w of
                   (Some e, w1) \<Rightarrow> ((if firstErr = None then Some e else firstErr), wr, w1)
                 | (None, w1) \<Rightarrow> (firstErr, wr, w1))))"

end
