(* ===== verification/WriterLog.thy ===== *)
theory WriterLog
  imports Writer
begin

unbundle bit_operations_syntax

text \<open>
  What a writer puts into its file. Each operation appends the blocks it reports as written, whatever
  fails around it; the file that \<^verbatim>\<open>Close\<close> publishes is complete. The sessions of a writer are an
  inductive relation that keeps the list of these blocks.
\<close>

section \<open>Framing\<close>

definition framed :: "zstd \<Rightarrow> Compression \<Rightarrow> bytes \<Rightarrow> bytes" where
  "framed z c p = (case AppendFramedBlock z [] p c of Inl e \<Rightarrow> [] | Inr b \<Rightarrow> b)"

lemma framed_frame: "EncodeFixheader (Some (frame_header z c p)) = Inr fh \<Longrightarrow> framed z c p = fh @ on_disk z c p"
  by (simp add: framed_def AppendFramedBlock_frame)

lemma writeFramed_frame:
  assumes "EncodeFixheader (Some (frame_header z (compression (wcfg wr)) p)) = Inr fh"
  shows "writeFramed z fl p wr w = (case bw_Write fl fh (bw wr) w of
       (Some e, b1, w1) \<Rightarrow> (Some e, wr\<lparr>bw := b1\<rparr>, w1)
     | (None, b1, w1) \<Rightarrow> (case bw_Write fl (on_disk z (compression (wcfg wr)) p) b1 w1 of (e, b2, w2) \<Rightarrow> (e, wr\<lparr>bw := b2\<rparr>, w2)))"
proof (cases "Compresses (compression (wcfg wr)) (length p)")
  case True
  then have d: "on_disk z (compression (wcfg wr)) p = EncodeAll z (ResolvedLevel (compression (wcfg wr))) p"
    by (simp add: on_disk_def)
  from assms True show ?thesis unfolding d by (simp add: writeFramed_def CompressTxInto_def frame_header_def d Let_def)
next
  case False
  then have d: "on_disk z (compression (wcfg wr)) p = p" by (simp add: on_disk_def)
  from assms False show ?thesis unfolding d by (simp add: writeFramed_def frame_header_def d Let_def)
qed

section \<open>Steps\<close>

text \<open>A step keeps the writer's file and configuration, touches no name and no other file, and only appends.\<close>

definition keeps :: "Writer \<Rightarrow> world \<Rightarrow> Writer \<Rightarrow> world \<Rightarrow> bool" where
  "keeps wr w wr' w' \<longleftrightarrow> wcfg wr' = wcfg wr \<and> wpath wr' = wpath wr \<and> inprogressPath wr' = inprogressPath wr
     \<and> wf wr' = wf wr \<and> closed wr' = closed wr \<and> bw_ino (bw wr') = bw_ino (bw wr)
     \<and> names w' = names w \<and> kept_names w' = kept_names w \<and> fresh w' = fresh w
     \<and> (\<forall>i. i \<noteq> bw_ino (bw wr) \<longrightarrow> content w' i = content w i)
     \<and> prefix (content w (bw_ino (bw wr))) (content w' (bw_ino (bw wr)))"

text \<open>While the buffered writer has no error, everything it was given so far is accepted.\<close>

definition logs :: "bytes \<Rightarrow> Writer \<Rightarrow> world \<Rightarrow> Writer \<Rightarrow> world \<Rightarrow> bool" where
  "logs p wr w wr' w' \<longleftrightarrow> keeps wr w wr' w' \<and>
     (bw_err (bw wr') = None \<longrightarrow> bw_err (bw wr) = None \<and> accepted w' (bw wr') = accepted w (bw wr) @ p)"

lemma logs_refl: "logs [] wr w wr w"
  by (simp add: logs_def keeps_def)

lemma logs_trans: "logs p wr w wr1 w1 \<Longrightarrow> logs q wr1 w1 wr2 w2 \<Longrightarrow> logs (p @ q) wr w wr2 w2"
  by (auto simp: logs_def keeps_def intro: prefix_order.trans)

lemma logs_rows:
  "logs p (wr\<lparr>txRows := x, bufferedPayloadEstimate := y\<rparr>) w (wr'\<lparr>txRows := x', bufferedPayloadEstimate := y'\<rparr>) w' \<longleftrightarrow> logs p wr w wr' w'"
  "logs p (wr\<lparr>txRows := x\<rparr>) w wr' w' \<longleftrightarrow> logs p wr w wr' w'"
  "logs p wr w (wr'\<lparr>txRows := x', bufferedPayloadEstimate := y'\<rparr>) w' \<longleftrightarrow> logs p wr w wr' w'"
  "logs p (wr\<lparr>txRows := x, bufferedPayloadEstimate := y\<rparr>) w wr' w' \<longleftrightarrow> logs p wr w wr' w'"
  by (simp_all add: logs_def keeps_def)

lemma bw_Write_logs:
  assumes "bw_Write fl p (bw wr) w = (e, b', w')"
  shows "logs p wr w (wr\<lparr>bw := b'\<rparr>) w'" "bw_err b' = e"
proof -
  from bw_Write_wrote [OF assms] obtain s where s: "bw_ino b' = bw_ino (bw wr)" "bw_err b' = e" "wrote (bw_ino (bw wr)) w w' s"
    "e = None \<longrightarrow> bw_buf (bw wr) @ p = s @ bw_buf b'" by auto
  have "bw_err (bw wr) = None" if "e = None"
    using assms that by (auto simp: bw_Write.simps [of fl p] split: if_splits)
  with s wrote_simps [OF s(3)] show "logs p wr w (wr\<lparr>bw := b'\<rparr>) w'" "bw_err b' = e"
    by (auto simp: logs_def keeps_def accepted_def)
qed

lemma writeFramed_logs:
  assumes "writeFramed z fl p wr w = (e, wr', w')"
  shows "logs (framed z (compression (wcfg wr)) p) wr w wr' w'" "bw_err (bw wr') = e" "wr' = wr\<lparr>bw := bw wr'\<rparr>"
proof -
  let ?c = "compression (wcfg wr)"
  obtain fh where fh: "EncodeFixheader (Some (frame_header z ?c p)) = Inr fh" by (rule frame_header_bytes)
  obtain e1 b1 w1 where r1: "bw_Write fl fh (bw wr) w = (e1, b1, w1)" by (metis prod_cases3)
  note l1 = bw_Write_logs [OF r1]
  obtain e2 b2 w2 where r2: "bw_Write fl (on_disk z ?c p) b1 w1 = (e2, b2, w2)" by (metis prod_cases3)
  then have "bw_Write fl (on_disk z ?c p) (bw (wr\<lparr>bw := b1\<rparr>)) w1 = (e2, b2, w2)" by simp
  note l2 = bw_Write_logs [OF this]
  have "logs (framed z ?c p) wr w wr' w' \<and> bw_err (bw wr') = e \<and> wr' = wr\<lparr>bw := bw wr'\<rparr>"
  proof (cases e1)
    case None
    then have "e = e2" "wr' = wr\<lparr>bw := b2\<rparr>" "w' = w2" using assms r1 r2 by (simp_all add: writeFramed_frame [OF fh])
    with logs_trans [OF l1(1) l2(1)] l2(2) framed_frame [OF fh] show ?thesis by simp
  next
    case (Some x)
    then have "e = e1" "wr' = wr\<lparr>bw := b1\<rparr>" "w' = w1" using assms r1 by (simp_all add: writeFramed_frame [OF fh])
    with l1 Some show ?thesis by (simp add: logs_def)
  qed
  then show "logs (framed z ?c p) wr w wr' w'" "bw_err (bw wr') = e" "wr' = wr\<lparr>bw := bw wr'\<rparr>" by blast+
qed

definition block_of :: "iproto \<Rightarrow> zstd \<Rightarrow> Writer \<Rightarrow> XRow list \<Rightarrow> bytes" where
  "block_of ip z wr rows = framed z (compression (wcfg wr)) (payload_bytes ip rows)"

lemma encodeAndWriteTx_logs:
  assumes "encodeAndWriteTx ip z fl rows wr w = (e, wr', w')"
  shows "logs (block_of ip z wr rows) wr w wr' w'" "bw_err (bw wr') = e" "wr' = wr\<lparr>bw := bw wr'\<rparr>"
  using assms writeFramed_logs [of z fl "payload_bytes ip rows" wr w e wr' w']
  by (simp_all add: encodeAndWriteTx_def AppendTxBlockPayload_bytes block_of_def)

section \<open>Sessions\<close>

datatype wop = OpTx "XRow list" | OpRow XRow | OpCommit | OpBlock "XRow list" | OpRaw bytes | OpSync

definition wstep :: "iproto \<Rightarrow> zstd \<Rightarrow> faults \<Rightarrow> wop \<Rightarrow> Writer \<Rightarrow> world \<Rightarrow> writer_result" where
  "wstep ip z fl op wr w = (case op of
     OpTx rows \<Rightarrow> snd (WriteTx ip z fl rows wr w)
   | OpRow r \<Rightarrow> WriteRow ip z fl r wr w
   | OpCommit \<Rightarrow> CommitTx ip z fl wr w
   | OpBlock rows \<Rightarrow> WriteBlock ip z fl rows wr w
   | OpRaw b \<Rightarrow> WriteRawBlock fl b wr w
   | OpSync \<Rightarrow> Writer_Sync fl wr w)"

text \<open>The block a successful operation writes; \<open>WriteRow\<close> writes one when the accumulator is empty after it.\<close>

definition pending_block :: "iproto \<Rightarrow> zstd \<Rightarrow> Writer \<Rightarrow> XRow list \<Rightarrow> bytes list" where
  "pending_block ip z wr rows = (if rows = [] then [] else [block_of ip z wr (assignTxIDs ip rows)])"

definition wrote_blocks :: "iproto \<Rightarrow> zstd \<Rightarrow> wop \<Rightarrow> Writer \<Rightarrow> error option \<Rightarrow> Writer \<Rightarrow> bytes list" where
  "wrote_blocks ip z op wr e wr' = (if e \<noteq> None then [] else (case op of
     OpTx rows \<Rightarrow> [block_of ip z wr (assignTxIDs ip rows)]
   | OpRow r \<Rightarrow> if txRows wr' = [] then [block_of ip z wr (assignTxIDs ip (txRows wr @ [r]))] else []
   | OpCommit \<Rightarrow> pending_block ip z wr (txRows wr)
   | OpBlock rows \<Rightarrow> [block_of ip z wr rows]
   | OpRaw b \<Rightarrow> [b]
   | OpSync \<Rightarrow> []))"

lemma failed_logs: "logs p wr w wr' w' \<Longrightarrow> bw_err (bw wr') = e \<Longrightarrow> e \<noteq> None \<Longrightarrow> logs q wr w wr' w'"
  by (auto simp: logs_def)

lemma CommitTx_logs:
  assumes "CommitTx ip z fl wr w = (e, wr', w')"
  shows "logs (if e = None then concat (pending_block ip z wr (txRows wr)) else []) wr w wr' w'"
    "e = None \<longrightarrow> txRows wr' = []" "e \<noteq> None \<longrightarrow> closed wr \<or> bw_err (bw wr') = e"
proof -
  let ?rows = "assignTxIDs ip (txRows wr)"
  consider "closed wr \<or> txRows wr = []" | "\<not> closed wr" "txRows wr \<noteq> []" by blast
  then have "logs (if e = None then concat (pending_block ip z wr (txRows wr)) else []) wr w wr' w'
      \<and> (e = None \<longrightarrow> txRows wr' = []) \<and> (e \<noteq> None \<longrightarrow> closed wr \<or> bw_err (bw wr') = e)"
  proof cases
    case 1
    with assms show ?thesis by (auto simp: CommitTx_def pending_block_def logs_refl split: if_splits)
  next
    case 2
    obtain e1 wr1 w1 where r: "encodeAndWriteTx ip z fl ?rows (wr\<lparr>txRows := ?rows\<rparr>) w = (e1, wr1, w1)" by (metis prod_cases3)
    note l = encodeAndWriteTx_logs [OF r]
    have b: "block_of ip z (wr\<lparr>txRows := ?rows\<rparr>) ?rows = block_of ip z wr ?rows" by (simp add: block_of_def)
    show ?thesis
    proof (cases e1)
      case None
      with 2 assms r have "e = None" "wr' = wr1\<lparr>txRows := [], bufferedPayloadEstimate := 0\<rparr>" "w' = w1"
        by (auto simp: CommitTx_def Let_def)
      with l(1) b 2 show ?thesis by (simp add: logs_rows pending_block_def)
    next
      case (Some x)
      with 2 assms r have "e = Some x" "wr' = wr1" "w' = w1" by (auto simp: CommitTx_def Let_def)
      with l Some failed_logs [OF l(1) l(2), of "[]"] show ?thesis by (simp add: logs_rows)
    qed
  qed
  then show "logs (if e = None then concat (pending_block ip z wr (txRows wr)) else []) wr w wr' w'"
    "e = None \<longrightarrow> txRows wr' = []" "e \<noteq> None \<longrightarrow> closed wr \<or> bw_err (bw wr') = e" by blast+
qed


lemma WriteTx_logs:
  assumes "snd (WriteTx ip z fl rows wr w) = (e, wr', w')"
  shows "logs (concat (wrote_blocks ip z (OpTx rows) wr e wr')) wr w wr' w'"
proof (cases "closed wr \<or> txRows wr \<noteq> [] \<or> rows = []")
  case True
  with assms show ?thesis by (auto simp: WriteTx_def wrote_blocks_def logs_refl split: if_splits)
next
  case False
  with assms have r: "encodeAndWriteTx ip z fl (assignTxIDs ip rows) wr w = (e, wr', w')" by (auto simp: WriteTx_def Let_def)
  from encodeAndWriteTx_logs [OF r] failed_logs show ?thesis by (cases e) (auto simp: wrote_blocks_def)
qed

lemma WriteBlock_logs:
  assumes "WriteBlock ip z fl rows wr w = (e, wr', w')"
  shows "logs (concat (wrote_blocks ip z (OpBlock rows) wr e wr')) wr w wr' w'"
proof (cases "closed wr \<or> txRows wr \<noteq> [] \<or> rows = []")
  case True
  with assms show ?thesis by (auto simp: WriteBlock_def wrote_blocks_def logs_refl split: if_splits)
next
  case False
  with assms have r: "encodeAndWriteTx ip z fl rows wr w = (e, wr', w')" by (auto simp: WriteBlock_def)
  from encodeAndWriteTx_logs [OF r] failed_logs show ?thesis by (cases e) (auto simp: wrote_blocks_def)
qed

lemma WriteRawBlock_logs:
  assumes "WriteRawBlock fl b wr w = (e, wr', w')"
  shows "logs (concat (wrote_blocks ip z (OpRaw b) wr e wr')) wr w wr' w'"
proof (cases "closed wr \<or> txRows wr \<noteq> [] \<or> length b < FixheaderSize \<or> take MarkerSize b \<noteq> RowMarker \<and> take MarkerSize b \<noteq> ZRowMarker")
  case True
  with assms show ?thesis
    by (auto simp: WriteRawBlock_def wrote_blocks_def logs_refl Let_def simp del: FixheaderSize_def MarkerSize_def RowMarker_def ZRowMarker_def split: if_splits)
next
  case False
  obtain e1 b1 w1 where r: "bw_Write fl b (bw wr) w = (e1, b1, w1)" by (metis prod_cases3)
  with False assms have "e = e1" "wr' = wr\<lparr>bw := b1\<rparr>" "w' = w1"
    by (auto simp: WriteRawBlock_def Let_def simp del: FixheaderSize_def MarkerSize_def RowMarker_def ZRowMarker_def)
  with bw_Write_logs [OF r] failed_logs show ?thesis by (cases e1) (auto simp: wrote_blocks_def)
qed

lemma WriteRow_logs:
  assumes "WriteRow ip z fl r wr w = (e, wr', w')"
  shows "logs (concat (wrote_blocks ip z (OpRow r) wr e wr')) wr w wr' w'"
proof (cases "closed wr")
  case True
  with assms show ?thesis by (auto simp: WriteRow_def wrote_blocks_def logs_refl)
next
  case False
  let ?wr = "wr\<lparr>txRows := txRows wr @ [r], bufferedPayloadEstimate := bufferedPayloadEstimate wr + length (BodyRaw r)\<rparr>"
  show ?thesis
  proof (cases "IsCommit ip r \<and> bufferedPayloadEstimate ?wr \<ge> AutocommitThreshold")
    case True
    with False assms have c: "CommitTx ip z fl ?wr w = (e, wr', w')" by (simp add: WriteRow_def Let_def)
    have "block_of ip z ?wr rows = block_of ip z wr rows" for rows by (simp add: block_of_def)
    with CommitTx_logs(1,2) [OF c] show ?thesis
      by (cases e) (auto simp: wrote_blocks_def pending_block_def logs_rows)
  next
    case no: False
    with False assms have "e = None" "wr' = ?wr" "w' = w" by (auto simp: WriteRow_def Let_def)
    then show ?thesis by (simp add: wrote_blocks_def logs_rows logs_refl)
  qed
qed

lemma Sync_logs:
  assumes "Writer_Sync fl wr w = (e, wr', w')"
  shows "logs [] wr w wr' w'"
proof (cases "closed wr")
  case True
  with assms show ?thesis by (auto simp: Writer_Sync_def logs_refl)
next
  case False
  obtain e1 b1 w1 where r: "bw_Flush fl (bw wr) w = (e1, b1, w1)" by (metis prod_cases3)
  from bw_Flush_wrote [OF r] obtain s where s: "bw_ino b1 = bw_ino (bw wr)" "bw_err b1 = e1" "wrote (bw_ino (bw wr)) w w1 s"
    "bw_buf (bw wr) = s @ bw_buf b1" by auto
  have n: "bw_err (bw wr) = None" if "e1 = None" using r that by (auto simp: bw_Flush_def split: option.splits)
  have l: "logs [] wr w (wr\<lparr>bw := b1\<rparr>) w1"
    using s n wrote_simps [OF s(3)] by (auto simp: logs_def keeps_def accepted_def)
  have y: "\<exists>k. w2 = w1\<lparr>kept_content := k\<rparr>" if "syncFile fl wr w1 = (e2, w2)" for e2 w2
    using that by (auto simp: syncFile_def file_sync_def split: option.splits SyncMode.splits intro: exI [of _ "kept_content w1"])
  have k: "logs [] wr w (wr\<lparr>bw := b1\<rparr>) (w1\<lparr>kept_content := k\<rparr>)" for k
    using l by (auto simp: logs_def keeps_def accepted_def)
  show ?thesis using False assms r l k y by (cases e1) (auto simp: Writer_Sync_def split: prod.splits)
qed

lemma wstep_logs:
  "wstep ip z fl op wr w = (e, wr', w') \<Longrightarrow> logs (concat (wrote_blocks ip z op wr e wr')) wr w wr' w'"
  using WriteTx_logs [of ip z fl _ wr w e wr' w'] WriteRow_logs [of ip z fl _ wr w e wr' w'] CommitTx_logs(1) [of ip z fl wr w e wr' w']
    WriteBlock_logs [of ip z fl _ wr w e wr' w'] WriteRawBlock_logs [of fl _ wr w e wr' w' ip z] Sync_logs [of fl wr w e wr' w']
  by (cases op) (auto simp: wstep_def wrote_blocks_def [of ip z OpCommit] wrote_blocks_def [of ip z OpSync] logs_refl split: if_splits)


section \<open>Closing\<close>

text \<open>
  \<^verbatim>\<open>Close\<close> either fails before it touches a name, or it reaches the publishing steps with the file
  complete and, unless syncing is off, durable.
\<close>

lemma Close_cases:
  assumes "Writer_Close ip z fl wr w = (e, wr', w')" "\<not> closed wr" "wf wr = Some ino" "bw_ino (bw wr) = ino"
  obtains (failed) "e \<noteq> None" "closed wr'" "names w' = names w" "kept_names w' = kept_names w"
      "\<forall>i. i \<noteq> ino \<longrightarrow> content w' i = content w i"
    | (published) wr3 w4 where "bw_err (bw wr) = None" "close_publish fl wr3 w4 = (e, wr', w')"
      "wcfg wr3 = wcfg wr" "wpath wr3 = wpath wr" "inprogressPath wr3 = inprogressPath wr"
      "names w4 = names w" "kept_names w4 = kept_names w" "\<forall>i. i \<noteq> ino \<longrightarrow> content w4 i = content w i"
      "content w4 ino = accepted w (bw wr) @ concat (pending_block ip z wr (txRows wr)) @ EOFMarker"
      "cfg_sync (wcfg wr) \<noteq> SyncNone \<longrightarrow> kept_content w4 ino = content w4 ino"
proof -
  obtain e1 wr1 w1 where r1: "CommitTx ip z fl wr w = (e1, wr1, w1)" by (metis prod_cases3)
  note l1 = CommitTx_logs [OF r1]
  obtain e2 b2 w2 where r2: "bw_Write fl EOFMarker (bw wr1) w1 = (e2, b2, w2)" by (metis prod_cases3)
  note l2 = bw_Write_logs [OF r2]
  obtain e3 b3 w3 where r3: "bw_Flush fl b2 w2 = (e3, b3, w3)" by (metis prod_cases3)
  from bw_Flush_wrote [OF r3] obtain s3 where s3: "bw_ino b3 = bw_ino b2" "wrote (bw_ino b2) w2 w3 s3" "bw_buf b2 = s3 @ bw_buf b3"
    "e3 = None \<longrightarrow> bw_buf b3 = []" by auto
  let ?wr3 = "wr1\<lparr>bw := b3\<rparr>"
  obtain e4 w4 where r4: "syncFile fl ?wr3 w3 = (e4, w4)" by fastforce
  have k1: "keeps wr w wr1 w1" using l1(1) by (simp add: logs_def)
  have k2: "keeps wr w (wr1\<lparr>bw := b2\<rparr>) w2" using l2(1) k1 by (auto simp: logs_def keeps_def intro: prefix_order.trans)
  have k3: "keeps wr w ?wr3 w3" using k2 s3(1) wrote_simps [OF s3(2)] by (auto simp: keeps_def)
  have f: "wf wr1 = Some ino" using k1 assms(3) by (simp add: keeps_def)
  have k4: "w4 = w3\<lparr>kept_content := kept_content w4\<rparr>" "e4 = None \<longrightarrow> cfg_sync (wcfg wr) \<noteq> SyncNone \<longrightarrow> kept_content w4 ino = content w4 ino"
    using r4 f k1 by (auto simp: syncFile_def file_sync_def keeps_def split: option.splits SyncMode.splits)
  have fl4: "names w4 = names w" "kept_names w4 = kept_names w" "\<forall>i. i \<noteq> ino \<longrightarrow> content w4 i = content w i"
    using k3 assms(4) by (subst k4(1), simp add: keeps_def)+
  show ?thesis
  proof (cases "e1 = None \<and> e2 = None \<and> e3 = None \<and> e4 = None")
    case True
    then have p: "close_publish fl ?wr3 w4 = (e, wr', w')"
      using assms(1,2) r1 r2 r3 r4 f by (simp add: Writer_Close_def Let_def)
    have a: "logs (concat (pending_block ip z wr (txRows wr)) @ EOFMarker) wr w (wr1\<lparr>bw := b2\<rparr>) w2" "bw_err b2 = None"
      using logs_trans [OF l1(1) l2(1)] l2(2) True by simp_all
    then have "accepted w2 b2 = accepted w (bw wr) @ concat (pending_block ip z wr (txRows wr)) @ EOFMarker" "bw_err (bw wr) = None"
      by (simp_all add: logs_def)
    moreover have "content w3 (bw_ino b2) = accepted w2 b2"
      using wrote_simps(5) [OF s3(2)] s3(3,4) True by (simp add: accepted_def)
    moreover have "bw_ino b2 = ino" using k2 assms(4) by (simp add: keeps_def)
    moreover have "content w4 = content w3" by (subst k4(1)) simp
    ultimately show ?thesis using published [OF _ p] k1 k4(2) fl4 True by (simp add: keeps_def)
  next
    case False
    then have "e \<noteq> None \<and> closed wr' \<and> w' \<in> {w1, w2, w3, w4}"
      using assms(1,2) r1 r2 r3 r4 f by (cases e1; cases e2; cases e3; cases e4) (auto simp: Writer_Close_def close_fail_def releaseFile_def Let_def)
    then show ?thesis using failed k1 k2 k3 fl4 assms(4) by (auto simp: keeps_def)
  qed
qed


section \<open>The sessions of a writer\<close>

text \<open>
  A file writer from its creation in the world \<open>w0\<close> through any operations, each with its own faults,
  and the list of the blocks they reported as written.
\<close>

inductive session ::
    "uuidlib \<Rightarrow> iproto \<Rightarrow> zstd \<Rightarrow> string \<Rightarrow> Meta \<Rightarrow> WriterOption list \<Rightarrow> world \<Rightarrow> bytes list \<Rightarrow> Writer \<Rightarrow> world \<Rightarrow> bool"
  for u ip z path m opts w0 where
  created: "Create u fl path (Some m) opts w0 = (Inr wr, w) \<Longrightarrow> session u ip z path m opts w0 [] wr w"
| operated: "session u ip z path m opts w0 blks wr w \<Longrightarrow> wstep ip z fl op wr w = (e, wr', w') \<Longrightarrow>
    session u ip z path m opts w0 (blks @ wrote_blocks ip z op wr e wr') wr' w'"

text \<open>Inodes in use are below the next one.\<close>

definition world_ok :: "world \<Rightarrow> bool" where
  "world_ok w \<longleftrightarrow> (\<forall>p i. names w p = Some i \<longrightarrow> i < fresh w)"

definition session_inv :: "uuidlib \<Rightarrow> string \<Rightarrow> Meta \<Rightarrow> WriterOption list \<Rightarrow> world \<Rightarrow> bytes list \<Rightarrow> Writer \<Rightarrow> world \<Rightarrow> bool" where
  "session_inv u path m opts w0 blks wr w \<longleftrightarrow> (\<exists>c m' hdr. resolveCfg (Some m) opts = Inr (c, m')
     \<and> EncodeMeta u None (Some m') = Inr hdr \<and> wcfg wr = c \<and> wpath wr = path \<and> inprogressPath wr = path @ ''.inprogress''
     \<and> \<not> closed wr \<and> wf wr = Some (fresh w0) \<and> bw_ino (bw wr) = fresh w0
     \<and> names w0 (path @ ''.inprogress'') = None
     \<and> names w = (names w0)(path @ ''.inprogress'' \<mapsto> fresh w0) \<and> kept_names w = kept_names w0
     \<and> (\<forall>i. i \<noteq> fresh w0 \<longrightarrow> content w i = content w0 i)
     \<and> (bw_err (bw wr) = None \<longrightarrow> accepted w (bw wr) = str_bytes hdr @ concat blks))"

lemma encode_meta_wrote:
  assumes "encode_meta_to u fl m (NewWriterSize f) w = (None, b, w')" "content w f = []"
  obtains hdr s where "EncodeMeta u None (Some m) = Inr hdr" "bw_ino b = f" "accepted w' b = str_bytes hdr" "wrote f w w' s"
proof -
  from assms(1) obtain hdr where h: "EncodeMeta u None (Some m) = Inr hdr" "bw_Write fl (str_bytes hdr) (NewWriterSize f) w = (None, b, w')"
    by (auto simp: encode_meta_to_def split: sum.splits)
  from bw_Write_wrote [OF h(2)] obtain s where s: "bw_ino b = f" "wrote f w w' s" "str_bytes hdr = s @ bw_buf b"
    by (auto simp: NewWriterSize_def)
  then have "accepted w' b = str_bytes hdr" using wrote_simps(5) [OF s(2)] assms(2) by (simp add: accepted_def)
  with that h(1) s show ?thesis by blast
qed

lemma Create_inv:
  assumes "Create u fl path (Some m) opts w0 = (Inr wr, w)"
  shows "session_inv u path m opts w0 [] wr w"
proof -
  let ?ip = "path @ ''.inprogress''" and ?f = "fresh w0"
  obtain c m' where c: "resolveCfg (Some m) opts = Inr (c, m')" by (simp add: resolveCfg_def Let_def)
  obtain x w1 where o1: "OpenExcl fl ?ip w0 = (x, w1)" by fastforce
  from assms c o1 obtain f b where f: "x = Inr f" "encode_meta_to u fl m' (NewWriterSize f) w1 = (None, b, w)"
    "wr = \<lparr>wcfg = c, wpath = path, inprogressPath = ?ip, wf = Some f, bw = b, txRows = [], bufferedPayloadEstimate = 0, closed = False\<rparr>"
    by (auto simp: Create_def Let_def split: sum.splits prod.splits option.splits)
  have w1: "f = ?f" "names w0 ?ip = None" "names w1 = (names w0)(?ip \<mapsto> ?f)" "kept_names w1 = kept_names w0"
    "content w1 = (content w0)(?f := [])"
    using o1 f(1) by (auto simp: OpenExcl_def split: option.splits if_splits)
  from encode_meta_wrote [OF f(2)] w1 obtain hdr s where h: "EncodeMeta u None (Some m') = Inr hdr" "bw_ino b = ?f"
    "accepted w b = str_bytes hdr" "wrote ?f w1 w s" by auto
  with c w1 f(3) wrote_simps [OF h(4)] show ?thesis by (simp add: session_inv_def)
qed

lemma session_inv_logs:
  "session_inv u path m opts w0 blks wr w \<Longrightarrow> logs (concat new) wr w wr' w' \<Longrightarrow> session_inv u path m opts w0 (blks @ new) wr' w'"
  by (auto simp: session_inv_def logs_def keeps_def)

lemma session_invariant: "session u ip z path m opts w0 blks wr w \<Longrightarrow> session_inv u path m opts w0 blks wr w"
proof (induction rule: session.induct)
  case (created fl wr w)
  then show ?case by (rule Create_inv)
next
  case (operated blks wr w fl op e wr' w')
  from session_inv_logs [OF operated.IH wstep_logs [OF operated.hyps(2)]] show ?case .
qed

lemma inprogress_differs: "path @ ''.inprogress'' \<noteq> path"
  by simp

lemma close_publish_result:
  assumes "close_publish fl wr3 w4 = (e, wr', w')" "inprogressPath wr3 = ip1" "wpath wr3 = path" "ip1 \<noteq> path" "names w4 ip1 = Some ino"
  shows "closed wr' \<and> content w' = content w4 \<and> kept_content w' = kept_content w4
    \<and> (names w' = names w4 \<and> e \<noteq> None \<or> names w' = (names w4)(ip1 := None, path \<mapsto> ino))
    \<and> (e = None \<and> cfg_sync (wcfg wr3) \<noteq> SyncNone \<longrightarrow> kept_names w' path = Some ino)"
  using assms by (auto simp: close_publish_def Rename_def SyncDir_def Let_def split: option.splits prod.splits if_splits)

text \<open>What becomes of the path when a session is closed.\<close>

lemma session_inv_close:
  assumes "session_inv u path m opts w0 blks wr w" and "world_ok w0"
    and "Writer_Close ip z fl wr w = (e, wr', w')"
  shows "\<exists>c m' hdr. resolveCfg (Some m) opts = Inr (c, m') \<and> EncodeMeta u None (Some m') = Inr hdr
    \<and> file_of w path = file_of w0 path \<and> closed wr'
    \<and> (let whole = str_bytes hdr @ concat (blks @ pending_block ip z wr (txRows wr)) @ EOFMarker
       in (file_of w' path = file_of w0 path \<or> file_of w' path = Some whole)
        \<and> (e = None \<longrightarrow> file_of w' path = Some whole \<and> file_of w' (path @ ''.inprogress'') = None
            \<and> (cfg_sync c \<noteq> SyncNone \<longrightarrow> kept_file w' path = Some whole)))"
proof -
  let ?ino = "fresh w0" and ?i = "path @ ''.inprogress''"
  from assms(1) obtain c m' hdr where i: "resolveCfg (Some m) opts = Inr (c, m')"
    "EncodeMeta u None (Some m') = Inr hdr" "wcfg wr = c" "wpath wr = path" "inprogressPath wr = ?i" "\<not> closed wr" "wf wr = Some ?ino"
    "bw_ino (bw wr) = ?ino" "names w = (names w0)(?i \<mapsto> ?ino)" "\<forall>i. i \<noteq> ?ino \<longrightarrow> content w i = content w0 i"
    "bw_err (bw wr) = None \<longrightarrow> accepted w (bw wr) = str_bytes hdr @ concat blks" by (auto simp: session_inv_def)
  have new: "names w0 p \<noteq> Some ?ino" for p using assms(2) by (auto simp: world_ok_def)
  have same: "file_of v path = file_of w0 path" if "names v path = names w0 path" "\<forall>i. i \<noteq> ?ino \<longrightarrow> content v i = content w0 i" for v
    using that new [of path] by (cases "names w0 path") (auto simp: file_of_def)
  from assms(3) i(6-8) show ?thesis
  proof (cases rule: Close_cases)
    case failed
    then show ?thesis using i same [of w] same [of w'] by auto
  next
    case (published wr3 w4)
    let ?whole = "str_bytes hdr @ concat (blks @ pending_block ip z wr (txRows wr)) @ EOFMarker"
    have c4: "content w4 ?ino = ?whole" using published(1,9) i(11) by simp
    from close_publish_result [OF published(2), of ?i path ?ino] published i
    have q: "closed wr'" "content w' = content w4" "kept_content w' = kept_content w4"
      "names w' = names w \<and> e \<noteq> None \<or> names w' = (names w)(?i := None, path \<mapsto> ?ino)"
      "e = None \<and> cfg_sync c \<noteq> SyncNone \<longrightarrow> kept_names w' path = Some ?ino" by auto
    have "file_of w' path = Some ?whole \<and> file_of w' ?i = None" if "names w' = (names w)(?i := None, path \<mapsto> ?ino)"
      using that c4 q(2) by (simp add: file_of_def)
    moreover have "names w' = names w \<Longrightarrow> file_of w' path = file_of w0 path" using same [of w'] q(2) published(8) i by simp
    moreover have "kept_file w' path = Some ?whole" if "e = None" "cfg_sync c \<noteq> SyncNone"
      using that q(3,5) published(10) c4 i(3) by (simp add: kept_file_def)
    ultimately show ?thesis using q(1,4) i same [of w] by (auto simp: Let_def)
  qed
qed


lemmas session_close = session_inv_close [OF session_invariant]

section \<open>Stamping transactions\<close>

lemma assignTxIDs_length [simp]: "length (assignTxIDs ip rows) = length rows"
  by (simp add: assignTxIDs_def Let_def)

lemma assignTxIDs_empty [simp]: "assignTxIDs ip rows = [] \<longleftrightarrow> rows = []"
  using assignTxIDs_length [of ip rows] by (metis length_0_conv)

lemma assignTxIDs_nth:
  "i < length rows \<Longrightarrow> assignTxIDs ip rows ! i = (rows ! i)\<lparr>TSN := LSN (rows ! 0),
     Flags := (if i = length rows - 1 then Flags (rows ! i) AND NOT (ip IPROTO_FLAG_COMMIT) OR ip IPROTO_FLAG_COMMIT
               else Flags (rows ! i) AND NOT (ip IPROTO_FLAG_COMMIT))\<rparr>"
  by (auto simp: assignTxIDs_def Let_def nth_enumerate_eq)

lemma flag_clear: "(f AND NOT c) AND c = (0 :: 64 word)"
  by (rule bit_word_eqI) (simp add: bit_simps)

lemma flag_set: "(f OR 1) AND 1 \<noteq> (0 :: 64 word)"
proof -
  have "bit ((f OR 1) AND 1) 0" by (simp add: bit_simps)
  then show ?thesis by fastforce
qed

lemma assignTxIDs_commit:
  assumes "iproto_ok ip" "i < length rows"
  shows "IsCommit ip (assignTxIDs ip rows ! i) \<longleftrightarrow> i = length rows - 1"
  using assms flag_clear [of _ 1] flag_set by (auto simp: assignTxIDs_nth iproto_ok_def IsCommit_def)

lemma IsCommit_canon: "TSN r \<noteq> 0 \<Longrightarrow> IsCommit ip (xrow_canon ip r) = IsCommit ip r"
  by (simp add: IsCommit_def xrow_canon_def)

text \<open>A stamped transaction whose first row has a sequence number is read back as one transaction.\<close>

lemma assignTxIDs_is_tx:
  assumes "iproto_ok ip" "rows \<noteq> []" "LSN (rows ! 0) \<noteq> 0"
  shows "is_tx ip (map (xrow_canon ip) (assignTxIDs ip rows))"
proof -
  let ?rows = "map (xrow_canon ip) (assignTxIDs ip rows)"
  have c: "IsCommit ip (?rows ! i) \<longleftrightarrow> i = length rows - 1" if "i < length rows" for i
    using that assms assignTxIDs_commit [OF assms(1) that] by (simp add: IsCommit_canon assignTxIDs_nth)
  have "\<forall>r\<in>set (butlast ?rows). \<not> IsCommit ip r"
  proof
    fix r assume "r \<in> set (butlast ?rows)"
    then obtain i where "i < length rows - 1" "r = butlast ?rows ! i" by (auto simp: in_set_conv_nth)
    then show "\<not> IsCommit ip r" using c [of i] by (simp add: nth_butlast)
  qed
  moreover have "IsCommit ip (last ?rows)" using c [of "length rows - 1"] assms(2) by (simp add: last_conv_nth)
  ultimately show ?thesis using assms(2) by (simp add: is_tx_def)
qed

lemma rows_ok_cong:
  "length rows' = length rows \<Longrightarrow> (\<And>i. i < length rows \<Longrightarrow> Type (rows' ! i) = Type (rows ! i) \<and> BodyRaw (rows' ! i) = BodyRaw (rows ! i)) \<Longrightarrow>
    rows_ok ip rows' = rows_ok ip rows"
proof (induction rows' rows rule: list_induct2)
  case (Cons x xs y ys)
  have "Type x = Type y" "BodyRaw x = BodyRaw y" using Cons.prems [of 0] by simp_all
  moreover have "rows_ok ip xs = rows_ok ip ys" using Cons.prems [of "Suc _"] by (intro Cons.IH) auto
  moreover have "xs = [] \<longleftrightarrow> ys = []" using Cons.hyps by auto
  ultimately show ?case by (simp add: body_ok_def)
qed simp

lemma rows_ok_assign [simp]: "rows_ok ip (assignTxIDs ip rows) = rows_ok ip rows"
  by (rule rows_ok_cong) (simp_all add: assignTxIDs_nth)

section \<open>Properties\<close>

text \<open>
  stamping a transaction. Every row keeps everything but its transaction number and its commit
  flag: the number becomes the sequence number of the first row, the commit flag is set on the last
  row and cleared on all others, and the other flag bits stay.
\<close>

theorem assignTxIDs_spec:
  assumes "iproto_ok ip" and "i < length rows"
  shows "length (assignTxIDs ip rows) = length rows
    \<and> (assignTxIDs ip rows ! i)\<lparr>TSN := TSN (rows ! i), Flags := Flags (rows ! i)\<rparr> = rows ! i
    \<and> TSN (assignTxIDs ip rows ! i) = LSN (rows ! 0)
    \<and> (IsCommit ip (assignTxIDs ip rows ! i) \<longleftrightarrow> i = length rows - 1)
    \<and> Flags (assignTxIDs ip rows ! i) AND NOT (ip IPROTO_FLAG_COMMIT) = Flags (rows ! i) AND NOT (ip IPROTO_FLAG_COMMIT)"
proof -
  have "(f AND NOT c OR c) AND NOT c = f AND NOT c" for f c :: "64 word" by (rule bit_word_eqI) (auto simp: bit_simps)
  then show ?thesis using assignTxIDs_commit [OF assms(1), of _ rows] assms(2) by (auto simp: assignTxIDs_nth)
qed

theorem assignTxIDs_spec_witness:
  "length (assignTxIDs iproto_numbers sample_tx) = length sample_tx
    \<and> (assignTxIDs iproto_numbers sample_tx ! 0)\<lparr>TSN := TSN (sample_tx ! 0), Flags := Flags (sample_tx ! 0)\<rparr> = sample_tx ! 0
    \<and> TSN (assignTxIDs iproto_numbers sample_tx ! 0) = LSN (sample_tx ! 0)
    \<and> (IsCommit iproto_numbers (assignTxIDs iproto_numbers sample_tx ! 0) \<longleftrightarrow> 0 = length sample_tx - 1)
    \<and> Flags (assignTxIDs iproto_numbers sample_tx ! 0) AND NOT (iproto_numbers IPROTO_FLAG_COMMIT)
      = Flags (sample_tx ! 0) AND NOT (iproto_numbers IPROTO_FLAG_COMMIT)"
proof -
  have "0 < length sample_tx" by (simp add: sample_tx_def)
  from assignTxIDs_spec [OF iproto_numbers_ok this] show ?thesis .
qed

end
