(* ===== verification/WriterFile.thy ===== *)
theory WriterFile
  imports WriterLog
begin

unbundle bit_operations_syntax

text \<open>
  Writing and reading: a file produced by the writer is read back by the reader. While the device
  has room and no call fails, every operation of the writer succeeds, so a session can be followed
  to its published file, which is then opened.
\<close>

section \<open>Operations that succeed\<close>

lemma wrote_room: "wrote ino w w' s \<Longrightarrow> room w = None \<Longrightarrow> room w' = None"
  by (auto simp: wrote_def)

lemma bw_Write_roomy:
  assumes "bw_err b = None" "room w = None"
  obtains b' w' where "bw_Write fl p b w = (None, b', w')" "bw_err b' = None" "room w' = None" "bw_ino b' = bw_ino b"
    "names w' = names w"
proof -
  have "fits w b (length p + 0)" using assms(2) by (simp add: fits_def)
  from bw_Write_ok [OF assms(1) this, of fl] obtain b' w' s where "bw_Write fl p b w = (None, b', w')" "bw_err b' = None"
    "bw_ino b' = bw_ino b" "wrote (bw_ino b) w w' s" by metis
  with that wrote_room [OF _ assms(2)] wrote_simps show ?thesis by metis
qed

definition healthy :: "Writer \<Rightarrow> world \<Rightarrow> bool" where
  "healthy wr w \<longleftrightarrow> \<not> closed wr \<and> bw_err (bw wr) = None \<and> room w = None"

lemma writeFramed_ok:
  assumes "healthy wr w"
  shows "\<exists>b' w'. writeFramed z fl p wr w = (None, wr\<lparr>bw := b'\<rparr>, w') \<and> healthy (wr\<lparr>bw := b'\<rparr>) w'"
proof -
  let ?c = "compression (wcfg wr)"
  obtain fh where fh: "EncodeFixheader (Some (frame_header z ?c p)) = Inr fh" by (rule frame_header_bytes)
  obtain b1 w1 where r1: "bw_Write fl fh (bw wr) w = (None, b1, w1)" "bw_err b1 = None" "room w1 = None"
    using assms by (auto simp: healthy_def intro: bw_Write_roomy [of "bw wr" w fl fh])
  obtain b2 w2 where "bw_Write fl (on_disk z ?c p) b1 w1 = (None, b2, w2)" "bw_err b2 = None" "room w2 = None"
    by (rule bw_Write_roomy [OF r1(2,3)])
  with r1 assms show ?thesis
    by (auto simp: writeFramed_frame [OF fh] healthy_def intro!: exI [of _ b2])
qed

lemma encodeAndWriteTx_ok:
  assumes "healthy wr w"
  shows "\<exists>b' w'. encodeAndWriteTx ip z fl rows wr w = (None, wr\<lparr>bw := b'\<rparr>, w') \<and> healthy (wr\<lparr>bw := b'\<rparr>) w'"
  using writeFramed_ok [OF assms] by (simp add: encodeAndWriteTx_def AppendTxBlockPayload_bytes)

lemma WriteTx_ok:
  assumes "healthy wr w" "txRows wr = []" "rows \<noteq> []"
  shows "\<exists>b' w'. WriteTx ip z fl rows wr w = (assignTxIDs ip rows, None, wr\<lparr>bw := b'\<rparr>, w') \<and> healthy (wr\<lparr>bw := b'\<rparr>) w'"
  using encodeAndWriteTx_ok [OF assms(1), of ip z fl "assignTxIDs ip rows"] assms by (auto simp: WriteTx_def healthy_def Let_def)

lemma resolveCfg_some: "\<exists>c m'. resolveCfg (Some m) opts = Inr (c, m')"
  by (simp add: resolveCfg_def Let_def)

lemma Create_ok:
  assumes "resolveCfg (Some m) opts = Inr (c, m')" "EncodeMeta u None (Some m') = Inr hdr"
    "room w0 = None" "names w0 (path @ ''.inprogress'') = None"
  shows "\<exists>wr w. Create u no_faults path (Some m) opts w0 = (Inr wr, w) \<and> healthy wr w \<and> txRows wr = [] \<and> wcfg wr = c"
proof -
  obtain f w1 where o1: "OpenExcl no_faults (path @ ''.inprogress'') w0 = (Inr f, w1)" "room w1 = None"
    using assms(3,4) by (simp add: OpenExcl_def no_faults_def)
  obtain b w where "bw_Write no_faults (str_bytes hdr) (NewWriterSize f) w1 = (None, b, w)" "bw_err b = None" "room w = None"
    by (rule bw_Write_roomy [of "NewWriterSize f" w1]) (use o1(2) in \<open>simp_all add: NewWriterSize_def\<close>)
  with o1 assms(1,2) show ?thesis by (simp add: Create_def encode_meta_to_def healthy_def Let_def)
qed

lemma Close_ok:
  assumes "healthy wr w" "wf wr = Some ino" "bw_ino (bw wr) = ino" "names w (inprogressPath wr) = Some ino"
  shows "\<exists>wr' w'. Writer_Close ip z no_faults wr w = (None, wr', w')"
proof -
  have "\<exists>wr1 w1. CommitTx ip z no_faults wr w = (None, wr1, w1) \<and> healthy wr1 w1"
  proof (cases "txRows wr = []")
    case True
    with assms(1) show ?thesis by (simp add: CommitTx_def healthy_def)
  next
    case False
    let ?rows = "assignTxIDs ip (txRows wr)"
    have "healthy (wr\<lparr>txRows := ?rows\<rparr>) w" using assms(1) by (simp add: healthy_def)
    from encodeAndWriteTx_ok [OF this, of ip z no_faults ?rows] False assms(1) show ?thesis
      by (auto simp: CommitTx_def healthy_def Let_def)
  qed
  then obtain wr1 w1 where r1: "CommitTx ip z no_faults wr w = (None, wr1, w1)" "healthy wr1 w1" by blast
  have k1: "keeps wr w wr1 w1" using CommitTx_logs(1) [OF r1(1)] by (simp add: logs_def)
  obtain b2 w2 where r2: "bw_Write no_faults EOFMarker (bw wr1) w1 = (None, b2, w2)" "bw_err b2 = None" "room w2 = None" "names w2 = names w1"
    using r1(2) by (auto simp: healthy_def intro: bw_Write_roomy [of "bw wr1" w1])
  have "fits w2 b2 0" using r2(3) by (simp add: fits_def)
  from bw_Flush_ok [OF r2(2) this, of no_faults] obtain b3 w3 s where r3: "bw_Flush no_faults b2 w2 = (None, b3, w3)" "wrote (bw_ino b2) w2 w3 s"
    by metis
  let ?wr3 = "wr1\<lparr>bw := b3\<rparr>"
  have "fst (syncFile no_faults ?wr3 w3) = None \<and> names (snd (syncFile no_faults ?wr3 w3)) = names w3"
    by (auto simp: syncFile_def file_sync_def no_faults_def split: option.splits SyncMode.splits)
  then obtain w4 where r4: "syncFile no_faults ?wr3 w3 = (None, w4)" "names w4 = names w3" by (metis prod.collapse)
  have "names w4 (inprogressPath ?wr3) = Some ino"
    using r4(2) wrote_simps(1) [OF r3(2)] r2(4) k1 assms(4) by (simp add: keeps_def)
  then have "\<exists>wr' w'. close_publish no_faults ?wr3 w4 = (None, wr', w')"
    by (auto simp: close_publish_def Rename_def SyncDir_def no_faults_def Let_def)
  then show ?thesis using r1 r2 r3 r4 assms(1) by (auto simp: Writer_Close_def healthy_def Let_def)
qed

section \<open>A file of transactions\<close>

text \<open>A client that writes transactions until one fails.\<close>

primrec write_txs :: "iproto \<Rightarrow> zstd \<Rightarrow> faults \<Rightarrow> XRow list list \<Rightarrow> Writer \<Rightarrow> world \<Rightarrow> writer_result" where
  "write_txs ip z fl [] wr w = (None, wr, w)"
| "write_txs ip z fl (rows # txs) wr w = (case snd (WriteTx ip z fl rows wr w) of
     (Some e, wr', w') \<Rightarrow> (Some e, wr', w') | (None, wr', w') \<Rightarrow> write_txs ip z fl txs wr' w')"

lemma write_txs_ok:
  assumes "session u ip z path m opts w0 blks wr w" "healthy wr w" "txRows wr = []" "\<forall>rows\<in>set txs. rows \<noteq> []"
  shows "\<exists>wr' w'. write_txs ip z fl txs wr w = (None, wr', w') \<and> healthy wr' w' \<and> txRows wr' = [] \<and> wcfg wr' = wcfg wr
    \<and> session u ip z path m opts w0 (blks @ map (\<lambda>rows. block_of ip z wr (assignTxIDs ip rows)) txs) wr' w'"
  using assms
proof (induction txs arbitrary: blks wr w)
  case Nil
  then show ?case by simp
next
  case (Cons rows txs)
  from WriteTx_ok [OF Cons.prems(2,3), of rows ip z fl] Cons.prems(4) obtain b1 w1 where
    r: "snd (WriteTx ip z fl rows wr w) = (None, wr\<lparr>bw := b1\<rparr>, w1)" "healthy (wr\<lparr>bw := b1\<rparr>) w1" by auto
  have "wstep ip z fl (OpTx rows) wr w = (None, wr\<lparr>bw := b1\<rparr>, w1)" using r(1) by (simp add: wstep_def)
  from session.operated [OF Cons.prems(1) this]
  have s: "session u ip z path m opts w0 (blks @ [block_of ip z wr (assignTxIDs ip rows)]) (wr\<lparr>bw := b1\<rparr>) w1"
    by (simp add: wrote_blocks_def)
  have "block_of ip z (wr\<lparr>bw := b1\<rparr>) = block_of ip z wr" by (simp add: block_of_def fun_eq_iff)
  with Cons.IH [OF s r(2)] Cons.prems(3,4) r(1) show ?case by simp
qed

text \<open>Transactions the format can carry: rows with delimitable bodies that fit a block, first row numbered.\<close>

definition tx_ok :: "iproto \<Rightarrow> zstd \<Rightarrow> Compression \<Rightarrow> XRow list \<Rightarrow> bool" where
  "tx_ok ip z c rows \<longleftrightarrow> rows \<noteq> [] \<and> rows_ok ip rows \<and> LSN (rows ! 0) \<noteq> 0
     \<and> frame_ok z c (payload_bytes ip (assignTxIDs ip rows))
     \<and> length (on_disk z c (payload_bytes ip (assignTxIDs ip rows))) \<le> MaxTxPayloadLen"

lemma block_of_good:
  assumes "tx_ok ip z (compression (wcfg wr)) rows"
  shows "good_block ip z (block_of ip z wr (assignTxIDs ip rows)) (assignTxIDs ip rows)"
proof -
  let ?c = "compression (wcfg wr)" and ?p = "payload_bytes ip (assignTxIDs ip rows)"
  obtain fh where fh: "EncodeFixheader (Some (frame_header z ?c ?p)) = Inr fh" by (rule frame_header_bytes)
  have "AppendFramedBlock z [] ?p ?c = Inr (block_of ip z wr (assignTxIDs ip rows))"
    using AppendFramedBlock_frame [OF fh, of "[]"] framed_frame [OF fh] by (simp add: block_of_def)
  then show ?thesis using assms unfolding good_block_def tx_ok_def by auto
qed

lemma ahead_owned [simp]: "ahead ip z c tail (r\<lparr>owned := b\<rparr>) rows = ahead ip z c tail r rows"
  by (simp add: ahead_def)

text \<open>Opening a complete file by its path returns its header and its transactions.\<close>

lemma Open_txs:
  assumes "iproto_ok ip" "uuid_ok u" "meta_ok m" "FormatVer m = LegacyFormatVersion \<longrightarrow> AcceptV012 (metaOpts (apply_options ropts))"
    "EncodeMeta u None (Some m) = Inr hdr" "list_all2 (good_block ip z) blks rowss"
    "fs path = Some (str_bytes hdr @ concat blks @ EOFMarker)"
    "concat txs = map (xrow_canon ip) (concat rowss)" "\<forall>tx\<in>set txs. is_tx ip tx"
  shows "\<exists>r r'. Open u fs None path ropts = Inr r \<and> rmeta r = meta_canon m
    \<and> Txs ip z collect [] r = (map (\<lambda>tx. Inr (tx_of tx)) txs, r') \<and> SawEOFMarker r'"
proof -
  let ?rc = "apply_options ropts"
  from newReader_ahead [OF assms(2-5) chunks_good [OF assms(6)], of EOFMarker] goods_not_damaged [OF assms(6)]
  obtain r where r: "newReader u \<lparr>br_rest = str_bytes hdr @ concat blks @ EOFMarker, br_err = [Go EOF]\<rparr> ropts = Inr r"
    "rmeta r = meta_canon m" "ahead ip z ?rc EOFMarker r (concat rowss)" by blast
  let ?r = "r\<lparr>owned := True\<rparr>"
  have "rows_rep ip z ?rc EOFMarker [Go EOF] at_end ?r (concat txs)"
    unfolding rows_rep_def using r(3) assms(1,8) tail_marker [of z ?rc "[]"] by auto
  with assms(9) have "txs_rep ip z ?rc EOFMarker [Go EOF] at_end ?r (map tx_of txs)" unfolding txs_rep_def by blast
  from Txs_collect [OF this] obtain r' where r': "Txs ip z collect [] ?r = (map Inr (map tx_of txs), r')" "at_end r'" by auto
  have "Open u fs None path ropts = Inr ?r" using assms(7) r(1) by (simp add: Open_def own_or_close_def)
  with r(2) r' show ?thesis by (auto simp: at_end_def comp_def)
qed

section \<open>A concrete session\<close>

definition empty_world :: world where
  "empty_world = \<lparr>names = (\<lambda>_. None), content = (\<lambda>_. []), kept_names = (\<lambda>_. None), kept_content = (\<lambda>_. []), fresh = 0, room = None\<rparr>"

lemma empty_world_ok: "world_ok empty_world" "room empty_world = None" "names empty_world p = None"
  by (simp_all add: world_ok_def empty_world_def)

lemma sample_cfg: "resolveCfg (Some sample_meta) [] = Inr (defaultCfg, sample_meta)"
  by (simp add: resolveCfg_def sample_meta_def)

lemma sample_tx_ok: "tx_ok iproto_numbers zstd_store c sample_tx"
proof -
  have len: "length (payload_bytes iproto_numbers (assignTxIDs iproto_numbers sample_tx)) \<le> 1000" by code_simp
  have "LSN (sample_tx ! 0) \<noteq> 0" by code_simp
  with len frame_ok_store [OF len] sample_rows_tx show ?thesis
    by (simp add: tx_ok_def on_disk_def zstd_store_def MaxTxPayloadLen_def sample_tx_def)
qed

lemma sample_legacy: "FormatVer sample_meta = LegacyFormatVersion \<longrightarrow> AcceptV012 o1"
  by (simp add: sample_meta_def LegacyFormatVersion_def)

lemma sample_session:
  "\<exists>wr w wr' w'. session uuid_hex iproto_numbers zstd_store ''a.xlog'' sample_meta [] empty_world [] wr w
    \<and> Writer_Close iproto_numbers zstd_store no_faults wr w = (None, wr', w')"
proof -
  obtain hdr where hdr: "EncodeMeta uuid_hex None (Some sample_meta) = Inr hdr" using sample_hdr by blast
  from Create_ok [OF sample_cfg hdr empty_world_ok(2,3)] obtain wr w
    where c: "Create uuid_hex no_faults ''a.xlog'' (Some sample_meta) [] empty_world = (Inr wr, w)" "healthy wr w" by blast
  have s: "session uuid_hex iproto_numbers zstd_store ''a.xlog'' sample_meta [] empty_world [] wr w"
    using c(1) by (intro session.created)
  from session_invariant [OF this] Close_ok [OF c(2), of "fresh empty_world" iproto_numbers zstd_store]
  have "\<exists>wr' w'. Writer_Close iproto_numbers zstd_store no_faults wr w = (None, wr', w')" by (auto simp: session_inv_def)
  with s show ?thesis by blast
qed

section \<open>Properties\<close>

text \<open>
  C2: a file is published complete or not at all. Take a writer created for a path and any
  sequence of operations, each of which may fail in any way. Until \<^verbatim>\<open>Close\<close> the path is untouched.
  Whatever \<^verbatim>\<open>Close\<close> returns, the path then holds what it held before, or the whole file: the header,
  every block an operation reported as written, the pending transaction, and the end marker. When
  \<^verbatim>\<open>Close\<close> succeeds it is the whole file, the temporary name is gone, and unless syncing is off the
  file survives a power loss. In every case the writer is closed.
\<close>

theorem published_file_complete:
  assumes "session u ip z path m opts w0 blks wr w" and "world_ok w0"
    and "Writer_Close ip z fl wr w = (e, wr', w')"
  shows "\<exists>c m' hdr. resolveCfg (Some m) opts = Inr (c, m') \<and> EncodeMeta u None (Some m') = Inr hdr
    \<and> file_of w path = file_of w0 path \<and> closed wr'
    \<and> (let whole = str_bytes hdr @ concat (blks @ pending_block ip z wr (txRows wr)) @ EOFMarker
       in (file_of w' path = file_of w0 path \<or> file_of w' path = Some whole)
        \<and> (e = None \<longrightarrow> file_of w' path = Some whole \<and> file_of w' (path @ ''.inprogress'') = None
            \<and> (cfg_sync c \<noteq> SyncNone \<longrightarrow> kept_file w' path = Some whole)))"
  by (rule session_close [OF assms])

theorem published_file_complete_witness:
  "\<exists>wr w wr' w'. Writer_Close iproto_numbers zstd_store no_faults wr w = (None, wr', w') \<and> (\<exists>c m' hdr.
      resolveCfg (Some sample_meta) [] = Inr (c, m') \<and> EncodeMeta uuid_hex None (Some m') = Inr hdr
    \<and> file_of w ''a.xlog'' = file_of empty_world ''a.xlog'' \<and> closed wr'
    \<and> (let whole = str_bytes hdr @ concat ([] @ pending_block iproto_numbers zstd_store wr (txRows wr)) @ EOFMarker
       in (file_of w' ''a.xlog'' = file_of empty_world ''a.xlog'' \<or> file_of w' ''a.xlog'' = Some whole)
        \<and> (None = (None :: error option) \<longrightarrow> file_of w' ''a.xlog'' = Some whole \<and> file_of w' (''a.xlog'' @ ''.inprogress'') = None
            \<and> (cfg_sync c \<noteq> SyncNone \<longrightarrow> kept_file w' ''a.xlog'' = Some whole))))"
proof -
  from sample_session obtain wr w wr' w' where s: "session uuid_hex iproto_numbers zstd_store ''a.xlog'' sample_meta [] empty_world [] wr w"
    "Writer_Close iproto_numbers zstd_store no_faults wr w = (None, wr', w')" by blast
  show ?thesis
    by (rule exI [of _ wr], rule exI [of _ w], rule exI [of _ wr'], rule exI [of _ w'],
        rule conjI [OF s(2) published_file_complete [OF s(1) empty_world_ok(1) s(2)]])
qed

text \<open>
  C1: what is written is read. On a device with room and with no failing call, creating a file,
  writing any list of transactions the format can carry and closing it succeeds; the file is then
  under its final name, and opening it returns the header and exactly the transactions written, in
  order, each stamped and in canonical form, under any compression policy and any reader options.
\<close>

theorem written_file_read_back:
  assumes "iproto_ok ip" "uuid_ok u" "resolveCfg (Some m) opts = Inr (c, m')" "meta_ok m'"
    and "FormatVer m' = LegacyFormatVersion \<longrightarrow> AcceptV012 (metaOpts (apply_options ropts))"
    and "world_ok w0" "room w0 = None" "names w0 (path @ ''.inprogress'') = None"
    and "\<forall>rows\<in>set txs. tx_ok ip z (compression c) rows"
  shows "\<exists>wr1 w1 wr2 w2 wr3 w3 r r'. Create u no_faults path (Some m) opts w0 = (Inr wr1, w1)
    \<and> write_txs ip z no_faults txs wr1 w1 = (None, wr2, w2)
    \<and> Writer_Close ip z no_faults wr2 w2 = (None, wr3, w3)
    \<and> Open u (file_of w3) None path ropts = Inr r \<and> rmeta r = meta_canon m'
    \<and> Txs ip z collect [] r = (map (\<lambda>rows. Inr (tx_of (map (xrow_canon ip) (assignTxIDs ip rows)))) txs, r')
    \<and> SawEOFMarker r'"
proof -
  let ?rc = "apply_options ropts"
  obtain hdr where hdr: "EncodeMeta u None (Some m') = Inr hdr"
    by (rule DecodeMeta_EncodeMeta [OF assms(2,4), of "\<lparr>AcceptV012 = True\<rparr>"]) simp_all
  from Create_ok [OF assms(3) hdr assms(7,8)] obtain wr1 w1 where
    r1: "Create u no_faults path (Some m) opts w0 = (Inr wr1, w1)" "healthy wr1 w1" "txRows wr1 = []" "wcfg wr1 = c" by blast
  let ?blks = "map (\<lambda>rows. block_of ip z wr1 (assignTxIDs ip rows)) txs"
  have "session u ip z path m opts w0 [] wr1 w1" using r1(1) by (rule session.created)
  moreover have "\<forall>rows\<in>set txs. rows \<noteq> []" using assms(9) by (simp add: tx_ok_def)
  ultimately obtain wr2 w2 where r2: "write_txs ip z no_faults txs wr1 w1 = (None, wr2, w2)" "healthy wr2 w2" "txRows wr2 = []"
    "session u ip z path m opts w0 ?blks wr2 w2"
    using write_txs_ok [of u ip z path m opts w0 "[]" wr1 w1 txs no_faults] r1(2,3) by auto
  have "wf wr2 = Some (fresh w0) \<and> bw_ino (bw wr2) = fresh w0 \<and> names w2 (inprogressPath wr2) = Some (fresh w0)"
    using session_invariant [OF r2(4)] by (auto simp: session_inv_def)
  with Close_ok [OF r2(2)] obtain wr3 w3 where r3: "Writer_Close ip z no_faults wr2 w2 = (None, wr3, w3)" by blast
  have final: "file_of w3 path = Some (str_bytes hdr @ concat ?blks @ EOFMarker)"
    using session_close [OF r2(4) assms(6) r3] assms(3) hdr r2(3) by (auto simp: pending_block_def Let_def)
  have good: "list_all2 (good_block ip z) ?blks (map (assignTxIDs ip) txs)"
    using assms(9) r1(4) by (auto simp: list_all2_conv_all_nth intro!: block_of_good)
  let ?txs = "map (\<lambda>rows. map (xrow_canon ip) (assignTxIDs ip rows)) txs"
  have "concat ?txs = map (xrow_canon ip) (concat (map (assignTxIDs ip) txs))" by (simp add: map_concat comp_def)
  moreover have "\<forall>tx\<in>set ?txs. is_tx ip tx" using assms(1,9) by (auto simp: tx_ok_def intro!: assignTxIDs_is_tx)
  ultimately obtain r r' where "Open u (file_of w3) None path ropts = Inr r" "rmeta r = meta_canon m'"
    "Txs ip z collect [] r = (map (\<lambda>tx. Inr (tx_of tx)) ?txs, r')" "SawEOFMarker r'"
    using Open_txs [OF assms(1,2,4,5) hdr good, of "file_of w3" path] final by blast
  with r1(1) r2(1) r3 show ?thesis by (auto simp: comp_def)
qed

theorem written_file_read_back_witness:
  "\<exists>wr1 w1 wr2 w2 wr3 w3 r r'. Create uuid_hex no_faults ''a.xlog'' (Some sample_meta) [] empty_world = (Inr wr1, w1)
    \<and> write_txs iproto_numbers zstd_store no_faults [sample_tx, sample_tx] wr1 w1 = (None, wr2, w2)
    \<and> Writer_Close iproto_numbers zstd_store no_faults wr2 w2 = (None, wr3, w3)
    \<and> Open uuid_hex (file_of w3) None ''a.xlog'' [] = Inr r \<and> rmeta r = meta_canon sample_meta
    \<and> Txs iproto_numbers zstd_store collect [] r
      = (map (\<lambda>rows. Inr (tx_of (map (xrow_canon iproto_numbers) (assignTxIDs iproto_numbers rows)))) [sample_tx, sample_tx], r')
    \<and> SawEOFMarker r'"
  by (rule written_file_read_back [OF iproto_numbers_ok uuid_hex_ok sample_cfg sample_meta_ok sample_legacy empty_world_ok])
    (simp add: sample_tx_ok)

end
