(* ===== verification/Batch.thy ===== *)
theory Batch
  imports WriterFile
begin

text \<open>
  The batching writer (\<^verbatim>\<open>writer/batch.go\<close>): transactions are stamped and encoded into a pending payload,
  which becomes one block when a threshold is reached. However the thresholds cut the stream into
  blocks, the transactions read back are the ones written.
\<close>

section \<open>State and operations\<close>

record BatchOptions =
  MaxTxs :: int
  MaxBytes :: int

record BatchWriter =
  bt_w :: Writer
  bt_opt :: BatchOptions
  pending :: bytes
  txCount :: int

type_synonym batch_result = "error option \<times> BatchWriter \<times> world"

definition NewBatchWriter :: "Writer \<Rightarrow> BatchOptions \<Rightarrow> BatchWriter" where
  "NewBatchWriter wr opt = \<lparr>bt_w = wr, bt_opt = opt, pending = [], txCount = 0\<rparr>"

definition shouldFlush :: "BatchWriter \<Rightarrow> bool" where
  "shouldFlush b \<longleftrightarrow> (MaxTxs (bt_opt b) > 0 \<and> txCount b \<ge> MaxTxs (bt_opt b))
     \<or> (MaxBytes (bt_opt b) > 0 \<and> int (length (pending b)) \<ge> MaxBytes (bt_opt b))"

definition Flush :: "zstd \<Rightarrow> faults \<Rightarrow> BatchWriter \<Rightarrow> world \<Rightarrow> batch_result" where
  "Flush z fl b w =
     (if length (pending b) = 0 then (None, b, w)
      else (case writeBlockPayload z fl (pending b) (bt_w b) w of
          (Some e, wr, w') \<Rightarrow> (Some e, b\<lparr>bt_w := wr\<rparr>, w')
        | (None, wr, w') \<Rightarrow> (None, b\<lparr>bt_w := wr, pending := [], txCount := 0\<rparr>, w')))"

definition Batch_WriteTx :: "iproto \<Rightarrow> zstd \<Rightarrow> faults \<Rightarrow> XRow list \<Rightarrow> BatchWriter \<Rightarrow> world \<Rightarrow> XRow list \<times> batch_result" where
  "Batch_WriteTx ip z fl rows b w =
     (if length rows = 0 then (rows, Some [Wr ErrEmptyRows], b, w)
      else (let rows = assignTxIDs ip rows
            in (rows, case AppendTxBlockPayload ip (pending b) rows of
                  Inl e \<Rightarrow> (Some e, b\<lparr>pending := []\<rparr>, w)
                | Inr p \<Rightarrow>
                    (let b = b\<lparr>pending := p, txCount := txCount b + 1\<rparr>
                     in if shouldFlush b then Flush z fl b w else (None, b, w)))))"

definition Batch_Close :: "iproto \<Rightarrow> zstd \<Rightarrow> faults \<Rightarrow> BatchWriter \<Rightarrow> world \<Rightarrow> batch_result" where
  "Batch_Close ip z fl b w = (case Flush z fl b w of
     (Some e, b', w') \<Rightarrow> (Some e, b', w')
   | (None, b', w') \<Rightarrow> (case Writer_Close ip z fl (bt_w b') w' of (e, wr, w2) \<Rightarrow> (e, b'\<lparr>bt_w := wr\<rparr>, w2)))"

section \<open>Blocks of several transactions\<close>

text \<open>Rows that may be followed by others in a block: every row has a body unless it is a NOP.\<close>

definition rows_full :: "iproto \<Rightarrow> XRow list \<Rightarrow> bool" where
  "rows_full ip rows \<longleftrightarrow> (\<forall>r\<in>set rows. body_ok ip False r)"

lemma rows_full_ok: "rows_full ip rows \<Longrightarrow> rows_ok ip rows"
proof (induction rows)
  case (Cons r rows)
  then have "body_ok ip False r" by (simp add: rows_full_def)
  then have "body_ok ip (rows = []) r" by (cases "rows = []") (auto dest: body_ok_final)
  with Cons show ?case by (simp add: rows_full_def)
qed simp

lemma body_ok_assign: "i < length rows \<Longrightarrow> body_ok ip b (assignTxIDs ip rows ! i) = body_ok ip b (rows ! i)"
  by (simp add: assignTxIDs_nth body_ok_def)

lemma rows_full_assign: "rows_full ip rows \<Longrightarrow> rows_full ip (assignTxIDs ip rows)"
  by (auto simp: rows_full_def all_set_conv_all_nth body_ok_assign)

lemma payload_bytes_empty' [simp]: "[] = payload_bytes ip rows \<longleftrightarrow> rows = []"
  by (metis payload_bytes_empty)

lemma payload_bytes_append: "payload_bytes ip (a @ b) = payload_bytes ip a @ payload_bytes ip b"
  by (simp add: payload_bytes_def)

text \<open>Every payload up to \<open>n\<close> bytes fits a block under the policy \<open>c\<close>.\<close>

definition payloads_fit :: "zstd \<Rightarrow> Compression \<Rightarrow> nat \<Rightarrow> bool" where
  "payloads_fit z c n \<longleftrightarrow> (\<forall>p. length p \<le> n \<longrightarrow> frame_ok z c p \<and> length (on_disk z c p) \<le> MaxTxPayloadLen)"

lemma framed_good:
  assumes "rows \<noteq> []" "rows_full ip rows" "payloads_fit z c n" "length (payload_bytes ip rows) \<le> n"
  shows "good_block ip z (framed z c (payload_bytes ip rows)) rows"
proof -
  let ?p = "payload_bytes ip rows"
  obtain fh where fh: "EncodeFixheader (Some (frame_header z c ?p)) = Inr fh" by (rule frame_header_bytes)
  have "AppendFramedBlock z [] ?p c = Inr (framed z c ?p)"
    using AppendFramedBlock_frame [OF fh, of "[]"] framed_frame [OF fh] by simp
  then show ?thesis using assms rows_full_ok unfolding good_block_def payloads_fit_def by blast
qed

section \<open>The batch as a stream of rows\<close>

text \<open>
  The state after some transactions: the rows written so far are those of the blocks in the file
  followed by those of the pending payload.
\<close>

definition batched :: "uuidlib \<Rightarrow> iproto \<Rightarrow> zstd \<Rightarrow> string \<Rightarrow> Meta \<Rightarrow> WriterOption list \<Rightarrow> world \<Rightarrow> nat
    \<Rightarrow> XRow list \<Rightarrow> BatchWriter \<Rightarrow> world \<Rightarrow> bool" where
  "batched u ip z path m opts w0 n rows b w \<longleftrightarrow> (\<exists>blks rowss pend. session_inv u path m opts w0 blks (bt_w b) w
     \<and> healthy (bt_w b) w \<and> txRows (bt_w b) = [] \<and> list_all2 (good_block ip z) blks rowss
     \<and> pending b = payload_bytes ip pend \<and> rows_full ip pend \<and> rows = concat rowss @ pend
     \<and> payloads_fit z (compression (wcfg (bt_w b))) n)"

lemma writeBlockPayload_ok:
  assumes "healthy wr w" "txRows wr = []" "p \<noteq> []"
  shows "\<exists>b' w'. writeBlockPayload z fl p wr w = (None, wr\<lparr>bw := b'\<rparr>, w') \<and> healthy (wr\<lparr>bw := b'\<rparr>) w'
    \<and> logs (framed z (compression (wcfg wr)) p) wr w (wr\<lparr>bw := b'\<rparr>) w'"
proof -
  from writeFramed_ok [OF assms(1), of z fl p] obtain b' w' where
    "writeFramed z fl p wr w = (None, wr\<lparr>bw := b'\<rparr>, w')" "healthy (wr\<lparr>bw := b'\<rparr>) w'" by blast
  with writeFramed_logs(1) [OF this(1)] assms show ?thesis by (auto simp: writeBlockPayload_def healthy_def)
qed

lemma Flush_batched:
  assumes "batched u ip z path m opts w0 n rows b w" "length (payload_bytes ip rows) \<le> n"
  shows "\<exists>b' w'. Flush z fl b w = (None, b', w') \<and> batched u ip z path m opts w0 n rows b' w' \<and> pending b' = []
    \<and> wcfg (bt_w b') = wcfg (bt_w b) \<and> bt_opt b' = bt_opt b"
proof -
  from assms(1) obtain blks rowss pend where s: "session_inv u path m opts w0 blks (bt_w b) w" "healthy (bt_w b) w"
    "txRows (bt_w b) = []" "list_all2 (good_block ip z) blks rowss" "pending b = payload_bytes ip pend" "rows_full ip pend"
    "rows = concat rowss @ pend" "payloads_fit z (compression (wcfg (bt_w b))) n" unfolding batched_def by blast
  show ?thesis
  proof (cases "pend = []")
    case True
    with assms(1) s(5) show ?thesis by (simp add: Flush_def)
  next
    case False
    let ?c = "compression (wcfg (bt_w b))"
    have good: "good_block ip z (framed z ?c (pending b)) pend"
      unfolding s(5) using assms(2) s(7) by (intro framed_good [OF False s(6,8)]) (simp add: payload_bytes_append)
    have ne: "pending b \<noteq> []" using False s(5) by simp
    from writeBlockPayload_ok [OF s(2,3) ne, of z fl] obtain b1 w1 where
      r: "writeBlockPayload z fl (pending b) (bt_w b) w = (None, (bt_w b)\<lparr>bw := b1\<rparr>, w1)" "healthy ((bt_w b)\<lparr>bw := b1\<rparr>) w1"
      "logs (concat [framed z ?c (pending b)]) (bt_w b) w ((bt_w b)\<lparr>bw := b1\<rparr>) w1" by auto
    let ?b = "b\<lparr>bt_w := (bt_w b)\<lparr>bw := b1\<rparr>, pending := [], txCount := 0\<rparr>"
    have "batched u ip z path m opts w0 n rows ?b w1"
      unfolding batched_def using session_inv_logs [OF s(1) r(3)] r(2) s good
      by (intro exI [of _ "blks @ [framed z ?c (pending b)]"] exI [of _ "rowss @ [pend]"] exI [of _ "[]"])
        (simp add: list_all2_appendI rows_full_def payload_bytes_def)
    with r(1) ne show ?thesis by (simp add: Flush_def)
  qed
qed


lemma Batch_WriteTx_batched:
  assumes "batched u ip z path m opts w0 n rows b w" "tx \<noteq> []" "rows_full ip tx" "length (payload_bytes ip (rows @ assignTxIDs ip tx)) \<le> n"
  shows "\<exists>b' w'. snd (Batch_WriteTx ip z fl tx b w) = (None, b', w') \<and> batched u ip z path m opts w0 n (rows @ assignTxIDs ip tx) b' w'
    \<and> wcfg (bt_w b') = wcfg (bt_w b)"
proof -
  let ?rows = "assignTxIDs ip tx"
  let ?b = "b\<lparr>pending := pending b @ payload_bytes ip ?rows, txCount := txCount b + 1\<rparr>"
  from assms(1) obtain blks rowss pend where s: "session_inv u path m opts w0 blks (bt_w b) w" "healthy (bt_w b) w"
    "txRows (bt_w b) = []" "list_all2 (good_block ip z) blks rowss" "pending b = payload_bytes ip pend" "rows_full ip pend"
    "rows = concat rowss @ pend" "payloads_fit z (compression (wcfg (bt_w b))) n" unfolding batched_def by blast
  have "rows_full ip (pend @ ?rows)" using s(6) rows_full_assign [OF assms(3)] by (auto simp: rows_full_def)
  then have add: "batched u ip z path m opts w0 n (rows @ ?rows) ?b w"
    unfolding batched_def using s
    by (intro exI [of _ blks] exI [of _ rowss] exI [of _ "pend @ ?rows"]) (simp add: payload_bytes_append)
  have step: "snd (Batch_WriteTx ip z fl tx b w) = (if shouldFlush ?b then Flush z fl ?b w else (None, ?b, w))"
    using assms(2) by (simp add: Batch_WriteTx_def AppendTxBlockPayload_bytes Let_def)
  show ?thesis
  proof (cases "shouldFlush ?b")
    case True
    with Flush_batched [OF add assms(4), of fl] step show ?thesis by auto
  next
    case False
    with add step show ?thesis by simp
  qed
qed

primrec batch_txs :: "iproto \<Rightarrow> zstd \<Rightarrow> faults \<Rightarrow> XRow list list \<Rightarrow> BatchWriter \<Rightarrow> world \<Rightarrow> batch_result" where
  "batch_txs ip z fl [] b w = (None, b, w)"
| "batch_txs ip z fl (rows # txs) b w = (case snd (Batch_WriteTx ip z fl rows b w) of
     (Some e, b', w') \<Rightarrow> (Some e, b', w') | (None, b', w') \<Rightarrow> batch_txs ip z fl txs b' w')"

lemma batch_txs_batched:
  assumes "batched u ip z path m opts w0 n rows b w" "\<forall>tx\<in>set txs. tx \<noteq> [] \<and> rows_full ip tx"
    "length (payload_bytes ip (rows @ concat (map (assignTxIDs ip) txs))) \<le> n"
  shows "\<exists>b' w'. batch_txs ip z fl txs b w = (None, b', w')
    \<and> batched u ip z path m opts w0 n (rows @ concat (map (assignTxIDs ip) txs)) b' w'"
  using assms
proof (induction txs arbitrary: rows b w)
  case (Cons tx txs)
  have "length (payload_bytes ip (rows @ assignTxIDs ip tx)) \<le> n" using Cons.prems(3) by (simp add: payload_bytes_append)
  with Batch_WriteTx_batched [OF Cons.prems(1), of tx fl] Cons.prems(2) obtain b1 w1 where
    r: "snd (Batch_WriteTx ip z fl tx b w) = (None, b1, w1)" "batched u ip z path m opts w0 n (rows @ assignTxIDs ip tx) b1 w1" by auto
  from Cons.IH [OF r(2)] Cons.prems(2,3) r(1) show ?case by simp
qed simp

lemma payloads_fit_store: "n \<le> 1000 \<Longrightarrow> payloads_fit zstd_store c n"
  by (auto simp: payloads_fit_def MaxTxPayloadLen_def on_disk_def zstd_store_def intro!: frame_ok_store [unfolded zstd_store_def])

lemma sample_tx_full: "sample_tx \<noteq> [] \<and> rows_full iproto_numbers sample_tx \<and> LSN (sample_tx ! 0) \<noteq> 0"
  using sample_body by (auto simp: sample_tx_def rows_full_def body_ok_def sample_row_def sample_nop_def XRow0_def iproto_numbers_def)

lemma sample_batch_small:
  "length (payload_bytes iproto_numbers (concat (map (assignTxIDs iproto_numbers) [sample_tx, sample_tx, sample_tx]))) \<le> 1000"
  by code_simp

section \<open>Properties\<close>

text \<open>
  C12: batching changes the blocks and not the transactions. Whatever the flush thresholds, writing
  transactions through a batch writer and closing it publishes a file from which the reader returns
  exactly these transactions, stamped and in canonical form, in order. Every row has a body unless it
  is a NOP, and the whole payload fits a block.
\<close>

theorem batched_file_read_back:
  assumes "iproto_ok ip" "uuid_ok u" "resolveCfg (Some m) opts = Inr (c, m')" "meta_ok m'"
    and "FormatVer m' = LegacyFormatVersion \<longrightarrow> AcceptV012 (metaOpts (apply_options ropts))"
    and "world_ok w0" "room w0 = None" "names w0 (path @ ''.inprogress'') = None"
    and "\<forall>tx\<in>set txs. tx \<noteq> [] \<and> rows_full ip tx \<and> LSN (tx ! 0) \<noteq> 0"
    and "payloads_fit z (compression c) (length (payload_bytes ip (concat (map (assignTxIDs ip) txs))))"
  shows "\<exists>wr1 w1 b2 w2 b3 w3 r r'. Create u no_faults path (Some m) opts w0 = (Inr wr1, w1)
    \<and> batch_txs ip z no_faults txs (NewBatchWriter wr1 bopts) w1 = (None, b2, w2)
    \<and> Batch_Close ip z no_faults b2 w2 = (None, b3, w3)
    \<and> Open u (file_of w3) None path ropts = Inr r \<and> rmeta r = meta_canon m'
    \<and> Txs ip z collect [] r = (map (\<lambda>rows. Inr (tx_of (map (xrow_canon ip) (assignTxIDs ip rows)))) txs, r')
    \<and> SawEOFMarker r'"
proof -
  let ?rows = "concat (map (assignTxIDs ip) txs)" and ?n = "length (payload_bytes ip (concat (map (assignTxIDs ip) txs)))"
  obtain hdr where hdr: "EncodeMeta u None (Some m') = Inr hdr"
    by (rule DecodeMeta_EncodeMeta [OF assms(2,4), of "\<lparr>AcceptV012 = True\<rparr>"]) simp_all
  from Create_ok [OF assms(3) hdr assms(7,8)] obtain wr1 w1 where
    r1: "Create u no_faults path (Some m) opts w0 = (Inr wr1, w1)" "healthy wr1 w1" "txRows wr1 = []" "wcfg wr1 = c" by blast
  have "batched u ip z path m opts w0 ?n [] (NewBatchWriter wr1 bopts) w1"
    unfolding batched_def using Create_inv [OF r1(1)] r1 assms(10)
    by (intro exI [of _ "[]"]) (simp add: NewBatchWriter_def payload_bytes_def rows_full_def)
  from batch_txs_batched [OF this, of txs no_faults] assms(9) obtain b2 w2 where
    r2: "batch_txs ip z no_faults txs (NewBatchWriter wr1 bopts) w1 = (None, b2, w2)" "batched u ip z path m opts w0 ?n ?rows b2 w2" by auto
  from Flush_batched [OF r2(2), of no_faults] obtain b w where
    fl: "Flush z no_faults b2 w2 = (None, b, w)" "batched u ip z path m opts w0 ?n ?rows b w" "pending b = []" by auto
  from fl(2,3) obtain blks rowss where s: "session_inv u path m opts w0 blks (bt_w b) w" "healthy (bt_w b) w" "txRows (bt_w b) = []"
    "list_all2 (good_block ip z) blks rowss" "?rows = concat rowss" by (auto simp: batched_def)
  have "wf (bt_w b) = Some (fresh w0) \<and> bw_ino (bw (bt_w b)) = fresh w0 \<and> names w (inprogressPath (bt_w b)) = Some (fresh w0)"
    using s(1) by (auto simp: session_inv_def)
  with Close_ok [OF s(2)] obtain wr3 w3 where r3: "Writer_Close ip z no_faults (bt_w b) w = (None, wr3, w3)" by blast
  have final: "file_of w3 path = Some (str_bytes hdr @ concat blks @ EOFMarker)"
    using session_inv_close [OF s(1) assms(6) r3] assms(3) hdr s(3) by (auto simp: pending_block_def Let_def)
  let ?txs = "map (\<lambda>rows. map (xrow_canon ip) (assignTxIDs ip rows)) txs"
  have "concat ?txs = map (xrow_canon ip) (concat rowss)" using s(5) by (simp add: map_concat comp_def flip: s(5))
  moreover have "\<forall>tx\<in>set ?txs. is_tx ip tx" using assms(1,9) by (auto intro!: assignTxIDs_is_tx)
  ultimately obtain r r' where "Open u (file_of w3) None path ropts = Inr r" "rmeta r = meta_canon m'"
    "Txs ip z collect [] r = (map (\<lambda>tx. Inr (tx_of tx)) ?txs, r')" "SawEOFMarker r'"
    using Open_txs [OF assms(1,2,4,5) hdr s(4), of "file_of w3" path] final by blast
  with r1(1) r2(1) fl(1) r3 show ?thesis by (auto simp: Batch_Close_def comp_def)
qed

theorem batched_file_read_back_witness:
  "\<exists>wr1 w1 b2 w2 b3 w3 r r'. Create uuid_hex no_faults ''a.xlog'' (Some sample_meta) [] empty_world = (Inr wr1, w1)
    \<and> batch_txs iproto_numbers zstd_store no_faults [sample_tx, sample_tx, sample_tx]
        (NewBatchWriter wr1 \<lparr>MaxTxs = 2, MaxBytes = 0\<rparr>) w1 = (None, b2, w2)
    \<and> Batch_Close iproto_numbers zstd_store no_faults b2 w2 = (None, b3, w3)
    \<and> Open uuid_hex (file_of w3) None ''a.xlog'' [] = Inr r \<and> rmeta r = meta_canon sample_meta
    \<and> Txs iproto_numbers zstd_store collect [] r
      = (map (\<lambda>rows. Inr (tx_of (map (xrow_canon iproto_numbers) (assignTxIDs iproto_numbers rows)))) [sample_tx, sample_tx, sample_tx], r')
    \<and> SawEOFMarker r'"
  by (rule batched_file_read_back [OF iproto_numbers_ok uuid_hex_ok sample_cfg sample_meta_ok sample_legacy empty_world_ok
        _ payloads_fit_store [OF sample_batch_small]])
    (simp add: sample_tx_full)

end
