(* ===== verification/Pipe.thy ===== *)
theory Pipe
  imports Batch
begin

unbundle bit_operations_syntax

text \<open>
  Row filters (\<^verbatim>\<open>filter/filter.go\<close>) and the copy loops between a reader and a writer
  (\<^verbatim>\<open>pipe/copy.go\<close>). Sequence numbers are compared as signed 64-bit integers, as Go does.
\<close>

section \<open>Filters\<close>

type_synonym Filter = "XRow \<Rightarrow> bool"

definition FromVClock :: "VClock \<Rightarrow> Filter" where
  "FromVClock v r \<longleftrightarrow> sint (LSN r) > sint (vget v (ReplicaID r))"

definition UntilVClock :: "VClock \<Rightarrow> Filter" where
  "UntilVClock v r \<longleftrightarrow> sint (LSN r) \<le> sint (vget v (ReplicaID r))"

definition ReplicaIDs :: "uint32 list \<Rightarrow> Filter" where
  "ReplicaIDs rids r \<longleftrightarrow> ReplicaID r \<in> set rids"

definition Types :: "64 word list \<Rightarrow> Filter" where
  "Types types r \<longleftrightarrow> Type r \<in> set types"

definition LSNRange :: "uint32 \<Rightarrow> int64 \<Rightarrow> int64 \<Rightarrow> Filter" where
  "LSNRange rep lo hi r \<longleftrightarrow> ReplicaID r = rep \<and> sint (LSN r) \<ge> sint lo \<and> sint (LSN r) \<le> sint hi"

fun filter_And :: "Filter list \<Rightarrow> Filter" where
  "filter_And [] r = True"
| "filter_And (f # fs) r = (if \<not> f r then False else filter_And fs r)"

fun filter_Or :: "Filter list \<Rightarrow> Filter" where
  "filter_Or [] r = False"
| "filter_Or (f # fs) r = (if f r then True else filter_Or fs r)"

definition filter_Not :: "Filter \<Rightarrow> Filter" where
  "filter_Not f r \<longleftrightarrow> \<not> f r"

lemma filter_And_all: "filter_And fs r \<longleftrightarrow> (\<forall>f\<in>set fs. f r)"
  by (induction fs) auto

lemma filter_Or_any: "filter_Or fs r \<longleftrightarrow> (\<exists>f\<in>set fs. f r)"
  by (induction fs) auto

section \<open>Copying transactions\<close>

type_synonym copy_result = "nat \<times> error option \<times> Reader \<times> Writer \<times> world"

function copy_loop :: "iproto \<Rightarrow> zstd \<Rightarrow> faults \<Rightarrow> bool \<Rightarrow> Filter \<Rightarrow> nat \<Rightarrow> Reader \<Rightarrow> Writer \<Rightarrow> world \<Rightarrow> copy_result" where
  "copy_loop ip z fl keepAll p n src dst w = (case NextTx ip z src of
     (Inl e, src') \<Rightarrow> if errors_Is e (Go EOF) then (n, None, src', dst, w) else (n, Some e, src', dst, w)
   | (Inr tx, src') \<Rightarrow>
       if \<not> (keepAll \<or> list_ex p (TxRows tx)) then copy_loop ip z fl keepAll p n src' dst w
       else (case snd (WriteTx ip z fl (TxRows tx) dst w) of
           (Some e, dst', w') \<Rightarrow> (n, Some e, src', dst', w')
         | (None, dst', w') \<Rightarrow> copy_loop ip z fl keepAll p (n + length (TxRows tx)) src' dst' w'))"
  by pat_completeness auto
termination
  by (relation "inv_image (less_than <*lex*> less_than) (\<lambda>(ip, z, fl, keepAll, p, n, src, dst, w). cursor_measure src)")
    (auto intro: wf_inv_image dest: NextTx_progress [OF sym])

declare copy_loop.simps [simp del]

text \<open>A nil reader or writer is \<open>None\<close>; the result then has no reader, writer and world of its own.\<close>

definition Copy :: "iproto \<Rightarrow> zstd \<Rightarrow> faults \<Rightarrow> Reader option \<Rightarrow> Writer option \<Rightarrow> Filter list \<Rightarrow> world
    \<Rightarrow> error + copy_result" where
  "Copy ip z fl src dst fs w = (case src of None \<Rightarrow> Inl [Ch ErrNilSrcReader]
     | Some src \<Rightarrow> (case dst of None \<Rightarrow> Inl [Ch ErrNilDstWriter]
         | Some dst \<Rightarrow> Inr (copy_loop ip z fl (length fs = 0) (filter_Or fs) 0 src dst w)))"

section \<open>Copying blocks\<close>

text \<open>A raw block that is returned has been taken off the input.\<close>

lemma raw_round_done:
  assumes "raw_round r b = (Done (Inr blk), r')"
  shows "\<exists>b'. br r' = Some b' \<and> length (br_rest b') < length (br_rest b)"
proof (cases "peekMagic b")
  case (Inl e)
  with assms show ?thesis
    by (auto simp: raw_round_def handleMissingEOF_def split: if_splits prod.splits option.splits)
next
  case (Inr m)
  then have "br_rest b \<noteq> []" using peekMagic_Inr by fastforce
  with assms Inr readBlockRaw_left [of r b] show ?thesis
    by (auto simp: raw_round_def split: if_splits prod.splits option.splits sum.splits)
qed

lemma raw_loop_left:
  "raw_loop r b = (Inr blk, r') \<Longrightarrow> \<exists>b'. br r' = Some b' \<and> length (br_rest b') < length (br_rest b)"
proof (induction r b rule: raw_loop.induct)
  case (1 r b)
  obtain o1 r1 where r1: "raw_round r b = (o1, r1)" by (cases "raw_round r b")
  show ?case
  proof (cases o1)
    case (Done res)
    with "1.prems" r1 have "raw_round r b = (Done (Inr blk), r')" by (simp add: raw_loop.simps [of r b])
    then show ?thesis by (rule raw_round_done)
  next
    case Again
    with r1 raw_round_left obtain b1 where b1: "br r1 = Some b1" "length (br_rest b1) < length (br_rest b)" by blast
    with "1.prems" r1 Again have "raw_loop r1 b1 = (Inr blk, r')" by (simp add: raw_loop.simps [of r b])
    from "1.IH" [OF r1 [symmetric, unfolded Again] _ b1(1) this] Again r1 b1(2) show ?thesis by fastforce
  qed
qed

lemma readBlockRawBytes_done:
  "readBlockRawBytes r = (Inr blk, r') \<Longrightarrow> br r' = br r \<and> buf r' = buf r \<and> pos r < pos r' \<and> pos r' \<le> length (buf r)"
  by (auto simp: readBlockRawBytes_def resync_def Let_def split: if_splits sum.splits prod.splits option.splits)

lemma nextBlockRawBytes_left:
  "nextBlockRawBytes r = (Inr blk, r') \<Longrightarrow> br r' = br r \<and> length (buf r') - pos r' < length (buf r) - pos r"
proof (induction r rule: nextBlockRawBytes.induct)
  case (1 r)
  obtain o1 r1 where r1: "raw_round_bytes r = (o1, r1)" by (cases "raw_round_bytes r")
  show ?case
  proof (cases o1)
    case (Done res)
    with "1.prems" r1 have "raw_round_bytes r = (Done (Inr blk), r')" by (simp add: nextBlockRawBytes.simps [of r])
    then show ?thesis using readBlockRawBytes_done [of r blk r']
      by (auto simp: raw_round_bytes_def handleMissingEOF_def Let_def split: if_splits prod.splits option.splits sum.splits)
  next
    case Again
    with "1.prems" r1 have "nextBlockRawBytes r1 = (Inr blk, r')" by (simp add: nextBlockRawBytes.simps [of r])
    with "1.IH" [OF r1 [symmetric, unfolded Again]] raw_round_bytes_left [of r r1] Again r1 show ?thesis by auto
  qed
qed

lemma NextBlockRaw_left:
  assumes "NextBlockRaw r = (Inr blk, r')"
  shows "input_left r' < input_left r"
proof (cases "br r")
  case None
  with assms have "nextBlockRawBytes r = (Inr blk, r')" by (simp add: NextBlockRaw_def split: if_splits)
  from nextBlockRawBytes_left [OF this] None show ?thesis by (simp add: input_left_def)
next
  case (Some b)
  with assms have "raw_loop r b = (Inr blk, r')" by (simp add: NextBlockRaw_def split: if_splits)
  from raw_loop_left [OF this] Some show ?thesis by (auto simp: input_left_def)
qed

function copy_raw_loop :: "faults \<Rightarrow> nat \<Rightarrow> Reader \<Rightarrow> Writer \<Rightarrow> world \<Rightarrow> copy_result" where
  "copy_raw_loop fl n src dst w = (case NextBlockRaw src of
     (Inl e, src') \<Rightarrow> if errors_Is e (Go EOF) then (n, None, src', dst, w) else (n, Some e, src', dst, w)
   | (Inr block, src') \<Rightarrow>
       (case WriteRawBlock fl block dst w of
          (Some e, dst', w') \<Rightarrow> (n, Some e, src', dst', w')
        | (None, dst', w') \<Rightarrow> copy_raw_loop fl (n + 1) src' dst' w'))"
  by pat_completeness auto
termination
  by (relation "measure (\<lambda>(fl, n, src, dst, w). input_left src)") (auto dest: NextBlockRaw_left [OF sym])

declare copy_raw_loop.simps [simp del]

definition CopyRaw :: "faults \<Rightarrow> Reader option \<Rightarrow> Writer option \<Rightarrow> world \<Rightarrow> error + copy_result" where
  "CopyRaw fl src dst w = (case src of None \<Rightarrow> Inl [Ch ErrNilSrcReader]
     | Some src \<Rightarrow> (case dst of None \<Rightarrow> Inl [Ch ErrNilDstWriter]
         | Some dst \<Rightarrow> Inr (copy_raw_loop fl 0 src dst w)))"


section \<open>What is copied\<close>

lemma copy_loop_rep:
  assumes "txs_rep ip z rc tail [Go EOF] P src txs" "\<forall>tx\<in>set txs. TxRows tx \<noteq> []"
    "session_inv u path m opts w0 blks dst w" "healthy dst w" "txRows dst = []"
  shows "\<exists>src' dst' w'. copy_loop ip z fl keepAll p n src dst w
      = (n + (\<Sum>tx\<leftarrow>filter (\<lambda>tx. keepAll \<or> list_ex p (TxRows tx)) txs. length (TxRows tx)), None, src', dst', w')
    \<and> P src' \<and> healthy dst' w' \<and> txRows dst' = []
    \<and> session_inv u path m opts w0 (blks @ map (\<lambda>tx. block_of ip z dst (assignTxIDs ip (TxRows tx)))
        (filter (\<lambda>tx. keepAll \<or> list_ex p (TxRows tx)) txs)) dst' w'"
  using assms
proof (induction txs arbitrary: n src blks dst w)
  case Nil
  from tx_cursor.fetch_end [OF Nil(1)] Nil show ?case by (auto simp: copy_loop.simps [of ip z fl keepAll p n src])
next
  case (Cons tx txs)
  let ?keep = "keepAll \<or> list_ex p (TxRows tx)"
  from tx_cursor.fetch_item [OF Cons.prems(1)] obtain src1 where
    s: "NextTx ip z src = (Inr tx, src1)" "txs_rep ip z rc tail [Go EOF] P src1 txs" by blast
  have ne: "\<forall>tx\<in>set txs. TxRows tx \<noteq> []" "TxRows tx \<noteq> []" using Cons.prems(2) by simp_all
  show ?case
  proof (cases ?keep)
    case False
    then have "copy_loop ip z fl keepAll p n src dst w = copy_loop ip z fl keepAll p n src1 dst w"
      using s(1) by (subst copy_loop.simps) simp
    with Cons.IH [OF s(2) ne(1) Cons.prems(3-5), of n] False show ?thesis by simp
  next
    case True
    let ?blk = "block_of ip z dst (assignTxIDs ip (TxRows tx))"
    from WriteTx_ok [OF Cons.prems(4,5) ne(2), of ip z fl] obtain b1 w1 where
      r: "snd (WriteTx ip z fl (TxRows tx) dst w) = (None, dst\<lparr>bw := b1\<rparr>, w1)" "healthy (dst\<lparr>bw := b1\<rparr>) w1" by auto
    have "logs (concat [?blk]) dst w (dst\<lparr>bw := b1\<rparr>) w1" using WriteTx_logs [OF r(1)] by (simp add: wrote_blocks_def)
    note inv = session_inv_logs [OF Cons.prems(3) this]
    have b: "block_of ip z (dst\<lparr>bw := b1\<rparr>) = block_of ip z dst" by (simp add: block_of_def fun_eq_iff)
    have "copy_loop ip z fl keepAll p n src dst w = copy_loop ip z fl keepAll p (n + length (TxRows tx)) src1 (dst\<lparr>bw := b1\<rparr>) w1"
      using s(1) True r(1) by (simp add: copy_loop.simps [of ip z fl keepAll p n src])
    with Cons.IH [OF s(2) ne(1) inv r(2), of "n + length (TxRows tx)"] Cons.prems(5) True b show ?thesis by (simp add: add.assoc)
  qed
qed

text \<open>A raw block is what the source holds next, and the writer accepts it.\<close>

lemma raw_round_block:
  assumes "raw_round r b = (Done (Inr blk), r')" "br_err b = [Go EOF]"
  shows "r' = r\<lparr>br := Some \<lparr>br_rest = drop (length blk) (br_rest b), br_err = [Go EOF]\<rparr>, consumed := consumed r + length blk\<rparr>
    \<and> blk = take (length blk) (br_rest b) \<and> FixheaderSize \<le> length blk
    \<and> (take MarkerSize blk = RowMarker \<or> take MarkerSize blk = ZRowMarker)"
proof -
  from assms(1) obtain m where m: "peekMagic b = Inr m" "m = RowMarker \<or> m = ZRowMarker" and t: "readBlockRaw r b = (Inr blk, r')"
    by (auto simp: raw_round_def handleMissingEOF_def split: sum.splits if_splits prod.splits option.splits)
  obtain x1 b1 where x1: "ReadFull b FixheaderSize = (x1, b1)" by fastforce
  with t obtain fh where fh: "x1 = Inr fh" by (cases x1) (auto simp: readBlockRaw_def simp del: FixheaderSize_def)
  with t x1 obtain h where h: "DecodeFixheaderInto fh = Inr h"
    by (cases "DecodeFixheaderInto fh") (auto simp: readBlockRaw_def simp del: FixheaderSize_def)
  obtain x2 b2 where x2: "ReadFull b1 (unat (Len h)) = (x2, b2)" by fastforce
  with t x1 fh h obtain d where d: "x2 = Inr d"
    by (cases x2) (auto simp: readBlockRaw_def simp del: FixheaderSize_def split: if_splits)
  have "blk = fh @ d \<and> r' = r\<lparr>br := Some b2, consumed := consumed r + (FixheaderSize + unat (Len h))\<rparr>"
    using t x1 fh h x2 d by (auto simp: readBlockRaw_def resync_def simp del: FixheaderSize_def split: if_splits prod.splits option.splits)
  with x1 fh x2 d have s: "ReadFull b FixheaderSize = (Inr fh, b1)" "ReadFull b1 (unat (Len h)) = (Inr d, b2)"
    "blk = fh @ d" "r' = r\<lparr>br := Some b2, consumed := consumed r + (FixheaderSize + unat (Len h))\<rparr>" by simp_all
  let ?n = "FixheaderSize + unat (Len h)"
  have f: "fh = take FixheaderSize (br_rest b)" "d = take (unat (Len h)) (drop FixheaderSize (br_rest b))" "?n \<le> length (br_rest b)"
    "b2 = b\<lparr>br_rest := drop ?n (br_rest b)\<rparr>"
    using s(1,2) by (auto simp: ReadFull_def add.commute split: if_splits)
  have len: "length blk = ?n" using f s(3) by simp
  have "blk = take ?n (br_rest b)" using f s(3) by (simp add: take_add)
  moreover have "b2 = \<lparr>br_rest = drop ?n (br_rest b), br_err = [Go EOF]\<rparr>" using f(4) assms(2) by (cases b) simp
  moreover have "take MarkerSize (br_rest b) = m" using peekMagic_Inr [OF m(1)] by simp
  ultimately show ?thesis using s(4) len m(2) by (auto simp: min_absorb1)
qed

lemma raw_round_strict:
  assumes "br_err b = [Go EOF]" "\<not> skipCorruptTx (cfg r)"
  shows "raw_round r b \<noteq> (Again, r')"
proof
  assume a: "raw_round r b = (Again, r')"
  then obtain e where "readBlockRaw r b = (Inl e, r')" "Rd ErrResync \<in> set e"
    using assms(2) by (auto simp: raw_round_def split: sum.splits if_splits prod.splits option.splits)
  then show False using assms
    by (auto simp: readBlockRaw_def split: sum.splits if_splits prod.splits dest!: DecodeFixheader_errors ReadFull_err)
qed

lemma raw_round_end:
  assumes "raw_round r b = (Done (Inl e), r')" shows "Offset r' = Offset r"
  using assms
  by (auto simp: raw_round_def handleMissingEOF_def set_rest_def readBlockRaw_def resync_def scanForwardToMagic_def Offset_def Let_def
      split: sum.splits if_splits prod.splits option.splits)

lemma WriteRawBlock_ok:
  assumes "healthy wr w" "txRows wr = []" "FixheaderSize \<le> length blk" "take MarkerSize blk = RowMarker \<or> take MarkerSize blk = ZRowMarker"
  shows "\<exists>b' w'. WriteRawBlock fl blk wr w = (None, wr\<lparr>bw := b'\<rparr>, w') \<and> healthy (wr\<lparr>bw := b'\<rparr>) w'
    \<and> accepted w' b' = accepted w (bw wr) @ blk"
proof -
  have "bw_err (bw wr) = None" "fits w (bw wr) (length blk + 0)" using assms(1) by (simp_all add: healthy_def fits_def)
  from bw_Write_ok [OF this, of fl] obtain b' w' s where r: "bw_Write fl blk (bw wr) w = (None, b', w')" "bw_err b' = None"
    "accepted w' b' = accepted w (bw wr) @ blk" "wrote (bw_ino (bw wr)) w w' s" by metis
  with wrote_room [OF r(4)] assms show ?thesis
    by (auto simp: WriteRawBlock_def healthy_def Let_def simp del: FixheaderSize_def MarkerSize_def RowMarker_def ZRowMarker_def)
qed

text \<open>The reader stands at its offset in the file \<open>f\<close>.\<close>

definition at_offset :: "bytes \<Rightarrow> Reader \<Rightarrow> bool" where
  "at_offset f r \<longleftrightarrow> Offset r \<le> length f \<and> br r = Some \<lparr>br_rest = drop (Offset r) f, br_err = [Go EOF]\<rparr>
     \<and> \<not> skipCorruptTx (cfg r)"

lemma NextBlockRaw_at_offset:
  assumes "at_offset f r" "NextBlockRaw r = (Inr blk, r')"
  shows "at_offset f r' \<and> Offset r' = Offset r + length blk \<and> blk = subslice f (Offset r) (Offset r')
    \<and> FixheaderSize \<le> length blk \<and> (take MarkerSize blk = RowMarker \<or> take MarkerSize blk = ZRowMarker)"
proof -
  let ?b = "\<lparr>br_rest = drop (Offset r) f, br_err = [Go EOF]\<rparr>"
  have r: "br r = Some ?b" "\<not> skipCorruptTx (cfg r)" "Offset r \<le> length f" using assms(1) by (simp_all add: at_offset_def)
  obtain x r1 where x: "raw_round r ?b = (x, r1)" by fastforce
  with raw_round_strict [of ?b r r1] r(2) have "x \<noteq> Again" by auto
  with assms(2) x r(1) have "raw_round r ?b = (Done (Inr blk), r')"
    by (cases x) (auto simp: NextBlockRaw_def raw_loop.simps split: if_splits)
  from raw_round_block [OF this] have q: "r' = r\<lparr>br := Some \<lparr>br_rest = drop (length blk) (drop (Offset r) f), br_err = [Go EOF]\<rparr>,
      consumed := consumed r + length blk\<rparr>" "blk = take (length blk) (drop (Offset r) f)" "FixheaderSize \<le> length blk"
    "take MarkerSize blk = RowMarker \<or> take MarkerSize blk = ZRowMarker" by simp_all
  have "length blk \<le> length f - Offset r" using arg_cong [OF q(2), of length] by simp
  with q r show ?thesis by (simp add: at_offset_def Offset_def subslice_def add.commute)
qed

lemma NextBlockRaw_stops:
  assumes "at_offset f r" "NextBlockRaw r = (Inl e, r')"
  shows "Offset r' = Offset r"
proof -
  let ?b = "\<lparr>br_rest = drop (Offset r) f, br_err = [Go EOF]\<rparr>"
  have r: "br r = Some ?b" "\<not> skipCorruptTx (cfg r)" using assms(1) by (simp_all add: at_offset_def)
  obtain x r1 where x: "raw_round r ?b = (x, r1)" by fastforce
  with raw_round_strict [of ?b r r1] r(2) have "x \<noteq> Again" by auto
  with assms(2) x r(1) raw_round_end [of r ?b e r'] show ?thesis
    by (cases x) (auto simp: NextBlockRaw_def raw_loop.simps split: if_splits)
qed


lemma copy_raw_loop_verbatim:
  "at_offset f src \<Longrightarrow> healthy dst w \<Longrightarrow> txRows dst = [] \<Longrightarrow> copy_raw_loop fl n src dst w = (k, e, src', dst', w') \<Longrightarrow>
    accepted w' (bw dst') = accepted w (bw dst) @ subslice f (Offset src) (Offset src') \<and> healthy dst' w'
    \<and> Offset src \<le> Offset src' \<and> (\<forall>x. e = Some x \<longrightarrow> Go EOF \<notin> set x)"
proof (induction fl n src dst w rule: copy_raw_loop.induct)
  case (1 fl n src dst w)
  note unf = copy_raw_loop.simps [of fl n src dst w]
  obtain x src1 where x: "NextBlockRaw src = (x, src1)" by fastforce
  show ?case
  proof (cases x)
    case (Inl e1)
    have "Offset src1 = Offset src" using NextBlockRaw_stops [OF "1.prems"(1)] x Inl by simp
    moreover have "src' = src1 \<and> dst' = dst \<and> w' = w \<and> (\<forall>x. e = Some x \<longrightarrow> Go EOF \<notin> set x)"
      using "1.prems"(4) x Inl by (cases "Go EOF \<in> set e1") (auto simp: unf)
    ultimately show ?thesis using "1.prems"(2) by simp
  next
    case (Inr blk)
    from NextBlockRaw_at_offset [OF "1.prems"(1) x [unfolded Inr]] have o: "at_offset f src1" "Offset src1 = Offset src + length blk"
      "blk = subslice f (Offset src) (Offset src1)" "FixheaderSize \<le> length blk"
      "take MarkerSize blk = RowMarker \<or> take MarkerSize blk = ZRowMarker" by blast+
    from WriteRawBlock_ok [OF "1.prems"(2,3) o(4,5), of fl] obtain b1 w1 where
      r: "WriteRawBlock fl blk dst w = (None, dst\<lparr>bw := b1\<rparr>, w1)" "healthy (dst\<lparr>bw := b1\<rparr>) w1" "accepted w1 b1 = accepted w (bw dst) @ blk" by blast
    have c: "copy_raw_loop fl (n + 1) src1 (dst\<lparr>bw := b1\<rparr>) w1 = (k, e, src', dst', w')"
      using "1.prems"(4) x Inr r(1) by (simp add: unf)
    have t: "txRows (dst\<lparr>bw := b1\<rparr>) = []" using "1.prems"(3) by simp
    have ih: "accepted w' (bw dst') = accepted w1 b1 @ subslice f (Offset src1) (Offset src') \<and> healthy dst' w'
        \<and> Offset src1 \<le> Offset src' \<and> (\<forall>x. e = Some x \<longrightarrow> Go EOF \<notin> set x)"
      using "1.IH" [OF x [symmetric] Inr r(1) [symmetric] refl refl o(1) r(2) t c] by simp
    have "subslice f (Offset src) (Offset src') = blk @ subslice f (Offset src1) (Offset src')"
      using slice_split [of "Offset src" "Offset src1" "Offset src'" f] o(2) ih unfolding o(3) [symmetric] by linarith
    with ih r(3) o(2) show ?thesis by simp
  qed
qed

lemma newReader_at_offset:
  assumes "newReader u \<lparr>br_rest = f, br_err = [Go EOF]\<rparr> opts = Inr r" "\<not> skipCorruptTx (apply_options opts)"
  shows "at_offset f r"
proof -
  have "positioned z (apply_options opts) (metaSize_of u f (metaOpts (apply_options opts))) f r" for z
    using reads_positioned [OF reads.opened [OF assms(1)] assms(2)] .
  moreover have "blockBytes r = 0"
    using assms(1) by (auto simp: newReader_def reader_init_def Let_def split: prod.splits sum.splits option.splits)
  ultimately show ?thesis using assms(2) by (simp add: positioned_def at_offset_def Offset_def)
qed

lemma sample_source:
  "\<exists>hs b src. EncodeMeta uuid_hex None (Some sample_meta) = Inr hs \<and> good_block iproto_numbers zstd_store b sample_tx
    \<and> newReader uuid_hex \<lparr>br_rest = str_bytes hs @ concat [b] @ EOFMarker, br_err = [Go EOF]\<rparr> [] = Inr src"
proof -
  obtain hs b where s: "EncodeMeta uuid_hex None (Some sample_meta) = Inr hs" "good_block iproto_numbers zstd_store b sample_tx"
    using sample_hdr sample_block by auto
  then have "list_all2 (chunk iproto_numbers zstd_store (apply_options [])) [b] [sample_tx]" by (simp add: chunk_def)
  from newReader_ahead [OF uuid_hex_ok sample_meta_ok sample_legacy s(1) this, of EOFMarker] s show ?thesis by auto
qed

lemma sample_dst: "\<exists>dst w. Create uuid_hex no_faults ''a.xlog'' (Some sample_meta) [] empty_world = (Inr dst, w) \<and> healthy dst w \<and> txRows dst = []"
  using Create_ok [OF sample_cfg _ empty_world_ok(2,3)] sample_hdr by blast

lemma body_ok_canon: "body_ok ip b (xrow_canon ip r) = body_ok ip b r"
  by (simp add: body_ok_def xrow_canon_def)

lemma sample_canon_txs_ok:
  "\<forall>tx\<in>set [[xrow_canon iproto_numbers sample_row], [xrow_canon iproto_numbers sample_nop]]. tx_ok iproto_numbers zstd_store c tx"
proof -
  let ?a = "[xrow_canon iproto_numbers sample_row]" and ?b = "[xrow_canon iproto_numbers sample_nop]"
  have len: "length (payload_bytes iproto_numbers (assignTxIDs iproto_numbers ?a)) \<le> 1000"
    "length (payload_bytes iproto_numbers (assignTxIDs iproto_numbers ?b)) \<le> 1000" by code_simp+
  have "LSN (?a ! 0) \<noteq> 0" "LSN (?b ! 0) \<noteq> 0" by code_simp+
  moreover have "rows_ok iproto_numbers ?a" "rows_ok iproto_numbers ?b"
    using body_ok_final [OF sample_rows_ok(1)] body_ok_final [OF sample_rows_ok(2)] by (simp_all add: body_ok_canon)
  ultimately show ?thesis using len frame_ok_store [OF len(1)] frame_ok_store [OF len(2)]
    by (simp add: tx_ok_def on_disk_def zstd_store_def MaxTxPayloadLen_def)
qed

section \<open>Properties\<close>

text \<open>
  filters compose as conditions: a conjunction keeps the rows every filter keeps, a disjunction
  those some filter keeps, the empty ones keep everything and nothing, the usual duality holds, and
  for any clock every row is kept by exactly one of \<^verbatim>\<open>FromVClock\<close> and \<^verbatim>\<open>UntilVClock\<close>.
\<close>

theorem filters_compose:
  "filter_And fs r = (\<forall>f\<in>set fs. f r) \<and> filter_Or fs r = (\<exists>f\<in>set fs. f r)
   \<and> filter_Not (filter_Or fs) r = filter_And (map filter_Not fs) r
   \<and> FromVClock v r = filter_Not (UntilVClock v) r
   \<and> LSNRange rep lo hi r = filter_And [ReplicaIDs [rep], \<lambda>r. sint lo \<le> sint (LSN r), UntilVClock (Some [(rep, hi)])] r"
  by (auto simp: filter_And_all filter_Or_any filter_Not_def FromVClock_def UntilVClock_def LSNRange_def ReplicaIDs_def vget_def)

theorem filters_compose_witness:
  "filter_And [ReplicaIDs [1], Types [2]] sample_row = (\<forall>f\<in>set [ReplicaIDs [1], Types [2]]. f sample_row)
   \<and> filter_Or [ReplicaIDs [1], Types [2]] sample_row = (\<exists>f\<in>set [ReplicaIDs [1], Types [2]]. f sample_row)
   \<and> filter_Not (filter_Or [ReplicaIDs [1], Types [2]]) sample_row = filter_And (map filter_Not [ReplicaIDs [1], Types [2]]) sample_row
   \<and> FromVClock (Some [(1, 7)]) sample_row = filter_Not (UntilVClock (Some [(1, 7)])) sample_row
   \<and> LSNRange 1 2 9 sample_row
     = filter_And [ReplicaIDs [1], \<lambda>r. sint (2 :: int64) \<le> sint (LSN r), UntilVClock (Some [(1, 9)])] sample_row"
  by (rule filters_compose)

text \<open>
  C13: copying raw blocks is verbatim, on any source. With a writer on a device with room and a
  reader that stands at its offset in a file and does not skip damage, the copy appends to the
  destination exactly the bytes of the file between the offset before and the offset after, whatever
  the file holds; an error is one of reading, and never the end of the source.
\<close>

theorem copy_raw_verbatim:
  assumes "at_offset f src" "healthy dst w" "txRows dst = []"
    and "CopyRaw fl (Some src) (Some dst) w = Inr (n, e, src', dst', w')"
  shows "accepted w' (bw dst') = accepted w (bw dst) @ subslice f (Offset src) (Offset src')
    \<and> Offset src \<le> Offset src' \<and> (\<forall>x. e = Some x \<longrightarrow> Go EOF \<notin> set x)"
  using copy_raw_loop_verbatim [OF assms(1-3), of fl 0 n e src' dst' w'] assms(4) by (simp add: CopyRaw_def)

theorem copy_raw_verbatim_witness:
  "\<exists>f src dst w n e src' dst' w'. at_offset f src \<and> CopyRaw no_faults (Some src) (Some dst) w = Inr (n, e, src', dst', w')
    \<and> accepted w' (bw dst') = accepted w (bw dst) @ subslice f (Offset src) (Offset src')
    \<and> Offset src \<le> Offset src' \<and> (\<forall>x. e = Some x \<longrightarrow> Go EOF \<notin> set x)"
proof -
  obtain hs b src where s: "newReader uuid_hex \<lparr>br_rest = str_bytes hs @ concat [b] @ EOFMarker, br_err = [Go EOF]\<rparr> [] = Inr src"
    using sample_source by blast
  have o: "at_offset (str_bytes hs @ concat [b] @ EOFMarker) src"
    by (rule newReader_at_offset [OF s]) (simp add: apply_options_def readerCfg0_def)
  obtain dst w where d: "healthy dst w" "txRows dst = []" using sample_dst by blast
  obtain n e src' dst' w' where c: "CopyRaw no_faults (Some src) (Some dst) w = Inr (n, e, src', dst', w')"
    by (cases "copy_raw_loop no_faults 0 src dst w") (auto simp: CopyRaw_def)
  from copy_raw_verbatim [OF o d c] o c show ?thesis by blast
qed



end
