(* ===== verification/Dir.thy ===== *)
theory Dir
  imports WriterFile
begin

unbundle bit_operations_syntax

text \<open>
  The index of a directory of journal files (\<^verbatim>\<open>dir/dir.go\<close>, \<^verbatim>\<open>dir/entry.go\<close>): the names that are journal
  files, the entry of each file with the check of its name against its header, the order of the index,
  and the two searches. The listing of a directory is a parameter: \<^verbatim>\<open>os.ReadDir\<close> gives the names of
  its entries, with a flag for directories.
\<close>

section \<open>Entries\<close>

record FileEntry =
  FE_Path :: string
  FE_Signature :: int64
  FE_VClock :: VClock
  FE_PrevVClock :: VClock
  FE_Filetype :: Filetype

record Dir =
  dir_path :: string
  dir_filetype :: Filetype
  entries :: "FileEntry list"

type_synonym listing = "string \<Rightarrow> error + (string \<times> bool) list"

definition checkChain :: "Filetype \<Rightarrow> error option" where
  "checkChain filetype =
     (if filetype = FiletypeRUN \<or> filetype = FiletypeINDEX then Some [Dr ErrNotChain] else None)"

definition allDigits :: "string \<Rightarrow> bool" where
  "allDigits s = (if s = [] then False else list_all (\<lambda>c. \<not> (c < CHR ''0'' \<or> c > CHR ''9'')) s)"

definition parseJournalName :: "string \<Rightarrow> string \<Rightarrow> error + (int64 \<times> bool)" where
  "parseJournalName name ext =
     (if HasSuffix name ''.inprogress'' then Inr (0, False)
      else if \<not> HasSuffix name ext then Inr (0, False)
      else (let stem = TrimSuffix name ext
            in if stem = [] \<or> \<not> allDigits stem then Inr (0, False)
               else (case ParseInt64 stem of Inl e \<Rightarrow> Inl e | Inr sig \<Rightarrow> Inr (sig, True))))"

definition loadEntryReader :: "error option \<Rightarrow> Reader \<Rightarrow> string \<Rightarrow> int64 \<Rightarrow> Filetype \<Rightarrow> error + FileEntry" where
  "loadEntryReader cerr r fullPath sigFromName filetype =
     (let meta = rmeta r; vclock = MVClock meta; prev = PrevVClock meta
      in if Signature vclock \<noteq> sigFromName then Inl [Dr ErrSignatureMismatch]
         else (case fst (Reader_Close cerr r) of
                 Some e \<Rightarrow> Inl e
               | None \<Rightarrow> Inr \<lparr>FE_Path = fullPath, FE_Signature = sigFromName, FE_VClock = vclock,
                             FE_PrevVClock = prev, FE_Filetype = filetype\<rparr>))"

definition loadEntry :: "uuidlib \<Rightarrow> filesystem \<Rightarrow> error option \<Rightarrow> string \<Rightarrow> int64 \<Rightarrow> Filetype \<Rightarrow> error + FileEntry" where
  "loadEntry u fs cerr fullPath sigFromName filetype = (case Open u fs cerr fullPath [] of
     Inl e \<Rightarrow> Inl e
   | Inr r \<Rightarrow> loadEntryReader cerr r fullPath sigFromName filetype)"

definition loadEntryFS :: "uuidlib \<Rightarrow> iofs \<Rightarrow> error option \<Rightarrow> string \<Rightarrow> int64 \<Rightarrow> Filetype \<Rightarrow> error + FileEntry" where
  "loadEntryFS u fsys cerr fullPath sigFromName filetype = (case OpenFS u fsys cerr fullPath [] of
     Inl e \<Rightarrow> Inl e
   | Inr r \<Rightarrow> loadEntryReader cerr r fullPath sigFromName filetype)"

section \<open>Building the index\<close>

text \<open>Whether some two neighbours are in a relation: the loops over \<^verbatim>\<open>entries[i-1]\<close> and \<^verbatim>\<open>entries[i]\<close>.\<close>

fun adjacent :: "('a \<Rightarrow> 'a \<Rightarrow> bool) \<Rightarrow> 'a list \<Rightarrow> bool" where
  "adjacent P (x # y # xs) = (P x y \<or> adjacent P (y # xs))"
| "adjacent P _ = False"

text \<open>
  \<^verbatim>\<open>sort.Slice\<close> leaves the order of entries with equal signatures open; such entries are rejected in any
  order.
\<close>

definition buildDir :: "string \<Rightarrow> Filetype \<Rightarrow> FileEntry list \<Rightarrow> error + Dir" where
  "buildDir displayPath filetype es =
     (let es = sort_key (\<lambda>e. sint (FE_Signature e)) es
      in if adjacent (\<lambda>a b. FE_Signature b = FE_Signature a) es then Inl [Dr ErrDuplicate]
         else if adjacent (\<lambda>a b. \<not> snd (Compare (FE_VClock a) (FE_VClock b))) es then Inl [Dr ErrIncomparable]
         else Inr \<lparr>dir_path = displayPath, dir_filetype = filetype, entries = es\<rparr>)"

text \<open>The loop over the listing; \<open>load\<close> is the loader applied to the joined path.\<close>

fun scan_dents ::
    "(string \<Rightarrow> int64 \<Rightarrow> error + FileEntry) \<Rightarrow> string \<Rightarrow> (string \<times> bool) list \<Rightarrow> FileEntry list \<Rightarrow> error + FileEntry list" where
  "scan_dents load ext [] es = Inr es"
| "scan_dents load ext ((name, isDir) # dents) es =
     (if isDir then scan_dents load ext dents es
      else (case parseJournalName name ext of
              Inl e \<Rightarrow> Inl e
            | Inr (sig, ok) \<Rightarrow>
                if \<not> ok then scan_dents load ext dents es
                else (case load name sig of Inl e \<Rightarrow> Inl e
                      | Inr entry \<Rightarrow> scan_dents load ext dents (es @ [entry]))))"

definition OpenDir :: "uuidlib \<Rightarrow> filesystem \<Rightarrow> listing \<Rightarrow> error option \<Rightarrow> string \<Rightarrow> Filetype \<Rightarrow> error + Dir" where
  "OpenDir u fs readDir cerr path filetype = (case checkChain filetype of
     Some e \<Rightarrow> Inl e
   | None \<Rightarrow> (case Ext filetype of Inl e \<Rightarrow> Inl e
     | Inr ext \<Rightarrow> (case readDir path of Inl e \<Rightarrow> Inl e
       | Inr dents \<Rightarrow>
           (case scan_dents (\<lambda>name sig. loadEntry u fs cerr (filepath_Join path name) sig filetype) ext dents [] of
              Inl e \<Rightarrow> Inl e
            | Inr es \<Rightarrow> buildDir path filetype es))))"

definition OpenDirFS :: "uuidlib \<Rightarrow> iofs \<Rightarrow> listing \<Rightarrow> error option \<Rightarrow> string \<Rightarrow> Filetype \<Rightarrow> error + Dir" where
  "OpenDirFS u fsys readDir cerr d filetype = (case checkChain filetype of
     Some e \<Rightarrow> Inl e
   | None \<Rightarrow> (case Ext filetype of Inl e \<Rightarrow> Inl e
     | Inr ext \<Rightarrow> (case readDir d of Inl e \<Rightarrow> Inl e
       | Inr dents \<Rightarrow>
           (case scan_dents (\<lambda>name sig. loadEntryFS u fsys cerr (filepath_Join d name) sig filetype) ext dents [] of
              Inl e \<Rightarrow> Inl e
            | Inr es \<Rightarrow> buildDir d filetype es))))"

section \<open>Searching\<close>

definition Files :: "Dir \<Rightarrow> FileEntry list" where "Files d = entries d"

fun locate_vclock_loop :: "VClock \<Rightarrow> FileEntry list \<Rightarrow> nat \<Rightarrow> nat option \<Rightarrow> nat option" where
  "locate_vclock_loop target [] i bestIdx = bestIdx"
| "locate_vclock_loop target (e # es) i bestIdx =
     (case Compare (FE_VClock e) target of (ord, ok) \<Rightarrow>
        if \<not> ok then
          (if sint (FE_Signature e) \<le> sint (Signature target) then locate_vclock_loop target es (Suc i) (Some i) else bestIdx)
        else if ord \<le> 0 then locate_vclock_loop target es (Suc i) (Some i)
        else bestIdx)"

definition LocateVClock :: "Dir \<Rightarrow> VClock \<Rightarrow> error + FileEntry" where
  "LocateVClock d target =
     (if length (entries d) = 0 then Inl [Dr ErrNotFound]
      else (case locate_vclock_loop target (entries d) 0 None of
              None \<Rightarrow> Inl [Dr ErrNotFound] | Some bestIdx \<Rightarrow> Inr (entries d ! bestIdx)))"

fun locate_lsn_loop :: "uint32 \<Rightarrow> int64 \<Rightarrow> FileEntry list \<Rightarrow> nat \<Rightarrow> nat option \<Rightarrow> int64 \<Rightarrow> nat option" where
  "locate_lsn_loop replicaID lsn [] i bestIdx bestLSN = bestIdx"
| "locate_lsn_loop replicaID lsn (e # es) i bestIdx bestLSN =
     (let v = vget (FE_VClock e) replicaID
      in if sint v > sint lsn then locate_lsn_loop replicaID lsn es (Suc i) bestIdx bestLSN
         else if bestIdx = None \<or> sint v \<ge> sint bestLSN then locate_lsn_loop replicaID lsn es (Suc i) (Some i) v
         else locate_lsn_loop replicaID lsn es (Suc i) bestIdx bestLSN)"

definition LocateLSN :: "Dir \<Rightarrow> uint32 \<Rightarrow> int64 \<Rightarrow> error + FileEntry" where
  "LocateLSN d replicaID lsn =
     (if length (entries d) = 0 then Inl [Dr ErrNotFound]
      else (case locate_lsn_loop replicaID lsn (entries d) 0 None 0 of
              None \<Rightarrow> Inl [Dr ErrNotFound] | Some bestIdx \<Rightarrow> Inr (entries d ! bestIdx)))"

section \<open>Clocks whose signature is their sum\<close>

text \<open>Sequence numbers are not negative and their sum does not leave 64 bits.\<close>

definition clock_sum :: "VClock \<Rightarrow> int" where
  "clock_sum v = (\<Sum>rid\<in>set (vids v). sint (vget v rid))"

definition clock_small :: "VClock \<Rightarrow> bool" where
  "clock_small v \<longleftrightarrow> vclock_wf v \<and> (\<forall>rid. 0 \<le> sint (vget v rid)) \<and> clock_sum v < 2 ^ 63"

lemma of_int_sum_sint: "of_int (\<Sum>x\<in>A. sint (f x)) = (\<Sum>x\<in>A. f x :: int64)"
  by (induction A rule: infinite_finite_induct) simp_all

lemma sint_of_int_small: "- (2 ^ 63) \<le> k \<Longrightarrow> k < 2 ^ 63 \<Longrightarrow> sint (of_int k :: int64) = k"
  by (simp add: sint_sbintrunc' signed_take_bit_int_eq_self)

lemma clock_small_signature: "clock_small v \<Longrightarrow> sint (Signature v) = clock_sum v"
proof -
  assume v: "clock_small v"
  then have "Signature v = of_int (clock_sum v)"
    by (simp only: Signature_keys clock_sum_def clock_small_def of_int_sum_sint)
  moreover have "0 \<le> clock_sum v" using v by (simp add: clock_sum_def clock_small_def sum_nonneg)
  ultimately show ?thesis using v sint_of_int_small [of "clock_sum v"] by (simp add: clock_small_def)
qed

lemma clock_sum_superset: "finite A \<Longrightarrow> set (vids v) \<subseteq> A \<Longrightarrow> clock_sum v = (\<Sum>rid\<in>A. sint (vget v rid))"
  unfolding clock_sum_def by (intro sum.mono_neutral_left) (auto simp: vget_missing)

lemma clock_sum_mono: "vclock.cle v w \<Longrightarrow> clock_sum v \<le> clock_sum w"
  using clock_sum_superset [of "set (vids v) \<union> set (vids w)" v] clock_sum_superset [of "set (vids v) \<union> set (vids w)" w]
  by (simp add: vclock.cle_def sum_mono)

lemma clock_sum_strict:
  assumes "vclock.cle v w" "vget v rid \<noteq> vget w rid"
  shows "clock_sum v < clock_sum w"
proof -
  let ?A = "insert rid (set (vids v) \<union> set (vids w))"
  have "sint (vget v rid) < sint (vget w rid)" using assms by (metis vclock.cle_def less_le signed_word_eqI)
  then have "(\<Sum>r\<in>?A. sint (vget v r)) < (\<Sum>r\<in>?A. sint (vget w r))"
    using assms(1) by (intro sum_strict_mono2 sum_strict_mono_ex1) (auto simp: vclock.cle_def)
  then show ?thesis using clock_sum_superset [of ?A v] clock_sum_superset [of ?A w] by (simp add: subset_insertI2)
qed

text \<open>Comparable clocks with ascending signatures are ascending.\<close>

lemma comparable_ascending:
  assumes "clock_small v" "clock_small w" "snd (Compare v w)" "sint (Signature v) < sint (Signature w)"
  shows "Compare v w = (- 1, True)"
proof -
  have "clock_sum v < clock_sum w" using assms by (simp add: clock_small_signature)
  then have "\<not> vclock.cle w v" "vget v \<noteq> vget w" using clock_sum_mono [of w v] vclock.cle_get [of w v] by fastforce+
  moreover have "vclock.cle v w \<or> vclock.cle w v" using assms(3) vclock.cmp_incomparable [of v w] by blast
  ultimately show ?thesis using vclock.cmp_less by blast
qed

section \<open>What the index holds\<close>

text \<open>The journal files of a listing with the signatures of their names.\<close>

definition journal_of :: "string \<Rightarrow> string \<times> bool \<Rightarrow> (string \<times> int64) option" where
  "journal_of ext de = (case de of (name, isDir) \<Rightarrow>
     if isDir then None
     else (case parseJournalName name ext of Inl e \<Rightarrow> None | Inr (sig, ok) \<Rightarrow> if ok then Some (name, sig) else None))"

definition journals :: "string \<Rightarrow> (string \<times> bool) list \<Rightarrow> (string \<times> int64) list" where
  "journals ext dents = List.map_filter (journal_of ext) dents"

lemma journals_simps [simp]:
  "journals ext [] = []"
  "journals ext (de # dents) = (case journal_of ext de of None \<Rightarrow> journals ext dents | Some j \<Rightarrow> j # journals ext dents)"
  by (simp_all add: journals_def map_filter_simps split: option.splits)

lemma in_journals: "(name, sig) \<in> set (journals ext dents) \<longleftrightarrow> (name, False) \<in> set dents \<and> parseJournalName name ext = Inr (sig, True)"
  by (induction dents) (auto simp: journal_of_def split: option.splits sum.splits if_splits prod.splits)

lemma scan_dents_loads:
  "scan_dents load ext dents es = Inr res \<Longrightarrow>
    \<exists>new. res = es @ new \<and> list_all2 (\<lambda>(name, sig) e. load name sig = Inr e) (journals ext dents) new"
proof (induction load ext dents es rule: scan_dents.induct)
  case (2 load ext name isDir dents es)
  show ?case
  proof (cases "journal_of ext (name, isDir)")
    case None
    with 2 show ?thesis by (auto simp: journal_of_def split: if_splits sum.splits prod.splits)
  next
    case (Some j)
    with 2(4) obtain sig entry where j: "\<not> isDir" "parseJournalName name ext = Inr (sig, True)" "j = (name, sig)" "load name sig = Inr entry"
      "scan_dents load ext dents (es @ [entry]) = Inr res" by (auto simp: journal_of_def split: if_splits sum.splits prod.splits)
    from 2(3) [OF j(1,2) refl _ j(4,5)] Some j show ?thesis by auto
  qed
qed simp

lemma scan_dents_ok:
  "list_all (\<lambda>(name, isDir). isDir \<or> (\<exists>x. parseJournalName name ext = Inr x)) dents \<Longrightarrow>
    list_all2 (\<lambda>(name, sig) e. load name sig = Inr e) (journals ext dents) new \<Longrightarrow> scan_dents load ext dents es = Inr (es @ new)"
proof (induction load ext dents es arbitrary: new rule: scan_dents.induct)
  case (2 load ext name isDir dents es)
  show ?case
  proof (cases "journal_of ext (name, isDir)")
    case None
    with 2 show ?thesis by (auto simp: journal_of_def split: if_splits sum.splits prod.splits)
  next
    case (Some j)
    then obtain sig where j: "\<not> isDir" "parseJournalName name ext = Inr (sig, True)" "j = (name, sig)"
      by (auto simp: journal_of_def split: if_splits sum.splits prod.splits)
    with Some 2(5) obtain e new' where "new = e # new'" "load name sig = Inr e"
      "list_all2 (\<lambda>(name, sig) e. load name sig = Inr e) (journals ext dents) new'" by (auto simp: list_all2_Cons1)
    with 2(3) [OF j(1,2) refl] 2(4) j show ?thesis by auto
  qed
qed simp

lemma adjacent_successively: "adjacent P xs \<longleftrightarrow> \<not> successively (\<lambda>x y. \<not> P x y) xs"
  by (induction P xs rule: adjacent.induct) auto

lemma successively_both: "successively P xs \<Longrightarrow> successively Q xs \<longleftrightarrow> successively (\<lambda>x y. P x y \<and> Q x y) xs"
  by (induction P xs rule: successively.induct) auto

lemma buildDir_cases:
  "buildDir p ft es = Inr d \<longleftrightarrow> d = \<lparr>dir_path = p, dir_filetype = ft, entries = sort_key (\<lambda>e. sint (FE_Signature e)) es\<rparr>
     \<and> sorted_wrt (\<lambda>a b. sint (FE_Signature a) < sint (FE_Signature b)) (entries d)
     \<and> successively (\<lambda>a b. snd (Compare (FE_VClock a) (FE_VClock b))) (entries d)"
proof -
  let ?es = "sort_key (\<lambda>e. sint (FE_Signature e)) es"
  have same: "FE_Signature b = FE_Signature a \<longleftrightarrow> sint (FE_Signature a) = sint (FE_Signature b)" for a b :: FileEntry
    by (metis signed_word_eqI)
  have "successively (\<lambda>a b. sint (FE_Signature a) \<le> sint (FE_Signature b)) ?es"
    using sorted_sort_key [of "\<lambda>e. sint (FE_Signature e)" es] by (simp add: sorted_map successively_if_sorted_wrt)
  then have "successively (\<lambda>a b. \<not> FE_Signature b = FE_Signature a) ?es
      \<longleftrightarrow> successively (\<lambda>a b. sint (FE_Signature a) < sint (FE_Signature b)) ?es"
    unfolding less_le same by (rule successively_both)
  also have "\<dots> \<longleftrightarrow> sorted_wrt (\<lambda>a b. sint (FE_Signature a) < sint (FE_Signature b)) ?es"
    by (rule successively_conv_sorted_wrt) (auto intro: transpI)
  finally show ?thesis
    by (auto simp: buildDir_def Let_def adjacent_successively)
qed


section \<open>The searches\<close>

text \<open>An entry the search for a clock passes over: not above the target.\<close>

definition not_above :: "VClock \<Rightarrow> FileEntry \<Rightarrow> bool" where
  "not_above target e \<longleftrightarrow> vclock.cle (FE_VClock e) target
     \<or> \<not> vclock.cle target (FE_VClock e) \<and> sint (FE_Signature e) \<le> sint (Signature target)"

lemma locate_vclock_step:
  "locate_vclock_loop target (e # es) i best =
    (if not_above target e then locate_vclock_loop target es (Suc i) (Some i) else best)"
proof -
  let ?v = "FE_VClock e"
  consider "vget ?v = vget target" | "vget ?v \<noteq> vget target" "vclock.cle ?v target"
    | "vget ?v \<noteq> vget target" "\<not> vclock.cle ?v target" "vclock.cle target ?v"
    | "vget ?v \<noteq> vget target" "\<not> vclock.cle ?v target" "\<not> vclock.cle target ?v" by blast
  then show ?thesis
    by cases (simp_all add: not_above_def vclock.cmp_cle vclock.cle_get)
qed

lemma locate_vclock_prefix:
  "locate_vclock_loop target es i best =
    (case length (takeWhile (not_above target) es) of 0 \<Rightarrow> best | Suc n \<Rightarrow> Some (i + n))"
  by (induction es arbitrary: i best) (simp_all add: locate_vclock_step del: locate_vclock_loop.simps(2) split: nat.splits)

text \<open>The best entry of a list for a replica and a sequence number: the latest of the largest not above it.\<close>

definition best_entry :: "uint32 \<Rightarrow> int64 \<Rightarrow> FileEntry list \<Rightarrow> nat option \<Rightarrow> int64 \<Rightarrow> bool" where
  "best_entry rid lsn es best bl \<longleftrightarrow> (case best of
     None \<Rightarrow> \<forall>e\<in>set es. sint lsn < sint (vget (FE_VClock e) rid)
   | Some k \<Rightarrow> k < length es \<and> vget (FE_VClock (es ! k)) rid = bl \<and> sint bl \<le> sint lsn
       \<and> (\<forall>j<length es. sint (vget (FE_VClock (es ! j)) rid) \<le> sint lsn \<longrightarrow>
            sint (vget (FE_VClock (es ! j)) rid) \<le> sint bl \<and> (k < j \<longrightarrow> sint (vget (FE_VClock (es ! j)) rid) < sint bl)))"

lemma best_entry_snoc:
  assumes "best_entry rid lsn es best bl"
  shows "sint lsn < sint (vget (FE_VClock e) rid) \<Longrightarrow> best_entry rid lsn (es @ [e]) best bl"
    and "sint (vget (FE_VClock e) rid) \<le> sint lsn \<Longrightarrow> best = None \<or> sint bl \<le> sint (vget (FE_VClock e) rid) \<Longrightarrow>
      best_entry rid lsn (es @ [e]) (Some (length es)) (vget (FE_VClock e) rid)"
    and "sint (vget (FE_VClock e) rid) < sint bl \<Longrightarrow> best \<noteq> None \<Longrightarrow> best_entry rid lsn (es @ [e]) best bl"
proof -
  have nth: "(es @ [e]) ! j = (if j < length es then es ! j else e)" if "j < Suc (length es)" for j
    using that by (simp add: nth_append)
  show "sint lsn < sint (vget (FE_VClock e) rid) \<Longrightarrow> best_entry rid lsn (es @ [e]) best bl"
    using assms by (cases best) (auto simp: best_entry_def nth)
  show "sint (vget (FE_VClock e) rid) < sint bl \<Longrightarrow> best \<noteq> None \<Longrightarrow> best_entry rid lsn (es @ [e]) best bl"
    using assms by (cases best) (auto simp: best_entry_def nth)
  have "sint (vget (FE_VClock (es ! j)) rid) \<le> sint (vget (FE_VClock e) rid)"
    if "j < length es" "sint (vget (FE_VClock (es ! j)) rid) \<le> sint lsn" "best = None \<or> sint bl \<le> sint (vget (FE_VClock e) rid)" for j
  proof (cases best)
    case None
    with assms that(1) have "sint lsn < sint (vget (FE_VClock (es ! j)) rid)" by (simp add: best_entry_def)
    with that(2) show ?thesis by simp
  next
    case (Some k)
    with assms that(1,2) have "sint (vget (FE_VClock (es ! j)) rid) \<le> sint bl" by (simp add: best_entry_def)
    with that(3) Some show ?thesis by simp
  qed
  then show "sint (vget (FE_VClock e) rid) \<le> sint lsn \<Longrightarrow> best = None \<or> sint bl \<le> sint (vget (FE_VClock e) rid) \<Longrightarrow>
      best_entry rid lsn (es @ [e]) (Some (length es)) (vget (FE_VClock e) rid)"
    by (auto simp: best_entry_def nth)
qed

lemma locate_lsn_best:
  "best_entry rid lsn pre best bl \<Longrightarrow> \<exists>bl'. best_entry rid lsn (pre @ es) (locate_lsn_loop rid lsn es (length pre) best bl) bl'"
proof (induction es arbitrary: pre best bl)
  case (Cons e es)
  let ?v = "vget (FE_VClock e) rid"
  note snoc = best_entry_snoc [OF Cons.prems, of e] and IH = Cons.IH [of "pre @ [e]"]
  consider "sint lsn < sint ?v" | "sint ?v \<le> sint lsn" "best = None \<or> sint bl \<le> sint ?v"
    | "sint ?v \<le> sint lsn" "sint ?v < sint bl" "best \<noteq> None" by linarith
  then show ?case
  proof cases
    case 1
    with IH [OF snoc(1)] show ?thesis by simp
  next
    case 2
    with IH [OF snoc(2)] show ?thesis by simp
  next
    case 3
    with IH [OF snoc(3)] show ?thesis by auto
  qed
qed auto

lemma not_above_down:
  assumes "Compare (FE_VClock a) (FE_VClock b) = (- 1, True)" "sint (FE_Signature a) < sint (FE_Signature b)" "not_above t b"
  shows "not_above t a"
proof -
  have "vclock.cle (FE_VClock a) (FE_VClock b)" using assms(1) vclock.cmp_less by blast
  note le = vclock.cle_trans [OF this] and ge = vclock.cle_trans [OF _ this]
  show ?thesis using assms(2,3) le [of t] ge [of t] unfolding not_above_def by linarith
qed

lemma locate_vclock_last:
  assumes "sorted_wrt (\<lambda>a b. Compare (FE_VClock a) (FE_VClock b) = (- 1, True) \<and> sint (FE_Signature a) < sint (FE_Signature b)) es"
    and "j < length es"
  shows "not_above t (es ! j) \<longleftrightarrow> j < length (takeWhile (not_above t) es)"
proof
  let ?n = "length (takeWhile (not_above t) es)"
  assume na: "not_above t (es ! j)"
  show "j < ?n"
  proof (rule ccontr)
    assume "\<not> j < ?n"
    then consider "?n = j" | "?n < j" by linarith
    then have "not_above t (es ! ?n)"
    proof cases
      case 2
      from sorted_wrt_nth_less [OF assms(1) 2 assms(2)] na show ?thesis by (blast intro: not_above_down)
    qed (use na in simp)
    moreover have "?n < length es" using \<open>\<not> j < ?n\<close> assms(2) by simp
    ultimately show False using nth_length_takeWhile by blast
  qed
next
  assume "j < length (takeWhile (not_above t) es)"
  then show "not_above t (es ! j)" by (metis nth_mem set_takeWhileD takeWhile_nth)
qed

lemma LocateLSN_best:
  "(LocateLSN d rid lsn = Inl [Dr ErrNotFound] \<longleftrightarrow> (\<forall>e\<in>set (Files d). sint lsn < sint (vget (FE_VClock e) rid)))
    \<and> (LocateLSN d rid lsn = Inr e \<longrightarrow> (\<exists>i<length (Files d). e = Files d ! i \<and> sint (vget (FE_VClock e) rid) \<le> sint lsn
         \<and> (\<forall>j<length (Files d). sint (vget (FE_VClock (Files d ! j)) rid) \<le> sint lsn \<longrightarrow>
              sint (vget (FE_VClock (Files d ! j)) rid) \<le> sint (vget (FE_VClock e) rid)
            \<and> (i < j \<longrightarrow> sint (vget (FE_VClock (Files d ! j)) rid) < sint (vget (FE_VClock e) rid)))))"
proof -
  let ?res = "locate_lsn_loop rid lsn (entries d) 0 None 0"
  have "best_entry rid lsn [] None 0" by (simp add: best_entry_def)
  from locate_lsn_best [OF this, of "entries d"] obtain bl where b: "best_entry rid lsn (entries d) ?res bl" by auto
  show ?thesis
  proof (cases ?res)
    case None
    with b show ?thesis by (simp add: LocateLSN_def best_entry_def Files_def)
  next
    case (Some k)
    with b have k: "k < length (entries d)" "vget (FE_VClock (entries d ! k)) rid = bl" "sint bl \<le> sint lsn"
      "\<forall>j<length (entries d). sint (vget (FE_VClock (entries d ! j)) rid) \<le> sint lsn \<longrightarrow>
        sint (vget (FE_VClock (entries d ! j)) rid) \<le> sint bl \<and> (k < j \<longrightarrow> sint (vget (FE_VClock (entries d ! j)) rid) < sint bl)"
      by (simp_all add: best_entry_def)
    have loc: "LocateLSN d rid lsn = Inr (entries d ! k)" using Some k(1) by (auto simp: LocateLSN_def)
    have "\<not> (\<forall>e\<in>set (entries d). sint lsn < sint (vget (FE_VClock e) rid))" using k(1-3) by (metis not_less nth_mem)
    with loc k show ?thesis by (auto simp: Files_def)
  qed
qed

section \<open>Opening the files of a directory\<close>

lemma Open_header:
  assumes "uuid_ok u" "meta_ok m" "FormatVer m \<noteq> LegacyFormatVersion" "EncodeMeta u None (Some m) = Inr hdr"
    and "fs p = Some (str_bytes hdr @ rest)"
  shows "\<exists>r. Open u fs cerr p [] = Inr r \<and> rmeta r = meta_canon m \<and> owned r"
proof -
  obtain hdr' where h: "EncodeMeta u None (Some m) = Inr hdr'"
    "DecodeMeta u (Some (rd hdr' rest [Go EOF])) (metaOpts (apply_options [])) = (Inr (meta_canon m), Some (rd [] rest [Go EOF]))"
    by (rule DecodeMeta_EncodeMeta [OF assms(1,2)]) (use assms(3) in simp)
  with assms(4,5) show ?thesis
    by (simp add: Open_def own_or_close_def newReader_def rd_def reader_init_def Let_def)
qed

lemma vids_canon [simp]: "vids (vclock_canon v) = sort (vids v)"
  by (simp add: vids_def vclock_canon_def comp_def)

lemma vget_tabulate: "vget (Some (map (\<lambda>r. (r, f r)) rids)) rid = (if rid \<in> set rids then f rid else 0)"
  by (simp add: vget_def map_of_map_restrict restrict_map_def)

lemma vget_canon [simp]: "vget (vclock_canon v) = vget v"
  by (rule ext) (simp add: vclock_canon_def vget_tabulate vget_missing)

lemma vclock_wf_canon [simp]: "vclock_wf (vclock_canon v) = vclock_wf v"
  by (simp add: vclock_wf_def)

lemma Signature_canon: "vclock_wf v \<Longrightarrow> Signature (vclock_canon v) = Signature v"
  by (simp add: Signature_keys)

lemma loadEntry_ok:
  assumes "uuid_ok u" "meta_ok m" "FormatVer m \<noteq> LegacyFormatVersion" "EncodeMeta u None (Some m) = Inr hdr"
    and "fs p = Some (str_bytes hdr @ rest)" "Signature (MVClock m) = sig"
  shows "loadEntry u fs None p sig ft = Inr \<lparr>FE_Path = p, FE_Signature = sig, FE_VClock = vclock_canon (MVClock m),
    FE_PrevVClock = PrevVClock (meta_canon m), FE_Filetype = ft\<rparr>"
proof -
  have "vclock_wf (MVClock m)" using assms(2) by (simp add: meta_ok_def)
  then have "Signature (vclock_canon (MVClock m)) = sig" using assms(6) by (simp add: Signature_canon)
  with Open_header [OF assms(1-4), of fs p rest None] assms(5) show ?thesis
    by (auto simp: loadEntry_def loadEntryReader_def Reader_Close_def meta_canon_def Let_def)
qed

lemma loadEntry_header:
  assumes "loadEntry u fs cerr p sig ft = Inr e"
  shows "\<exists>m. ReadHeader u fs cerr p [] = Inr m \<and> FE_VClock e = MVClock m \<and> FE_PrevVClock e = PrevVClock m"
    "FE_Path e = p" "FE_Signature e = sig" "Signature (FE_VClock e) = sig" "FE_Filetype e = ft"
  using assms by (auto simp: loadEntry_def loadEntryReader_def ReadHeader_def Meta_Clone_def VClock_Clone_def Let_def
      split: sum.splits if_splits option.splits)

lemma list_all2_setD1: "list_all2 P xs ys \<Longrightarrow> x \<in> set xs \<Longrightarrow> \<exists>y\<in>set ys. P x y"
  by (induction rule: list_all2_induct) auto

lemma list_all2_setD2: "list_all2 P xs ys \<Longrightarrow> y \<in> set ys \<Longrightarrow> \<exists>x\<in>set xs. P x y"
  by (induction rule: list_all2_induct) auto

lemma OpenDir_cases:
  assumes "OpenDir u fs readDir cerr path ft = Inr d"
  obtains ext dents es where "checkChain ft = None" "Ext ft = Inr ext" "readDir path = Inr dents"
    "scan_dents (\<lambda>name sig. loadEntry u fs cerr (filepath_Join path name) sig ft) ext dents [] = Inr es" "buildDir path ft es = Inr d"
  using assms by (auto simp: OpenDir_def split: option.splits sum.splits)

lemma OpenDir_entries:
  assumes "OpenDir u fs readDir cerr path ft = Inr d" "readDir path = Inr dents" "Ext ft = Inr ext"
  shows "\<exists>es. mset (entries d) = mset es
    \<and> list_all2 (\<lambda>(name, sig) e. loadEntry u fs cerr (filepath_Join path name) sig ft = Inr e) (journals ext dents) es"
proof -
  from OpenDir_cases [OF assms(1)] assms(2,3) obtain es where
    es: "scan_dents (\<lambda>name sig. loadEntry u fs cerr (filepath_Join path name) sig ft) ext dents [] = Inr es" "buildDir path ft es = Inr d"
    by (metis Inr_inject)
  from es(2) have "mset (entries d) = mset es" unfolding buildDir_cases by simp
  with scan_dents_loads [OF es(1)] show ?thesis by auto
qed

section \<open>Names of journal files\<close>

lemma allDigits_digits: "s \<noteq> [] \<Longrightarrow> set s \<subseteq> digit_char ` {..<10} \<Longrightarrow> allDigits s"
  unfolding digit_chars_list by (auto simp: allDigits_def list_all_iff subset_iff less_char_def)

lemma parse_digits_zeros: "parse_digits mx 0 (replicate k (CHR ''0'') @ s) = parse_digits mx 0 s"
  by (induction k) (simp_all add: char_digit_def)

lemma Sprintf_020d_digits:
  assumes "0 \<le> sint sig"
  shows "Sprintf_020d sig \<noteq> []" "set (Sprintf_020d sig) \<subseteq> digit_char ` {..<10}"
proof -
  have "CHR ''0'' \<in> digit_char ` {..<10}" unfolding digit_chars_list by simp
  then show "Sprintf_020d sig \<noteq> []" "set (Sprintf_020d sig) \<subseteq> digit_char ` {..<10}"
    using assms set_format_digits [of "nat (sint sig)" "[]"] by (auto simp: Sprintf_020d_def Let_def)
qed

lemma ParseInt64_Sprintf:
  assumes "0 \<le> sint sig"
  shows "ParseInt64 (Sprintf_020d sig) = Inr sig"
proof -
  let ?s = "Sprintf_020d sig" and ?n = "nat (sint sig)"
  have n: "?n < 2 ^ 63" using sint_less [of sig] assms by simp
  have "parse_digits (2 ^ 64 - 1) 0 ?s = Inr ?n"
    using assms n parse_format_digits [of ?n "2 ^ 64 - 1" "[]"] by (simp add: Sprintf_020d_def Let_def parse_digits_zeros)
  then have p: "ParseUint ?s 64 = Inr ?n" using Sprintf_020d_digits [OF assms] by (simp add: ParseUint_def)
  obtain c t where ct: "?s = c # t" using Sprintf_020d_digits(1) [OF assms] by (cases ?s) auto
  have "c \<noteq> CHR ''-'' \<and> c \<noteq> CHR ''+''" using Sprintf_020d_digits(2) [OF assms] digit_char_ne by (auto simp: ct)
  moreover have "of_nat ?n = sig" using assms by simp
  ultimately show ?thesis using p n by (simp add: ParseInt64_def ct)
qed

lemma HasSuffix_last: "HasSuffix s t \<Longrightarrow> t \<noteq> [] \<Longrightarrow> last s = last t"
  by (auto simp: HasSuffix_def) (metis drop_eq_Nil last_drop not_le)

lemma ext_chars:
  assumes "Ext ft = Inr ext"
  shows "\<not> HasSuffix (s @ ext) ''.inprogress''" "CHR ''/'' \<notin> set ext" "ext \<noteq> []" "hd ext = CHR ''.''"
    "\<not> HasSuffix (s @ ext @ ''.inprogress'') ext"
proof -
  have ext: "ext \<in> {''.xlog'', ''.snap'', ''.vylog'', ''.run'', ''.index''}"
    using assms by (auto simp: Ext_def filetype_defs split: if_splits)
  show "\<not> HasSuffix (s @ ext) ''.inprogress''" "CHR ''/'' \<notin> set ext" "ext \<noteq> []" "hd ext = CHR ''.''"
    "\<not> HasSuffix (s @ ext @ ''.inprogress'') ext"
    using ext by (auto dest!: HasSuffix_last)
qed

lemma parseJournalName_Sprintf:
  assumes "0 \<le> sint sig" "Ext ft = Inr ext"
  shows "parseJournalName (Sprintf_020d sig @ ext) ext = Inr (sig, True)"
  using ext_chars [OF assms(2)] Sprintf_020d_digits [OF assms(1)] allDigits_digits ParseInt64_Sprintf [OF assms(1)]
  by (simp add: parseJournalName_def)

section \<open>A concrete directory\<close>

text \<open>A directory with one journal file, a stray file and a subdirectory.\<close>

definition sample_listing :: listing where
  "sample_listing p = Inr [(''00000000000000000012.xlog'', False), (''README'', False), (''7.xlog'', True)]"

definition sample_fs :: "string \<Rightarrow> filesystem" where
  "sample_fs hdr p = (if p = ''d/00000000000000000012.xlog'' then Some (str_bytes hdr @ EOFMarker) else None)"

definition sample_entry :: FileEntry where
  "sample_entry = \<lparr>FE_Path = ''d/00000000000000000012.xlog'', FE_Signature = 12, FE_VClock = vclock_canon (MVClock sample_meta),
     FE_PrevVClock = PrevVClock (meta_canon sample_meta), FE_Filetype = FiletypeXLOG\<rparr>"

lemma sample_names:
  "parseJournalName ''00000000000000000012.xlog'' ''.xlog'' = Inr (12, True)"
  "parseJournalName ''README'' ''.xlog'' = Inr (0, False)"
  "filepath_Join ''d'' ''00000000000000000012.xlog'' = ''d/00000000000000000012.xlog''"
  "Ext FiletypeXLOG = Inr ''.xlog''" "checkChain FiletypeXLOG = None" "Signature (MVClock sample_meta) = 12"
proof -
  have twelve: "sint (12 :: int64) = 12" and ext: "Ext FiletypeXLOG = Inr ''.xlog''" by (simp_all add: Ext_def)
  have name: "Sprintf_020d 12 = ''00000000000000000012''" unfolding Sprintf_020d_def twelve by code_simp
  from parseJournalName_Sprintf [of 12, OF _ ext] twelve name
  show "parseJournalName ''00000000000000000012.xlog'' ''.xlog'' = Inr (12, True)" by simp
  show "parseJournalName ''README'' ''.xlog'' = Inr (0, False)" by (simp add: parseJournalName_def HasSuffix_def)
  show "filepath_Join ''d'' ''00000000000000000012.xlog'' = ''d/00000000000000000012.xlog''" by code_simp
  show "Ext FiletypeXLOG = Inr ''.xlog''" by (rule ext)
  show "checkChain FiletypeXLOG = None" by (simp add: checkChain_def filetype_defs)
  show "Signature (MVClock sample_meta) = 12" by (simp add: Signature_def sample_meta_def)
qed

lemma sample_OpenDir:
  assumes "EncodeMeta uuid_hex None (Some sample_meta) = Inr hdr"
  shows "OpenDir uuid_hex (sample_fs hdr) sample_listing None ''d'' FiletypeXLOG
    = Inr \<lparr>dir_path = ''d'', dir_filetype = FiletypeXLOG, entries = [sample_entry]\<rparr>"
proof -
  have "loadEntry uuid_hex (sample_fs hdr) None ''d/00000000000000000012.xlog'' 12 FiletypeXLOG = Inr sample_entry"
    unfolding sample_entry_def
    by (rule loadEntry_ok [OF uuid_hex_ok sample_meta_ok _ assms, where rest = EOFMarker])
      (simp_all only: sample_names sample_fs_def simp_thms if_True, simp add: sample_meta_def LegacyFormatVersion_def)
  then show ?thesis
    by (simp add: OpenDir_def sample_names sample_listing_def buildDir_def del: Ext_def)
qed

section \<open>Properties\<close>

text \<open>
  C36: the index of a directory. Its entries are sorted by signature without duplicates and
  neighbours are comparable; they are exactly the files whose names are journal names of the type,
  each under the path it was found at; clock and previous clock are those of the file's header, and
  the signature of the name is that of the clock. When the clocks do not overflow, the index is
  strictly ascending in the order of clocks.
\<close>

theorem open_dir_index:
  assumes "OpenDir u fs readDir cerr path ft = Inr d" and "readDir path = Inr dents" and "Ext ft = Inr ext"
  shows "sorted_wrt (\<lambda>a b. sint (FE_Signature a) < sint (FE_Signature b)) (Files d)
    \<and> successively (\<lambda>a b. snd (Compare (FE_VClock a) (FE_VClock b))) (Files d)
    \<and> (\<lambda>e. (FE_Path e, FE_Signature e)) ` set (Files d)
        = {(filepath_Join path name, sig) | name sig. (name, False) \<in> set dents \<and> parseJournalName name ext = Inr (sig, True)}
    \<and> (\<forall>e\<in>set (Files d). Signature (FE_VClock e) = FE_Signature e \<and> FE_Filetype e = ft
        \<and> (\<exists>m. ReadHeader u fs cerr (FE_Path e) [] = Inr m \<and> FE_VClock e = MVClock m \<and> FE_PrevVClock e = PrevVClock m))
    \<and> ((\<forall>e\<in>set (Files d). clock_small (FE_VClock e)) \<longrightarrow>
        sorted_wrt (\<lambda>a b. Compare (FE_VClock a) (FE_VClock b) = (- 1, True)) (Files d))"
proof -
  from OpenDir_entries [OF assms] obtain es where
    es: "mset (entries d) = mset es" "list_all2 (\<lambda>(name, sig) e. loadEntry u fs cerr (filepath_Join path name) sig ft = Inr e) (journals ext dents) es"
    by blast
  have set_es: "set (entries d) = set es" using es(1) by (metis set_mset_mset)
  have sorted: "sorted_wrt (\<lambda>a b. sint (FE_Signature a) < sint (FE_Signature b)) (entries d)"
    and comparable: "successively (\<lambda>a b. snd (Compare (FE_VClock a) (FE_VClock b))) (entries d)"
    using OpenDir_cases [OF assms(1)] by (auto simp: buildDir_cases)
  have e: "\<exists>name sig. (name, sig) \<in> set (journals ext dents) \<and> loadEntry u fs cerr (filepath_Join path name) sig ft = Inr e" if "e \<in> set es" for e
    using list_all2_setD2 [OF es(2) that] by auto
  have j: "\<exists>e\<in>set es. loadEntry u fs cerr (filepath_Join path name) sig ft = Inr e" if "(name, sig) \<in> set (journals ext dents)" for name sig
    using list_all2_setD1 [OF es(2) that] by auto
  have paths: "(\<lambda>e. (FE_Path e, FE_Signature e)) ` set es
      = {(filepath_Join path name, sig) | name sig. (name, False) \<in> set dents \<and> parseJournalName name ext = Inr (sig, True)}" (is "?L = ?R")
  proof (intro equalityI subsetI)
    fix x assume "x \<in> ?L"
    then obtain e where "e \<in> set es" "x = (FE_Path e, FE_Signature e)" by auto
    with e [OF this(1)] show "x \<in> ?R" using loadEntry_header(2,3) in_journals by fastforce
  next
    fix x assume "x \<in> ?R"
    then obtain name sig where n: "(name, sig) \<in> set (journals ext dents)" "x = (filepath_Join path name, sig)" by (auto simp: in_journals)
    from j [OF n(1)] obtain e where "e \<in> set es" "loadEntry u fs cerr (filepath_Join path name) sig ft = Inr e" by blast
    with loadEntry_header(2,3) [OF this(2)] n(2) show "x \<in> ?L" by (intro image_eqI [of _ _ e]) simp_all
  qed
  have header: "Signature (FE_VClock e) = FE_Signature e \<and> FE_Filetype e = ft
      \<and> (\<exists>m. ReadHeader u fs cerr (FE_Path e) [] = Inr m \<and> FE_VClock e = MVClock m \<and> FE_PrevVClock e = PrevVClock m)" if "e \<in> set es" for e
    using e [OF that] loadEntry_header by metis
  have "sorted_wrt (\<lambda>a b. Compare (FE_VClock a) (FE_VClock b) = (- 1, True)) (entries d)" if small: "\<forall>e\<in>set (entries d). clock_small (FE_VClock e)"
  proof -
    have "successively (\<lambda>a b. Compare (FE_VClock a) (FE_VClock b) = (- 1, True)) (entries d)"
    proof (rule successively_mono)
      show "successively (\<lambda>a b. snd (Compare (FE_VClock a) (FE_VClock b)) \<and> sint (FE_Signature a) < sint (FE_Signature b)) (entries d)"
        by (rule iffD1 [OF successively_both [OF comparable] successively_if_sorted_wrt [OF sorted]])
      fix a b assume "a \<in> set (entries d)" "b \<in> set (entries d)"
        "snd (Compare (FE_VClock a) (FE_VClock b)) \<and> sint (FE_Signature a) < sint (FE_Signature b)"
      with small header set_es show "Compare (FE_VClock a) (FE_VClock b) = (- 1, True)"
        by (intro comparable_ascending) auto
    qed
    then show ?thesis
      by (subst (asm) successively_conv_sorted_wrt) (auto intro: transpI vclock.cmp_trans)
  qed
  then have asc: "(\<forall>e\<in>set (entries d). clock_small (FE_VClock e)) \<longrightarrow>
      sorted_wrt (\<lambda>a b. Compare (FE_VClock a) (FE_VClock b) = (- 1, True)) (entries d)" by blast
  from header have "\<forall>e\<in>set es. Signature (FE_VClock e) = FE_Signature e \<and> FE_Filetype e = ft
      \<and> (\<exists>m. ReadHeader u fs cerr (FE_Path e) [] = Inr m \<and> FE_VClock e = MVClock m \<and> FE_PrevVClock e = PrevVClock m)" by blast
  with sorted comparable paths asc show ?thesis unfolding Files_def set_es by (intro conjI)
qed

theorem open_dir_index_witness:
  "\<exists>hdr d. OpenDir uuid_hex (sample_fs hdr) sample_listing None ''d'' FiletypeXLOG = Inr d \<and> Files d = [sample_entry]
    \<and> sorted_wrt (\<lambda>a b. sint (FE_Signature a) < sint (FE_Signature b)) (Files d)
    \<and> (\<lambda>e. (FE_Path e, FE_Signature e)) ` set (Files d) = {(filepath_Join ''d'' name, sig) | name sig.
        (name, False) \<in> set [(''00000000000000000012.xlog'', False), (''README'', False), (''7.xlog'', True)]
          \<and> parseJournalName name ''.xlog'' = Inr (sig, True)}"
proof -
  obtain hdr where hdr: "EncodeMeta uuid_hex None (Some sample_meta) = Inr hdr" using sample_hdr by blast
  have l: "sample_listing ''d'' = Inr [(''00000000000000000012.xlog'', False), (''README'', False), (''7.xlog'', True)]"
    by (simp add: sample_listing_def)
  note w = open_dir_index [OF sample_OpenDir [OF hdr] l sample_names(4)]
  have "Files \<lparr>dir_path = ''d'', dir_filetype = FiletypeXLOG, entries = [sample_entry]\<rparr> = [sample_entry]" by (simp add: Files_def)
  with sample_OpenDir [OF hdr] w show ?thesis by blast
qed

text \<open>
  finding the file of a clock. In a chain, the entry found is the last one that is not above the
  target: it is below or equal to it or, where the two are incomparable, its signature is not above
  that of the target. Nothing is found exactly when every entry is above the target.
\<close>

theorem locate_vclock_spec:
  assumes "sorted_wrt (\<lambda>a b. Compare (FE_VClock a) (FE_VClock b) = (- 1, True) \<and> sint (FE_Signature a) < sint (FE_Signature b)) (Files d)"
  shows "(LocateVClock d target = Inl [Dr ErrNotFound] \<longleftrightarrow> (\<forall>e\<in>set (Files d). \<not> not_above target e))
    \<and> (LocateVClock d target = Inr e \<longleftrightarrow> (\<exists>i<length (Files d). e = Files d ! i \<and> not_above target e
         \<and> (\<forall>j<length (Files d). i < j \<longrightarrow> \<not> not_above target (Files d ! j))))"
proof -
  let ?es = "Files d" and ?n = "length (takeWhile (not_above target) (Files d))"
  note lt = locate_vclock_last [OF assms, of _ target]
  have le: "?n \<le> length ?es" by (rule length_takeWhile_le)
  have loc: "LocateVClock d target = (if ?n = 0 then Inl [Dr ErrNotFound] else Inr (?es ! (?n - 1)))"
    by (auto simp: LocateVClock_def locate_vclock_prefix Files_def split: nat.splits)
  have "?n = 0 \<longleftrightarrow> (\<forall>e\<in>set ?es. \<not> not_above target e)"
  proof
    assume n: "?n = 0"
    show "\<forall>e\<in>set ?es. \<not> not_above target e"
    proof
      fix e assume "e \<in> set ?es"
      then obtain j where "j < length ?es" "e = ?es ! j" by (auto simp: in_set_conv_nth)
      with lt [of j] n show "\<not> not_above target e" by simp
    qed
  qed (auto simp: takeWhile_eq_Nil_iff)
  moreover have "(\<exists>i<length ?es. e = ?es ! i \<and> not_above target e \<and> (\<forall>j<length ?es. i < j \<longrightarrow> \<not> not_above target (?es ! j)))
      \<longleftrightarrow> 0 < ?n \<and> e = ?es ! (?n - 1)"
  proof
    assume "\<exists>i<length ?es. e = ?es ! i \<and> not_above target e \<and> (\<forall>j<length ?es. i < j \<longrightarrow> \<not> not_above target (?es ! j))"
    then obtain i where i: "i < length ?es" "e = ?es ! i" "i < ?n" "\<forall>j<length ?es. i < j \<longrightarrow> \<not> j < ?n" using lt by auto
    have "?n = Suc i" using i(3,4) le by (metis Suc_lessI lessI less_le_trans)
    with i show "0 < ?n \<and> e = ?es ! (?n - 1)" by simp
  next
    assume n: "0 < ?n \<and> e = ?es ! (?n - 1)"
    then have k: "?n - 1 < length ?es" "?n - 1 < ?n" using le by linarith+
    with n show "\<exists>i<length ?es. e = ?es ! i \<and> not_above target e \<and> (\<forall>j<length ?es. i < j \<longrightarrow> \<not> not_above target (?es ! j))"
      using lt [OF k(1)] lt by (intro exI [of _ "?n - 1"]) auto
  qed
  ultimately show ?thesis using loc by auto
qed

theorem locate_vclock_spec_witness:
  "LocateVClock \<lparr>dir_path = ''d'', dir_filetype = FiletypeXLOG, entries = [sample_entry]\<rparr> (Some [(1, 9), (2, 5)]) = Inr sample_entry"
proof -
  let ?d = "\<lparr>dir_path = ''d'', dir_filetype = FiletypeXLOG, entries = [sample_entry]\<rparr>"
  have "vclock.cle (FE_VClock sample_entry) (Some [(1, 9), (2, 5)])"
    by (auto simp: vclock.cle_def sample_entry_def sample_meta_def vget_def)
  then have "not_above (Some [(1, 9), (2, 5)]) sample_entry" by (simp add: not_above_def)
  with locate_vclock_spec [of ?d "Some [(1, 9), (2, 5)]" sample_entry] show ?thesis by (simp add: Files_def)
qed

text \<open>
  finding the file of a sequence number. The entry found has the largest component of the replica
  that is not above the number, the latest of them where several have it; nothing is found exactly
  when the component of every entry is above the number.
\<close>

theorem locate_lsn_spec:
  "(LocateLSN d rid lsn = Inl [Dr ErrNotFound] \<longleftrightarrow> (\<forall>e\<in>set (Files d). sint lsn < sint (vget (FE_VClock e) rid)))
    \<and> (LocateLSN d rid lsn = Inr e \<longrightarrow> (\<exists>i<length (Files d). e = Files d ! i \<and> sint (vget (FE_VClock e) rid) \<le> sint lsn
         \<and> (\<forall>j<length (Files d). sint (vget (FE_VClock (Files d ! j)) rid) \<le> sint lsn \<longrightarrow>
              sint (vget (FE_VClock (Files d ! j)) rid) \<le> sint (vget (FE_VClock e) rid)
            \<and> (i < j \<longrightarrow> sint (vget (FE_VClock (Files d ! j)) rid) < sint (vget (FE_VClock e) rid)))))"
  by (rule LocateLSN_best)

theorem locate_lsn_spec_witness:
  "LocateLSN \<lparr>dir_path = ''d'', dir_filetype = FiletypeXLOG, entries = [sample_entry]\<rparr> 1 8 = Inr sample_entry
    \<and> LocateLSN \<lparr>dir_path = ''d'', dir_filetype = FiletypeXLOG, entries = [sample_entry]\<rparr> 1 6 = Inl [Dr ErrNotFound]"
proof -
  let ?d = "\<lparr>dir_path = ''d'', dir_filetype = FiletypeXLOG, entries = [sample_entry]\<rparr>"
  have v: "vget (FE_VClock sample_entry) 1 = 7" by (simp add: sample_entry_def sample_meta_def vget_def)
  obtain x where "LocateLSN ?d 1 8 = x" by simp
  with locate_lsn_spec [of ?d 1 8 sample_entry] locate_lsn_spec [of ?d 1 6] v show ?thesis
    by (cases "LocateLSN ?d 1 8") (auto simp: Files_def LocateLSN_def)
qed

end
