(* ===== verification/Rotate.thy ===== *)
theory Rotate
  imports Dir
begin

unbundle bit_operations_syntax

text \<open>
  The rotating writer (\<^verbatim>\<open>rotate/rotate.go\<close>, \<^verbatim>\<open>rotate/options.go\<close>): a chain of files in one directory,
  each named by the signature of the clock it starts at and linked to the clock of its predecessor.
  The mutex serialises the operations, so a run is a sequence of them. The directory itself is not part
  of the file system model: creating it only may fail.
\<close>

section \<open>Configuration and state\<close>

record rotateCfg =
  maxFileSize :: int64
  rwriterOpts :: "WriterOption list"

definition defaultMaxFileSize :: int64 where "defaultMaxFileSize = 64 * 1024 * 1024"

definition defaultRotateCfg :: rotateCfg where
  "defaultRotateCfg = \<lparr>maxFileSize = defaultMaxFileSize, rwriterOpts = []\<rparr>"

type_synonym RotateOption = "rotateCfg \<Rightarrow> rotateCfg"

definition MaxFileSize :: "int64 \<Rightarrow> RotateOption" where "MaxFileSize n c = c\<lparr>maxFileSize := n\<rparr>"
definition WriterOptions :: "WriterOption list \<Rightarrow> RotateOption" where "WriterOptions opts c = c\<lparr>rwriterOpts := rwriterOpts c @ opts\<rparr>"

definition rowHeaderEstimateBytes :: nat where "rowHeaderEstimateBytes = 30"

record RotatingWriter =
  rw_dirPath :: string
  rw_filetype :: Filetype
  rw_instance :: bytes
  rw_opts :: rotateCfg
  rw_cur :: "Writer option"
  curOpenVClock :: VClock
  curBytes :: int64
  runningVClock :: VClock
  rw_closed :: bool

section \<open>Operations\<close>

type_synonym rotate_result = "error option \<times> RotatingWriter \<times> world"

definition openCurrent :: "uuidlib \<Rightarrow> faults \<Rightarrow> VClock \<Rightarrow> RotatingWriter \<Rightarrow> world \<Rightarrow> rotate_result" where
  "openCurrent u fl prevVClock rw w = (case Ext (rw_filetype rw) of
     Inl e \<Rightarrow> (Some e, rw, w)
   | Inr ext \<Rightarrow>
       (let sig = Signature (runningVClock rw);
            name = Sprintf_020d sig @ ext;
            path = filepath_Join (rw_dirPath rw) name;
            openVClock = VClock_Clone (runningVClock rw);
            meta = \<lparr>MFiletype = rw_filetype rw, FormatVer = [], Version = ''go-xlog/rotate'', InstanceUUID = rw_instance rw,
                    MVClock = VClock_Clone openVClock, PrevVClock = prevVClock, Extras = None\<rparr>
        in case Create u fl path (Some meta) (rwriterOpts (rw_opts rw)) w of
             (Inl e, w') \<Rightarrow> (Some e, rw, w')
           | (Inr wr, w') \<Rightarrow> (None, rw\<lparr>rw_cur := Some wr, curOpenVClock := openVClock, curBytes := 0\<rparr>, w')))"

definition New ::
    "uuidlib \<Rightarrow> faults \<Rightarrow> error option \<Rightarrow> string \<Rightarrow> Filetype \<Rightarrow> bytes \<Rightarrow> VClock \<Rightarrow> RotateOption list \<Rightarrow> world \<Rightarrow> (error + RotatingWriter) \<times> world" where
  "New u fl mkdirErr dirPath filetype inst startVClock opts w =
     (let c = foldl (\<lambda>c opt. opt c) defaultRotateCfg opts in
      case mkdirErr of Some e \<Rightarrow> (Inl e, w)
      | None \<Rightarrow> (case Ext filetype of Inl e \<Rightarrow> (Inl e, w)
        | Inr ext \<Rightarrow>
            (let running = (case VClock_Clone startVClock of None \<Rightarrow> Some [] | Some es \<Rightarrow> Some es);
                 rw = \<lparr>rw_dirPath = dirPath, rw_filetype = filetype, rw_instance = inst, rw_opts = c, rw_cur = None,
                       curOpenVClock = VClock_Clone running, curBytes = 0, runningVClock = running, rw_closed = False\<rparr>
             in case openCurrent u fl None rw w of
                  (Some e, rw', w') \<Rightarrow> (Inl e, w')
                | (None, rw', w') \<Rightarrow> (Inr rw', w'))))"

definition rotateLocked :: "uuidlib \<Rightarrow> iproto \<Rightarrow> zstd \<Rightarrow> faults \<Rightarrow> RotatingWriter \<Rightarrow> world \<Rightarrow> rotate_result" where
  "rotateLocked u ip z fl rw w = (case rw_cur rw of
     None \<Rightarrow> (Some [Ch ErrNoActiveWriter], rw, w)
   | Some wr \<Rightarrow>
       (case Writer_Close ip z fl wr w of
          (Some e, wr', w') \<Rightarrow> (Some e, rw\<lparr>rw_cur := Some wr'\<rparr>, w')
        | (None, wr', w') \<Rightarrow> openCurrent u fl (VClock_Clone (curOpenVClock rw)) (rw\<lparr>rw_cur := None\<rparr>) w'))"

text \<open>The loop that advances the running clock; the assignment panics on a nil map.\<close>

fun advance_rows :: "XRow list \<Rightarrow> VClock \<Rightarrow> error + VClock" where
  "advance_rows [] running = Inr running"
| "advance_rows (r # rows) running =
     (if sint (LSN r) > sint (vget running (ReplicaID r)) then
        (case vset running (ReplicaID r) (LSN r) of Inl e \<Rightarrow> Inl e | Inr running' \<Rightarrow> advance_rows rows running')
      else advance_rows rows running)"

text \<open>The caller's rows are stamped in place: the rows after the call are returned as well.\<close>

definition Rotate_write :: "iproto \<Rightarrow> zstd \<Rightarrow> faults \<Rightarrow> XRow list \<Rightarrow> RotatingWriter \<Rightarrow> world \<Rightarrow> XRow list \<times> rotate_result" where
  "Rotate_write ip z fl rows rw w = (case advance_rows rows (runningVClock rw) of
     Inl e \<Rightarrow> (rows, Some e, rw, w)
   | Inr running \<Rightarrow>
       (let rw = rw\<lparr>runningVClock := running\<rparr> in
        case rw_cur rw of None \<Rightarrow> (rows, Some [Go Panic], rw, w)
        | Some wr \<Rightarrow>
            (case WriteTx ip z fl rows wr w of
               (rows', Some e, wr', w') \<Rightarrow> (rows', Some e, rw\<lparr>rw_cur := Some wr'\<rparr>, w')
             | (rows', None, wr', w') \<Rightarrow>
                 (rows', None, rw\<lparr>rw_cur := Some wr',
                    curBytes := foldl (\<lambda>n r. n + of_nat (rowHeaderEstimateBytes + length (BodyRaw r))) (curBytes rw) rows'\<rparr>, w'))))"

definition Rotate_WriteTx :: "uuidlib \<Rightarrow> iproto \<Rightarrow> zstd \<Rightarrow> faults \<Rightarrow> XRow list \<Rightarrow> RotatingWriter \<Rightarrow> world \<Rightarrow> XRow list \<times> rotate_result" where
  "Rotate_WriteTx u ip z fl rows rw w =
     (if length rows = 0 then (rows, Some [Ch ErrRotateEmptyRows], rw, w)
      else if rw_closed rw then (rows, Some [Ch ErrRotateClosed], rw, w)
      else if sint (curBytes rw) \<ge> sint (maxFileSize (rw_opts rw)) then
        (case rotateLocked u ip z fl rw w of
           (Some e, rw', w') \<Rightarrow> (rows, Some e, rw', w')
         | (None, rw', w') \<Rightarrow> Rotate_write ip z fl rows rw' w')
      else Rotate_write ip z fl rows rw w)"

definition Rotate_Close :: "iproto \<Rightarrow> zstd \<Rightarrow> faults \<Rightarrow> RotatingWriter \<Rightarrow> world \<Rightarrow> rotate_result" where
  "Rotate_Close ip z fl rw w =
     (if rw_closed rw then (Some [Ch ErrRotateClosed], rw, w)
      else (let rw = rw\<lparr>rw_closed := True\<rparr> in
        case rw_cur rw of None \<Rightarrow> (None, rw, w)
        | Some wr \<Rightarrow> (case Writer_Close ip z fl wr w of (e, wr', w') \<Rightarrow> (e, rw\<lparr>rw_cur := None\<rparr>, w'))))"

section \<open>No run panics\<close>

text \<open>
  Any operations with any failures: the running clock stays a map, and the writer is missing only
  after a failed rotation, when the next write tries to rotate again.
\<close>

datatype rotate_op = RWrite "XRow list" | RClose

definition rotate_step :: "uuidlib \<Rightarrow> iproto \<Rightarrow> zstd \<Rightarrow> faults \<Rightarrow> rotate_op \<Rightarrow> RotatingWriter \<Rightarrow> world \<Rightarrow> rotate_result" where
  "rotate_step u ip z fl op rw w = (case op of
     RWrite rows \<Rightarrow> snd (Rotate_WriteTx u ip z fl rows rw w) | RClose \<Rightarrow> Rotate_Close ip z fl rw w)"

inductive rotate_run :: "uuidlib \<Rightarrow> iproto \<Rightarrow> zstd \<Rightarrow> RotatingWriter \<Rightarrow> bool" for u ip z where
  started: "New u fl mkdirErr dirPath ft inst v opts w = (Inr rw, w') \<Longrightarrow> rotate_run u ip z rw"
| stepped: "rotate_run u ip z rw \<Longrightarrow> rotate_step u ip z fl op rw w = (e, rw', w') \<Longrightarrow> rotate_run u ip z rw'"

definition rotate_inv :: "RotatingWriter \<Rightarrow> bool" where
  "rotate_inv rw \<longleftrightarrow> runningVClock rw \<noteq> None
     \<and> (rw_cur rw = None \<longrightarrow> rw_closed rw \<or> sint (curBytes rw) \<ge> sint (maxFileSize (rw_opts rw)))"

lemma advance_rows_some: "\<exists>es'. advance_rows rows (Some es) = Inr (Some es')"
proof (induction rows arbitrary: es)
  case (Cons r rows)
  then show ?case by (cases "sint (LSN r) > sint (vget (Some es) (ReplicaID r))") (simp_all add: vset_def)
qed simp

lemma openCurrent_result:
  assumes "openCurrent u fl prev rw w = (e, rw', w')"
  shows "runningVClock rw' = runningVClock rw" "rw_opts rw' = rw_opts rw" "rw_closed rw' = rw_closed rw"
    "e \<noteq> None \<Longrightarrow> rw' = rw" "e = None \<Longrightarrow> rw_cur rw' \<noteq> None"
  using assms by (auto simp: openCurrent_def Let_def split: sum.splits prod.splits)

lemma New_inv: "New u fl mkdirErr dirPath ft inst v opts w = (Inr rw, w') \<Longrightarrow> rotate_inv rw"
proof -
  assume "New u fl mkdirErr dirPath ft inst v opts w = (Inr rw, w')"
  then obtain rw0 where o: "openCurrent u fl None rw0 w = (None, rw, w')" "runningVClock rw0 \<noteq> None"
    by (auto simp: New_def Let_def split: option.splits sum.splits prod.splits)
  from openCurrent_result(1,5) [OF o(1)] o(2) show "rotate_inv rw" by (auto simp: rotate_inv_def)
qed

lemma Rotate_write_inv:
  assumes "Rotate_write ip z fl rows rw w = (rows', e, rw', w')" "runningVClock rw \<noteq> None" "rw_cur rw \<noteq> None"
  shows "rotate_inv rw'" "\<exists>wr r. rw_cur rw = Some wr \<and> WriteTx ip z fl rows wr w = (rows', e, r, w')"
proof -
  obtain es wr where s: "runningVClock rw = Some es" "rw_cur rw = Some wr" using assms(2,3) by blast
  obtain es' where "advance_rows rows (Some es) = Inr (Some es')" using advance_rows_some by blast
  with assms(1) s show "rotate_inv rw'" "\<exists>wr r. rw_cur rw = Some wr \<and> WriteTx ip z fl rows wr w = (rows', e, r, w')"
    by (auto simp: Rotate_write_def rotate_inv_def Let_def split: prod.splits option.splits)
qed

lemma rotateLocked_inv:
  assumes "rotateLocked u ip z fl rw w = (e, rw', w')" "runningVClock rw \<noteq> None" "sint (curBytes rw) \<ge> sint (maxFileSize (rw_opts rw))"
  shows "rotate_inv rw'" "e = None \<Longrightarrow> rw_cur rw' \<noteq> None" "runningVClock rw' \<noteq> None"
proof -
  have "rotate_inv rw' \<and> (e = None \<longrightarrow> rw_cur rw' \<noteq> None)"
  proof (cases "\<exists>wr wr1 w1. rw_cur rw = Some wr \<and> Writer_Close ip z fl wr w = (None, wr1, w1)")
    case True
    with assms(1) obtain w1 where o: "openCurrent u fl (VClock_Clone (curOpenVClock rw)) (rw\<lparr>rw_cur := None\<rparr>) w1 = (e, rw', w')"
      by (auto simp: rotateLocked_def)
    show ?thesis using openCurrent_result [OF o] assms(2,3) by (cases e) (auto simp: rotate_inv_def)
  next
    case False
    with assms show ?thesis by (auto simp: rotateLocked_def rotate_inv_def split: option.splits prod.splits)
  qed
  then show "rotate_inv rw'" "e = None \<Longrightarrow> rw_cur rw' \<noteq> None" "runningVClock rw' \<noteq> None" by (auto simp: rotate_inv_def)
qed

text \<open>A write fails in the rotation or is a write of a present writer.\<close>

lemma Rotate_WriteTx_cases:
  assumes "Rotate_WriteTx u ip z fl rows rw w = (rows', e, rw', w')" "rotate_inv rw" "rows \<noteq> []" "\<not> rw_closed rw"
  shows "rotate_inv rw'"
    "rotateLocked u ip z fl rw w = (e, rw', w') \<and> e \<noteq> None
      \<or> (\<exists>rw1 w1 wr r. (rotateLocked u ip z fl rw w = (None, rw1, w1) \<or> rw1 = rw \<and> w1 = w) \<and> rw_cur rw1 = Some wr \<and> WriteTx ip z fl rows wr w1 = (rows', e, r, w'))"
proof -
  have "rotate_inv rw' \<and> (rotateLocked u ip z fl rw w = (e, rw', w') \<and> e \<noteq> None
      \<or> (\<exists>rw1 w1 wr r. (rotateLocked u ip z fl rw w = (None, rw1, w1) \<or> rw1 = rw \<and> w1 = w) \<and> rw_cur rw1 = Some wr \<and> WriteTx ip z fl rows wr w1 = (rows', e, r, w')))"
  proof (cases "sint (curBytes rw) \<ge> sint (maxFileSize (rw_opts rw))")
    case True
    obtain e1 rw1 w1 where r: "rotateLocked u ip z fl rw w = (e1, rw1, w1)" by (metis prod_cases3)
    note inv = rotateLocked_inv [OF r _ True]
    have running: "runningVClock rw \<noteq> None" using assms(2) by (simp add: rotate_inv_def)
    show ?thesis
    proof (cases e1)
      case None
      with assms r True have "Rotate_write ip z fl rows rw1 w1 = (rows', e, rw', w')" by (simp add: Rotate_WriteTx_def)
      from Rotate_write_inv [OF this inv(3) inv(2)] running None r show ?thesis by blast
    next
      case (Some x)
      with assms r True have "e = e1" "rw' = rw1" "w' = w1" by (auto simp: Rotate_WriteTx_def)
      with inv running r Some show ?thesis by simp
    qed
  next
    case False
    with assms have r: "Rotate_write ip z fl rows rw w = (rows', e, rw', w')" by (simp add: Rotate_WriteTx_def)
    have "runningVClock rw \<noteq> None" "rw_cur rw \<noteq> None" using assms(2,4) False unfolding rotate_inv_def by blast+
    from Rotate_write_inv [OF r this] show ?thesis by blast
  qed
  then show "rotate_inv rw'"
    "rotateLocked u ip z fl rw w = (e, rw', w') \<and> e \<noteq> None
      \<or> (\<exists>rw1 w1 wr r. (rotateLocked u ip z fl rw w = (None, rw1, w1) \<or> rw1 = rw \<and> w1 = w) \<and> rw_cur rw1 = Some wr \<and> WriteTx ip z fl rows wr w1 = (rows', e, r, w'))" by blast+
qed

lemma Rotate_Close_inv: "Rotate_Close ip z fl rw w = (e, rw', w') \<Longrightarrow> rotate_inv rw \<Longrightarrow> rotate_inv rw'"
  by (auto simp: Rotate_Close_def rotate_inv_def Let_def split: if_splits option.splits prod.splits)

lemma rotate_run_inv: "rotate_run u ip z rw \<Longrightarrow> rotate_inv rw"
proof (induction rule: rotate_run.induct)
  case (started fl mkdirErr dirPath ft inst v opts w rw w')
  then show ?case by (rule New_inv)
next
  case (stepped rw fl op w e rw' w')
  show ?case
  proof (cases op)
    case (RWrite rows)
    obtain rows' where r: "Rotate_WriteTx u ip z fl rows rw w = (rows', e, rw', w')"
      using stepped.hyps(2) RWrite by (cases "Rotate_WriteTx u ip z fl rows rw w") (simp add: rotate_step_def)
    show ?thesis
    proof (cases "rows = [] \<or> rw_closed rw")
      case True
      with r stepped.IH show ?thesis by (auto simp: Rotate_WriteTx_def split: if_splits)
    next
      case False
      with Rotate_WriteTx_cases(1) [OF r stepped.IH] show ?thesis by simp
    qed
  next
    case RClose
    with stepped.hyps(2) stepped.IH show ?thesis by (simp add: rotate_step_def Rotate_Close_inv)
  qed
qed

section \<open>Closing a file and opening the next\<close>

text \<open>No operation of a writer allots an inode, and a device without limit stays one.\<close>

definition same_device :: "world \<Rightarrow> world \<Rightarrow> bool" where
  "same_device w w' \<longleftrightarrow> fresh w' = fresh w \<and> (room w = None \<longrightarrow> room w' = None)"

lemma same_device_trans: "same_device w w1 \<Longrightarrow> same_device w1 w2 \<Longrightarrow> same_device w w2"
  by (simp add: same_device_def)

lemma same_device_refl [simp]: "same_device w w"
  by (simp add: same_device_def)

lemma wrote_device: "wrote ino w w' s \<Longrightarrow> same_device w w'"
  by (auto simp: same_device_def wrote_simps wrote_room)

lemma bw_Write_device: "bw_Write fl p b w = (e, b', w') \<Longrightarrow> same_device w w'"
  using bw_Write_wrote [of fl p b w e b' w'] wrote_device by blast

lemma bw_Flush_device: "bw_Flush fl b w = (e, b', w') \<Longrightarrow> same_device w w'"
  using bw_Flush_wrote [of fl b w e b' w'] wrote_device by blast

lemma encodeAndWriteTx_device: "encodeAndWriteTx ip z fl rows wr w = (e, wr', w') \<Longrightarrow> same_device w w'"
proof -
  assume a: "encodeAndWriteTx ip z fl rows wr w = (e, wr', w')"
  let ?c = "compression (wcfg wr)" and ?p = "payload_bytes ip rows"
  obtain fh where fh: "EncodeFixheader (Some (frame_header z ?c ?p)) = Inr fh" by (rule frame_header_bytes)
  obtain e1 b1 w1 where r1: "bw_Write fl fh (bw wr) w = (e1, b1, w1)" by (metis prod_cases3)
  obtain e2 b2 w2 where r2: "bw_Write fl (on_disk z ?c ?p) b1 w1 = (e2, b2, w2)" by (metis prod_cases3)
  from a have "w' = (if e1 = None then w2 else w1)"
    by (auto simp: encodeAndWriteTx_def AppendTxBlockPayload_bytes writeFramed_frame [OF fh] r1 r2 split: option.splits)
  with bw_Write_device [OF r1] bw_Write_device [OF r2] same_device_trans show "same_device w w'" by auto
qed

lemma CommitTx_device: "CommitTx ip z fl wr w = (e, wr', w') \<Longrightarrow> same_device w w'"
  by (auto simp: CommitTx_def Let_def dest: encodeAndWriteTx_device split: if_splits prod.splits option.splits)

lemma close_publish_device: "close_publish fl wr w = (e, wr', w') \<Longrightarrow> same_device w w'"
  by (auto simp: close_publish_def Rename_def SyncDir_def same_device_def Let_def split: option.splits prod.splits if_splits)

lemma syncFile_device: "syncFile fl wr w = (e, w') \<Longrightarrow> same_device w w'"
  by (auto simp: syncFile_def file_sync_def same_device_def split: option.splits SyncMode.splits)

lemma Writer_Close_device: "Writer_Close ip z fl wr w = (e, wr', w') \<Longrightarrow> same_device w w'"
proof (cases "closed wr")
  case True
  then show "Writer_Close ip z fl wr w = (e, wr', w') \<Longrightarrow> same_device w w'" by (simp add: Writer_Close_def same_device_def)
next
  case False
  assume a: "Writer_Close ip z fl wr w = (e, wr', w')"
  obtain e1 wr1 w1 where r1: "CommitTx ip z fl wr w = (e1, wr1, w1)" by (metis prod_cases3)
  obtain e2 b2 w2 where r2: "bw_Write fl EOFMarker (bw wr1) w1 = (e2, b2, w2)" by (metis prod_cases3)
  obtain e3 b3 w3 where r3: "bw_Flush fl b2 w2 = (e3, b3, w3)" by (metis prod_cases3)
  obtain e4 w4 where r4: "syncFile fl (wr1\<lparr>bw := b3\<rparr>) w3 = (e4, w4)" by fastforce
  obtain e5 wr5 w5 where r5: "close_publish fl (wr1\<lparr>bw := b3\<rparr>) w4 = (e5, wr5, w5)" by (metis prod_cases3)
  note steps = CommitTx_device [OF r1] bw_Write_device [OF r2] bw_Flush_device [OF r3] syncFile_device [OF r4] close_publish_device [OF r5]
  have "w' \<in> {w1, w2, w3, w4, w5}"
    using a False r1 r2 r3 r4 r5 by (cases e1; cases e2; cases e3; cases e4) (auto simp: Writer_Close_def close_fail_def Let_def split: if_splits)
  with steps show "same_device w w'" by (auto simp: same_device_def)
qed

lemma session_fresh: "session u ip z path m opts w0 blks wr w \<Longrightarrow> fresh w = Suc (fresh w0)"
proof (induction rule: session.induct)
  case (created fl wr w)
  then show ?case
    by (auto simp: Create_def OpenExcl_def encode_meta_to_def Let_def same_device_def
        dest!: bw_Write_device split: sum.splits prod.splits option.splits if_splits)
next
  case (operated blks wr w fl op e wr' w')
  from wstep_logs [OF operated.hyps(2)] operated.IH show ?case by (simp add: logs_def keeps_def)
qed

text \<open>A successful close of a file, and what it leaves of the others.\<close>

lemma session_closed:
  assumes "session u ip z path m opts w0 blks wr w" "world_ok w0" "room w = None" "Writer_Close ip z fl wr w = (None, wr', w')"
  shows "names w' = (names w0)(path \<mapsto> fresh w0)" "\<forall>i. i \<noteq> fresh w0 \<longrightarrow> content w' i = content w0 i" "world_ok w'" "room w' = None"
proof -
  let ?ino = "fresh w0" and ?i = "path @ ''.inprogress''"
  from session_invariant [OF assms(1)] have i: "wpath wr = path" "inprogressPath wr = ?i" "\<not> closed wr" "wf wr = Some ?ino"
    "bw_ino (bw wr) = ?ino" "names w = (names w0)(?i \<mapsto> ?ino)" "names w0 ?i = None" "\<forall>i. i \<noteq> ?ino \<longrightarrow> content w i = content w0 i"
    by (auto simp: session_inv_def)
  from assms(4) i(3-5) have n: "names w' = (names w0)(path \<mapsto> ?ino) \<and> (\<forall>i. i \<noteq> ?ino \<longrightarrow> content w' i = content w0 i)"
  proof (cases rule: Close_cases)
    case (published wr3 w4)
    from close_publish_result [OF published(2), of ?i path ?ino] published i
    have "content w' = content w4" "names w' = (names w)(?i := None, path \<mapsto> ?ino)" by auto
    with published(8) i show ?thesis by (auto simp: fun_eq_iff)
  qed simp
  then show "names w' = (names w0)(path \<mapsto> ?ino)" "\<forall>i. i \<noteq> ?ino \<longrightarrow> content w' i = content w0 i" by blast+
  from Writer_Close_device [OF assms(4)] session_fresh [OF assms(1)] assms(3)
  show "world_ok w'" "room w' = None" using n assms(2) by (auto simp: world_ok_def same_device_def less_Suc_eq)
qed

section \<open>The running clock\<close>

definition vadvance :: "XRow list \<Rightarrow> VClock \<Rightarrow> VClock" where
  "vadvance rows v = (case advance_rows rows v of Inl e \<Rightarrow> v | Inr v' \<Rightarrow> v')"

lemma advance_rows_vadvance: "v \<noteq> None \<Longrightarrow> advance_rows rows v = Inr (vadvance rows v)" "v \<noteq> None \<Longrightarrow> vadvance rows v \<noteq> None"
  using advance_rows_some [of rows "the v"] by (auto simp: vadvance_def)

lemma vadvance_simps:
  "vadvance [] v = v"
  "v \<noteq> None \<Longrightarrow> vadvance (r # rows) v = vadvance rows (if sint (LSN r) > sint (vget v (ReplicaID r))
     then Some (entries_set (ventries v) (ReplicaID r) (LSN r)) else v)"
proof -
  show "vadvance [] v = v" by (simp add: vadvance_def)
  assume "v \<noteq> None"
  then obtain es where "v = Some es" by blast
  with advance_rows_some [of rows "entries_set es (ReplicaID r) (LSN r)"]
  show "vadvance (r # rows) v = vadvance rows (if sint (LSN r) > sint (vget v (ReplicaID r))
     then Some (entries_set (ventries v) (ReplicaID r) (LSN r)) else v)" by (auto simp: vadvance_def vset_def)
qed

lemma vadvance_append: "v \<noteq> None \<Longrightarrow> vadvance (rows @ rows') v = vadvance rows' (vadvance rows v)"
  by (induction rows arbitrary: v) (simp_all add: vadvance_simps)

lemma vget_entries_set: "vget (Some (entries_set es k x)) rid = (if rid = k then x else vget (Some es) rid)"
  by (simp add: vget_def map_of_entries_set)

lemma vadvance_wf: "v \<noteq> None \<Longrightarrow> vclock_wf v \<Longrightarrow> vclock_wf (vadvance rows v)"
  by (induction rows arbitrary: v) (auto simp: vadvance_simps vclock_wf_def vids_def distinct_entries_set)

lemma vadvance_step:
  assumes "v \<noteq> None"
  shows "vclock.cle v (if sint (LSN r) > sint (vget v (ReplicaID r)) then Some (entries_set (ventries v) (ReplicaID r) (LSN r)) else v)"
  using assms by (auto simp: vclock.cle_def vget_entries_set)

lemma vadvance_cle: "v \<noteq> None \<Longrightarrow> vclock.cle v (vadvance rows v)"
proof (induction rows arbitrary: v)
  case Nil
  then show ?case by (simp add: vadvance_simps vclock.cle_refl)
next
  case (Cons r rows)
  let ?v = "if sint (LSN r) > sint (vget v (ReplicaID r)) then Some (entries_set (ventries v) (ReplicaID r) (LSN r)) else v"
  have "?v \<noteq> None" using Cons.prems by simp
  from vclock.cle_trans [OF vadvance_step [OF Cons.prems] Cons.IH [OF this]] show ?case
    using Cons.prems by (simp add: vadvance_simps)
qed

text \<open>Every row's number is at most the clock's component after it.\<close>

lemma vadvance_covers: "v \<noteq> None \<Longrightarrow> r \<in> set rows \<Longrightarrow> sint (LSN r) \<le> sint (vget (vadvance rows v) (ReplicaID r))"
proof (induction rows arbitrary: v)
  case (Cons q rows)
  let ?v = "if sint (LSN q) > sint (vget v (ReplicaID q)) then Some (entries_set (ventries v) (ReplicaID q) (LSN q)) else v"
  have v: "?v \<noteq> None" using Cons.prems(1) by simp
  show ?case
  proof (cases "r = q")
    case True
    have "sint (LSN q) \<le> sint (vget ?v (ReplicaID q))" using Cons.prems(1) by (auto simp: vget_entries_set)
    also have "\<dots> \<le> sint (vget (vadvance rows ?v) (ReplicaID q))" using vadvance_cle [OF v] by (simp add: vclock.cle_def)
    finally show ?thesis using True Cons.prems(1) by (simp add: vadvance_simps)
  next
    case False
    with Cons.IH [OF v] Cons.prems show ?thesis by (simp add: vadvance_simps)
  qed
qed simp

text \<open>A transaction with a row that is new to the clock.\<close>

definition advances :: "VClock \<Rightarrow> XRow list \<Rightarrow> bool" where
  "advances v rows \<longleftrightarrow> (\<exists>r\<in>set rows. sint (vget v (ReplicaID r)) < sint (LSN r))"

fun sequenced :: "VClock \<Rightarrow> XRow list list \<Rightarrow> bool" where
  "sequenced v [] = True"
| "sequenced v (rows # txs) = (advances v rows \<and> sequenced (vadvance rows v) txs)"

lemma sequenced_append: "v \<noteq> None \<Longrightarrow> sequenced v (txs @ txs') \<longleftrightarrow> sequenced v txs \<and> sequenced (vadvance (concat txs) v) txs'"
proof (induction txs arbitrary: v)
  case (Cons rows txs)
  with Cons.IH [OF advance_rows_vadvance(2) [OF Cons.prems]] show ?case by (simp add: vadvance_append)
qed (simp add: vadvance_simps)

lemma advances_sum: "v \<noteq> None \<Longrightarrow> advances v rows \<Longrightarrow> clock_sum v < clock_sum (vadvance rows v)"
proof -
  assume v: "v \<noteq> None" "advances v rows"
  then obtain r where r: "r \<in> set rows" "sint (vget v (ReplicaID r)) < sint (LSN r)" by (auto simp: advances_def)
  then have "vget v (ReplicaID r) \<noteq> vget (vadvance rows v) (ReplicaID r)" using vadvance_covers [OF v(1) r(1)] by auto
  then show ?thesis by (rule clock_sum_strict [OF vadvance_cle [OF v(1)]])
qed

lemma sequenced_sum: "v \<noteq> None \<Longrightarrow> sequenced v txs \<Longrightarrow> txs \<noteq> [] \<Longrightarrow> clock_sum v < clock_sum (vadvance (concat txs) v)"
proof (cases txs)
  case (Cons rows txs')
  assume v: "v \<noteq> None" "sequenced v txs"
  have "clock_sum v < clock_sum (vadvance rows v)" using v Cons by (intro advances_sum) auto
  also have "\<dots> \<le> clock_sum (vadvance (concat txs') (vadvance rows v))"
    using v(1) by (intro clock_sum_mono vadvance_cle advance_rows_vadvance(2))
  finally show ?thesis using Cons v(1) by (simp add: vadvance_append)
qed simp

lemma vadvance_small:
  assumes "v \<noteq> None" "clock_small v" "vclock.cle (vadvance rows v) v'" "clock_small v'"
  shows "clock_small (vadvance rows v)"
proof -
  have "0 \<le> sint (vget (vadvance rows v) rid)" for rid
    using vadvance_cle [OF assms(1), of rows] assms(2) by (meson clock_small_def order_trans vclock.cle_def)
  moreover have "clock_sum (vadvance rows v) < 2 ^ 63" using clock_sum_mono [OF assms(3)] assms(4) by (simp add: clock_small_def)
  ultimately show ?thesis using assms(1,2) vadvance_wf by (simp add: clock_small_def)
qed

end
