(* ===== verification/RotateChain.thy ===== *)
theory RotateChain
  imports Rotate
begin

unbundle bit_operations_syntax

text \<open>
  The chain a rotating writer leaves in a directory. While nothing fails, the files hold the
  transactions in order, each file carries the clock at its start and that of its predecessor, and no
  transaction is split; the directory index lists exactly these files.
\<close>

section \<open>The files of a chain\<close>

record rotation =
  ru :: uuidlib
  rip :: iproto
  rz :: zstd
  rdir :: string
  rft :: Filetype
  rext :: string
  rinst :: bytes
  rcfg :: rotateCfg

definition rotation_ok :: "rotation \<Rightarrow> bool" where
  "rotation_ok s \<longleftrightarrow> iproto_ok (rip s) \<and> uuid_ok (ru s) \<and> Ext (rft s) = Inr (rext s) \<and> length (rinst s) = 16
     \<and> 0 < sint (maxFileSize (rcfg s))"

text \<open>A file of the chain: the clock of its predecessor, its own, and its transactions.\<close>

type_synonym link = "VClock \<times> VClock \<times> XRow list list"

definition link_prev :: "link \<Rightarrow> VClock" where "link_prev l = fst l"
definition link_open :: "link \<Rightarrow> VClock" where "link_open l = fst (snd l)"
definition link_txs :: "link \<Rightarrow> XRow list list" where "link_txs l = snd (snd l)"

lemma link_simps [simp]: "link_prev (p, v, txs) = p" "link_open (p, v, txs) = v" "link_txs (p, v, txs) = txs"
  by (simp_all add: link_prev_def link_open_def link_txs_def)

definition link_wcfg :: "rotation \<Rightarrow> writerCfg" where
  "link_wcfg s = foldl (\<lambda>c opt. opt c) defaultCfg (rwriterOpts (rcfg s))"

definition link_meta :: "rotation \<Rightarrow> VClock \<Rightarrow> VClock \<Rightarrow> Meta" where
  "link_meta s p v = \<lparr>MFiletype = rft s, FormatVer = [], Version = ''go-xlog/rotate'', InstanceUUID = rinst s,
     MVClock = v, PrevVClock = p, Extras = None\<rparr>"

definition link_name :: "rotation \<Rightarrow> VClock \<Rightarrow> string" where
  "link_name s v = Sprintf_020d (Signature v) @ rext s"

definition link_path :: "rotation \<Rightarrow> VClock \<Rightarrow> string" where
  "link_path s v = filepath_Join (rdir s) (link_name s v)"

definition link_block :: "rotation \<Rightarrow> XRow list \<Rightarrow> bytes" where
  "link_block s rows = framed (rz s) (compression (link_wcfg s)) (payload_bytes (rip s) (assignTxIDs (rip s) rows))"

definition link_header :: "rotation \<Rightarrow> link \<Rightarrow> string" where
  "link_header s l = (case EncodeMeta (ru s) None (Some (link_meta s (link_prev l) (link_open l))) of Inl e \<Rightarrow> [] | Inr hdr \<Rightarrow> hdr)"

definition link_bytes :: "rotation \<Rightarrow> link \<Rightarrow> bytes" where
  "link_bytes s l = str_bytes (link_header s l) @ concat (map (link_block s) (link_txs l)) @ EOFMarker"

text \<open>The size estimate the writer keeps.\<close>

definition link_size :: "XRow list \<Rightarrow> int64" where
  "link_size rows = foldl (\<lambda>n r. n + of_nat (rowHeaderEstimateBytes + length (BodyRaw r))) 0 rows"

lemma link_size_assign:
  "foldl (\<lambda>n r. n + of_nat (rowHeaderEstimateBytes + length (BodyRaw r))) n (assignTxIDs ip rows)
    = foldl (\<lambda>n r. n + of_nat (rowHeaderEstimateBytes + length (BodyRaw r))) (n :: int64) rows"
proof -
  have "map BodyRaw (assignTxIDs ip rows) = map BodyRaw rows" by (rule nth_equalityI) (simp_all add: assignTxIDs_nth)
  moreover have "foldl (\<lambda>n r. n + of_nat (rowHeaderEstimateBytes + length (BodyRaw r))) (n :: int64) xs
      = foldl (\<lambda>n b. n + of_nat (rowHeaderEstimateBytes + length b)) n (map BodyRaw xs)" for xs
    by (simp add: foldl_map)
  ultimately show ?thesis by metis
qed

text \<open>Names: plain, and different for clocks with different sums.\<close>

lemma plain_nameI: "n \<noteq> [] \<Longrightarrow> CHR ''/'' \<notin> set n \<Longrightarrow> hd n \<noteq> CHR ''.'' \<Longrightarrow> plain_name n"
  by (auto simp: plain_name_def)

lemma link_name_plain:
  assumes "rotation_ok s" "clock_small v"
  shows "plain_name (link_name s v)" "plain_name (link_name s v @ ''.inprogress'')"
proof -
  let ?n = "Sprintf_020d (Signature v)"
  have v: "0 \<le> sint (Signature v)" using assms(2) by (auto simp: clock_small_signature clock_small_def clock_sum_def intro: sum_nonneg)
  have "CHR ''/'' \<notin> digit_char ` {..<10}" "CHR ''.'' \<notin> digit_char ` {..<10}" unfolding digit_chars_list by simp_all
  with Sprintf_020d_digits [OF v] have n: "?n \<noteq> []" "CHR ''/'' \<notin> set ?n" "hd ?n \<noteq> CHR ''.''"
    by (blast, blast, metis hd_in_set subsetD)
  have e: "CHR ''/'' \<notin> set (rext s)" "rext s \<noteq> []" using ext_chars [of "rft s" "rext s"] assms(1) by (simp_all add: rotation_ok_def)
  have "plain_name (?n @ t)" if "CHR ''/'' \<notin> set t" for t
    using n that by (intro plain_nameI) (auto simp: hd_append)
  from this [of "rext s"] this [of "rext s @ ''.inprogress''"] e(1)
  show "plain_name (link_name s v)" "plain_name (link_name s v @ ''.inprogress'')" by (simp_all add: link_name_def)
qed

lemma link_path_inj:
  assumes "rotation_ok s" "clock_small v" "clock_small v'" "link_path s v = link_path s v'"
  shows "clock_sum v = clock_sum v'"
proof -
  have nn: "0 \<le> sint (Signature a)" if "clock_small a" for a
    using that by (auto simp: clock_small_signature clock_small_def clock_sum_def intro: sum_nonneg)
  have "link_name s v = link_name s v'"
    using assms(4) filepath_Join_inj [OF link_name_plain(1) [OF assms(1,2)] link_name_plain(1) [OF assms(1,3)], of "rdir s"]
    by (simp add: link_path_def)
  then have "ParseInt64 (Sprintf_020d (Signature v)) = ParseInt64 (Sprintf_020d (Signature v'))" by (simp add: link_name_def)
  then have "Signature v = Signature v'" unfolding ParseInt64_Sprintf [OF nn [OF assms(2)]] ParseInt64_Sprintf [OF nn [OF assms(3)]] by simp
  then have "sint (Signature v) = sint (Signature v')" by simp
  then show ?thesis unfolding clock_small_signature [OF assms(2)] clock_small_signature [OF assms(3)] .
qed

lemma link_inprogress:
  assumes "rotation_ok s" "clock_small v"
  shows "link_path s v @ ''.inprogress'' = filepath_Join (rdir s) (link_name s v @ ''.inprogress'')"
    "clock_small v' \<Longrightarrow> link_path s v' \<noteq> link_path s v @ ''.inprogress''"
proof -
  note p = link_name_plain [OF assms]
  show i: "link_path s v @ ''.inprogress'' = filepath_Join (rdir s) (link_name s v @ ''.inprogress'')"
    using p by (simp add: link_path_def filepath_Join_plain)
  assume "clock_small v'"
  then have "link_path s v' \<noteq> filepath_Join (rdir s) (link_name s v @ ''.inprogress'')"
    using link_name_plain(1) [OF assms(1)] p(2) ext_chars(1,5) [of "rft s" "rext s"] assms(1)
    by (auto simp: link_path_def filepath_Join_inj link_name_def rotation_ok_def) (metis HasSuffix_append(1) append.assoc)
  then show "link_path s v' \<noteq> link_path s v @ ''.inprogress''" unfolding i .
qed

lemma link_resolve: "resolveCfg (Some (link_meta s p v)) (rwriterOpts (rcfg s)) = Inr (link_wcfg s, link_meta s p v)"
  by (simp add: resolveCfg_def link_meta_def link_wcfg_def)

lemma link_meta_ok:
  assumes "rotation_ok s" "vclock_wf p" "vclock_wf v"
  shows "meta_ok (link_meta s p v)"
proof -
  have "value_ok ''go-xlog/rotate''" unfolding value_ok_def line_ok_def by code_simp
  moreover have "rft s \<in> {FiletypeXLOG, FiletypeSNAP, FiletypeVYLOG, FiletypeRUN, FiletypeINDEX}"
    using assms(1) by (auto simp: rotation_ok_def Ext_def split: if_splits)
  ultimately show ?thesis using assms by (simp add: meta_ok_def link_meta_def Extras_entries_def rotation_ok_def)
qed

lemma link_header_ok:
  assumes "rotation_ok s" "vclock_wf p" "vclock_wf v"
  shows "EncodeMeta (ru s) None (Some (link_meta s p v)) = Inr (link_header s (p, v, txs))"
proof -
  have "uuid_ok (ru s)" using assms(1) by (simp add: rotation_ok_def)
  then obtain hdr where "EncodeMeta (ru s) None (Some (link_meta s p v)) = Inr hdr"
    by (rule DecodeMeta_EncodeMeta [OF _ link_meta_ok [OF assms], of _ "\<lparr>AcceptV012 = True\<rparr>"]) simp_all
  then show ?thesis by (simp add: link_header_def)
qed

section \<open>The invariant of a run\<close>

text \<open>The closed files are complete under their names; nothing else was added to the names of \<open>w0\<close>.\<close>

definition chain_files :: "rotation \<Rightarrow> world \<Rightarrow> link list \<Rightarrow> world \<Rightarrow> bool" where
  "chain_files s w0 files w \<longleftrightarrow> world_ok w \<and> room w = None
     \<and> (\<forall>p. names w p \<noteq> None \<longleftrightarrow> names w0 p \<noteq> None \<or> p \<in> (\<lambda>l. link_path s (link_open l)) ` set files)
     \<and> (\<forall>l\<in>set files. file_of w (link_path s (link_open l)) = Some (link_bytes s l))"

definition chain_inv :: "rotation \<Rightarrow> world \<Rightarrow> link list \<Rightarrow> link \<Rightarrow> RotatingWriter \<Rightarrow> world \<Rightarrow> bool" where
  "chain_inv s w0 files l rw w \<longleftrightarrow> (\<exists>wr wk.
       rw = \<lparr>rw_dirPath = rdir s, rw_filetype = rft s, rw_instance = rinst s, rw_opts = rcfg s, rw_cur = Some wr,
             curOpenVClock = link_open l, curBytes = link_size (concat (link_txs l)),
             runningVClock = vadvance (concat (link_txs l)) (link_open l), rw_closed = False\<rparr>
     \<and> session (ru s) (rip s) (rz s) (link_path s (link_open l)) (link_meta s (link_prev l) (link_open l)) (rwriterOpts (rcfg s))
         wk (map (link_block s) (link_txs l)) wr w
     \<and> healthy wr w \<and> txRows wr = [] \<and> chain_files s w0 files wk)"

lemma chain_write:
  assumes "chain_inv s w0 files (p, v, txs) rw w" "v \<noteq> None" "rows \<noteq> []"
  shows "\<exists>rw' w'. Rotate_write (rip s) (rz s) no_faults rows rw w = (assignTxIDs (rip s) rows, None, rw', w')
    \<and> chain_inv s w0 files (p, v, txs @ [rows]) rw' w'"
proof -
  from assms(1) obtain wr wk where i: "rw = \<lparr>rw_dirPath = rdir s, rw_filetype = rft s, rw_instance = rinst s, rw_opts = rcfg s, rw_cur = Some wr,
      curOpenVClock = v, curBytes = link_size (concat txs), runningVClock = vadvance (concat txs) v, rw_closed = False\<rparr>"
    "session (ru s) (rip s) (rz s) (link_path s v) (link_meta s p v) (rwriterOpts (rcfg s)) wk (map (link_block s) txs) wr w"
    "healthy wr w" "txRows wr = []" "chain_files s w0 files wk" by (auto simp: chain_inv_def)
  from WriteTx_ok [OF i(3,4) assms(3), of "rip s" "rz s" no_faults] obtain b w' where
    t: "WriteTx (rip s) (rz s) no_faults rows wr w = (assignTxIDs (rip s) rows, None, wr\<lparr>bw := b\<rparr>, w')" "healthy (wr\<lparr>bw := b\<rparr>) w'" by blast
  have "wstep (rip s) (rz s) no_faults (OpTx rows) wr w = (None, wr\<lparr>bw := b\<rparr>, w')" using t(1) by (simp add: wstep_def)
  moreover have "block_of (rip s) (rz s) wr (assignTxIDs (rip s) rows) = link_block s rows"
    using session_invariant [OF i(2)] by (auto simp: session_inv_def block_of_def link_block_def link_resolve)
  ultimately have "session (ru s) (rip s) (rz s) (link_path s v) (link_meta s p v) (rwriterOpts (rcfg s)) wk
      (map (link_block s) (txs @ [rows])) (wr\<lparr>bw := b\<rparr>) w'"
    using session.operated [OF i(2)] by (fastforce simp: wrote_blocks_def)
  moreover have "advance_rows rows (vadvance (concat txs) v) = Inr (vadvance (concat (txs @ [rows])) v)"
    using assms(2) by (simp add: advance_rows_vadvance vadvance_append)
  moreover have "foldl (\<lambda>n r. n + of_nat (rowHeaderEstimateBytes + length (BodyRaw r))) (link_size (concat txs)) (assignTxIDs (rip s) rows)
      = link_size (concat (txs @ [rows]))" unfolding link_size_assign by (simp add: link_size_def)
  ultimately show ?thesis using i t
    by (auto simp: Rotate_write_def chain_inv_def Let_def intro!: exI [of _ wk])
qed

lemma chain_close:
  assumes "chain_inv s w0 files (p, v, txs) rw w" "rotation_ok s" "vclock_wf p" "vclock_wf v"
  shows "\<exists>wr wr' w' wk. rw_cur rw = Some wr \<and> Writer_Close (rip s) (rz s) no_faults wr w = (None, wr', w')
    \<and> chain_files s w0 files wk \<and> world_ok w' \<and> room w' = None \<and> names w' = (names wk)(link_path s v \<mapsto> fresh wk)
    \<and> (\<forall>i. i \<noteq> fresh wk \<longrightarrow> content w' i = content wk i) \<and> file_of w' (link_path s v) = Some (link_bytes s (p, v, txs))"
proof -
  from assms(1) obtain wr wk where i: "rw_cur rw = Some wr"
    "session (ru s) (rip s) (rz s) (link_path s v) (link_meta s p v) (rwriterOpts (rcfg s)) wk (map (link_block s) txs) wr w"
    "healthy wr w" "txRows wr = []" "chain_files s w0 files wk" by (auto simp: chain_inv_def)
  have k: "world_ok wk" using i(5) by (simp add: chain_files_def)
  have "wf wr = Some (fresh wk) \<and> bw_ino (bw wr) = fresh wk \<and> names w (inprogressPath wr) = Some (fresh wk)"
    using session_invariant [OF i(2)] by (auto simp: session_inv_def)
  with Close_ok [OF i(3)] obtain wr' w' where c: "Writer_Close (rip s) (rz s) no_faults wr w = (None, wr', w')" by blast
  have "room w = None" using i(3) by (simp add: healthy_def)
  note cl = session_closed [OF i(2) k this c]
  have whole: "file_of w' (link_path s v) = Some (link_bytes s (p, v, txs))"
    using session_close [OF i(2) k c] link_header_ok [OF assms(2-4)] i(4)
    by (auto simp: link_bytes_def pending_block_def Let_def link_resolve)
  with i(1,5) c cl show ?thesis by blast
qed

lemma chain_files_close:
  assumes "chain_inv s w0 files (p, v, txs) rw w" "rotation_ok s" "vclock_wf p" "vclock_wf v"
    and "link_path s v \<notin> (\<lambda>l. link_path s (link_open l)) ` set files"
  shows "\<exists>wr wr' w'. rw_cur rw = Some wr \<and> Writer_Close (rip s) (rz s) no_faults wr w = (None, wr', w')
    \<and> chain_files s w0 (files @ [(p, v, txs)]) w'"
proof -
  from chain_close [OF assms(1-4)] obtain wr wr' w' wk where
    c: "rw_cur rw = Some wr" "Writer_Close (rip s) (rz s) no_faults wr w = (None, wr', w')"
    and cf: "chain_files s w0 files wk" and cl: "world_ok w'" "room w' = None" "names w' = (names wk)(link_path s v \<mapsto> fresh wk)"
    "\<forall>i. i \<noteq> fresh wk \<longrightarrow> content w' i = content wk i" "file_of w' (link_path s v) = Some (link_bytes s (p, v, txs))" by blast
  have k: "world_ok wk" "\<forall>q. names wk q \<noteq> None \<longleftrightarrow> names w0 q \<noteq> None \<or> q \<in> (\<lambda>l. link_path s (link_open l)) ` set files"
    "\<forall>l\<in>set files. file_of wk (link_path s (link_open l)) = Some (link_bytes s l)"
    using cf by (auto simp: chain_files_def)
  have old: "file_of w' (link_path s (link_open l)) = Some (link_bytes s l)" if "l \<in> set files" for l
  proof -
    have ne: "link_path s (link_open l) \<noteq> link_path s v" using assms(5) that by force
    from k(3) that obtain ino where n: "names wk (link_path s (link_open l)) = Some ino" "content wk ino = link_bytes s l"
      by (auto simp: file_of_def)
    then have "ino \<noteq> fresh wk" using k(1) by (auto simp: world_ok_def)
    with n cl(3,4) ne show ?thesis by (simp add: file_of_def)
  qed
  have "chain_files s w0 (files @ [(p, v, txs)]) w'"
    unfolding chain_files_def using cl old k(2) by auto
  with c show ?thesis by blast
qed

text \<open>The directory has none of the names a chain uses.\<close>

definition dir_empty :: "rotation \<Rightarrow> world \<Rightarrow> bool" where
  "dir_empty s w \<longleftrightarrow> (\<forall>n. plain_name n \<longrightarrow> names w (filepath_Join (rdir s) n) = None)"

lemma chain_open:
  assumes "chain_files s w0 files w" "rotation_ok s" "dir_empty s w0" "vclock_wf p" "clock_small v" "v \<noteq> None"
    and "\<forall>l\<in>set files. clock_small (link_open l)"
    and "rw_dirPath rw = rdir s" "rw_filetype rw = rft s" "rw_instance rw = rinst s" "rw_opts rw = rcfg s"
      "runningVClock rw = v" "\<not> rw_closed rw"
  shows "\<exists>rw' w'. openCurrent (ru s) no_faults p rw w = (None, rw', w') \<and> chain_inv s w0 files (p, v, []) rw' w'"
proof -
  have wf: "vclock_wf v" using assms(5) by (simp add: clock_small_def)
  have "names w0 (link_path s v @ ''.inprogress'') = None"
    using assms(3) link_inprogress(1) [OF assms(2,5)] link_name_plain(2) [OF assms(2,5)] by (simp add: dir_empty_def)
  moreover have "link_path s v @ ''.inprogress'' \<notin> (\<lambda>l. link_path s (link_open l)) ` set files"
    using link_inprogress(2) [OF assms(2,5)] assms(7) by force
  ultimately have free: "names w (link_path s v @ ''.inprogress'') = None" "room w = None"
    using assms(1) unfolding chain_files_def by blast+
  from Create_ok [OF link_resolve link_header_ok [OF assms(2,4) wf, of "[]"] free(2) free(1)] obtain wr w' where
    c: "Create (ru s) no_faults (link_path s v) (Some (link_meta s p v)) (rwriterOpts (rcfg s)) w = (Inr wr, w')" "healthy wr w'" "txRows wr = []"
    by blast
  have e: "Ext (rft s) = Inr (rext s)" using assms(2) by (simp add: rotation_ok_def)
  have clone: "VClock_Clone v = v" by (simp add: VClock_Clone_def split: option.splits)
  let ?rw = "rw\<lparr>rw_cur := Some wr, curOpenVClock := v, curBytes := 0\<rparr>"
  have "openCurrent (ru s) no_faults p rw w = (None, ?rw, w')"
    using c(1) e assms(8-12) by (simp add: openCurrent_def clone link_path_def link_name_def link_meta_def Let_def)
  moreover have "chain_inv s w0 files (p, v, []) ?rw w'"
    unfolding chain_inv_def using c assms(1,8-13) session.created [OF c(1)]
    by (intro exI [of _ wr] exI [of _ w]) (simp add: link_size_def vadvance_simps)
  ultimately show ?thesis by blast
qed

text \<open>
  The links: each file starts at the clock its predecessor ended at and names the clock that one
  started at; the sums of the clocks ascend, and a file is left once its estimate reaches the limit.
\<close>

definition link_next :: "rotation \<Rightarrow> link \<Rightarrow> link \<Rightarrow> bool" where
  "link_next s a b \<longleftrightarrow> link_prev b = link_open a \<and> link_open b = vadvance (concat (link_txs a)) (link_open a)
     \<and> sint (maxFileSize (rcfg s)) \<le> sint (link_size (concat (link_txs a)))"

definition chain_links :: "rotation \<Rightarrow> VClock \<Rightarrow> link list \<Rightarrow> bool" where
  "chain_links s start files \<longleftrightarrow> files \<noteq> [] \<and> link_prev (hd files) = None \<and> link_open (hd files) = start
     \<and> successively (link_next s) files
     \<and> (\<forall>l\<in>set files. sint (link_size (concat (butlast (link_txs l)))) < sint (maxFileSize (rcfg s)))"

definition chain_clocks :: "link list \<Rightarrow> bool" where
  "chain_clocks files \<longleftrightarrow> sorted_wrt (\<lambda>a b. clock_sum (link_open a) < clock_sum (link_open b)) files
     \<and> (\<forall>l\<in>set files. vclock_wf (link_prev l) \<and> link_open l \<noteq> None \<and> clock_small (link_open l))"

lemma chain_clocks_snoc:
  "chain_clocks (ls @ [l]) \<longleftrightarrow> chain_clocks ls \<and> (\<forall>k\<in>set ls. clock_sum (link_open k) < clock_sum (link_open l))
     \<and> vclock_wf (link_prev l) \<and> link_open l \<noteq> None \<and> clock_small (link_open l)"
  by (auto simp: chain_clocks_def sorted_wrt_append)

lemma chain_clocks_paths:
  assumes "rotation_ok s" "chain_clocks (files @ [l])"
  shows "link_path s (link_open l) \<notin> (\<lambda>l. link_path s (link_open l)) ` set files"
proof
  assume "link_path s (link_open l) \<in> (\<lambda>l. link_path s (link_open l)) ` set files"
  then obtain k where k: "k \<in> set files" "link_path s (link_open l) = link_path s (link_open k)" by auto
  have "clock_sum (link_open k) < clock_sum (link_open l)" "clock_small (link_open k)" "clock_small (link_open l)"
    using assms(2) k(1) by (auto simp: chain_clocks_def sorted_wrt_append)
  with link_path_inj [OF assms(1) _ _ k(2)] show False by simp
qed

lemma link_size_Nil [simp]: "link_size [] = 0"
  by (simp add: link_size_def)

lemma chain_rotate:
  assumes "chain_inv s w0 files l rw w" "rotation_ok s" "dir_empty s w0" "chain_clocks (files @ [l])"
    and "sequenced (link_open l) (link_txs l)" "clock_small (vadvance (concat (link_txs l)) (link_open l))"
    and "sint (maxFileSize (rcfg s)) \<le> sint (link_size (concat (link_txs l)))"
  shows "\<exists>rw' w'. rotateLocked (ru s) (rip s) (rz s) no_faults rw w = (None, rw', w')
    \<and> chain_inv s w0 (files @ [l]) (link_open l, vadvance (concat (link_txs l)) (link_open l), []) rw' w'
    \<and> chain_clocks (files @ [l] @ [(link_open l, vadvance (concat (link_txs l)) (link_open l), [])])"
proof -
  obtain p v txs where l: "l = (p, v, txs)" by (metis prod_cases3)
  let ?v = "vadvance (concat txs) v"
  have v: "vclock_wf p" "v \<noteq> None" "clock_small v" "vclock_wf v"
    using assms(4) l by (auto simp: chain_clocks_def clock_small_def)
  have "txs \<noteq> []" using assms(2,7) l by (auto simp: rotation_ok_def)
  then have sum: "clock_sum v < clock_sum ?v" using assms(5) v l by (auto intro: sequenced_sum)
  from chain_files_close [OF assms(1) [unfolded l] assms(2) v(1,4) chain_clocks_paths [OF assms(2,4), unfolded l link_simps]]
  obtain wr wr' w1 where c: "rw_cur rw = Some wr" "Writer_Close (rip s) (rz s) no_faults wr w = (None, wr', w1)"
    "chain_files s w0 (files @ [l]) w1" unfolding l by blast
  have rw: "rw_dirPath rw = rdir s" "rw_filetype rw = rft s" "rw_instance rw = rinst s" "rw_opts rw = rcfg s"
    "runningVClock rw = ?v" "\<not> rw_closed rw" "curOpenVClock rw = v" using assms(1) l by (auto simp: chain_inv_def)
  have small: "\<forall>k\<in>set (files @ [l]). clock_small (link_open k)" using assms(4) by (auto simp: chain_clocks_def)
  have clone: "VClock_Clone v = v" by (simp add: VClock_Clone_def split: option.splits)
  have nn: "?v \<noteq> None" "clock_small ?v" using v(2) assms(6) l by (simp_all add: advance_rows_vadvance(2))
  from chain_open [OF c(3) assms(2,3) v(4) nn(2,1) small, of "rw\<lparr>rw_cur := None\<rparr>"] rw c clone obtain rw' w' where
    o: "rotateLocked (ru s) (rip s) (rz s) no_faults rw w = (None, rw', w')" "chain_inv s w0 (files @ [l]) (v, ?v, []) rw' w'"
    by (auto simp: rotateLocked_def)
  have "\<forall>k\<in>set (files @ [l]). clock_sum (link_open k) < clock_sum ?v"
    using assms(4) sum l by (fastforce simp: chain_clocks_def sorted_wrt_append)
  then have "chain_clocks ((files @ [l]) @ [(v, ?v, [])])"
    unfolding chain_clocks_snoc [of "files @ [l]"] using assms(4) v(4) nn by simp
  with o l show ?thesis by auto
qed

section \<open>A whole run\<close>

text \<open>A client that writes transactions until one fails.\<close>

primrec rotate_txs :: "uuidlib \<Rightarrow> iproto \<Rightarrow> zstd \<Rightarrow> faults \<Rightarrow> XRow list list \<Rightarrow> RotatingWriter \<Rightarrow> world \<Rightarrow> rotate_result" where
  "rotate_txs u ip z fl [] rw w = (None, rw, w)"
| "rotate_txs u ip z fl (rows # txs) rw w = (case snd (Rotate_WriteTx u ip z fl rows rw w) of
     (Some e, rw', w') \<Rightarrow> (Some e, rw', w') | (None, rw', w') \<Rightarrow> rotate_txs u ip z fl txs rw' w')"

lemma chain_links_write:
  assumes "chain_links s start (files @ [(p, v, txs)])" "sint (link_size (concat txs)) < sint (maxFileSize (rcfg s))"
  shows "chain_links s start (files @ [(p, v, txs @ [rows])])"
proof -
  have "link_next s a (p, v, txs @ [rows]) = link_next s a (p, v, txs)" for a by (simp add: link_next_def)
  then show ?thesis using assms by (auto simp: chain_links_def successively_append_iff hd_append)
qed

lemma chain_links_rotate:
  assumes "chain_links s start (files @ [l])" "0 < sint (maxFileSize (rcfg s))"
    "sint (maxFileSize (rcfg s)) \<le> sint (link_size (concat (link_txs l)))"
  shows "chain_links s start ((files @ [l]) @ [(link_open l, vadvance (concat (link_txs l)) (link_open l), [])])"
proof -
  have "link_next s l (link_open l, vadvance (concat (link_txs l)) (link_open l), [])" using assms(3) by (simp add: link_next_def)
  with assms show ?thesis
    unfolding chain_links_def successively_append_iff [of _ "files @ [l]"] by (auto simp: hd_append)
qed

lemma chain_clocks_txs: "chain_clocks (files @ [(p, v, txs)]) = chain_clocks (files @ [(p, v, txs')])"
  by (simp add: chain_clocks_def sorted_wrt_append)

lemma chain_step:
  assumes "chain_inv s w0 files l rw w" "rotation_ok s" "dir_empty s w0" "chain_clocks (files @ [l])" "chain_links s start (files @ [l])"
    and "sequenced (link_open l) (link_txs l)" "clock_small (vadvance (concat (link_txs l)) (link_open l))" "rows \<noteq> []"
    and "advances (vadvance (concat (link_txs l)) (link_open l)) rows"
  shows "\<exists>rw' w' files' l'. snd (Rotate_WriteTx (ru s) (rip s) (rz s) no_faults rows rw w) = (None, rw', w')
    \<and> chain_inv s w0 files' l' rw' w' \<and> chain_clocks (files' @ [l']) \<and> chain_links s start (files' @ [l'])
    \<and> concat (map link_txs (files' @ [l'])) = concat (map link_txs (files @ [l])) @ [rows]
    \<and> sequenced (link_open l') (link_txs l')
    \<and> vadvance (concat (link_txs l')) (link_open l') = vadvance rows (vadvance (concat (link_txs l)) (link_open l))"
proof -
  obtain p v txs where l: "l = (p, v, txs)" by (metis prod_cases3)
  let ?v = "vadvance (concat txs) v" and ?max = "maxFileSize (rcfg s)"
  have v: "v \<noteq> None" using assms(4) l by (auto simp: chain_clocks_def)
  have rw: "\<not> rw_closed rw" "curBytes rw = link_size (concat txs)" "rw_opts rw = rcfg s" using assms(1) l by (auto simp: chain_inv_def)
  show ?thesis
  proof (cases "sint ?max \<le> sint (link_size (concat txs))")
    case True
    let ?l = "(v, ?v, [rows])"
    from chain_rotate [OF assms(1-4,6,7)] True l obtain rw1 w1 where
      r: "rotateLocked (ru s) (rip s) (rz s) no_faults rw w = (None, rw1, w1)" "chain_inv s w0 (files @ [l]) (v, ?v, []) rw1 w1"
      "chain_clocks ((files @ [l]) @ [(v, ?v, [])])" by auto
    from chain_write [OF r(2) advance_rows_vadvance(2) [OF v] assms(8)] obtain rw2 w2 where
      t: "Rotate_write (rip s) (rz s) no_faults rows rw1 w1 = (assignTxIDs (rip s) rows, None, rw2, w2)" "chain_inv s w0 (files @ [l]) ?l rw2 w2"
      by auto
    have "0 < sint ?max" using assms(2) by (simp add: rotation_ok_def)
    with chain_links_rotate [OF assms(5)] True l have "chain_links s start ((files @ [l]) @ [(v, ?v, [])])" by simp
    from chain_links_write [OF this, of rows] \<open>0 < sint ?max\<close> have "chain_links s start ((files @ [l]) @ [?l])" by simp
    moreover have "chain_clocks ((files @ [l]) @ [?l])" using r(3) chain_clocks_txs by blast
    moreover have "snd (Rotate_WriteTx (ru s) (rip s) (rz s) no_faults rows rw w) = (None, rw2, w2)"
      using True rw r(1) t(1) assms(8) by (simp add: Rotate_WriteTx_def)
    moreover have "sequenced ?v [rows]" using assms(9) l by simp
    ultimately show ?thesis using t(2) l by (intro exI [of _ rw2] exI [of _ w2] exI [of _ "files @ [l]"] exI [of _ ?l]) simp
  next
    case False
    let ?l = "(p, v, txs @ [rows])"
    from chain_write [OF assms(1) [unfolded l] v assms(8)] obtain rw2 w2 where
      t: "Rotate_write (rip s) (rz s) no_faults rows rw w = (assignTxIDs (rip s) rows, None, rw2, w2)" "chain_inv s w0 files ?l rw2 w2" by auto
    have "snd (Rotate_WriteTx (ru s) (rip s) (rz s) no_faults rows rw w) = (None, rw2, w2)"
      using False rw t(1) assms(8) by (simp add: Rotate_WriteTx_def)
    moreover have "chain_clocks (files @ [?l])" using assms(4) l chain_clocks_txs by blast
    moreover have "chain_links s start (files @ [?l])" using chain_links_write assms(5) False l by simp
    moreover have "sequenced v (txs @ [rows])" using assms(6,9) v l by (simp add: sequenced_append)
    ultimately show ?thesis using t(2) l v
      by (intro exI [of _ rw2] exI [of _ w2] exI [of _ files] exI [of _ ?l]) (simp add: vadvance_append)
  qed
qed

lemma rotate_txs_chain:
  assumes "chain_inv s w0 files l rw w" "rotation_ok s" "dir_empty s w0" "chain_clocks (files @ [l])" "chain_links s start (files @ [l])"
    and "sequenced (link_open l) (link_txs l)" "sequenced (vadvance (concat (link_txs l)) (link_open l)) txs"
    and "clock_small (vadvance (concat txs) (vadvance (concat (link_txs l)) (link_open l)))" "\<forall>rows\<in>set txs. rows \<noteq> []"
  shows "\<exists>rw' w' files' l'. rotate_txs (ru s) (rip s) (rz s) no_faults txs rw w = (None, rw', w')
    \<and> chain_inv s w0 files' l' rw' w' \<and> chain_clocks (files' @ [l']) \<and> chain_links s start (files' @ [l'])
    \<and> concat (map link_txs (files' @ [l'])) = concat (map link_txs (files @ [l])) @ txs"
  using assms
proof (induction txs arbitrary: files l rw w)
  case (Cons rows txs)
  let ?v = "vadvance (concat (link_txs l)) (link_open l)"
  have o: "link_open l \<noteq> None" "clock_small (link_open l)" using Cons.prems(4) by (auto simp: chain_clocks_def)
  have v: "?v \<noteq> None" by (rule advance_rows_vadvance(2) [OF o(1)])
  have last: "vadvance (concat (rows # txs)) ?v = vadvance (concat txs) (vadvance rows ?v)" using v by (simp add: vadvance_append)
  have small: "clock_small ?v" using vadvance_small [OF o vadvance_cle [OF v] Cons.prems(8)] .
  have adv: "advances ?v rows" "sequenced (vadvance rows ?v) txs" "rows \<noteq> []" using Cons.prems(7,9) by simp_all
  from chain_step [OF Cons.prems(1-6) small adv(3,1)] obtain rw1 w1 files1 l1 where
    st: "snd (Rotate_WriteTx (ru s) (rip s) (rz s) no_faults rows rw w) = (None, rw1, w1)" "chain_inv s w0 files1 l1 rw1 w1"
    "chain_clocks (files1 @ [l1])" "chain_links s start (files1 @ [l1])"
    "concat (map link_txs (files1 @ [l1])) = concat (map link_txs (files @ [l])) @ [rows]"
    "sequenced (link_open l1) (link_txs l1)" "vadvance (concat (link_txs l1)) (link_open l1) = vadvance rows ?v" by blast
  have "sequenced (vadvance (concat (link_txs l1)) (link_open l1)) txs" "clock_small (vadvance (concat txs) (vadvance (concat (link_txs l1)) (link_open l1)))"
    "\<forall>rows\<in>set txs. rows \<noteq> []" using st(7) adv(2) Cons.prems(8,9) last by simp_all
  from Cons.IH [OF st(2) Cons.prems(2,3) st(3,4,6) this] obtain rw' w' files' l' where
    "rotate_txs (ru s) (rip s) (rz s) no_faults txs rw1 w1 = (None, rw', w')" "chain_inv s w0 files' l' rw' w'"
    "chain_clocks (files' @ [l'])" "chain_links s start (files' @ [l'])"
    "concat (map link_txs (files' @ [l'])) = (concat (map link_txs (files @ [l])) @ [rows]) @ txs" unfolding st(5) by blast
  with st(1) show ?case by (intro exI [of _ rw'] exI [of _ w'] exI [of _ files'] exI [of _ l']) simp
next
  case Nil
  then show ?case by (intro exI [of _ rw] exI [of _ w] exI [of _ files] exI [of _ l]) simp
qed

definition rotation_start :: "rotation \<Rightarrow> world \<Rightarrow> VClock \<Rightarrow> XRow list list \<Rightarrow> bool" where
  "rotation_start s w0 start txs \<longleftrightarrow> rotation_ok s \<and> dir_empty s w0 \<and> world_ok w0 \<and> room w0 = None
     \<and> start \<noteq> None \<and> clock_small start \<and> sequenced start txs \<and> clock_small (vadvance (concat txs) start)
     \<and> (\<forall>rows\<in>set txs. tx_ok (rip s) (rz s) (compression (link_wcfg s)) rows)"

definition rotation_cfg :: "RotateOption list \<Rightarrow> rotateCfg" where
  "rotation_cfg opts = foldl (\<lambda>c opt. opt c) defaultRotateCfg opts"

lemma VClock_Clone_id [simp]: "VClock_Clone v = v"
  by (simp add: VClock_Clone_def split: option.splits)

lemma rotation_new:
  assumes "rotation_ok s" "dir_empty s w0" "world_ok w0" "room w0 = None" "start \<noteq> None" "clock_small start" "rcfg s = rotation_cfg opts"
  shows "\<exists>rw w. New (ru s) no_faults None (rdir s) (rft s) (rinst s) start opts w0 = (Inr rw, w) \<and> chain_inv s w0 [] (None, start, []) rw w"
proof -
  let ?rw = "\<lparr>rw_dirPath = rdir s, rw_filetype = rft s, rw_instance = rinst s, rw_opts = rcfg s, rw_cur = None,
     curOpenVClock = start, curBytes = 0, runningVClock = start, rw_closed = False\<rparr>"
  have "chain_files s w0 [] w0" using assms(3,4) by (simp add: chain_files_def)
  from chain_open [OF this assms(1,2) _ assms(6,5), of None ?rw] obtain rw1 w1 where
    o: "openCurrent (ru s) no_faults None ?rw w0 = (None, rw1, w1)" "chain_inv s w0 [] (None, start, []) rw1 w1"
    by (auto simp: vclock_wf_def vids_def)
  moreover have "New (ru s) no_faults None (rdir s) (rft s) (rinst s) start opts w0 = (Inr rw1, w1)"
    using o(1) assms(1,5,7) by (auto simp: New_def rotation_cfg_def rotation_ok_def Let_def split: option.splits)
  ultimately show ?thesis by blast
qed

lemma rotation_run:
  assumes "rotation_start s w0 start txs" "rcfg s = rotation_cfg opts"
  shows "\<exists>rw1 w1 rw2 w2 rw3 w3 files.
      New (ru s) no_faults None (rdir s) (rft s) (rinst s) start opts w0 = (Inr rw1, w1)
    \<and> rotate_txs (ru s) (rip s) (rz s) no_faults txs rw1 w1 = (None, rw2, w2)
    \<and> Rotate_Close (rip s) (rz s) no_faults rw2 w2 = (None, rw3, w3)
    \<and> concat (map link_txs files) = txs \<and> chain_links s start files \<and> chain_clocks files \<and> chain_files s w0 files w3"
proof -
  from assms(1) have st: "rotation_ok s" "dir_empty s w0" "world_ok w0" "room w0 = None" "start \<noteq> None" "clock_small start"
    "sequenced start txs" "clock_small (vadvance (concat txs) start)" "\<forall>rows\<in>set txs. tx_ok (rip s) (rz s) (compression (link_wcfg s)) rows"
    by (simp_all add: rotation_start_def)
  have e: "0 < sint (maxFileSize (rcfg s))" using st(1) by (simp add: rotation_ok_def)
  from rotation_new [OF st(1-6) assms(2)] obtain rw1 w1 where
    new: "New (ru s) no_faults None (rdir s) (rft s) (rinst s) start opts w0 = (Inr rw1, w1)"
    and o: "chain_inv s w0 [] (None, start, []) rw1 w1" by blast
  have "chain_clocks ([] @ [(None, start, [])])" "chain_links s start ([] @ [(None, start, [])])"
    using st(5,6) e by (simp_all add: chain_clocks_def chain_links_def vclock_wf_def vids_def)
  with rotate_txs_chain [OF o st(1,2), of start txs] st(5,7,8,9) obtain rw2 w2 files l where
    r: "rotate_txs (ru s) (rip s) (rz s) no_faults txs rw1 w1 = (None, rw2, w2)" "chain_inv s w0 files l rw2 w2"
    "chain_clocks (files @ [l])" "chain_links s start (files @ [l])" "concat (map link_txs (files @ [l])) = txs"
    by (auto simp: vadvance_simps tx_ok_def)
  obtain p v ts where l: "l = (p, v, ts)" by (metis prod_cases3)
  have wf: "vclock_wf p" "vclock_wf v" using r(3) l by (auto simp: chain_clocks_def clock_small_def)
  from chain_files_close [OF r(2) [unfolded l] st(1) wf chain_clocks_paths [OF st(1) r(3), unfolded l link_simps]] obtain wr wr' w3 where
    c: "rw_cur rw2 = Some wr" "Writer_Close (rip s) (rz s) no_faults wr w2 = (None, wr', w3)" "chain_files s w0 (files @ [l]) w3"
    unfolding l by blast
  have "\<not> rw_closed rw2" using r(2) by (auto simp: chain_inv_def)
  with c(1,2) have "\<exists>rw3. Rotate_Close (rip s) (rz s) no_faults rw2 w2 = (None, rw3, w3)" by (simp add: Rotate_Close_def)
  with new r c(3) show ?thesis by blast
qed

text \<open>Each file of the chain is read back.\<close>

lemma chain_file_txs:
  assumes "rotation_ok s" "chain_files s w0 files w" "chain_clocks files" "l \<in> set files"
    and "\<forall>rows\<in>set (link_txs l). tx_ok (rip s) (rz s) (compression (link_wcfg s)) rows"
  shows "\<exists>r r'. Open (ru s) (file_of w) None (link_path s (link_open l)) ropts = Inr r
    \<and> rmeta r = meta_canon (link_meta s (link_prev l) (link_open l))
    \<and> Txs (rip s) (rz s) collect [] r = (map (\<lambda>rows. Inr (tx_of (map (xrow_canon (rip s)) (assignTxIDs (rip s) rows)))) (link_txs l), r')
    \<and> SawEOFMarker r'"
proof -
  obtain p v txs where l: "l = (p, v, txs)" by (metis prod_cases3)
  have wf: "vclock_wf p" "vclock_wf v" using assms(3,4) l by (auto simp: chain_clocks_def clock_small_def)
  have hyp: "iproto_ok (rip s)" "uuid_ok (ru s)" using assms(1) by (simp_all add: rotation_ok_def)
  let ?blks = "map (link_block s) txs" and ?wr = "\<lparr>wcfg = link_wcfg s, wpath = [], inprogressPath = [], wf = None,
    bw = NewWriterSize 0, txRows = [], bufferedPayloadEstimate = 0, closed = False\<rparr>"
  have "link_block s rows = block_of (rip s) (rz s) ?wr (assignTxIDs (rip s) rows)" for rows by (simp add: link_block_def block_of_def)
  then have good: "list_all2 (good_block (rip s) (rz s)) ?blks (map (assignTxIDs (rip s)) txs)"
    using assms(5) block_of_good [of "rip s" "rz s" ?wr] l by (auto simp: list_all2_conv_all_nth)
  have "file_of w (link_path s v) = Some (link_bytes s l)" using assms(2,4) l by (auto simp: chain_files_def)
  then have f: "file_of w (link_path s v) = Some (str_bytes (link_header s l) @ concat ?blks @ EOFMarker)" using l by (simp add: link_bytes_def)
  let ?txs = "map (\<lambda>rows. map (xrow_canon (rip s)) (assignTxIDs (rip s) rows)) txs"
  have "concat ?txs = map (xrow_canon (rip s)) (concat (map (assignTxIDs (rip s)) txs))" by (simp add: map_concat comp_def)
  moreover have "\<forall>tx\<in>set ?txs. is_tx (rip s) tx" using hyp(1) assms(5) l by (auto simp: tx_ok_def intro!: assignTxIDs_is_tx)
  moreover have "FormatVer (link_meta s p v) = LegacyFormatVersion \<longrightarrow> AcceptV012 (metaOpts (apply_options ropts))"
    by (simp add: link_meta_def LegacyFormatVersion_def)
  ultimately show ?thesis
    using Open_txs [OF hyp link_meta_ok [OF assms(1) wf] _ link_header_ok [OF assms(1) wf, of txs] good,
        where ropts = ropts and fs = "file_of w" and path = "link_path s v" and txs = ?txs] f l
    by (simp add: comp_def)
qed

section \<open>The index of a chain\<close>

text \<open>What \<^verbatim>\<open>os.ReadDir\<close> returns for a directory: every entry once, files and subdirectories.\<close>

definition dir_listing :: "world \<Rightarrow> string \<Rightarrow> (string \<times> bool) list \<Rightarrow> bool" where
  "dir_listing w d dents \<longleftrightarrow> distinct (map fst dents) \<and> (\<forall>(n, isDir)\<in>set dents. plain_name n)
     \<and> (\<forall>n. plain_name n \<longrightarrow> ((n, False) \<in> set dents \<longleftrightarrow> names w (filepath_Join d n) \<noteq> None))"

definition link_entry :: "rotation \<Rightarrow> link \<Rightarrow> FileEntry" where
  "link_entry s l = \<lparr>FE_Path = link_path s (link_open l), FE_Signature = Signature (link_open l), FE_VClock = vclock_canon (link_open l),
     FE_PrevVClock = (if ventries (link_prev l) = [] then None else vclock_canon (link_prev l)), FE_Filetype = rft s\<rparr>"

lemma link_entry_load:
  assumes "rotation_ok s" "chain_files s w0 files w" "chain_clocks files" "l \<in> set files"
  shows "loadEntry (ru s) (file_of w) None (link_path s (link_open l)) (Signature (link_open l)) (rft s) = Inr (link_entry s l)"
proof -
  obtain p v txs where l: "l = (p, v, txs)" by (metis prod_cases3)
  have wf: "vclock_wf p" "vclock_wf v" using assms(3,4) l by (auto simp: chain_clocks_def clock_small_def)
  have u: "uuid_ok (ru s)" using assms(1) by (simp add: rotation_ok_def)
  have f: "file_of w (link_path s v) = Some (str_bytes (link_header s l) @ concat (map (link_block s) txs) @ EOFMarker)"
    using assms(2,4) l by (auto simp: chain_files_def link_bytes_def)
  have "FormatVer (link_meta s p v) \<noteq> LegacyFormatVersion" by (simp add: link_meta_def LegacyFormatVersion_def)
  from loadEntry_ok [OF u link_meta_ok [OF assms(1) wf] this link_header_ok [OF assms(1) wf, of txs], of "file_of w" "link_path s v"] f l
  show ?thesis by (simp add: link_entry_def link_meta_def meta_canon_def)
qed

lemma distinct_journals: "distinct (map fst dents) \<Longrightarrow> distinct (map fst (journals ext dents))"
proof (induction dents)
  case (Cons de dents)
  have "fst ` set (journals ext dents) \<subseteq> fst ` set dents" using in_journals [of _ _ ext dents] by force
  with Cons.prems have "fst de \<notin> fst ` set (journals ext dents)" by auto
  moreover have "fst j = fst de" if "journal_of ext de = Some j" for j
    using that by (auto simp: journal_of_def split: prod.splits if_splits sum.splits)
  ultimately show ?case using Cons by (cases "journal_of ext de") auto
qed simp

lemma sort_key_unique:
  assumes "set xs = set ys" "distinct xs" "sorted_wrt (\<lambda>a b. f a < f b) ys"
  shows "sort_key (f :: 'a \<Rightarrow> int) xs = ys"
proof -
  have d: "distinct (map f ys)" "sorted (map f ys)"
    using assms(3) by (induction ys) (auto simp: less_imp_le)
  then have inj: "inj_on f (set ys)" by (simp add: distinct_map)
  have "distinct (map f (sort_key f xs))" using inj assms(1,2) by (simp add: distinct_map)
  moreover have "set (map f (sort_key f xs)) = set (map f ys)" using assms(1) by simp
  ultimately have "map f (sort_key f xs) = map f ys" using d sorted_sort_key [of f xs] by (intro sorted_distinct_set_unique)
  then show ?thesis using inj assms(1) by (intro map_inj_on [of f]) simp_all
qed

lemma chain_signatures: "chain_clocks files \<Longrightarrow> sorted_wrt (\<lambda>a b. sint (Signature (link_open a)) < sint (Signature (link_open b))) files"
  unfolding chain_clocks_def by (induction files) (auto simp: clock_small_signature)

lemma chain_compare:
  assumes "chain_links s start files" "chain_clocks files"
  shows "successively (\<lambda>a b. snd (Compare (FE_VClock a) (FE_VClock b))) (map (link_entry s) files)"
proof -
  have "successively (link_next s) files" using assms(1) by (simp add: chain_links_def)
  then have "successively (\<lambda>a b. snd (Compare (vclock_canon (link_open a)) (vclock_canon (link_open b)))) files"
  proof (rule successively_mono)
    fix a b assume "a \<in> set files" "link_next s a b"
    then have "vclock.cle (link_open a) (link_open b)"
      using assms(2) vadvance_cle by (auto simp: chain_clocks_def link_next_def)
    then have "vclock.cle (vclock_canon (link_open a)) (vclock_canon (link_open b))" by (simp add: vclock.cle_def)
    then show "snd (Compare (vclock_canon (link_open a)) (vclock_canon (link_open b)))" using vclock.cmp_incomparable by blast
  qed
  then show ?thesis by (simp add: successively_map link_entry_def)
qed

lemma chain_index:
  assumes "rotation_ok s" "chain_files s w0 files w" "chain_links s start files" "chain_clocks files" "dir_empty s w0"
    and "rft s \<noteq> FiletypeRUN" "rft s \<noteq> FiletypeINDEX" "readDir (rdir s) = Inr dents" "dir_listing w (rdir s) dents"
  shows "OpenDir (ru s) (file_of w) readDir None (rdir s) (rft s)
    = Inr \<lparr>dir_path = rdir s, dir_filetype = rft s, entries = map (link_entry s) files\<rparr>"
proof -
  let ?load = "\<lambda>name sig. loadEntry (ru s) (file_of w) None (filepath_Join (rdir s) name) sig (rft s)"
  have e: "Ext (rft s) = Inr (rext s)" using assms(1) by (simp add: rotation_ok_def)
  have small: "clock_small (link_open l)" if "l \<in> set files" for l using assms(4) that by (simp add: chain_clocks_def)
  have parse: "parseJournalName (link_name s (link_open l)) (rext s) = Inr (Signature (link_open l), True)" if "l \<in> set files" for l
    using parseJournalName_Sprintf [OF _ e, of "Signature (link_open l)"] small [OF that]
    by (auto simp: link_name_def clock_small_signature clock_small_def clock_sum_def intro: sum_nonneg)
  have listed: "(n, False) \<in> set dents \<longleftrightarrow> (\<exists>l\<in>set files. n = link_name s (link_open l))" for n
  proof (cases "plain_name n")
    case True
    then have "(n, False) \<in> set dents \<longleftrightarrow> names w (filepath_Join (rdir s) n) \<noteq> None" using assms(9) by (simp add: dir_listing_def)
    also have "\<dots> \<longleftrightarrow> filepath_Join (rdir s) n \<in> (\<lambda>l. link_path s (link_open l)) ` set files"
      using assms(2,5) True unfolding chain_files_def dir_empty_def by blast
    also have "\<dots> \<longleftrightarrow> (\<exists>l\<in>set files. n = link_name s (link_open l))"
      using True link_name_plain(1) [OF assms(1) small] by (auto simp: link_path_def filepath_Join_inj image_iff)
    finally show ?thesis .
  next
    case False
    then show ?thesis using assms(9) link_name_plain(1) [OF assms(1) small] by (auto simp: dir_listing_def)
  qed
  have js: "set (journals (rext s) dents) = (\<lambda>l. (link_name s (link_open l), Signature (link_open l))) ` set files"
  proof (intro set_eqI iffI)
    fix x assume x: "x \<in> set (journals (rext s) dents)"
    obtain n sig where n: "x = (n, sig)" by fastforce
    with x have j: "(n, False) \<in> set dents" "parseJournalName n (rext s) = Inr (sig, True)" by (simp_all only: in_journals)
    then obtain l where l: "l \<in> set files" "n = link_name s (link_open l)" using listed by blast
    show "x \<in> (\<lambda>l. (link_name s (link_open l), Signature (link_open l))) ` set files"
      using parse [OF l(1)] n j(2) l(2) by (intro image_eqI [OF _ l(1)]) simp
  next
    fix x assume "x \<in> (\<lambda>l. (link_name s (link_open l), Signature (link_open l))) ` set files"
    then obtain l where "l \<in> set files" "x = (link_name s (link_open l), Signature (link_open l))" by blast
    then show "x \<in> set (journals (rext s) dents)" using parse listed by (simp only: in_journals) blast
  qed
  have load: "?load (link_name s (link_open l)) (Signature (link_open l)) = Inr (link_entry s l)" if "l \<in> set files" for l
    using link_entry_load [OF assms(1,2,4) that] by (simp add: link_path_def)
  let ?new = "map (\<lambda>(n, sig). projr (?load n sig)) (journals (rext s) dents)"
  have "list_all2 (\<lambda>(n, sig) e. ?load n sig = Inr e) (journals (rext s) dents) ?new"
    using js load by (auto simp: list.rel_map list_all2_same)
  moreover have "list_all (\<lambda>(name, isDir). isDir \<or> (\<exists>x. parseJournalName name (rext s) = Inr x)) dents"
    unfolding list_all_iff
  proof
    fix de assume de: "de \<in> set dents"
    obtain n isDir where n: "de = (n, isDir)" by fastforce
    have "\<exists>x. parseJournalName n (rext s) = Inr x" if "\<not> isDir"
    proof -
      from de n that obtain l where "l \<in> set files" "n = link_name s (link_open l)" using listed by auto
      with parse show ?thesis by blast
    qed
    with n show "case de of (name, isDir) \<Rightarrow> isDir \<or> (\<exists>x. parseJournalName name (rext s) = Inr x)" by auto
  qed
  ultimately have scan: "scan_dents ?load (rext s) dents [] = Inr ?new" using scan_dents_ok by fastforce
  have set_new: "set ?new = set (map (link_entry s) files)" unfolding set_map js image_image using load by (intro image_cong) simp_all
  have "map FE_Path ?new = map (filepath_Join (rdir s)) (map fst (journals (rext s) dents))"
    using js load by (auto simp: link_entry_def link_path_def)
  moreover have "inj_on (filepath_Join (rdir s)) (fst ` set (journals (rext s) dents))"
    using js link_name_plain(1) [OF assms(1) small] by (auto simp: inj_on_def filepath_Join_inj)
  moreover have "distinct (map fst (journals (rext s) dents))" using assms(9) by (simp add: distinct_journals dir_listing_def)
  ultimately have "distinct ?new" using distinct_map [of FE_Path ?new] by (metis distinct_map set_map)
  moreover have sorted: "sorted_wrt (\<lambda>a b. sint (FE_Signature a) < sint (FE_Signature b)) (map (link_entry s) files)"
    using chain_signatures [OF assms(4)] by (simp add: sorted_wrt_map link_entry_def)
  ultimately have "sort_key (\<lambda>e. sint (FE_Signature e)) ?new = map (link_entry s) files" using set_new by (intro sort_key_unique)
  then have "buildDir (rdir s) (rft s) ?new = Inr \<lparr>dir_path = rdir s, dir_filetype = rft s, entries = map (link_entry s) files\<rparr>"
    unfolding buildDir_cases using sorted chain_compare [OF assms(3,4)] by simp
  moreover have "checkChain (rft s) = None" using assms(6,7) by (simp add: checkChain_def)
  ultimately show ?thesis using e assms(8) scan by (simp add: OpenDir_def)
qed

section \<open>A concrete run\<close>

definition sample_rotation :: rotation where
  "sample_rotation = \<lparr>ru = uuid_hex, rip = iproto_numbers, rz = zstd_store, rdir = ''d'', rft = FiletypeXLOG, rext = ''.xlog'',
     rinst = replicate 16 0xab, rcfg = rotation_cfg [MaxFileSize 1]\<rparr>"

definition sample_second :: "XRow list" where
  "sample_second = [sample_row\<lparr>LSN := 10\<rparr>]"

lemma sample_rotation_cfg:
  "maxFileSize (rotation_cfg [MaxFileSize 1]) = 1" "rwriterOpts (rotation_cfg [MaxFileSize 1]) = []" "rotation_ok sample_rotation"
  "link_wcfg sample_rotation = defaultCfg"
  by (simp_all add: rotation_cfg_def defaultRotateCfg_def MaxFileSize_def rotation_ok_def sample_rotation_def link_wcfg_def
      iproto_numbers_ok uuid_hex_ok sample_names)

lemma sample_second_ok: "tx_ok iproto_numbers zstd_store c sample_second"
proof -
  have len: "length (payload_bytes iproto_numbers (assignTxIDs iproto_numbers sample_second)) \<le> 1000" by code_simp
  have "body_ok iproto_numbers True sample_row" by (rule body_ok_final [OF sample_rows_ok(1)])
  then have "rows_ok iproto_numbers sample_second" by (auto simp: sample_second_def body_ok_def split: if_splits)
  with len frame_ok_store [OF len] show ?thesis
    by (simp add: tx_ok_def on_disk_def zstd_store_def MaxTxPayloadLen_def sample_second_def)
qed

lemma sample_clock_small: "0 \<le> a \<Longrightarrow> a < 2 ^ 62 \<Longrightarrow> 0 \<le> b \<Longrightarrow> b < 2 ^ 62 \<Longrightarrow>
  clock_small (Some [(1, of_int a), (0, of_int b)]) \<and> clock_small (Some [(1, of_int a)])"
  by (auto simp: clock_small_def vclock_wf_def vids_def vget_def clock_sum_def sint_of_int_small)

lemma sample_clocks: "clock_small (Some [(1, 7)])" "clock_small (Some [(1, 10), (0, 9)])" "clock_small (Some [(1, 8), (0, 9)])"
  using sample_clock_small [of 7 0] sample_clock_small [of 10 9] sample_clock_small [of 8 9] by simp_all

lemma sample_rotation_start: "rotation_start sample_rotation empty_world (Some [(1, 7)]) [sample_tx, sample_second]"
proof -
  have v: "vadvance sample_tx (Some [(1, 7)]) = Some [(1, 8), (0, 9)]" "vadvance sample_second (Some [(1, 8), (0, 9)]) = Some [(1, 10), (0, 9)]"
    by (simp_all add: vadvance_simps sample_tx_def sample_second_def sample_row_def sample_nop_def XRow0_def vget_def)
  have "sequenced (Some [(1, 7)]) [sample_tx, sample_second]"
    by (simp add: v advances_def) (simp add: sample_tx_def sample_second_def sample_row_def vget_def)
  moreover have "vadvance (concat [sample_tx, sample_second]) (Some [(1, 7)]) = Some [(1, 10), (0, 9)]" by (simp add: vadvance_append v)
  ultimately show ?thesis
    using sample_clocks sample_rotation_cfg(3) empty_world_ok
    by (simp add: rotation_start_def dir_empty_def sample_rotation_def sample_tx_ok sample_second_ok)
qed

section \<open>Properties\<close>

text \<open>
  C6: the chain of a rotating writer. In a directory without files of the chain, on a device with
  room and with no failing call, creating a rotating writer, writing transactions the format can carry,
  each with a row that is new to the clock, and closing it succeeds. The files left hold exactly
  the transactions, in order and none split; the first starts at the given clock, each other at the
  clock its predecessor ended at, and it names the clock that one started at; every file but the last
  has reached the size limit, and none had before its last transaction. Opening a file returns its header
  and its transactions.
\<close>

theorem rotated_chain_read_back:
  assumes "rotation_start s w0 start txs" and "rcfg s = rotation_cfg opts"
  shows "\<exists>rw1 w1 rw2 w2 rw3 w3 files.
      New (ru s) no_faults None (rdir s) (rft s) (rinst s) start opts w0 = (Inr rw1, w1)
    \<and> rotate_txs (ru s) (rip s) (rz s) no_faults txs rw1 w1 = (None, rw2, w2)
    \<and> Rotate_Close (rip s) (rz s) no_faults rw2 w2 = (None, rw3, w3)
    \<and> concat (map link_txs files) = txs \<and> chain_links s start files
    \<and> (\<forall>l\<in>set files. \<exists>r r'. Open (ru s) (file_of w3) None (link_path s (link_open l)) ropts = Inr r
        \<and> rmeta r = meta_canon (link_meta s (link_prev l) (link_open l))
        \<and> Txs (rip s) (rz s) collect [] r
          = (map (\<lambda>rows. Inr (tx_of (map (xrow_canon (rip s)) (assignTxIDs (rip s) rows)))) (link_txs l), r')
        \<and> SawEOFMarker r')"
proof -
  from rotation_run [OF assms] obtain rw1 w1 rw2 w2 rw3 w3 files where
    r: "New (ru s) no_faults None (rdir s) (rft s) (rinst s) start opts w0 = (Inr rw1, w1)"
    "rotate_txs (ru s) (rip s) (rz s) no_faults txs rw1 w1 = (None, rw2, w2)"
    "Rotate_Close (rip s) (rz s) no_faults rw2 w2 = (None, rw3, w3)"
    "concat (map link_txs files) = txs" "chain_links s start files" "chain_clocks files" "chain_files s w0 files w3" by blast
  have ok: "rotation_ok s" "\<forall>rows\<in>set txs. tx_ok (rip s) (rz s) (compression (link_wcfg s)) rows"
    using assms(1) by (simp_all add: rotation_start_def)
  have "\<forall>rows\<in>set (link_txs l). tx_ok (rip s) (rz s) (compression (link_wcfg s)) rows" if "l \<in> set files" for l
    using ok(2) r(4) that by auto
  with r chain_file_txs [OF ok(1) r(7,6)] show ?thesis by blast
qed

theorem rotated_chain_read_back_witness:
  "\<exists>rw1 w1 rw2 w2 rw3 w3 files.
      New uuid_hex no_faults None ''d'' FiletypeXLOG (replicate 16 0xab) (Some [(1, 7)]) [MaxFileSize 1] empty_world = (Inr rw1, w1)
    \<and> rotate_txs uuid_hex iproto_numbers zstd_store no_faults [sample_tx, sample_second] rw1 w1 = (None, rw2, w2)
    \<and> Rotate_Close iproto_numbers zstd_store no_faults rw2 w2 = (None, rw3, w3)
    \<and> concat (map link_txs files) = [sample_tx, sample_second] \<and> chain_links sample_rotation (Some [(1, 7)]) files"
proof -
  have "rcfg sample_rotation = rotation_cfg [MaxFileSize 1]" by (simp add: sample_rotation_def)
  from rotated_chain_read_back [OF sample_rotation_start this, of "[]"] show ?thesis unfolding sample_rotation_def rotation.simps
    by (elim exE conjE) (intro exI conjI, assumption+)
qed

text \<open>
  C10: the directory index of a chain. After the run of a rotating writer, opening its directory,
  whose listing shows the files that are there, returns an index with exactly the files of the chain in
  their order.
\<close>

theorem rotated_chain_indexed:
  assumes "rotation_start s w0 start txs" and "rcfg s = rotation_cfg opts" and "rft s \<noteq> FiletypeRUN" "rft s \<noteq> FiletypeINDEX"
  shows "\<exists>rw1 w1 rw2 w2 rw3 w3 files.
      New (ru s) no_faults None (rdir s) (rft s) (rinst s) start opts w0 = (Inr rw1, w1)
    \<and> rotate_txs (ru s) (rip s) (rz s) no_faults txs rw1 w1 = (None, rw2, w2)
    \<and> Rotate_Close (rip s) (rz s) no_faults rw2 w2 = (None, rw3, w3)
    \<and> concat (map link_txs files) = txs \<and> chain_links s start files
    \<and> (\<forall>readDir dents. readDir (rdir s) = Inr dents \<and> dir_listing w3 (rdir s) dents \<longrightarrow>
        OpenDir (ru s) (file_of w3) readDir None (rdir s) (rft s)
          = Inr \<lparr>dir_path = rdir s, dir_filetype = rft s, entries = map (link_entry s) files\<rparr>)"
proof -
  have ok: "rotation_ok s" "dir_empty s w0" using assms(1) by (simp_all add: rotation_start_def)
  from rotation_run [OF assms(1,2)] obtain rw1 w1 rw2 w2 rw3 w3 files where
    r: "New (ru s) no_faults None (rdir s) (rft s) (rinst s) start opts w0 = (Inr rw1, w1)"
    "rotate_txs (ru s) (rip s) (rz s) no_faults txs rw1 w1 = (None, rw2, w2)"
    "Rotate_Close (rip s) (rz s) no_faults rw2 w2 = (None, rw3, w3)"
    "concat (map link_txs files) = txs" "chain_links s start files" "chain_clocks files" "chain_files s w0 files w3" by blast
  with chain_index [OF ok(1) r(7,5,6) ok(2) assms(3,4)] show ?thesis by blast
qed

theorem rotated_chain_indexed_witness:
  "\<exists>rw1 w1 rw2 w2 rw3 w3 files.
      New uuid_hex no_faults None ''d'' FiletypeXLOG (replicate 16 0xab) (Some [(1, 7)]) [MaxFileSize 1] empty_world = (Inr rw1, w1)
    \<and> rotate_txs uuid_hex iproto_numbers zstd_store no_faults [sample_tx, sample_second] rw1 w1 = (None, rw2, w2)
    \<and> Rotate_Close iproto_numbers zstd_store no_faults rw2 w2 = (None, rw3, w3)
    \<and> concat (map link_txs files) = [sample_tx, sample_second]"
proof -
  have c: "rcfg sample_rotation = rotation_cfg [MaxFileSize 1]" and f: "rft sample_rotation \<noteq> FiletypeRUN" "rft sample_rotation \<noteq> FiletypeINDEX"
    by (simp_all add: sample_rotation_def filetype_defs)
  from rotated_chain_indexed [OF sample_rotation_start c f] show ?thesis unfolding sample_rotation_def rotation.simps
    by (elim exE conjE) (intro exI conjI, assumption+)
qed

text \<open>
  C38: a rotating writer is never without a writer. In every state reached by any operations with any
  failures, a write of rows to an open rotating writer fails in its rotation, or it writes to the
  current writer, which is there; the running clock is a map. So neither the missing writer of a failed
  rotation nor a nil clock is ever dereferenced.
\<close>

theorem rotate_writer_present:
  assumes "rotate_run u ip z rw" and "rows \<noteq> []" "\<not> rw_closed rw"
    and "Rotate_WriteTx u ip z fl rows rw w = (rows', e, rw', w')"
  shows "runningVClock rw \<noteq> None \<and> (rotateLocked u ip z fl rw w = (e, rw', w') \<and> e \<noteq> None
    \<or> (\<exists>rw1 w1 wr r. (rotateLocked u ip z fl rw w = (None, rw1, w1) \<or> rw1 = rw \<and> w1 = w) \<and> rw_cur rw1 = Some wr
        \<and> WriteTx ip z fl rows wr w1 = (rows', e, r, w')))"
proof -
  have i: "rotate_inv rw" by (rule rotate_run_inv [OF assms(1)])
  then have "runningVClock rw \<noteq> None" by (simp add: rotate_inv_def)
  with Rotate_WriteTx_cases(2) [OF assms(4) i assms(2,3)] show ?thesis by blast
qed

theorem rotate_writer_present_witness:
  "\<exists>rw w rows' rw' w'. rotate_run uuid_hex iproto_numbers zstd_store rw
    \<and> Rotate_WriteTx uuid_hex iproto_numbers zstd_store no_faults sample_tx rw w = (rows', None, rw', w')
    \<and> (\<exists>rw1 w1 wr r. (rotateLocked uuid_hex iproto_numbers zstd_store no_faults rw w = (None, rw1, w1) \<or> rw1 = rw \<and> w1 = w) \<and> rw_cur rw1 = Some wr
        \<and> WriteTx iproto_numbers zstd_store no_faults sample_tx wr w1 = (rows', None, r, w'))"
proof -
  let ?v = "Some [(1, 7)] :: VClock"
  have s: "ru sample_rotation = uuid_hex" "rip sample_rotation = iproto_numbers" "rz sample_rotation = zstd_store"
    "rcfg sample_rotation = rotation_cfg [MaxFileSize 1]" "dir_empty sample_rotation empty_world" "?v \<noteq> None"
    by (simp_all add: sample_rotation_def dir_empty_def empty_world_ok)
  from rotation_new [OF sample_rotation_cfg(3) s(5) empty_world_ok(1,2) s(6) sample_clocks(1) s(4)] obtain rw w where
    n: "rotate_run uuid_hex iproto_numbers zstd_store rw" "chain_inv sample_rotation empty_world [] (None, ?v, []) rw w"
    unfolding s(1) by (blast intro: rotate_run.started)
  have ne: "sample_tx \<noteq> []" by (simp add: sample_tx_def)
  have rw: "\<not> rw_closed rw" "curBytes rw = 0" "maxFileSize (rw_opts rw) = 1" using n(2) s(4) by (auto simp: chain_inv_def sample_rotation_cfg)
  from chain_write [OF n(2) s(6) ne] obtain rw' w' where
    "Rotate_write iproto_numbers zstd_store no_faults sample_tx rw w = (assignTxIDs iproto_numbers sample_tx, None, rw', w')" unfolding s(2,3) by blast
  then have t: "Rotate_WriteTx uuid_hex iproto_numbers zstd_store no_faults sample_tx rw w = (assignTxIDs iproto_numbers sample_tx, None, rw', w')"
    using ne rw by (simp add: Rotate_WriteTx_def)
  from rotate_writer_present [OF n(1) ne rw(1) t] n(1) t show ?thesis by blast
qed

text \<open>
  C40: a rotation that does not advance the clock loses a file. The name of a file is the signature of
  the running clock: when the transactions written since the last rotation bring no new sequence
  number, the next file has the same name, and closing it replaces the earlier one. No call reports an
  error, and of the two transactions only the second is left.
\<close>

theorem rotation_replaces_file:
  assumes "rotation_ok s" "dir_empty s w0" "world_ok w0" "room w0 = None" and "start \<noteq> None" "clock_small start" "rcfg s = rotation_cfg opts"
    and "tx_ok (rip s) (rz s) (compression (link_wcfg s)) tx1" "tx_ok (rip s) (rz s) (compression (link_wcfg s)) tx2"
    and "\<not> advances start tx1" "\<not> advances start tx2" and "sint (maxFileSize (rcfg s)) \<le> sint (link_size tx1)"
  shows "\<exists>rw1 w1 rw2 w2 rw3 w3 r r'.
      New (ru s) no_faults None (rdir s) (rft s) (rinst s) start opts w0 = (Inr rw1, w1)
    \<and> rotate_txs (ru s) (rip s) (rz s) no_faults [tx1, tx2] rw1 w1 = (None, rw2, w2)
    \<and> Rotate_Close (rip s) (rz s) no_faults rw2 w2 = (None, rw3, w3)
    \<and> (\<forall>p. names w3 p \<noteq> None \<longleftrightarrow> names w0 p \<noteq> None \<or> p = link_path s start)
    \<and> Open (ru s) (file_of w3) None (link_path s start) [] = Inr r
    \<and> Txs (rip s) (rz s) collect [] r = ([Inr (tx_of (map (xrow_canon (rip s)) (assignTxIDs (rip s) tx2)))], r')"
proof -
  have stuck: "vadvance rows start = start" if "\<not> advances start rows" for rows
    using that assms(5) by (induction rows) (auto simp: vadvance_simps advances_def)
  have ne: "tx1 \<noteq> []" "tx2 \<noteq> []" using assms(8,9) by (simp_all add: tx_ok_def)
  have wf: "vclock_wf start" "vclock_wf None" using assms(6) by (simp_all add: clock_small_def vclock_wf_def vids_def)
  let ?l1 = "(None, start, [tx1])" and ?l2 = "(start, start, [tx2])"
  from rotation_new [OF assms(1-7)] obtain rw1 w1 where
    n: "New (ru s) no_faults None (rdir s) (rft s) (rinst s) start opts w0 = (Inr rw1, w1)" "chain_inv s w0 [] (None, start, []) rw1 w1" by blast
  from chain_write [OF n(2) assms(5) ne(1)] obtain rwa wa where
    a: "Rotate_write (rip s) (rz s) no_faults tx1 rw1 w1 = (assignTxIDs (rip s) tx1, None, rwa, wa)" "chain_inv s w0 [] ?l1 rwa wa" by auto
  have t1: "snd (Rotate_WriteTx (ru s) (rip s) (rz s) no_faults tx1 rw1 w1) = (None, rwa, wa)"
    using a(1) n(2) ne(1) assms(1) by (auto simp: Rotate_WriteTx_def chain_inv_def rotation_ok_def)
  from chain_files_close [OF a(2) assms(1) wf(2,1)] obtain wr wr' wb where
    b: "rw_cur rwa = Some wr" "Writer_Close (rip s) (rz s) no_faults wr wa = (None, wr', wb)" "chain_files s w0 [?l1] wb" by auto
  have rwa: "rw_dirPath rwa = rdir s" "rw_filetype rwa = rft s" "rw_instance rwa = rinst s" "rw_opts rwa = rcfg s" "runningVClock rwa = start"
    "\<not> rw_closed rwa" "curOpenVClock rwa = start" "curBytes rwa = link_size tx1" using a(2) stuck [OF assms(10)] by (auto simp: chain_inv_def)
  from chain_open [OF b(3) assms(1,2) wf(1) assms(6,5), of "rwa\<lparr>rw_cur := None\<rparr>"] rwa assms(6) obtain rwc wc where
    c: "openCurrent (ru s) no_faults start (rwa\<lparr>rw_cur := None\<rparr>) wb = (None, rwc, wc)" "chain_inv s w0 [?l1] (start, start, []) rwc wc" by auto
  from chain_write [OF c(2) assms(5) ne(2)] obtain rw2 w2 where
    d: "Rotate_write (rip s) (rz s) no_faults tx2 rwc wc = (assignTxIDs (rip s) tx2, None, rw2, w2)" "chain_inv s w0 [?l1] ?l2 rw2 w2" by auto
  have "snd (Rotate_WriteTx (ru s) (rip s) (rz s) no_faults tx2 rwa wa) = (None, rw2, w2)"
    using b c(1) d(1) ne(2) rwa assms(12) by (simp add: Rotate_WriteTx_def rotateLocked_def)
  with t1 have txs: "rotate_txs (ru s) (rip s) (rz s) no_faults [tx1, tx2] rw1 w1 = (None, rw2, w2)" by simp
  from chain_close [OF d(2) assms(1) wf(1,1)] obtain wq wq' w3 wk where
    e: "rw_cur rw2 = Some wq" "Writer_Close (rip s) (rz s) no_faults wq w2 = (None, wq', w3)" "chain_files s w0 [?l1] wk"
    "world_ok w3" "room w3 = None" "names w3 = (names wk)(link_path s start \<mapsto> fresh wk)" "file_of w3 (link_path s start) = Some (link_bytes s ?l2)" by blast
  have "\<not> rw_closed rw2" using d(2) by (auto simp: chain_inv_def)
  with e(1,2) obtain rw3 where cl: "Rotate_Close (rip s) (rz s) no_faults rw2 w2 = (None, rw3, w3)" by (simp add: Rotate_Close_def)
  have names: "names w3 p \<noteq> None \<longleftrightarrow> names w0 p \<noteq> None \<or> p = link_path s start" for p
    using e(3,6) by (auto simp: chain_files_def)
  then have "chain_files s w0 [?l2] w3" using e(4,5,7) by (simp add: chain_files_def)
  moreover have "chain_clocks [?l2]" using assms(5,6) wf by (simp add: chain_clocks_def)
  ultimately obtain r r' where "Open (ru s) (file_of w3) None (link_path s start) [] = Inr r"
    "Txs (rip s) (rz s) collect [] r = ([Inr (tx_of (map (xrow_canon (rip s)) (assignTxIDs (rip s) tx2)))], r')"
    using chain_file_txs [OF assms(1), of w0 "[?l2]" w3 ?l2 "[]"] assms(9) by auto
  with n(1) txs cl names show ?thesis by blast
qed

theorem rotation_replaces_file_witness:
  "\<exists>rw1 w1 rw2 w2 rw3 w3 r r'.
      New uuid_hex no_faults None ''d'' FiletypeXLOG (replicate 16 0xab) (Some [(1, 8), (0, 9)]) [MaxFileSize 1] empty_world = (Inr rw1, w1)
    \<and> rotate_txs uuid_hex iproto_numbers zstd_store no_faults [sample_tx, sample_tx] rw1 w1 = (None, rw2, w2)
    \<and> Rotate_Close iproto_numbers zstd_store no_faults rw2 w2 = (None, rw3, w3)
    \<and> Open uuid_hex (file_of w3) None (link_path sample_rotation (Some [(1, 8), (0, 9)])) [] = Inr r
    \<and> Txs iproto_numbers zstd_store collect [] r
      = ([Inr (tx_of (map (xrow_canon iproto_numbers) (assignTxIDs iproto_numbers sample_tx)))], r')"
proof -
  let ?v = "Some [(1, 8), (0, 9)] :: VClock"
  have c: "rcfg sample_rotation = rotation_cfg [MaxFileSize 1]" "dir_empty sample_rotation empty_world" "?v \<noteq> None"
    by (simp_all add: sample_rotation_def dir_empty_def empty_world_ok)
  have t: "tx_ok (rip sample_rotation) (rz sample_rotation) (compression (link_wcfg sample_rotation)) sample_tx"
    by (simp add: sample_rotation_def sample_tx_ok)
  have a: "\<not> advances ?v sample_tx" by (simp add: advances_def sample_tx_def sample_row_def sample_nop_def XRow0_def vget_def)
  have "link_size sample_tx = 63"
    by (simp add: link_size_def sample_tx_def sample_row_def sample_nop_def XRow0_def rowHeaderEstimateBytes_def)
  then have m: "sint (maxFileSize (rcfg sample_rotation)) \<le> sint (link_size sample_tx)" by (simp add: c(1) sample_rotation_cfg)
  from rotation_replaces_file [OF sample_rotation_cfg(3) c(2) empty_world_ok(1,2) c(3) sample_clocks(3) c(1) t t a a m]
  show ?thesis unfolding sample_rotation_def rotation.simps
    by (elim exE conjE) (intro exI conjI, assumption+)
qed

text \<open>
  C37: resuming at a sequence number. In the index of a chain, the file found for a replica and a
  sequence number is a place to resume from: every row of the replica in an earlier file has at most
  this number, and every later file starts above it. A row with exactly this number is in an earlier file
  when the file found starts at it.
\<close>

theorem locate_lsn_resume:
  assumes "chain_links s start files" "chain_clocks files"
    and "LocateLSN \<lparr>dir_path = rdir s, dir_filetype = rft s, entries = map (link_entry s) files\<rparr> rid lsn = Inr e"
  shows "\<exists>i<length files. e = link_entry s (files ! i)
    \<and> (\<forall>j<i. \<forall>r\<in>set (concat (link_txs (files ! j))). ReplicaID r = rid \<longrightarrow> sint (LSN r) \<le> sint lsn)
    \<and> (\<forall>k<length files. i < k \<longrightarrow> sint lsn < sint (vget (link_open (files ! k)) rid))"
proof -
  have nn: "link_open (files ! j) \<noteq> None" if "j < length files" for j using assms(2) that by (simp add: chain_clocks_def)
  have nx: "link_next s (files ! j) (files ! Suc j)" if "Suc j < length files" for j
    using assms(1) that by (simp add: chain_links_def successively_nth)
  have mono: "sint (vget (link_open (files ! i)) rid) \<le> sint (vget (link_open (files ! k)) rid)" if "i \<le> k" "k < length files" for i k
    using that
  proof (induction rule: dec_induct)
    case (step n)
    then have "vclock.cle (link_open (files ! n)) (link_open (files ! Suc n))" using nx [of n] nn [of n] vadvance_cle by (auto simp: link_next_def)
    then have "sint (vget (link_open (files ! n)) rid) \<le> sint (vget (link_open (files ! Suc n)) rid)" by (simp add: vclock.cle_def)
    with step show ?case by simp
  qed simp
  from LocateLSN_best [THEN conjunct2, THEN mp, OF assms(3)] obtain i where
    i: "i < length files" "e = link_entry s (files ! i)" "sint (vget (link_open (files ! i)) rid) \<le> sint lsn"
    "\<forall>j<length files. sint (vget (link_open (files ! j)) rid) \<le> sint lsn \<longrightarrow> i < j \<longrightarrow> sint (vget (link_open (files ! j)) rid) < sint (vget (link_open (files ! i)) rid)"
    by (auto simp: Files_def link_entry_def)
  have "sint (LSN r) \<le> sint lsn" if "j < i" "r \<in> set (concat (link_txs (files ! j)))" "ReplicaID r = rid" for j r
  proof -
    have "sint (LSN r) \<le> sint (vget (link_open (files ! Suc j)) rid)"
      using vadvance_covers [OF nn that(2)] nx [of j] that i(1) by (simp add: link_next_def)
    also have "\<dots> \<le> sint (vget (link_open (files ! i)) rid)" using mono [of "Suc j" i] that(1) i(1) by simp
    finally show ?thesis using i(3) by simp
  qed
  moreover have "sint lsn < sint (vget (link_open (files ! k)) rid)" if "k < length files" "i < k" for k
    using i(4) that mono [of i k] by (meson less_imp_le not_less)
  ultimately show ?thesis using i(1,2) by blast
qed

text \<open>The chain of a concrete run: two files, the second starting at the number of the first's last row.\<close>

definition sample_chain :: "link list" where
  "sample_chain = [(None, Some [(1, 7)], [sample_tx]), (Some [(1, 7)], Some [(1, 8), (0, 9)], [sample_second])]"

theorem locate_lsn_resume_witness:
  "LocateLSN \<lparr>dir_path = ''d'', dir_filetype = FiletypeXLOG, entries = map (link_entry sample_rotation) sample_chain\<rparr> 1 8
      = Inr (link_entry sample_rotation (sample_chain ! 1))
    \<and> (\<exists>i<length sample_chain. link_entry sample_rotation (sample_chain ! 1) = link_entry sample_rotation (sample_chain ! i)
      \<and> (\<forall>j<i. \<forall>r\<in>set (concat (link_txs (sample_chain ! j))). ReplicaID r = 1 \<longrightarrow> sint (LSN r) \<le> sint (8 :: int64))
      \<and> (\<forall>k<length sample_chain. i < k \<longrightarrow> sint (8 :: int64) < sint (vget (link_open (sample_chain ! k)) 1)))"
proof -
  have d: "rdir sample_rotation = ''d''" "rft sample_rotation = FiletypeXLOG" by (simp_all add: sample_rotation_def)
  have loc: "LocateLSN \<lparr>dir_path = ''d'', dir_filetype = FiletypeXLOG, entries = map (link_entry sample_rotation) sample_chain\<rparr> 1 8
      = Inr (link_entry sample_rotation (sample_chain ! 1))"
    by (simp add: LocateLSN_def sample_chain_def link_entry_def) (simp add: vget_def)
  have v: "vadvance sample_tx (Some [(1, 7)]) = Some [(1, 8), (0, 9)]"
    by (simp add: vadvance_simps sample_tx_def sample_row_def sample_nop_def XRow0_def vget_def)
  have m: "sint (maxFileSize (rcfg sample_rotation)) = 1" by (simp add: sample_rotation_def sample_rotation_cfg)
  have z: "link_size sample_tx = 63"
    by (simp add: link_size_def sample_tx_def sample_row_def sample_nop_def XRow0_def rowHeaderEstimateBytes_def)
  have "chain_links sample_rotation (Some [(1, 7)]) sample_chain"
    by (simp add: chain_links_def sample_chain_def link_next_def v m z)
  moreover have "chain_clocks sample_chain"
    using sample_clocks by (auto simp: chain_clocks_def sample_chain_def vclock_wf_def vids_def clock_sum_def vget_def)
  ultimately show ?thesis using loc locate_lsn_resume [of sample_rotation "Some [(1, 7)]" sample_chain 1 8] unfolding d by blast
qed

end
