(* ===== verification/Bodies.thy ===== *)
theory Bodies
  imports Xrow VClock
begin

unbundle bit_operations_syntax

text \<open>
  The typed bodies of a row (\<^verbatim>\<open>format/body_options.go\<close>, \<^verbatim>\<open>body_dml.go\<close>, \<^verbatim>\<open>body_raft.go\<close>,
  \<^verbatim>\<open>body_synchro.go\<close>, \<^verbatim>\<open>body_vylog.go\<close>) and the map walk of \<^verbatim>\<open>body_vinyl.go\<close> they share. A decoder is
  a function that handles one key of the body map and the walk that feeds it; the interface
  \<open>body_decoder\<close> separates what a handler accepts from what it stores, and gives the meaning of a
  whole body once for all decoders: the body is a well-formed map, every value is one its handler
  accepts, and each field holds the last value of its key.
\<close>

section \<open>Options of the decoders\<close>

text \<open>
  A callback of type \<^verbatim>\<open>func(key uint64, raw []byte)\<close> is a function on the state \<open>'u\<close> it works on; the
  decoders thread that state. The methods are called on a nil pointer too, hence the options.
\<close>

record 'u DecodeOptions =
  OnUnknown :: "(uint64 \<Rightarrow> bytes \<Rightarrow> 'u \<Rightarrow> 'u) option"

definition CollectUnknown :: "(uint64 \<times> bytes) list option DecodeOptions" where
  "CollectUnknown = \<lparr>OnUnknown = Some (\<lambda>key raw dst.
     (let m = (case dst of None \<Rightarrow> [] | Some m \<Rightarrow> m) in Some (entries_set m key raw)))\<rparr>"

definition unknown :: "'u DecodeOptions option \<Rightarrow> uint64 \<Rightarrow> bytes \<Rightarrow> 'u \<Rightarrow> 'u" where
  "unknown opts key raw u = (case opts of None \<Rightarrow> u
     | Some os \<Rightarrow> (case OnUnknown os of None \<Rightarrow> u | Some f \<Rightarrow> f key raw u))"

section \<open>The walk of a body map\<close>

text \<open>
  The loop over the entries: an uint key, the raw value, the handler. A handler returns the state
  as it left it and its error, so a failed decode returns what was decoded before it.
\<close>

fun walk_loop ::
    "(uint64 \<Rightarrow> bytes \<Rightarrow> 's \<Rightarrow> 's \<times> error option) \<Rightarrow> bytes \<Rightarrow> nat \<Rightarrow> nat \<Rightarrow> 's \<Rightarrow> 's \<times> error option" where
  "walk_loop fn b 0 off s = (s, None)"
| "walk_loop fn b (Suc entries) off s =
     (case readMPUint (drop off b) of Inl e \<Rightarrow> (s, Some e)
      | Inr (key, n) \<Rightarrow>
          (case skipMP (drop (off + n) b) of Inl e \<Rightarrow> (s, Some e)
           | Inr valLen \<Rightarrow>
               (case fn key (subslice b (off + n) (off + n + valLen)) s of
                  (s', Some e) \<Rightarrow> (s', Some e)
                | (s', None) \<Rightarrow> walk_loop fn b entries (off + n + valLen) s')))"

definition walkMap :: "(uint64 \<Rightarrow> bytes \<Rightarrow> 's \<Rightarrow> 's \<times> error option) \<Rightarrow> bytes \<Rightarrow> 's \<Rightarrow> 's \<times> error option" where
  "walkMap fn b s = (case readMPMapLen b of Inl e \<Rightarrow> (s, Some e)
     | Inr (entries, off) \<Rightarrow> walk_loop fn b entries off s)"

definition walkBody :: "(uint64 \<Rightarrow> bytes \<Rightarrow> 's \<Rightarrow> 's \<times> error option) \<Rightarrow> bytes \<Rightarrow> 's \<Rightarrow> 's \<times> error option" where
  "walkBody fn b s = (if length b = 0 then (s, Some [Body ErrEmptyBody]) else walkMap fn b s)"

text \<open>A value read with \<^verbatim>\<open>readMPUint(val)\<close> and stored.\<close>

definition uint_field :: "bytes \<Rightarrow> (uint64 \<Rightarrow> 's) \<Rightarrow> 's \<Rightarrow> 's \<times> error option" where
  "uint_field val store s = (case readMPUint val of Inl e \<Rightarrow> (s, Some e) | Inr (v, _) \<Rightarrow> (store v, None))"

section \<open>Data manipulation bodies\<close>

record DMLBody =
  SpaceID :: uint32
  IndexID :: uint32
  IndexBase :: uint32
  Tuple :: bytes
  Key :: bytes
  Ops :: bytes
  OldTuple :: bytes
  NewTuple :: bytes
  Arrow :: bytes

definition DMLBody0 :: DMLBody where
  "DMLBody0 = \<lparr>SpaceID = 0, IndexID = 0, IndexBase = 0, Tuple = [], Key = [], Ops = [], OldTuple = [],
     NewTuple = [], Arrow = []\<rparr>"

definition dml_key :: "iproto \<Rightarrow> 'u DecodeOptions option \<Rightarrow> uint64 \<Rightarrow> bytes \<Rightarrow> DMLBody \<times> 'u
    \<Rightarrow> (DMLBody \<times> 'u) \<times> error option" where
  "dml_key ip opts key val = (\<lambda>(body, u).
     if key = ip IPROTO_SPACE_ID then uint_field val (\<lambda>v. (body\<lparr>SpaceID := ucast v\<rparr>, u)) (body, u)
     else if key = ip IPROTO_INDEX_ID then uint_field val (\<lambda>v. (body\<lparr>IndexID := ucast v\<rparr>, u)) (body, u)
     else if key = ip IPROTO_INDEX_BASE then
       uint_field val (\<lambda>v. (body\<lparr>IndexBase := ucast v\<rparr>, u)) (body, u)
     else if key = ip IPROTO_TUPLE then ((body\<lparr>Tuple := val\<rparr>, u), None)
     else if key = ip IPROTO_KEY then ((body\<lparr>Key := val\<rparr>, u), None)
     else if key = ip IPROTO_OPS then ((body\<lparr>Ops := val\<rparr>, u), None)
     else if key = ip IPROTO_OLD_TUPLE then ((body\<lparr>OldTuple := val\<rparr>, u), None)
     else if key = ip IPROTO_NEW_TUPLE then ((body\<lparr>NewTuple := val\<rparr>, u), None)
     else if key = ip IPROTO_ARROW then ((body\<lparr>Arrow := val\<rparr>, u), None)
     else ((body, unknown opts key val u), None))"

text \<open>
  \<^verbatim>\<open>dst\<close> is reset before anything else, so its prior value is no argument: the result is what it
  holds afterwards, with the state of the callback and the error.
\<close>

definition DecodeDMLBodyInto ::
    "iproto \<Rightarrow> bytes \<Rightarrow> 'u DecodeOptions option \<Rightarrow> 'u \<Rightarrow> (DMLBody \<times> 'u) \<times> error option" where
  "DecodeDMLBodyInto ip b opts u = walkBody (dml_key ip opts) b (DMLBody0, u)"

definition DecodeDMLBody :: "iproto \<Rightarrow> bytes \<Rightarrow> error + DMLBody" where
  "DecodeDMLBody ip b = (case DecodeDMLBodyInto ip b (None :: unit DecodeOptions option) () of
     (_, Some e) \<Rightarrow> Inl e | ((body, _), None) \<Rightarrow> Inr body)"

section \<open>Raft and synchronous replication bodies\<close>

record RaftBody =
  Term :: uint64
  Vote :: uint64
  State :: uint32
  rb_VClock :: VClock
  LeaderID :: uint32
  IsLeaderSeen :: bool

definition RaftBody0 :: RaftBody where
  "RaftBody0 = \<lparr>Term = 0, Vote = 0, State = 0, rb_VClock = None, LeaderID = 0, IsLeaderSeen = False\<rparr>"

fun vclock_map_loop :: "bytes \<Rightarrow> nat \<Rightarrow> nat \<Rightarrow> (uint32 \<times> int64) list \<Rightarrow> error + (uint32 \<times> int64) list" where
  "vclock_map_loop b 0 off v = Inr v"
| "vclock_map_loop b (Suc entries) off v =
     (case readMPUint (drop off b) of Inl e \<Rightarrow> Inl e
      | Inr (rid, n) \<Rightarrow>
          (case readMPUint (drop (off + n) b) of Inl e \<Rightarrow> Inl e
           | Inr (lsn, n') \<Rightarrow> vclock_map_loop b entries (off + n + n') (entries_set v (ucast rid) lsn)))"

definition decodeVClockMap :: "bytes \<Rightarrow> error + VClock" where
  "decodeVClockMap b = (case readMPMapLen b of Inl e \<Rightarrow> Inl e
     | Inr (entries, off) \<Rightarrow> map_sum id Some (vclock_map_loop b entries off []))"

definition raft_key :: "iproto \<Rightarrow> 'u DecodeOptions option \<Rightarrow> uint64 \<Rightarrow> bytes \<Rightarrow> RaftBody \<times> 'u
    \<Rightarrow> (RaftBody \<times> 'u) \<times> error option" where
  "raft_key ip opts key val = (\<lambda>(body, u).
     if key = ip IPROTO_RAFT_TERM then uint_field val (\<lambda>v. (body\<lparr>Term := v\<rparr>, u)) (body, u)
     else if key = ip IPROTO_RAFT_VOTE then uint_field val (\<lambda>v. (body\<lparr>Vote := v\<rparr>, u)) (body, u)
     else if key = ip IPROTO_RAFT_STATE then uint_field val (\<lambda>v. (body\<lparr>State := ucast v\<rparr>, u)) (body, u)
     else if key = ip IPROTO_RAFT_VCLOCK then
       (case decodeVClockMap val of Inl e \<Rightarrow> ((body, u), Some e)
        | Inr vc \<Rightarrow> ((body\<lparr>rb_VClock := vc\<rparr>, u), None))
     else if key = ip IPROTO_RAFT_LEADER_ID then
       uint_field val (\<lambda>v. (body\<lparr>LeaderID := ucast v\<rparr>, u)) (body, u)
     else if key = ip IPROTO_RAFT_IS_LEADER_SEEN then
       (if length val \<noteq> 1 then ((body, u), Some [Body ErrIsLeaderSeenLen])
        else if val ! 0 = mpcTrue then ((body\<lparr>IsLeaderSeen := True\<rparr>, u), None)
        else if val ! 0 = mpcFalse then ((body\<lparr>IsLeaderSeen := False\<rparr>, u), None)
        else ((body, u), Some [Body ErrIsLeaderSeenTag]))
     else ((body, unknown opts key val u), None))"

definition DecodeRaftBodyInto ::
    "iproto \<Rightarrow> bytes \<Rightarrow> 'u DecodeOptions option \<Rightarrow> 'u \<Rightarrow> (RaftBody \<times> 'u) \<times> error option" where
  "DecodeRaftBodyInto ip b opts u = walkBody (raft_key ip opts) b (RaftBody0, u)"

definition DecodeRaftBody :: "iproto \<Rightarrow> bytes \<Rightarrow> error + RaftBody" where
  "DecodeRaftBody ip b = (case DecodeRaftBodyInto ip b (None :: unit DecodeOptions option) () of
     (_, Some e) \<Rightarrow> Inl e | ((body, _), None) \<Rightarrow> Inr body)"

record SynchroBody =
  sb_ReplicaID :: uint32
  sb_LSN :: int64
  sb_Term :: uint64
  ConfirmedVClock :: VClock

definition SynchroBody0 :: SynchroBody where
  "SynchroBody0 = \<lparr>sb_ReplicaID = 0, sb_LSN = 0, sb_Term = 0, ConfirmedVClock = None\<rparr>"

definition synchro_key :: "iproto \<Rightarrow> 'u DecodeOptions option \<Rightarrow> uint64 \<Rightarrow> bytes \<Rightarrow> SynchroBody \<times> 'u
    \<Rightarrow> (SynchroBody \<times> 'u) \<times> error option" where
  "synchro_key ip opts key val = (\<lambda>(body, u).
     if key = ip IPROTO_REPLICA_ID then uint_field val (\<lambda>v. (body\<lparr>sb_ReplicaID := ucast v\<rparr>, u)) (body, u)
     else if key = ip IPROTO_LSN then uint_field val (\<lambda>v. (body\<lparr>sb_LSN := v\<rparr>, u)) (body, u)
     else if key = ip IPROTO_TERM then uint_field val (\<lambda>v. (body\<lparr>sb_Term := v\<rparr>, u)) (body, u)
     else if key = ip IPROTO_VCLOCK then
       (case decodeVClockMap val of Inl e \<Rightarrow> ((body, u), Some e)
        | Inr vc \<Rightarrow> ((body\<lparr>ConfirmedVClock := vc\<rparr>, u), None))
     else ((body, unknown opts key val u), None))"

definition DecodeSynchroBodyInto ::
    "iproto \<Rightarrow> bytes \<Rightarrow> 'u DecodeOptions option \<Rightarrow> 'u \<Rightarrow> (SynchroBody \<times> 'u) \<times> error option" where
  "DecodeSynchroBodyInto ip b opts u = walkBody (synchro_key ip opts) b (SynchroBody0, u)"

definition DecodeSynchroBody :: "iproto \<Rightarrow> bytes \<Rightarrow> error + SynchroBody" where
  "DecodeSynchroBody ip b = (case DecodeSynchroBodyInto ip b (None :: unit DecodeOptions option) () of
     (_, Some e) \<Rightarrow> Inl e | ((body, _), None) \<Rightarrow> Inr body)"

section \<open>Vinyl log bodies\<close>

type_synonym VyLogType = uint32
type_synonym VyKey = uint64

record VyLogBody =
  vl_Type :: VyLogType
  vl_Keys :: "(VyKey \<times> bytes) list option"

definition VyLogBody0 :: VyLogBody where
  "VyLogBody0 = \<lparr>vl_Type = 0, vl_Keys = None\<rparr>"

definition vyLogTypeNames :: "(VyLogType \<times> string) list" where
  "vyLogTypeNames = [(0, ''CREATE_LSM''), (1, ''DROP_LSM''), (2, ''INSERT_RANGE''), (3, ''DELETE_RANGE''),
     (4, ''PREPARE_RUN''), (5, ''CREATE_RUN''), (6, ''DROP_RUN''), (7, ''FORGET_RUN''), (8, ''INSERT_SLICE''),
     (9, ''DELETE_SLICE''), (10, ''DUMP_LSM''), (11, ''SNAPSHOT''), (12, ''TRUNCATE_LSM''),
     (13, ''MODIFY_LSM''), (14, ''FORGET_LSM''), (15, ''PREPARE_LSM''), (16, ''REBOOTSTRAP''),
     (17, ''ABORT_REBOOTSTRAP'')]"

definition VyLogType_String :: "VyLogType \<Rightarrow> string" where
  "VyLogType_String t = (case map_of vyLogTypeNames t of Some name \<Rightarrow> name
     | None \<Rightarrow> ''VyLogType('' @ FormatUint (ucast t) @ '')'')"

definition vyKeyNames :: "(VyKey \<times> string) list" where
  "vyKeyNames = [(0, ''LSM_ID''), (1, ''RANGE_ID''), (2, ''RUN_ID''), (3, ''BEGIN''), (4, ''END''), (5, ''INDEX_ID''),
     (6, ''SPACE_ID''), (7, ''DEF''), (8, ''SLICE_ID''), (9, ''DUMP_LSN''), (10, ''GC_LSN''), (11, ''TRUNCATE_COUNT''),
     (12, ''CREATE_LSN''), (13, ''MODIFY_LSN''), (14, ''DROP_LSN''), (15, ''GROUP_ID''), (16, ''DUMP_COUNT'')]"

definition VyKey_String :: "VyKey \<Rightarrow> string" where
  "VyKey_String k = (case map_of vyKeyNames k of Some name \<Rightarrow> name | None \<Rightarrow> ''VyKey('' @ FormatUint k @ '')'')"

text \<open>The fields of the record, each raw under its key.\<close>

definition vylog_field :: "uint64 \<Rightarrow> bytes \<Rightarrow> VyLogBody \<Rightarrow> VyLogBody \<times> error option" where
  "vylog_field key val body =
     (body\<lparr>vl_Keys := map_option (\<lambda>m. entries_set m key val) (vl_Keys body)\<rparr>, None)"

definition decodeVyLogRecord :: "bytes \<Rightarrow> VyLogBody \<Rightarrow> VyLogBody \<times> error option" where
  "decodeVyLogRecord b body = (case readMPArrayLen b of Inl e \<Rightarrow> (body, Some e)
     | Inr (n, off) \<Rightarrow>
         if n \<noteq> 2 then (body, Some [Body ErrBadVyLogRecord])
         else (case readMPUint (drop off b) of Inl e \<Rightarrow> (body, Some e)
           | Inr (typ, k) \<Rightarrow>
               (case readMPMapLen (drop (off + k) b) of Inl e \<Rightarrow> (body, Some e)
                | Inr (entries, k') \<Rightarrow>
                    walk_loop vylog_field b entries (off + k + k')
                      (body\<lparr>vl_Type := ucast typ, vl_Keys := Some []\<rparr>))))"

text \<open>The walk that finds the record. A raw value is never empty, so \<open>[]\<close> is the nil slice.\<close>

definition vylog_key :: "iproto \<Rightarrow> 'u DecodeOptions option \<Rightarrow> uint64 \<Rightarrow> bytes \<Rightarrow> bytes \<times> 'u
    \<Rightarrow> (bytes \<times> 'u) \<times> error option" where
  "vylog_key ip opts key val = (\<lambda>(rec, u).
     if key = ip IPROTO_TUPLE then ((val, u), None) else ((rec, unknown opts key val u), None))"

definition DecodeVyLogBodyInto ::
    "iproto \<Rightarrow> bytes \<Rightarrow> 'u DecodeOptions option \<Rightarrow> 'u \<Rightarrow> (VyLogBody \<times> 'u) \<times> error option" where
  "DecodeVyLogBodyInto ip b opts u = (case walkBody (vylog_key ip opts) b ([], u) of
     ((_, u'), Some e) \<Rightarrow> ((VyLogBody0, u'), Some e)
   | ((rec, u'), None) \<Rightarrow>
       if rec = [] then ((VyLogBody0, u'), Some [Body ErrBadVyLogRecord])
       else (case decodeVyLogRecord rec VyLogBody0 of (body, err) \<Rightarrow> ((body, u'), err)))"

definition DecodeVyLogBody :: "iproto \<Rightarrow> bytes \<Rightarrow> error + VyLogBody" where
  "DecodeVyLogBody ip b = (case DecodeVyLogBodyInto ip b (None :: unit DecodeOptions option) () of
     (_, Some e) \<Rightarrow> Inl e | ((body, _), None) \<Rightarrow> Inr body)"

section \<open>The grammar of a body\<close>

text \<open>
  \<open>mp_entries es s\<close>: the bytes \<open>s\<close> are the entries \<open>es\<close> of a map, keys that read as unsigned integers
  in any of their encodings, each followed by one well-formed value. \<open>mp_map b es\<close>: \<open>b\<close> starts
  with the map of the entries \<open>es\<close>.
\<close>

inductive mp_entries :: "(uint64 \<times> bytes) list \<Rightarrow> bytes \<Rightarrow> bool" where
  mp_entries_Nil: "mp_entries [] []"
| mp_entries_Cons: "readMPUint kb = Inr (k, length kb) \<Longrightarrow> mp_value v \<Longrightarrow> mp_entries es s \<Longrightarrow>
    mp_entries ((k, v) # es) (kb @ v @ s)"

inductive_cases mp_entries_NilE [elim!]: "mp_entries [] s"
inductive_cases mp_entries_ConsE: "mp_entries (e # es) s"

definition mp_map :: "bytes \<Rightarrow> (uint64 \<times> bytes) list \<Rightarrow> bool" where
  "mp_map b es \<longleftrightarrow> (\<exists>h s c. b = h @ s @ c \<and> readMPMapLen h = Inr (length es, length h) \<and> mp_entries es s)"

lemma mp_entries_bytes: "\<forall>e\<in>set es. mp_value (snd e) \<Longrightarrow> mp_entries es (hdr_bytes es)"
proof (induction es)
  case (Cons e es)
  obtain k v where "e = (k, v)" by (cases e)
  then show ?case
    using Cons by (auto intro!: mp_entries_Cons simp: mpuint_codec.dec_enc_exact)
qed (simp add: mp_entries_Nil)

lemma mp_map_bytes:
  assumes "length es < 2 ^ 32" "\<forall>e\<in>set es. mp_value (snd e)"
  shows "mp_map (appendMPMapHeader [] (length es) @ hdr_bytes es @ c) es"
  unfolding mp_map_def using mpmap_codec.dec_enc_exact [OF assms(1)] mp_entries_bytes [OF assms(2)] by blast

lemma mp_entries_value: "mp_entries es s \<Longrightarrow> (k, v) \<in> set es \<Longrightarrow> mp_value v"
  by (induction rule: mp_entries.induct) auto

text \<open>The last value of a key, as a map that is filled entry by entry keeps it.\<close>

definition last_at :: "('k \<times> 'v) list \<Rightarrow> 'k \<Rightarrow> 'w \<Rightarrow> ('v \<Rightarrow> 'w) \<Rightarrow> 'w" where
  "last_at es k z g = (case map_of (rev es) k of None \<Rightarrow> z | Some v \<Rightarrow> g v)"

lemma last_at_Nil [simp]: "last_at [] k z g = z"
  by (simp add: last_at_def)

lemma last_at_snoc [simp]: "last_at (es @ [(k', v)]) k z g = (if k' = k then g v else last_at es k z g)"
  by (simp add: last_at_def)

text \<open>The state a walk leaves when every entry is accepted, and the callbacks it makes.\<close>

definition run_entries ::
    "(uint64 \<Rightarrow> bytes \<Rightarrow> 's \<Rightarrow> 's \<times> error option) \<Rightarrow> (uint64 \<times> bytes) list \<Rightarrow> 's \<Rightarrow> 's" where
  "run_entries fn es s = foldl (\<lambda>s (k, v). fst (fn k v s)) s es"

definition all_entries :: "(uint64 \<Rightarrow> bytes \<Rightarrow> bool) \<Rightarrow> (uint64 \<times> bytes) list \<Rightarrow> bool" where
  "all_entries ok es \<longleftrightarrow> (\<forall>(k, v)\<in>set es. ok k v)"

definition unknowns :: "'u DecodeOptions option \<Rightarrow> uint64 set \<Rightarrow> (uint64 \<times> bytes) list \<Rightarrow> 'u \<Rightarrow> 'u" where
  "unknowns opts ks es u = foldl (\<lambda>u (k, v). unknown opts k v u) u (filter (\<lambda>(k, v). k \<notin> ks) es)"

lemma run_entries_simps [simp]:
  "run_entries fn [] s = s" "run_entries fn ((k, v) # es) s = run_entries fn es (fst (fn k v s))"
  "run_entries fn (es @ [(k, v)]) s = fst (fn k v (run_entries fn es s))"
  by (simp_all add: run_entries_def)

lemma all_entries_simps [simp]:
  "all_entries ok []" "all_entries ok ((k, v) # es) \<longleftrightarrow> ok k v \<and> all_entries ok es"
  "all_entries ok (es @ [(k, v)]) \<longleftrightarrow> ok k v \<and> all_entries ok es"
  by (auto simp: all_entries_def)

section \<open>The interface of a decoder\<close>

text \<open>
  What the walk relies on: whether a handler accepts a value depends on the entry alone, not on what
  was decoded before it.
\<close>

locale body_decoder =
  fixes fn :: "uint64 \<Rightarrow> bytes \<Rightarrow> 's \<Rightarrow> 's \<times> error option"
    and ok :: "uint64 \<Rightarrow> bytes \<Rightarrow> bool"
  assumes fn_ok: "snd (fn k v s) = None \<longleftrightarrow> ok k v"
begin

lemma fn_accepts: "ok k v \<Longrightarrow> \<exists>s'. fn k v s = (s', None)"
  using fn_ok [of k v s] by (cases "fn k v s") auto

lemma walk_loop_sound:
  "walk_loop fn b n off s = (s', None) \<Longrightarrow>
   \<exists>es t c. drop off b = t @ c \<and> mp_entries es t \<and> length es = n \<and> all_entries ok es \<and> s' = run_entries fn es s"
proof (induction n arbitrary: off s)
  case 0
  then show ?case by (intro exI [of _ "[]"] exI [of _ "drop off b"]) (auto intro: mp_entries_Nil)
next
  case (Suc n)
  from Suc.prems obtain k m l where k: "readMPUint (drop off b) = Inr (k, m)"
    and l: "skipMP (drop (off + m) b) = Inr l"
    by (auto split: sum.splits prod.splits)
  let ?v = "subslice b (off + m) (off + m + l)"
  have ok: "ok k ?v"
    using Suc.prems k l fn_ok [of k ?v s] by (auto split: prod.splits option.splits)
  then obtain s1 where "fn k ?v s = (s1, None)" using fn_accepts by blast
  then have "walk_loop fn b n (off + m + l) (fst (fn k ?v s)) = (s', None)"
    using Suc.prems k l by simp
  from Suc.IH [OF this] obtain es t c where es: "drop (off + m + l) b = t @ c" "mp_entries es t"
    "length es = n" "all_entries ok es" "s' = run_entries fn es (fst (fn k ?v s))" by blast
  have kb: "readMPUint (take m (drop off b)) = Inr (k, length (take m (drop off b)))"
    using mpuint.dec_take [OF k] mpuint.dec_le [OF k] by simp
  have v: "mp_value ?v" using l by (simp add: skipMP_iff subslice_def)
  have "drop off b = take m (drop off b) @ drop (off + m) b"
    by (metis add.commute append_take_drop_id drop_drop)
  moreover have "drop (off + m) b = ?v @ drop (off + m + l) b"
    by (rule drop_eq_slice_append) simp
  ultimately have "drop off b = (take m (drop off b) @ ?v @ t) @ c" using es(1) by simp
  moreover have "mp_entries ((k, ?v) # es) (take m (drop off b) @ ?v @ t)"
    using kb v es(2) by (rule mp_entries_Cons)
  moreover have "all_entries ok ((k, ?v) # es)" "s' = run_entries fn ((k, ?v) # es) s" "length ((k, ?v) # es) = Suc n"
    using ok es by simp_all
  ultimately show ?case by blast
qed

lemma walk_loop_complete:
  "drop off b = t @ c \<Longrightarrow> mp_entries es t \<Longrightarrow>
   (if all_entries ok es then walk_loop fn b (length es) off s = (run_entries fn es s, None)
    else snd (walk_loop fn b (length es) off s) \<noteq> None)"
proof (induction es arbitrary: off s t)
  case (Cons e es)
  from Cons.prems(2) obtain kb k v t' where e: "e = (k, v)" and t: "t = kb @ v @ t'"
    and k: "readMPUint kb = Inr (k, length kb)" and v: "mp_value v" and es: "mp_entries es t'"
    by (auto elim!: mp_entries_ConsE)
  have d: "drop off b = kb @ v @ t' @ c" using Cons.prems(1) t by simp
  then have dv: "drop (off + length kb) b = v @ t' @ c"
    by (metis add.commute append_eq_conv_conj drop_drop)
  then have dt: "drop (off + length kb + length v) b = t' @ c"
    by (metis add.commute append_eq_conv_conj drop_drop)
  have key: "readMPUint (drop off b) = Inr (k, length kb)"
    using mpuint.dec_append [OF k] d by simp
  have val: "skipMP (drop (off + length kb) b) = Inr (length v)"
    "subslice b (off + length kb) (off + length kb + length v) = v"
    using v dv by (simp_all add: skipMP_value subslice_def)
  show ?case
  proof (cases "ok k v")
    case True
    then obtain s1 where "fn k v s = (s1, None)" using fn_accepts by blast
    then show ?thesis
      using Cons.IH [OF dt es, of s1] True by (simp add: e key val)
  next
    case False
    then show ?thesis
      using False fn_ok [of k v s] by (auto simp: e key val split: prod.splits option.splits)
  qed
qed simp

lemma walkMap_iff:
  "walkMap fn b s = (s', None) \<longleftrightarrow> (\<exists>es. mp_map b es \<and> all_entries ok es \<and> s' = run_entries fn es s)"
proof
  assume w: "walkMap fn b s = (s', None)"
  then obtain n off where h: "readMPMapLen b = Inr (n, off)" and l: "walk_loop fn b n off s = (s', None)"
    by (auto simp: walkMap_def split: sum.splits)
  from walk_loop_sound [OF l] obtain es t c where es: "drop off b = t @ c" "mp_entries es t"
    "length es = n" "all_entries ok es" "s' = run_entries fn es s" by blast
  have "b = take off b @ t @ c" using es(1) by (metis append_take_drop_id)
  moreover have "readMPMapLen (take off b) = Inr (length es, length (take off b))"
    using mpmap.dec_take [OF h] mpmap.dec_le [OF h] es(3) by simp
  ultimately show "\<exists>es. mp_map b es \<and> all_entries ok es \<and> s' = run_entries fn es s"
    unfolding mp_map_def using es by blast
next
  assume "\<exists>es. mp_map b es \<and> all_entries ok es \<and> s' = run_entries fn es s"
  then obtain es h t c where b: "b = h @ t @ c" "readMPMapLen h = Inr (length es, length h)"
    "mp_entries es t" and es: "all_entries ok es" "s' = run_entries fn es s"
    by (auto simp: mp_map_def)
  have "readMPMapLen b = Inr (length es, length h)" using mpmap.dec_append [OF b(2)] b(1) by simp
  moreover have "drop (length h) b = t @ c" using b(1) by simp
  ultimately show "walkMap fn b s = (s', None)"
    using walk_loop_complete [of "length h" b t c es s] b(3) es by (simp add: walkMap_def)
qed

lemma walkBody_iff:
  "walkBody fn b s = (s', None) \<longleftrightarrow> (\<exists>es. mp_map b es \<and> all_entries ok es \<and> s' = run_entries fn es s)"
proof (cases "b = []")
  case True
  then have "\<not> mp_map b es" for es by (auto simp: mp_map_def readMPMapLen_def)
  then show ?thesis using True by (simp add: walkBody_def)
qed (simp add: walkBody_def walkMap_iff)

end

text \<open>Reading an unsigned value.\<close>

definition mp_uint :: "bytes \<Rightarrow> uint64" where
  "mp_uint v = (case readMPUint v of Inl _ \<Rightarrow> 0 | Inr (n, _) \<Rightarrow> n)"

definition is_uint :: "bytes \<Rightarrow> bool" where
  "is_uint v \<longleftrightarrow> (case readMPUint v of Inl _ \<Rightarrow> False | Inr _ \<Rightarrow> True)"

lemma uint_field_result [simp]:
  "snd (uint_field v store s) = None \<longleftrightarrow> is_uint v"
  "is_uint v \<Longrightarrow> fst (uint_field v store s) = store (mp_uint v)"
  by (auto simp: uint_field_def is_uint_def mp_uint_def split: sum.splits)

lemma is_uint_enc [simp]: "is_uint (appendMPUint [] n)" "mp_uint (appendMPUint [] n) = n"
  by (simp_all add: is_uint_def mp_uint_def mpuint_codec.dec_enc_exact)

section \<open>What a data manipulation body decodes to\<close>

definition dml_keys :: "iproto_const list" where
  "dml_keys = [IPROTO_SPACE_ID, IPROTO_INDEX_ID, IPROTO_INDEX_BASE, IPROTO_TUPLE, IPROTO_KEY, IPROTO_OPS,
     IPROTO_OLD_TUPLE, IPROTO_NEW_TUPLE, IPROTO_ARROW]"

definition dml_ok :: "iproto \<Rightarrow> uint64 \<Rightarrow> bytes \<Rightarrow> bool" where
  "dml_ok ip k v \<longleftrightarrow> k \<in> {ip IPROTO_SPACE_ID, ip IPROTO_INDEX_ID, ip IPROTO_INDEX_BASE} \<longrightarrow> is_uint v"

text \<open>The abstract body: every field is the last value of its key, and zero without one.\<close>

definition dml_of :: "iproto \<Rightarrow> (uint64 \<times> bytes) list \<Rightarrow> DMLBody" where
  "dml_of ip es =
     (let num = (\<lambda>k. last_at es (ip k) 0 (\<lambda>v. ucast (mp_uint v))); raw = (\<lambda>k. last_at es (ip k) [] (\<lambda>v. v)) in
      \<lparr>SpaceID = num IPROTO_SPACE_ID, IndexID = num IPROTO_INDEX_ID, IndexBase = num IPROTO_INDEX_BASE,
       Tuple = raw IPROTO_TUPLE, Key = raw IPROTO_KEY, Ops = raw IPROTO_OPS,
       OldTuple = raw IPROTO_OLD_TUPLE, NewTuple = raw IPROTO_NEW_TUPLE, Arrow = raw IPROTO_ARROW\<rparr>)"

interpretation dml: body_decoder "dml_key ip opts" "dml_ok ip"
  by unfold_locales (auto simp: dml_key_def dml_ok_def split: prod.splits)

text \<open>Keys that are distinct constants of a switch.\<close>

lemma distinct_keys:
  "distinct (map ip ks) \<Longrightarrow> a \<in> set ks \<Longrightarrow> b \<in> set ks \<Longrightarrow> ip a = ip b \<longleftrightarrow> a = b"
  using inj_on_eq_iff [of ip "set ks" a b] by (simp add: distinct_map)

lemma unknowns_simps [simp]:
  "unknowns opts ks [] u = u"
  "unknowns opts ks (es @ [(k, v)]) u =
     (if k \<in> ks then unknowns opts ks es u else unknown opts k v (unknowns opts ks es u))"
  by (simp_all add: unknowns_def)

lemma dml_run:
  assumes d: "distinct (map ip dml_keys)"
  shows "all_entries (dml_ok ip) es \<Longrightarrow>
    run_entries (dml_key ip opts) es (DMLBody0, u) = (dml_of ip es, unknowns opts (ip ` set dml_keys) es u)"
proof (induction es rule: rev_induct)
  case (snoc e es)
  note eq = distinct_keys [OF d, unfolded dml_keys_def, simplified]
  obtain k v where "e = (k, v)" by (cases e)
  then show ?case using snoc
    by (simp add: dml_key_def dml_ok_def dml_of_def Let_def dml_keys_def eq)
qed (simp add: dml_of_def DMLBody0_def)

section \<open>What a Raft and a synchro body decode to\<close>

text \<open>A vclock in a body is a map of unsigned integers; the loop over it is a walk too.\<close>

lemma readMPUint_head:
  assumes "readMPUint b = Inr (v, n)"
  shows "mpHead b = Inr (n, 0)"
proof -
  obtain c t where b: "b = c # t" using assms by (cases b) (simp_all add: readMPUint_def)
  have "c \<le> 0x7f \<and> n = 1 \<or> c = 0xcc \<and> n = 2 \<or> c = 0xcd \<and> n = 3 \<or> c = 0xce \<and> n = 5 \<or> c = 0xcf \<and> n = 9"
    using assms by (auto simp: readMPUint_def b split: if_splits)
  then show ?thesis using mpuint.dec_le [OF assms]
    by (elim disjE conjE) (simp_all add: b mpHead_def mpHead_tag_def mpHead_fixed_def)
qed

lemma readMPUint_skip: 
  assumes "readMPUint b = Inr (v, n)"
  shows "skipMP b = Inr n"
  using mp_value_scalar [of "take n b"] readMPUint_head [OF mpuint.dec_take [OF assms]] mpuint.dec_le [OF assms]
  by (simp add: skipMP_iff)

lemma is_uint_take: "is_uint (take j b) \<Longrightarrow> is_uint b"
  using mpuint.dec_append [of "take j b" _ _ "drop j b"] by (auto simp: is_uint_def split: sum.splits)

definition vclock_entry :: "uint64 \<Rightarrow> bytes \<Rightarrow> (uint32 \<times> int64) list \<Rightarrow> (uint32 \<times> int64) list \<times> error option" where
  "vclock_entry k v m = uint_field v (\<lambda>lsn. entries_set m (ucast k) lsn) m"

interpretation vclk: body_decoder vclock_entry "\<lambda>_. is_uint"
  by unfold_locales (simp add: vclock_entry_def)

lemma vclock_map_loop_walk:
  "vclock_map_loop b n off m = Inr m' \<longleftrightarrow> walk_loop vclock_entry b n off m = (m', None)"
proof (induction n arbitrary: off m)
  case (Suc n)
  show ?case
  proof (cases "readMPUint (drop off b)")
    case (Inr p)
    obtain k l where p: "readMPUint (drop off b) = Inr (k, l)" using Inr by (cases p) auto
    let ?d = "drop (off + l) b"
    show ?thesis
    proof (cases "readMPUint ?d")
      case Inl
      have "\<not> is_uint (take j ?d)" for j
        using Inl is_uint_take [of j ?d] by (auto simp: is_uint_def)
      then have "snd (vclock_entry k (subslice b (off + l) (off + l + j)) m) \<noteq> None" for j
        by (simp add: vclk.fn_ok subslice_def)
      then show ?thesis using Inl p by (auto split: sum.splits prod.splits option.splits) (metis snd_conv option.simps(3))+
    next
      case (Inr q)
      obtain x j where q: "readMPUint ?d = Inr (x, j)" using Inr by (cases q) auto
      have "vclock_entry k (subslice b (off + l) (off + l + j)) m = (entries_set m (ucast k) x, None)"
        using mpuint.dec_take [OF q] by (simp add: vclock_entry_def uint_field_def subslice_def)
      then show ?thesis using Suc.IH p q readMPUint_skip [OF q] by simp
    qed
  qed simp
qed simp

definition vclock_of :: "(uint64 \<times> bytes) list \<Rightarrow> VClock" where
  "vclock_of es = Some (run_entries vclock_entry es [])"

lemma decodeVClockMap_iff:
  "decodeVClockMap b = Inr vc \<longleftrightarrow> (\<exists>es. mp_map b es \<and> all_entries (\<lambda>_. is_uint) es \<and> vc = vclock_of es)"
proof -
  have "decodeVClockMap b = Inr vc \<longleftrightarrow> (\<exists>m. walkMap vclock_entry b [] = (m, None) \<and> vc = Some m)"
    by (auto simp: decodeVClockMap_def walkMap_def vclock_map_loop_walk [symmetric] map_sum_def
        split: sum.splits prod.splits)
  then show ?thesis by (auto simp: vclk.walkMap_iff vclock_of_def)
qed

lemma vclock_of_components:
  "all_entries (\<lambda>_. is_uint) es \<Longrightarrow> vclock_wf (vclock_of es) \<and>
   vget (vclock_of es) rid = last_at (map (\<lambda>(k, v). (ucast k, mp_uint v)) es) rid 0 (\<lambda>lsn. lsn)"
proof (induction es rule: rev_induct)
  case (snoc e es)
  obtain k v where "e = (k, v)" by (cases e)
  then show ?case using snoc
    by (simp add: vclock_of_def vclock_entry_def vclock_wf_def vids_def distinct_entries_set vget_def
        map_of_entries_set)
qed (simp add: vclock_of_def vclock_wf_def vids_def vget_def)

definition mp_vclock :: "bytes \<Rightarrow> VClock" where
  "mp_vclock v = (case decodeVClockMap v of Inl _ \<Rightarrow> None | Inr vc \<Rightarrow> vc)"

definition is_vclock :: "bytes \<Rightarrow> bool" where
  "is_vclock v \<longleftrightarrow> (case decodeVClockMap v of Inl _ \<Rightarrow> False | Inr _ \<Rightarrow> True)"

lemma is_vclock_map:
  "is_vclock v \<longleftrightarrow> (\<exists>es. mp_map v es \<and> all_entries (\<lambda>_. is_uint) es \<and> mp_vclock v = vclock_of es)"
proof (cases "decodeVClockMap v")
  case (Inl e)
  then have "\<not> (mp_map v es \<and> all_entries (\<lambda>_. is_uint) es)" for es
    using decodeVClockMap_iff [of v "vclock_of es"] by auto
  then show ?thesis by (auto simp: is_vclock_def Inl)
next
  case (Inr vc)
  then show ?thesis using decodeVClockMap_iff [of v vc] by (auto simp: is_vclock_def mp_vclock_def)
qed

definition raft_keys :: "iproto_const list" where
  "raft_keys = [IPROTO_RAFT_TERM, IPROTO_RAFT_VOTE, IPROTO_RAFT_STATE, IPROTO_RAFT_VCLOCK,
     IPROTO_RAFT_LEADER_ID, IPROTO_RAFT_IS_LEADER_SEEN]"

definition raft_ok :: "iproto \<Rightarrow> uint64 \<Rightarrow> bytes \<Rightarrow> bool" where
  "raft_ok ip k v \<longleftrightarrow>
     (if k = ip IPROTO_RAFT_TERM \<or> k = ip IPROTO_RAFT_VOTE \<or> k = ip IPROTO_RAFT_STATE then is_uint v
      else if k = ip IPROTO_RAFT_VCLOCK then is_vclock v
      else if k = ip IPROTO_RAFT_LEADER_ID then is_uint v
      else if k = ip IPROTO_RAFT_IS_LEADER_SEEN then v = [mpcTrue] \<or> v = [mpcFalse] else True)"

definition raft_of :: "iproto \<Rightarrow> (uint64 \<times> bytes) list \<Rightarrow> RaftBody" where
  "raft_of ip es =
     \<lparr>Term = last_at es (ip IPROTO_RAFT_TERM) 0 mp_uint, Vote = last_at es (ip IPROTO_RAFT_VOTE) 0 mp_uint,
      State = last_at es (ip IPROTO_RAFT_STATE) 0 (\<lambda>v. ucast (mp_uint v)),
      rb_VClock = last_at es (ip IPROTO_RAFT_VCLOCK) None mp_vclock,
      LeaderID = last_at es (ip IPROTO_RAFT_LEADER_ID) 0 (\<lambda>v. ucast (mp_uint v)),
      IsLeaderSeen = last_at es (ip IPROTO_RAFT_IS_LEADER_SEEN) False (\<lambda>v. v = [mpcTrue])\<rparr>"

interpretation raft: body_decoder "raft_key ip opts" "raft_ok ip"
  by unfold_locales (auto simp: raft_key_def raft_ok_def is_vclock_def length_Suc_conv split: prod.splits sum.splits)

lemma raft_run:
  assumes d: "distinct (map ip raft_keys)"
  shows "all_entries (raft_ok ip) es \<Longrightarrow>
    run_entries (raft_key ip opts) es (RaftBody0, u) = (raft_of ip es, unknowns opts (ip ` set raft_keys) es u)"
proof (induction es rule: rev_induct)
  case (snoc e es)
  note eq = distinct_keys [OF d, unfolded raft_keys_def, simplified]
  obtain k v where "e = (k, v)" by (cases e)
  then show ?case using snoc
    by (auto simp: raft_key_def raft_ok_def raft_of_def raft_keys_def is_vclock_def mp_vclock_def eq
        split: sum.splits)
qed (simp add: raft_of_def RaftBody0_def)

definition synchro_keys :: "iproto_const list" where
  "synchro_keys = [IPROTO_REPLICA_ID, IPROTO_LSN, IPROTO_TERM, IPROTO_VCLOCK]"

definition synchro_ok :: "iproto \<Rightarrow> uint64 \<Rightarrow> bytes \<Rightarrow> bool" where
  "synchro_ok ip k v \<longleftrightarrow>
     (if k = ip IPROTO_REPLICA_ID \<or> k = ip IPROTO_LSN \<or> k = ip IPROTO_TERM then is_uint v
      else if k = ip IPROTO_VCLOCK then is_vclock v else True)"

definition synchro_of :: "iproto \<Rightarrow> (uint64 \<times> bytes) list \<Rightarrow> SynchroBody" where
  "synchro_of ip es =
     \<lparr>sb_ReplicaID = last_at es (ip IPROTO_REPLICA_ID) 0 (\<lambda>v. ucast (mp_uint v)),
      sb_LSN = last_at es (ip IPROTO_LSN) 0 mp_uint, sb_Term = last_at es (ip IPROTO_TERM) 0 mp_uint,
      ConfirmedVClock = last_at es (ip IPROTO_VCLOCK) None mp_vclock\<rparr>"

interpretation synchro: body_decoder "synchro_key ip opts" "synchro_ok ip"
  by unfold_locales (auto simp: synchro_key_def synchro_ok_def is_vclock_def split: prod.splits sum.splits)

lemma synchro_run:
  assumes d: "distinct (map ip synchro_keys)"
  shows "all_entries (synchro_ok ip) es \<Longrightarrow>
    run_entries (synchro_key ip opts) es (SynchroBody0, u)
      = (synchro_of ip es, unknowns opts (ip ` set synchro_keys) es u)"
proof (induction es rule: rev_induct)
  case (snoc e es)
  note eq = distinct_keys [OF d, unfolded synchro_keys_def, simplified]
  obtain k v where "e = (k, v)" by (cases e)
  then show ?case using snoc
    by (auto simp: synchro_key_def synchro_ok_def synchro_of_def synchro_keys_def is_vclock_def mp_vclock_def eq
        split: sum.splits)
qed (simp add: synchro_of_def SynchroBody0_def)

section \<open>What a vinyl log body decodes to\<close>

interpretation vylog: body_decoder "vylog_key ip opts" "\<lambda>_ _. True"
  by unfold_locales (auto simp: vylog_key_def split: prod.splits)

interpretation vyfield: body_decoder vylog_field "\<lambda>_ _. True"
  by unfold_locales (simp add: vylog_field_def)

lemma all_entries_True [simp]: "all_entries (\<lambda>_ _. True) es"
  by (simp add: all_entries_def)

lemma vylog_run: "run_entries (vylog_key ip opts) es ([], u)
    = (last_at es (ip IPROTO_TUPLE) [] (\<lambda>v. v), unknowns opts {ip IPROTO_TUPLE} es u)"
proof (induction es rule: rev_induct)
  case (snoc e es)
  then show ?case by (cases e) (simp add: vylog_key_def)
qed simp

definition vylog_of :: "uint64 \<Rightarrow> (uint64 \<times> bytes) list \<Rightarrow> VyLogBody" where
  "vylog_of t fs = \<lparr>vl_Type = ucast t, vl_Keys = Some (foldl (\<lambda>m (k, v). entries_set m k v) [] fs)\<rparr>"

lemma vyfield_run: "run_entries vylog_field fs \<lparr>vl_Type = ucast t, vl_Keys = Some []\<rparr> = vylog_of t fs"
proof (induction fs rule: rev_induct)
  case (snoc e fs)
  obtain k v where "e = (k, v)" by (cases e)
  moreover have "fst (vylog_field k v (vylog_of t fs)) = vylog_of t (fs @ [(k, v)])"
    by (simp add: vylog_of_def vylog_field_def)
  ultimately show ?case using snoc by simp
qed (simp add: vylog_of_def)

lemma entries_foldl:
  "distinct (map fst (foldl (\<lambda>m (k, v). entries_set m k v) [] fs))
   \<and> map_of (foldl (\<lambda>m (k, v). entries_set m k v) [] fs) = map_of (rev fs)"
  by (induction fs rule: rev_induct) (auto simp: distinct_entries_set map_of_entries_set)

lemma walk_loop_drop: "walk_loop fn (drop j b) n off s = walk_loop fn b n (j + off) s"
  by (induction n arbitrary: off s) (simp_all add: slice_drop add.assoc add.commute add.left_commute
      split: sum.splits prod.splits option.splits)

text \<open>\<open>vylog_record b t fs\<close>: \<open>b\<close> starts with the pair of the type \<open>t\<close> and the map of the fields \<open>fs\<close>.\<close>

definition vylog_record :: "bytes \<Rightarrow> uint64 \<Rightarrow> (uint64 \<times> bytes) list \<Rightarrow> bool" where
  "vylog_record b t fs \<longleftrightarrow> (\<exists>h tb m. b = h @ tb @ m \<and> readMPArrayLen h = Inr (2, length h)
     \<and> readMPUint tb = Inr (t, length tb) \<and> mp_map m fs)"

lemma decodeVyLogRecord_iff:
  "decodeVyLogRecord b VyLogBody0 = (body, None) \<longleftrightarrow> (\<exists>t fs. vylog_record b t fs \<and> body = vylog_of t fs)"
proof
  assume d: "decodeVyLogRecord b VyLogBody0 = (body, None)"
  then obtain off t k n k' where h: "readMPArrayLen b = Inr (2, off)" and t: "readMPUint (drop off b) = Inr (t, k)"
    and m: "readMPMapLen (drop (off + k) b) = Inr (n, k')"
    and w: "walk_loop vylog_field b n (off + k + k') \<lparr>vl_Type = ucast t, vl_Keys = Some []\<rparr> = (body, None)"
    by (auto simp: decodeVyLogRecord_def VyLogBody0_def split: sum.splits prod.splits if_splits)
  have "walkMap vylog_field (drop (off + k) b) \<lparr>vl_Type = ucast t, vl_Keys = Some []\<rparr> = (body, None)"
    using m w by (simp add: walkMap_def walk_loop_drop)
  then obtain fs where fs: "mp_map (drop (off + k) b) fs" "body = vylog_of t fs"
    by (auto simp: vyfield.walkMap_iff vyfield_run)
  have "b = take off b @ take k (drop off b) @ drop (off + k) b"
    by (metis append_take_drop_id drop_drop add.commute)
  then have "vylog_record b t fs" unfolding vylog_record_def
    using fs(1) mparray.dec_take [OF h] mparray.dec_le [OF h] mpuint.dec_take [OF t] mpuint.dec_le [OF t]
    by (intro exI [of _ "take off b"] exI [of _ "take k (drop off b)"] exI [of _ "drop (off + k) b"]) simp
  then show "\<exists>t fs. vylog_record b t fs \<and> body = vylog_of t fs" using fs(2) by blast
next
  assume "\<exists>t fs. vylog_record b t fs \<and> body = vylog_of t fs"
  then obtain t fs h tb m where b: "b = h @ tb @ m" and h: "readMPArrayLen h = Inr (2, length h)"
    and t: "readMPUint tb = Inr (t, length tb)" and m: "mp_map m fs" and body: "body = vylog_of t fs"
    by (auto simp: vylog_record_def)
  let ?s = "\<lparr>vl_Type = ucast t, vl_Keys = Some []\<rparr>"
  have "walkMap vylog_field m ?s = (body, None)"
    unfolding vyfield.walkMap_iff vyfield_run body using m by auto
  then obtain n k where n: "readMPMapLen m = Inr (n, k)" and w: "walk_loop vylog_field m n k ?s = (body, None)"
    by (auto simp: walkMap_def split: sum.splits)
  have "walk_loop vylog_field b n (length h + length tb + k) ?s = (body, None)"
    using w walk_loop_drop [of vylog_field "length h + length tb" b n k ?s] b by simp
  then show "decodeVyLogRecord b VyLogBody0 = (body, None)"
    using mparray.dec_append [OF h, of "tb @ m"] mpuint.dec_append [OF t, of m] n b
    by (simp add: decodeVyLogRecord_def VyLogBody0_def)
qed

lemma vylog_record_nonempty: "vylog_record b t fs \<Longrightarrow> b \<noteq> []"
  by (auto simp: vylog_record_def readMPUint_def)

section \<open>Properties\<close>

text \<open>
  C32: \<open>DecodeDMLBodyInto\<close> succeeds exactly on the bodies that are one well-formed map with unsigned keys
  whose space id, index id and index base are unsigned integers, in any encoding and key order. It then
  holds in every field the last value of its key (the raw msgpack of a tuple, key or operation list,
  untouched) and zero where the key is absent, and has called back with exactly the entries that
  have no field, in their order.
\<close>

theorem dml_body_spec:
  assumes "distinct (map ip dml_keys)"
  shows "DecodeDMLBodyInto ip b opts u = ((body, u'), None) \<longleftrightarrow>
    (\<exists>es. mp_map b es \<and> all_entries (dml_ok ip) es \<and> body = dml_of ip es
       \<and> u' = unknowns opts (ip ` set dml_keys) es u)"
  unfolding DecodeDMLBodyInto_def dml.walkBody_iff by (auto simp: dml_run [OF assms])

theorem dml_body_spec_witness:
  "\<exists>es. mp_map [0x82, 0x10, 0x05, 0x21, 0x91, 0x01] es \<and> all_entries (dml_ok iproto_numbers) es
     \<and> DMLBody0\<lparr>SpaceID := 5, Tuple := [0x91, 0x01]\<rparr> = dml_of iproto_numbers es"
proof -
  have "distinct (map iproto_numbers dml_keys)" by code_simp
  from dml_body_spec [OF this, of "[0x82, 0x10, 0x05, 0x21, 0x91, 0x01]" "None :: unit DecodeOptions option" "()"
      "DMLBody0\<lparr>SpaceID := 5, Tuple := [0x91, 0x01]\<rparr>" "()"]
  have "DecodeDMLBodyInto iproto_numbers [0x82, 0x10, 0x05, 0x21, 0x91, 0x01] (None :: unit DecodeOptions option) ()
      = ((DMLBody0\<lparr>SpaceID := 5, Tuple := [0x91, 0x01]\<rparr>, ()), None) \<longrightarrow> ?thesis" by blast
  moreover have "DecodeDMLBodyInto iproto_numbers [0x82, 0x10, 0x05, 0x21, 0x91, 0x01] (None :: unit DecodeOptions option) ()
      = ((DMLBody0\<lparr>SpaceID := 5, Tuple := [0x91, 0x01]\<rparr>, ()), None)" by code_simp
  ultimately show ?thesis by blast
qed

text \<open>
  the Raft and the synchronous replication bodies decode to the last value of every key as well; a
  vclock is the map of its entries, with the last component of each replica, and the leader-seen flag is
  one msgpack boolean. Any other value of a known key fails the decode.
\<close>

theorem raft_synchro_body_spec:
  assumes "distinct (map ip raft_keys)" "distinct (map ip synchro_keys)"
  shows "(DecodeRaftBodyInto ip b opts u = ((body, u'), None) \<longleftrightarrow>
      (\<exists>es. mp_map b es \<and> all_entries (raft_ok ip) es \<and> body = raft_of ip es
         \<and> u' = unknowns opts (ip ` set raft_keys) es u))
   \<and> (DecodeSynchroBodyInto ip b opts u = ((sbody, u'), None) \<longleftrightarrow>
      (\<exists>es. mp_map b es \<and> all_entries (synchro_ok ip) es \<and> sbody = synchro_of ip es
         \<and> u' = unknowns opts (ip ` set synchro_keys) es u))
   \<and> (decodeVClockMap val = Inr vc \<longleftrightarrow> (\<exists>es. mp_map val es \<and> all_entries (\<lambda>_. is_uint) es \<and> vc = vclock_of es))"
  unfolding DecodeRaftBodyInto_def raft.walkBody_iff DecodeSynchroBodyInto_def synchro.walkBody_iff
    decodeVClockMap_iff
  by (auto simp: raft_run [OF assms(1)] synchro_run [OF assms(2)])

theorem raft_synchro_body_spec_witness:
  "\<exists>es. mp_map [0x82, 0x00, 0x07, 0x05, 0xc3] es \<and> all_entries (raft_ok iproto_numbers) es
     \<and> RaftBody0\<lparr>Term := 7, IsLeaderSeen := True\<rparr> = raft_of iproto_numbers es"
proof -
  let ?b = "[0x82, 0x00, 0x07, 0x05, 0xc3] :: bytes" and ?r = "RaftBody0\<lparr>Term := 7, IsLeaderSeen := True\<rparr>"
  have "distinct (map iproto_numbers raft_keys)" "distinct (map iproto_numbers synchro_keys)" by code_simp+
  note spec = raft_synchro_body_spec [OF this, of ?b "None :: unit DecodeOptions option" "()" ?r "()"]
  have "DecodeRaftBodyInto iproto_numbers ?b (None :: unit DecodeOptions option) () = ((?r, ()), None)" by code_simp
  with spec show ?thesis by blast
qed

text \<open>
  a vinyl log body decodes exactly when it is a well-formed map whose last tuple is the pair of a
  record type and a map of fields. The type and, for every field, its last raw value are what the result
  holds, one entry per key; the other keys of the body go to the callback.
\<close>

theorem vylog_body_spec:
  "(DecodeVyLogBodyInto ip b opts u = ((body, u'), None) \<longleftrightarrow>
     (\<exists>es t fs. mp_map b es \<and> vylog_record (last_at es (ip IPROTO_TUPLE) [] (\<lambda>v. v)) t fs
        \<and> body = vylog_of t fs \<and> u' = unknowns opts {ip IPROTO_TUPLE} es u))
   \<and> (\<exists>m. vylog_of t fs = \<lparr>vl_Type = ucast t, vl_Keys = Some m\<rparr> \<and> distinct (map fst m) \<and> map_of m = map_of (rev fs))"
proof
  have w: "walkBody (vylog_key ip opts) b ([], u) = ((rc, v), None) \<longleftrightarrow> (\<exists>es. mp_map b es
      \<and> rc = last_at es (ip IPROTO_TUPLE) [] (\<lambda>v. v) \<and> v = unknowns opts {ip IPROTO_TUPLE} es u)" for rc v
    by (simp add: vylog.walkBody_iff vylog_run)
  have "DecodeVyLogBodyInto ip b opts u = ((body, u'), None) \<longleftrightarrow>
      (\<exists>rc. walkBody (vylog_key ip opts) b ([], u) = ((rc, u'), None) \<and> rc \<noteq> []
         \<and> decodeVyLogRecord rc VyLogBody0 = (body, None))"
    by (auto simp: DecodeVyLogBodyInto_def split: prod.splits option.splits)
  also have "\<dots> \<longleftrightarrow> (\<exists>es t fs. mp_map b es \<and> vylog_record (last_at es (ip IPROTO_TUPLE) [] (\<lambda>v. v)) t fs
        \<and> body = vylog_of t fs \<and> u' = unknowns opts {ip IPROTO_TUPLE} es u)"
    unfolding w decodeVyLogRecord_iff using vylog_record_nonempty by blast
  finally show "DecodeVyLogBodyInto ip b opts u = ((body, u'), None) \<longleftrightarrow>
     (\<exists>es t fs. mp_map b es \<and> vylog_record (last_at es (ip IPROTO_TUPLE) [] (\<lambda>v. v)) t fs
        \<and> body = vylog_of t fs \<and> u' = unknowns opts {ip IPROTO_TUPLE} es u)" .
qed (use entries_foldl [of fs] in \<open>simp add: vylog_of_def\<close>)

section \<open>Names\<close>

text \<open>Keys and record types print apart: no two keys, and no two types, have one name.\<close>

lemma FormatUint_inj: "FormatUint a = FormatUint b \<Longrightarrow> a = b" for a b :: uint64
proof -
  assume e: "FormatUint a = FormatUint b"
  have "unat x < 2 ^ 64" for x :: uint64
  proof -
    have "unat x < 2 ^ LENGTH(64)" by (rule unsigned_less)
    then show ?thesis by simp
  qed
  then have "unat a = unat b" using e ParseUint_FormatUint [of a 64] ParseUint_FormatUint [of b 64] by simp
  then show "a = b" by (metis of_nat_unat ucast_id)
qed

lemma names_inj:
  assumes "distinct (map snd ns)" "\<forall>(k, n)\<in>set ns. take (length pre) n \<noteq> pre" "\<And>a b. f a = f b \<Longrightarrow> a = b"
    and "(case map_of ns a of Some n \<Rightarrow> n | None \<Rightarrow> pre @ f a) = (case map_of ns b of Some n \<Rightarrow> n | None \<Rightarrow> pre @ f b)"
  shows "a = b"
proof (cases "map_of ns a"; cases "map_of ns b")
  fix n m assume ab: "map_of ns a = Some n" "map_of ns b = Some m"
  then have "n = m" "(a, n) \<in> set ns" "(b, m) \<in> set ns" using assms(4) map_of_SomeD by fastforce+
  then show ?thesis using assms(1) by (auto simp: distinct_map dest: inj_onD [of snd _ "(a, m)" "(b, m)"])
next
  fix n assume ab: "map_of ns a = Some n" "map_of ns b = None"
  then show ?thesis using assms(2,4) map_of_SomeD [OF ab(1)] by fastforce
next
  fix m assume ab: "map_of ns a = None" "map_of ns b = Some m"
  then show ?thesis using assms(2,4) map_of_SomeD [OF ab(2)] by fastforce
qed (use assms(3,4) in auto)

lemma VyKey_String_inj: "VyKey_String a = VyKey_String b \<Longrightarrow> a = b"
  unfolding VyKey_String_def
  by (erule names_inj [rotated 3]) (auto simp: vyKeyNames_def dest: FormatUint_inj)

lemma ucast_widen_inj: "ucast a = (ucast b :: uint64) \<Longrightarrow> a = b" for a b :: uint32
  by (metis ucast32_back)

lemma VyLogType_String_inj: "VyLogType_String a = VyLogType_String b \<Longrightarrow> a = b"
  unfolding VyLogType_String_def
  by (erule names_inj [rotated 3]) (auto simp: vyLogTypeNames_def dest!: FormatUint_inj intro: ucast_widen_inj)

end
