(* ===== verification/Vinyl.thy ===== *)
theory Vinyl
  imports Bodies
begin

unbundle bit_operations_syntax

text \<open>
  The rows of the vinyl run and index files (\<^verbatim>\<open>format/body_vinyl.go\<close>): statements with their flags, the
  run info with its statistics and bloom filter, the page info, and the row index of a page. Every
  decoder is a handler of the map walk of theory \<open>Bodies\<close>; the mandatory keys are tracked in a bit
  set of one machine word.
\<close>

section \<open>Statements\<close>

type_synonym VyStmtFlags = uint64

definition VyStmtDeferredDelete :: VyStmtFlags where "VyStmtDeferredDelete = push_bit 0 1"
definition VyStmtSkipRead :: VyStmtFlags where "VyStmtSkipRead = push_bit 1 1"

definition vyStmtMetaFlags :: uint64 where [simp]: "vyStmtMetaFlags = 1"

record VyStmtBody =
  vs_SpaceID :: uint32
  vs_Tuple :: bytes
  vs_Key :: bytes
  vs_Ops :: bytes
  vs_Flags :: VyStmtFlags

definition VyStmtBody0 :: VyStmtBody where
  "VyStmtBody0 = \<lparr>vs_SpaceID = 0, vs_Tuple = [], vs_Key = [], vs_Ops = [], vs_Flags = 0\<rparr>"

definition stmt_meta_key :: "uint64 \<Rightarrow> bytes \<Rightarrow> VyStmtFlags \<Rightarrow> VyStmtFlags \<times> error option" where
  "stmt_meta_key key val flags =
     (if key \<noteq> vyStmtMetaFlags then (flags, None) else uint_field val (\<lambda>v. v) flags)"

definition decodeVyStmtMeta :: "bytes \<Rightarrow> VyStmtFlags \<times> error option" where
  "decodeVyStmtMeta b = walkMap stmt_meta_key b 0"

definition stmt_key :: "iproto \<Rightarrow> 'u DecodeOptions option \<Rightarrow> uint64 \<Rightarrow> bytes \<Rightarrow> VyStmtBody \<times> 'u
    \<Rightarrow> (VyStmtBody \<times> 'u) \<times> error option" where
  "stmt_key ip opts key val = (\<lambda>(body, u).
     if key = ip IPROTO_SPACE_ID then uint_field val (\<lambda>v. (body\<lparr>vs_SpaceID := ucast v\<rparr>, u)) (body, u)
     else if key = ip IPROTO_TUPLE then ((body\<lparr>vs_Tuple := val\<rparr>, u), None)
     else if key = ip IPROTO_KEY then ((body\<lparr>vs_Key := val\<rparr>, u), None)
     else if key = ip IPROTO_OPS then ((body\<lparr>vs_Ops := val\<rparr>, u), None)
     else if key = ip IPROTO_TUPLE_META then
       (case decodeVyStmtMeta val of (_, Some e) \<Rightarrow> ((body, u), Some e)
        | (flags, None) \<Rightarrow> ((body\<lparr>vs_Flags := flags\<rparr>, u), None))
     else ((body, unknown opts key val u), None))"

definition DecodeVyStmtBodyInto ::
    "iproto \<Rightarrow> bytes \<Rightarrow> 'u DecodeOptions option \<Rightarrow> 'u \<Rightarrow> (VyStmtBody \<times> 'u) \<times> error option" where
  "DecodeVyStmtBodyInto ip b opts u = walkBody (stmt_key ip opts) b (VyStmtBody0, u)"

definition DecodeVyStmtBody :: "iproto \<Rightarrow> bytes \<Rightarrow> error + VyStmtBody" where
  "DecodeVyStmtBody ip b = (case DecodeVyStmtBodyInto ip b (None :: unit DecodeOptions option) () of
     (_, Some e) \<Rightarrow> Inl e | ((body, _), None) \<Rightarrow> Inr body)"

section \<open>Mandatory keys\<close>

type_synonym vyKeySet = uint64

record vyRequiredKey =
  rk_key :: uint64
  rk_name :: string

definition vyKeySet_add :: "vyKeySet \<Rightarrow> uint64 \<Rightarrow> vyKeySet" where
  "vyKeySet_add s key = (if key < 64 then s OR push_bit (unat key) 1 else s)"

fun missingKey :: "vyRequiredKey list \<Rightarrow> vyKeySet \<Rightarrow> error option" where
  "missingKey [] seen = None"
| "missingKey (r # required) seen =
     (if seen AND push_bit (unat (rk_key r)) 1 = 0 then Some [Body ErrVyMissingKey]
      else missingKey required seen)"

section \<open>Run info\<close>

definition vyRunInfoMinKey :: uint64 where [simp]: "vyRunInfoMinKey = 1"
definition vyRunInfoMaxKey :: uint64 where [simp]: "vyRunInfoMaxKey = 2"
definition vyRunInfoMinLSN :: uint64 where [simp]: "vyRunInfoMinLSN = 3"
definition vyRunInfoMaxLSN :: uint64 where [simp]: "vyRunInfoMaxLSN = 4"
definition vyRunInfoPageCount :: uint64 where [simp]: "vyRunInfoPageCount = 5"
definition vyRunInfoBloomFilterLegacy1 :: uint64 where [simp]: "vyRunInfoBloomFilterLegacy1 = 6"
definition vyRunInfoBloomFilterLegacy2 :: uint64 where [simp]: "vyRunInfoBloomFilterLegacy2 = 7"
definition vyRunInfoStmtStat :: uint64 where [simp]: "vyRunInfoStmtStat = 8"
definition vyRunInfoBloomFilter :: uint64 where [simp]: "vyRunInfoBloomFilter = 9"

record VyStmtStat =
  Inserts :: uint64
  Replaces :: uint64
  Deletes :: uint64
  Upserts :: uint64

definition VyStmtStat0 :: VyStmtStat where
  "VyStmtStat0 = \<lparr>Inserts = 0, Replaces = 0, Deletes = 0, Upserts = 0\<rparr>"

record VyRunInfo =
  ri_MinKey :: bytes
  ri_MaxKey :: bytes
  ri_MinLSN :: int64
  ri_MaxLSN :: int64
  ri_PageCount :: uint32
  ri_BloomVersion :: byte
  ri_Bloom :: bytes
  ri_StmtStat :: VyStmtStat

definition VyRunInfo0 :: VyRunInfo where
  "VyRunInfo0 = \<lparr>ri_MinKey = [], ri_MaxKey = [], ri_MinLSN = 0, ri_MaxLSN = 0, ri_PageCount = 0,
     ri_BloomVersion = 0, ri_Bloom = [], ri_StmtStat = VyStmtStat0\<rparr>"

definition vyRunInfoRequired :: "vyRequiredKey list" where
  "vyRunInfoRequired = [\<lparr>rk_key = vyRunInfoMinKey, rk_name = ''min_key''\<rparr>,
     \<lparr>rk_key = vyRunInfoMaxKey, rk_name = ''max_key''\<rparr>, \<lparr>rk_key = vyRunInfoMinLSN, rk_name = ''min_lsn''\<rparr>,
     \<lparr>rk_key = vyRunInfoMaxLSN, rk_name = ''max_lsn''\<rparr>, \<lparr>rk_key = vyRunInfoPageCount, rk_name = ''page_count''\<rparr>]"

definition bloomVersion :: "uint64 \<Rightarrow> byte" where
  "bloomVersion key = (if key = vyRunInfoBloomFilterLegacy1 then 1
     else if key = vyRunInfoBloomFilterLegacy2 then 2 else 3)"

definition stat_key :: "iproto \<Rightarrow> uint64 \<Rightarrow> bytes \<Rightarrow> VyStmtStat \<Rightarrow> VyStmtStat \<times> error option" where
  "stat_key ip key val st = uint_field val (\<lambda>v.
     if key = ip IPROTO_INSERT then st\<lparr>Inserts := v\<rparr>
     else if key = ip IPROTO_REPLACE then st\<lparr>Replaces := v\<rparr>
     else if key = ip IPROTO_DELETE then st\<lparr>Deletes := v\<rparr>
     else if key = ip IPROTO_UPSERT then st\<lparr>Upserts := v\<rparr> else st) st"

definition decodeVyStmtStat :: "iproto \<Rightarrow> bytes \<Rightarrow> VyStmtStat \<times> error option" where
  "decodeVyStmtStat ip b = walkMap (stat_key ip) b VyStmtStat0"

definition run_info_key :: "iproto \<Rightarrow> 'u DecodeOptions option \<Rightarrow> uint64 \<Rightarrow> bytes \<Rightarrow> VyRunInfo \<times> vyKeySet \<times> 'u
    \<Rightarrow> (VyRunInfo \<times> vyKeySet \<times> 'u) \<times> error option" where
  "run_info_key ip opts key val = (\<lambda>(info, seen0, u). let seen = vyKeySet_add seen0 key in
     if key = vyRunInfoMinKey then ((info\<lparr>ri_MinKey := val\<rparr>, seen, u), None)
     else if key = vyRunInfoMaxKey then ((info\<lparr>ri_MaxKey := val\<rparr>, seen, u), None)
     else if key = vyRunInfoMinLSN \<or> key = vyRunInfoMaxLSN \<or> key = vyRunInfoPageCount then
       uint_field val (\<lambda>v. (if key = vyRunInfoMinLSN then info\<lparr>ri_MinLSN := v\<rparr>
           else if key = vyRunInfoMaxLSN then info\<lparr>ri_MaxLSN := v\<rparr>
           else info\<lparr>ri_PageCount := ucast v\<rparr>, seen, u)) (info, seen, u)
     else if key = vyRunInfoBloomFilterLegacy1 \<or> key = vyRunInfoBloomFilterLegacy2 \<or> key = vyRunInfoBloomFilter then
       ((info\<lparr>ri_Bloom := val, ri_BloomVersion := bloomVersion key\<rparr>, seen, u), None)
     else if key = vyRunInfoStmtStat then
       (case decodeVyStmtStat ip val of (_, Some e) \<Rightarrow> ((info, seen, u), Some e)
        | (st, None) \<Rightarrow> ((info\<lparr>ri_StmtStat := st\<rparr>, seen, u), None))
     else ((info, seen, unknown opts key val u), None))"

definition DecodeVyRunInfoBodyInto ::
    "iproto \<Rightarrow> bytes \<Rightarrow> 'u DecodeOptions option \<Rightarrow> 'u \<Rightarrow> (VyRunInfo \<times> 'u) \<times> error option" where
  "DecodeVyRunInfoBodyInto ip b opts u = (case walkBody (run_info_key ip opts) b (VyRunInfo0, 0, u) of
     ((info, _, u'), Some e) \<Rightarrow> ((info, u'), Some e)
   | ((info, seen, u'), None) \<Rightarrow> ((info, u'), missingKey vyRunInfoRequired seen))"

definition DecodeVyRunInfoBody :: "iproto \<Rightarrow> bytes \<Rightarrow> error + VyRunInfo" where
  "DecodeVyRunInfoBody ip b = (case DecodeVyRunInfoBodyInto ip b (None :: unit DecodeOptions option) () of
     (_, Some e) \<Rightarrow> Inl e | ((info, _), None) \<Rightarrow> Inr info)"

section \<open>Page info\<close>

definition vyPageInfoOffset :: uint64 where [simp]: "vyPageInfoOffset = 1"
definition vyPageInfoSize :: uint64 where [simp]: "vyPageInfoSize = 2"
definition vyPageInfoUnpackedSize :: uint64 where [simp]: "vyPageInfoUnpackedSize = 3"
definition vyPageInfoRowCount :: uint64 where [simp]: "vyPageInfoRowCount = 4"
definition vyPageInfoMinKey :: uint64 where [simp]: "vyPageInfoMinKey = 5"
definition vyPageInfoRowIndexOffset :: uint64 where [simp]: "vyPageInfoRowIndexOffset = 6"

record VyPageInfo =
  pg_Offset :: uint64
  pg_Size :: uint32
  pg_UnpackedSize :: uint32
  pg_RowCount :: uint32
  pg_MinKey :: bytes
  pg_RowIndexOffset :: uint32

definition VyPageInfo0 :: VyPageInfo where
  "VyPageInfo0 = \<lparr>pg_Offset = 0, pg_Size = 0, pg_UnpackedSize = 0, pg_RowCount = 0, pg_MinKey = [],
     pg_RowIndexOffset = 0\<rparr>"

definition vyPageInfoRequired :: "vyRequiredKey list" where
  "vyPageInfoRequired = [\<lparr>rk_key = vyPageInfoOffset, rk_name = ''offset''\<rparr>,
     \<lparr>rk_key = vyPageInfoSize, rk_name = ''size''\<rparr>,
     \<lparr>rk_key = vyPageInfoUnpackedSize, rk_name = ''unpacked_size''\<rparr>,
     \<lparr>rk_key = vyPageInfoRowCount, rk_name = ''row_count''\<rparr>, \<lparr>rk_key = vyPageInfoMinKey, rk_name = ''min_key''\<rparr>,
     \<lparr>rk_key = vyPageInfoRowIndexOffset, rk_name = ''row_index_offset''\<rparr>]"

definition page_info_key :: "'u DecodeOptions option \<Rightarrow> uint64 \<Rightarrow> bytes \<Rightarrow> VyPageInfo \<times> vyKeySet \<times> 'u
    \<Rightarrow> (VyPageInfo \<times> vyKeySet \<times> 'u) \<times> error option" where
  "page_info_key opts key val = (\<lambda>(page, seen0, u). let seen = vyKeySet_add seen0 key in
     if key = vyPageInfoMinKey then ((page\<lparr>pg_MinKey := val\<rparr>, seen, u), None)
     else if key = vyPageInfoOffset \<or> key = vyPageInfoSize \<or> key = vyPageInfoUnpackedSize
         \<or> key = vyPageInfoRowCount \<or> key = vyPageInfoRowIndexOffset then
       uint_field val (\<lambda>v. (if key = vyPageInfoOffset then page\<lparr>pg_Offset := v\<rparr>
           else if key = vyPageInfoSize then page\<lparr>pg_Size := ucast v\<rparr>
           else if key = vyPageInfoUnpackedSize then page\<lparr>pg_UnpackedSize := ucast v\<rparr>
           else if key = vyPageInfoRowCount then page\<lparr>pg_RowCount := ucast v\<rparr>
           else page\<lparr>pg_RowIndexOffset := ucast v\<rparr>, seen, u)) (page, seen, u)
     else ((page, seen, unknown opts key val u), None))"

definition DecodeVyPageInfoBodyInto ::
    "bytes \<Rightarrow> 'u DecodeOptions option \<Rightarrow> 'u \<Rightarrow> (VyPageInfo \<times> 'u) \<times> error option" where
  "DecodeVyPageInfoBodyInto b opts u = (case walkBody (page_info_key opts) b (VyPageInfo0, 0, u) of
     ((page, _, u'), Some e) \<Rightarrow> ((page, u'), Some e)
   | ((page, seen, u'), None) \<Rightarrow> ((page, u'), missingKey vyPageInfoRequired seen))"

definition DecodeVyPageInfoBody :: "bytes \<Rightarrow> error + VyPageInfo" where
  "DecodeVyPageInfoBody b = (case DecodeVyPageInfoBodyInto b (None :: unit DecodeOptions option) () of
     (_, Some e) \<Rightarrow> Inl e | ((page, _), None) \<Rightarrow> Inr page)"

section \<open>Row index\<close>

definition vyRowIndexData :: uint64 where [simp]: "vyRowIndexData = 1"

definition row_index_key :: "uint64 \<Rightarrow> bytes \<Rightarrow> uint32 list option \<Rightarrow> uint32 list option \<times> error option" where
  "row_index_key key val offsets =
     (if key \<noteq> vyRowIndexData then (offsets, None)
      else (case readMPBin val of Inl e \<Rightarrow> (offsets, Some e)
        | Inr data \<Rightarrow>
            if length data mod 4 \<noteq> 0 then (offsets, Some [Body ErrVyRowIndex])
            else (Some (map (\<lambda>i. Uint32 (drop (i * 4) data)) [0..<length data div 4]), None)))"

text \<open>\<open>None\<close> is the nil slice of a body without the data.\<close>

definition DecodeVyRowIndexBody :: "bytes \<Rightarrow> error + uint32 list option" where
  "DecodeVyRowIndexBody b = (case walkBody row_index_key b None of
     (_, Some e) \<Rightarrow> Inl e | (offsets, None) \<Rightarrow> Inr offsets)"

section \<open>What a statement decodes to\<close>

interpretation stmtmeta: body_decoder stmt_meta_key "\<lambda>k v. k = vyStmtMetaFlags \<longrightarrow> is_uint v"
  by unfold_locales (simp add: stmt_meta_key_def)

lemma stmt_meta_run:
  "all_entries (\<lambda>k v. k = vyStmtMetaFlags \<longrightarrow> is_uint v) es \<Longrightarrow>
   run_entries stmt_meta_key es 0 = last_at es vyStmtMetaFlags 0 mp_uint"
proof (induction es rule: rev_induct)
  case (snoc e es)
  then show ?case by (cases e) (auto simp: stmt_meta_key_def)
qed simp

definition is_meta :: "bytes \<Rightarrow> bool" where
  "is_meta v \<longleftrightarrow> snd (decodeVyStmtMeta v) = None"

lemma is_meta_map:
  "is_meta v \<longleftrightarrow> (\<exists>es. mp_map v es \<and> all_entries (\<lambda>k v. k = vyStmtMetaFlags \<longrightarrow> is_uint v) es
     \<and> fst (decodeVyStmtMeta v) = last_at es vyStmtMetaFlags 0 mp_uint)"
proof -
  have "is_meta v \<longleftrightarrow> (\<exists>f. walkMap stmt_meta_key v 0 = (f, None) \<and> f = fst (decodeVyStmtMeta v))"
    by (cases "walkMap stmt_meta_key v 0") (auto simp: is_meta_def decodeVyStmtMeta_def)
  then show ?thesis by (auto simp: stmtmeta.walkMap_iff stmt_meta_run)
qed

definition stmt_keys :: "iproto_const list" where
  "stmt_keys = [IPROTO_SPACE_ID, IPROTO_TUPLE, IPROTO_KEY, IPROTO_OPS, IPROTO_TUPLE_META]"

definition stmt_ok :: "iproto \<Rightarrow> uint64 \<Rightarrow> bytes \<Rightarrow> bool" where
  "stmt_ok ip k v \<longleftrightarrow> (if k = ip IPROTO_SPACE_ID then is_uint v
     else if k \<in> {ip IPROTO_TUPLE, ip IPROTO_KEY, ip IPROTO_OPS} then True
     else if k = ip IPROTO_TUPLE_META then is_meta v else True)"

definition stmt_of :: "iproto \<Rightarrow> (uint64 \<times> bytes) list \<Rightarrow> VyStmtBody" where
  "stmt_of ip es = \<lparr>vs_SpaceID = last_at es (ip IPROTO_SPACE_ID) 0 (\<lambda>v. ucast (mp_uint v)),
     vs_Tuple = last_at es (ip IPROTO_TUPLE) [] (\<lambda>v. v), vs_Key = last_at es (ip IPROTO_KEY) [] (\<lambda>v. v),
     vs_Ops = last_at es (ip IPROTO_OPS) [] (\<lambda>v. v),
     vs_Flags = last_at es (ip IPROTO_TUPLE_META) 0 (\<lambda>v. fst (decodeVyStmtMeta v))\<rparr>"

interpretation stmt: body_decoder "stmt_key ip opts" "stmt_ok ip"
  by unfold_locales (auto simp: stmt_key_def stmt_ok_def is_meta_def split: prod.splits option.splits)

lemma stmt_run:
  assumes d: "distinct (map ip stmt_keys)"
  shows "all_entries (stmt_ok ip) es \<Longrightarrow>
    run_entries (stmt_key ip opts) es (VyStmtBody0, u) = (stmt_of ip es, unknowns opts (ip ` set stmt_keys) es u)"
proof (induction es rule: rev_induct)
  case (snoc e es)
  note eq = distinct_keys [OF d, unfolded stmt_keys_def, simplified]
  obtain k v where "e = (k, v)" by (cases e)
  then show ?case using snoc
    by (auto simp: stmt_key_def stmt_ok_def stmt_of_def stmt_keys_def is_meta_def eq split: prod.splits option.splits)
qed (simp add: stmt_of_def VyStmtBody0_def)

text \<open>A statement is a data manipulation body without the index, with the flags of its meta map.\<close>

lemma stmt_body_iff:
  assumes "distinct (map ip stmt_keys)"
  shows "DecodeVyStmtBodyInto ip b opts u = ((body, u'), None) \<longleftrightarrow>
    (\<exists>es. mp_map b es \<and> all_entries (stmt_ok ip) es \<and> body = stmt_of ip es
       \<and> u' = unknowns opts (ip ` set stmt_keys) es u)"
  unfolding DecodeVyStmtBodyInto_def stmt.walkBody_iff by (auto simp: stmt_run [OF assms])

section \<open>The set of keys a body holds\<close>

lemma vyKeySet_add_bit: "j < 64 \<Longrightarrow> bit (vyKeySet_add s k) j \<longleftrightarrow> bit s j \<or> unat k = j"
  by (auto simp: vyKeySet_add_def bit_simps word_less_nat_alt)

lemma missing_test: "j < 64 \<Longrightarrow> (s :: uint64) AND push_bit j 1 = 0 \<longleftrightarrow> \<not> bit s j"
proof -
  assume j: "j < 64"
  have "bit (s AND push_bit j 1) n \<longleftrightarrow> n = j \<and> bit s j" for n
    using j by (auto simp: bit_simps)
  then show ?thesis by (metis bit_0_eq bit_eqI bot_apply bot_bool_def)
qed

definition keys_below :: "vyRequiredKey list \<Rightarrow> bool" where
  "keys_below rs \<longleftrightarrow> (\<forall>r\<in>set rs. rk_key r < 64)"

definition seen_of :: "(uint64 \<times> bytes) list \<Rightarrow> vyKeySet" where
  "seen_of es = foldl (\<lambda>s (k, v). vyKeySet_add s k) 0 es"

lemma seen_of_simps [simp]: "seen_of [] = 0" "seen_of (es @ [(k, v)]) = vyKeySet_add (seen_of es) k"
  by (simp_all add: seen_of_def)

lemma seen_of_bit: "j < 64 \<Longrightarrow> bit (seen_of es) j \<longleftrightarrow> j \<in> unat ` fst ` set es"
  by (induction es rule: rev_induct) (auto simp: vyKeySet_add_bit)

lemma missingKey_seen:
  assumes "keys_below rs"
  shows "missingKey rs (seen_of es) = (if rk_key ` set rs \<subseteq> fst ` set es then None else Some [Body ErrVyMissingKey])"
  using assms
proof (induction rs)
  case (Cons r rs)
  have lt: "unat (rk_key r) < 64" using Cons.prems by (simp add: keys_below_def word_less_nat_alt)
  have "seen_of es AND push_bit (unat (rk_key r)) 1 = 0 \<longleftrightarrow> rk_key r \<notin> fst ` set es"
    unfolding missing_test [OF lt] seen_of_bit [OF lt] by (auto simp: inj_image_mem_iff)
  then show ?case using Cons by (simp add: keys_below_def)
qed simp

section \<open>What run and page infos decode to\<close>

interpretation vystat: body_decoder "stat_key ip" "\<lambda>_. is_uint"
  by unfold_locales (simp add: stat_key_def)

definition stat_keys :: "iproto_const list" where
  "stat_keys = [IPROTO_INSERT, IPROTO_REPLACE, IPROTO_DELETE, IPROTO_UPSERT]"

definition stat_of :: "iproto \<Rightarrow> (uint64 \<times> bytes) list \<Rightarrow> VyStmtStat" where
  "stat_of ip es = \<lparr>Inserts = last_at es (ip IPROTO_INSERT) 0 mp_uint,
     Replaces = last_at es (ip IPROTO_REPLACE) 0 mp_uint, Deletes = last_at es (ip IPROTO_DELETE) 0 mp_uint,
     Upserts = last_at es (ip IPROTO_UPSERT) 0 mp_uint\<rparr>"

lemma stat_run:
  assumes d: "distinct (map ip stat_keys)"
  shows "all_entries (\<lambda>_. is_uint) es \<Longrightarrow> run_entries (stat_key ip) es VyStmtStat0 = stat_of ip es"
proof (induction es rule: rev_induct)
  case (snoc e es)
  note eq = distinct_keys [OF d, unfolded stat_keys_def, simplified]
  obtain k v where "e = (k, v)" by (cases e)
  then show ?case using snoc by (auto simp: stat_key_def stat_of_def eq)
qed (simp add: stat_of_def VyStmtStat0_def)

definition is_stat :: "iproto \<Rightarrow> bytes \<Rightarrow> bool" where
  "is_stat ip v \<longleftrightarrow> snd (decodeVyStmtStat ip v) = None"

lemma is_stat_map:
  assumes "distinct (map ip stat_keys)"
  shows "is_stat ip v \<longleftrightarrow> (\<exists>es. mp_map v es \<and> all_entries (\<lambda>_. is_uint) es
     \<and> fst (decodeVyStmtStat ip v) = stat_of ip es)"
proof -
  have "is_stat ip v \<longleftrightarrow> (\<exists>f. walkMap (stat_key ip) v VyStmtStat0 = (f, None) \<and> f = fst (decodeVyStmtStat ip v))"
    by (cases "walkMap (stat_key ip) v VyStmtStat0") (auto simp: is_stat_def decodeVyStmtStat_def)
  then show ?thesis by (auto simp: vystat.walkMap_iff stat_run [OF assms])
qed

definition bloom_keys :: "uint64 set" where
  "bloom_keys = {vyRunInfoBloomFilterLegacy1, vyRunInfoBloomFilterLegacy2, vyRunInfoBloomFilter}"

text \<open>The last bloom filter of the body, under whichever of its three keys, with its version.\<close>

definition last_bloom :: "(uint64 \<times> bytes) list \<Rightarrow> byte \<times> bytes" where
  "last_bloom es = (case filter (\<lambda>(k, v). k \<in> bloom_keys) (rev es) of [] \<Rightarrow> (0, []) | (k, v) # _ \<Rightarrow> (bloomVersion k, v))"

lemma last_bloom_simps [simp]:
  "last_bloom [] = (0, [])"
  "last_bloom (es @ [(k, v)]) = (if k \<in> bloom_keys then (bloomVersion k, v) else last_bloom es)"
  by (simp_all add: last_bloom_def)

definition run_info_ok :: "iproto \<Rightarrow> uint64 \<Rightarrow> bytes \<Rightarrow> bool" where
  "run_info_ok ip k v \<longleftrightarrow> (k \<in> {vyRunInfoMinLSN, vyRunInfoMaxLSN, vyRunInfoPageCount} \<longrightarrow> is_uint v)
     \<and> (k = vyRunInfoStmtStat \<longrightarrow> is_stat ip v)"

definition run_info_of :: "iproto \<Rightarrow> (uint64 \<times> bytes) list \<Rightarrow> VyRunInfo" where
  "run_info_of ip es = \<lparr>ri_MinKey = last_at es vyRunInfoMinKey [] (\<lambda>v. v),
     ri_MaxKey = last_at es vyRunInfoMaxKey [] (\<lambda>v. v), ri_MinLSN = last_at es vyRunInfoMinLSN 0 mp_uint,
     ri_MaxLSN = last_at es vyRunInfoMaxLSN 0 mp_uint,
     ri_PageCount = last_at es vyRunInfoPageCount 0 (\<lambda>v. ucast (mp_uint v)),
     ri_BloomVersion = fst (last_bloom es), ri_Bloom = snd (last_bloom es),
     ri_StmtStat = last_at es vyRunInfoStmtStat VyStmtStat0 (\<lambda>v. fst (decodeVyStmtStat ip v))\<rparr>"

interpretation runinfo: body_decoder "run_info_key ip opts" "run_info_ok ip"
  by unfold_locales (auto simp: run_info_key_def run_info_ok_def is_stat_def Let_def split: prod.splits option.splits)

definition run_info_keys :: "uint64 set" where
  "run_info_keys = bloom_keys \<union> {vyRunInfoMinKey, vyRunInfoMaxKey, vyRunInfoMinLSN, vyRunInfoMaxLSN,
     vyRunInfoPageCount, vyRunInfoStmtStat}"

lemma run_info_run: "all_entries (run_info_ok ip) es \<Longrightarrow>
    run_entries (run_info_key ip opts) es (VyRunInfo0, 0, u) = (run_info_of ip es, seen_of es, unknowns opts run_info_keys es u)"
proof (induction es rule: rev_induct)
  case (snoc e es)
  obtain k v where "e = (k, v)" by (cases e)
  then show ?case using snoc
    by (auto simp: run_info_key_def run_info_ok_def run_info_of_def is_stat_def bloom_keys_def run_info_keys_def Let_def
        split: prod.splits option.splits)
qed (simp add: run_info_of_def VyRunInfo0_def)

definition page_info_ok :: "uint64 \<Rightarrow> bytes \<Rightarrow> bool" where
  "page_info_ok k v \<longleftrightarrow> (k \<in> {vyPageInfoOffset, vyPageInfoSize, vyPageInfoUnpackedSize, vyPageInfoRowCount,
     vyPageInfoRowIndexOffset} \<longrightarrow> is_uint v)"

definition page_info_of :: "(uint64 \<times> bytes) list \<Rightarrow> VyPageInfo" where
  "page_info_of es =
     (let num = (\<lambda>k. last_at es k 0 (\<lambda>v. ucast (mp_uint v))) in
      \<lparr>pg_Offset = last_at es vyPageInfoOffset 0 mp_uint, pg_Size = num vyPageInfoSize,
       pg_UnpackedSize = num vyPageInfoUnpackedSize, pg_RowCount = num vyPageInfoRowCount,
       pg_MinKey = last_at es vyPageInfoMinKey [] (\<lambda>v. v), pg_RowIndexOffset = num vyPageInfoRowIndexOffset\<rparr>)"

interpretation pageinfo: body_decoder "page_info_key opts" page_info_ok
  by unfold_locales (auto simp: page_info_key_def page_info_ok_def Let_def split: prod.splits)

definition page_info_keys :: "uint64 set" where
  "page_info_keys = {vyPageInfoOffset, vyPageInfoSize, vyPageInfoUnpackedSize, vyPageInfoRowCount,
     vyPageInfoMinKey, vyPageInfoRowIndexOffset}"

lemma page_info_run: "all_entries page_info_ok es \<Longrightarrow>
    run_entries (page_info_key opts) es (VyPageInfo0, 0, u)
      = (page_info_of es, seen_of es, unknowns opts page_info_keys es u)"
proof (induction es rule: rev_induct)
  case (snoc e es)
  obtain k v where "e = (k, v)" by (cases e)
  then show ?case using snoc
    by (auto simp: page_info_key_def page_info_ok_def page_info_of_def page_info_keys_def Let_def)
qed (simp add: page_info_of_def VyPageInfo0_def)

text \<open>A walk with handlers that fail with msgpack errors fails with msgpack errors.\<close>

definition mp_errors :: "(uint64 \<Rightarrow> bytes \<Rightarrow> 's \<Rightarrow> 's \<times> error option) \<Rightarrow> bool" where
  "mp_errors fn \<longleftrightarrow> (\<forall>k v s s' e. fn k v s = (s', Some e) \<longrightarrow> set e \<subseteq> range Mp)"

lemma walk_loop_errors: "mp_errors fn \<Longrightarrow> walk_loop fn b n off s = (s', Some e) \<Longrightarrow> set e \<subseteq> range Mp"
proof (induction n arbitrary: off s)
  case (Suc n)
  then show ?case
    by (auto simp: mp_errors_def split: sum.splits prod.splits option.splits
        dest: readMP_errors(1) skipMP_errors)
qed simp

lemma walkMap_errors: "mp_errors fn \<Longrightarrow> walkMap fn b s = (s', Some e) \<Longrightarrow> set e \<subseteq> range Mp"
  by (auto simp: walkMap_def split: sum.splits prod.splits dest: walk_loop_errors readMP_errors(2))

lemma uint_field_error [simp]:
  "snd (uint_field v store s) = Some e \<longleftrightarrow> readMPUint v = Inl e"
  by (simp add: uint_field_def split: sum.splits)

lemma mp_errors_snd: "mp_errors fn \<longleftrightarrow> (\<forall>k v s e. snd (fn k v s) = Some e \<longrightarrow> set e \<subseteq> range Mp)"
  unfolding mp_errors_def by (metis prod.collapse snd_conv)

lemma stat_mp_errors: "snd (decodeVyStmtStat ip v) = Some e \<Longrightarrow> set e \<subseteq> range Mp"
proof -
  have "mp_errors (stat_key ip)" by (auto simp: mp_errors_snd stat_key_def dest: readMP_errors(1))
  then show "snd (decodeVyStmtStat ip v) = Some e \<Longrightarrow> set e \<subseteq> range Mp"
    unfolding decodeVyStmtStat_def using walkMap_errors by (metis prod.collapse)
qed

lemma info_mp_errors: "mp_errors (run_info_key ip opts)" "mp_errors (page_info_key opts)"
proof -
  have "snd (run_info_key ip opts k v s) = Some e \<longrightarrow>
      readMPUint v = Inl e \<or> snd (decodeVyStmtStat ip v) = Some e" for k v e and s :: "VyRunInfo \<times> vyKeySet \<times> 'a"
    by (cases "k = vyRunInfoMinLSN \<or> k = vyRunInfoMaxLSN \<or> k = vyRunInfoPageCount"; cases "k = vyRunInfoStmtStat")
      (auto simp: run_info_key_def Let_def split: prod.splits option.splits)
  then show "mp_errors (run_info_key ip opts)"
    unfolding mp_errors_snd using readMP_errors(1) stat_mp_errors by blast
  have "snd (page_info_key opts k v s) = Some e \<longrightarrow> readMPUint v = Inl e"
    for k v e and s :: "VyPageInfo \<times> vyKeySet \<times> 'a"
    by (cases "k = vyPageInfoMinKey"; cases "k \<in> {vyPageInfoOffset, vyPageInfoSize, vyPageInfoUnpackedSize, vyPageInfoRowCount,
       vyPageInfoRowIndexOffset}") (auto simp: page_info_key_def Let_def split: prod.splits)
  then show "mp_errors (page_info_key opts)"
    unfolding mp_errors_snd using readMP_errors(1) by blast
qed

lemma keys_below_required: "keys_below vyRunInfoRequired" "keys_below vyPageInfoRequired"
  by (simp_all add: keys_below_def vyRunInfoRequired_def vyPageInfoRequired_def)

text \<open>
  A decoder with mandatory keys, as the run and the page info are: the walk tracks the keys it sees, and
  a body that lacks one fails after it. The laws are what the handler must promise; the meaning of the
  whole decoder follows for both.
\<close>

definition info_result :: "(uint64 \<Rightarrow> bytes \<Rightarrow> 'i \<times> vyKeySet \<times> 'u \<Rightarrow> ('i \<times> vyKeySet \<times> 'u) \<times> error option)
    \<Rightarrow> vyRequiredKey list \<Rightarrow> 'i \<Rightarrow> bytes \<Rightarrow> 'u \<Rightarrow> ('i \<times> 'u) \<times> error option" where
  "info_result fn rs i b u = (case walkBody fn b (i, 0, u) of
     ((info, _, u'), Some e) \<Rightarrow> ((info, u'), Some e) | ((info, seen, u'), None) \<Rightarrow> ((info, u'), missingKey rs seen))"

locale info_decoder = body_decoder fn ok
  for fn :: "uint64 \<Rightarrow> bytes \<Rightarrow> 'i \<times> vyKeySet \<times> 'u \<Rightarrow> ('i \<times> vyKeySet \<times> 'u) \<times> error option"
    and ok :: "uint64 \<Rightarrow> bytes \<Rightarrow> bool" +
  fixes opts :: "'u DecodeOptions option" and ks :: "uint64 set" and rs :: "vyRequiredKey list"
    and i :: 'i and info_of :: "(uint64 \<times> bytes) list \<Rightarrow> 'i"
  assumes run: "all_entries ok es \<Longrightarrow> run_entries fn es (i, 0, u) = (info_of es, seen_of es, unknowns opts ks es u)"
    and required: "keys_below rs"
    and errors: "mp_errors fn"
begin

lemma info_walk:
  "walkBody fn b (i, 0, u) = (w, None) \<longleftrightarrow> (\<exists>es. mp_map b es \<and> all_entries ok es
     \<and> w = (info_of es, seen_of es, unknowns opts ks es u))"
  unfolding walkBody_iff by (metis run)

lemma info_iff:
  "info_result fn rs i b u = ((info, u'), None) \<longleftrightarrow> (\<exists>es. mp_map b es \<and> all_entries ok es
     \<and> rk_key ` set rs \<subseteq> fst ` set es \<and> info = info_of es \<and> u' = unknowns opts ks es u)"
proof -
  have "info_result fn rs i b u = ((info, u'), None) \<longleftrightarrow>
      (\<exists>seen. walkBody fn b (i, 0, u) = ((info, seen, u'), None) \<and> missingKey rs seen = None)"
    by (auto simp: info_result_def split: prod.splits option.splits)
  also have "\<dots> \<longleftrightarrow> (\<exists>es. mp_map b es \<and> all_entries ok es \<and> missingKey rs (seen_of es) = None
      \<and> info = info_of es \<and> u' = unknowns opts ks es u)"
    unfolding info_walk by blast
  moreover have "missingKey rs (seen_of es) = None \<longleftrightarrow> rk_key ` set rs \<subseteq> fst ` set es" for es
    by (simp add: missingKey_seen [OF required])
  ultimately show ?thesis by blast
qed

lemma info_missing:
  "snd (info_result fn rs i b u) = Some [Body ErrVyMissingKey] \<longleftrightarrow>
     (\<exists>es. mp_map b es \<and> all_entries ok es \<and> \<not> rk_key ` set rs \<subseteq> fst ` set es)"
proof
  assume h: "snd (info_result fn rs i b u) = Some [Body ErrVyMissingKey]"
  obtain w err where w: "walkBody fn b (i, 0, u) = (w, err)" by fastforce
  have "err \<noteq> Some [Body ErrVyMissingKey]"
    using w walkMap_errors [OF errors, of b "(i, 0, u)" w "[Body ErrVyMissingKey]"]
    by (auto simp: walkBody_def split: if_splits)
  with h w have "err = None" by (auto simp: info_result_def split: prod.splits option.splits)
  with w obtain es where es: "mp_map b es" "all_entries ok es" "w = (info_of es, seen_of es, unknowns opts ks es u)"
    by (auto simp: info_walk)
  then have "missingKey rs (seen_of es) \<noteq> None" using h w \<open>err = None\<close> by (simp add: info_result_def)
  then show "\<exists>es. mp_map b es \<and> all_entries ok es \<and> \<not> rk_key ` set rs \<subseteq> fst ` set es"
    using es by (auto simp: missingKey_seen [OF required] split: if_splits)
next
  assume "\<exists>es. mp_map b es \<and> all_entries ok es \<and> \<not> rk_key ` set rs \<subseteq> fst ` set es"
  then obtain es where es: "mp_map b es" "all_entries ok es" "\<not> rk_key ` set rs \<subseteq> fst ` set es" by blast
  then have "walkBody fn b (i, 0, u) = ((info_of es, seen_of es, unknowns opts ks es u), None)"
    unfolding info_walk by blast
  then show "snd (info_result fn rs i b u) = Some [Body ErrVyMissingKey]"
    using es(3) by (simp add: info_result_def missingKey_seen [OF required])
qed

end

interpretation vyrun: info_decoder "run_info_key ip opts" "run_info_ok ip" opts run_info_keys vyRunInfoRequired
    VyRunInfo0 "run_info_of ip"
  by unfold_locales (simp_all add: run_info_run keys_below_required info_mp_errors)

interpretation vypage: info_decoder "page_info_key opts" page_info_ok opts page_info_keys vyPageInfoRequired
    VyPageInfo0 page_info_of
  by unfold_locales (simp_all add: page_info_run keys_below_required info_mp_errors)

lemma info_results:
  "DecodeVyRunInfoBodyInto ip b opts u = info_result (run_info_key ip opts) vyRunInfoRequired VyRunInfo0 b u"
  "DecodeVyPageInfoBodyInto b opts u = info_result (page_info_key opts) vyPageInfoRequired VyPageInfo0 b u"
  by (simp_all add: DecodeVyRunInfoBodyInto_def DecodeVyPageInfoBodyInto_def info_result_def)

section \<open>What a row index decodes to\<close>

definition is_row_data :: "bytes \<Rightarrow> bool" where
  "is_row_data v \<longleftrightarrow> (case readMPBin v of Inl _ \<Rightarrow> False | Inr data \<Rightarrow> length data mod 4 = 0)"

definition row_index_ok :: "uint64 \<Rightarrow> bytes \<Rightarrow> bool" where
  "row_index_ok k v \<longleftrightarrow> (k = vyRowIndexData \<longrightarrow> is_row_data v)"

interpretation rowindex: body_decoder row_index_key row_index_ok
  by unfold_locales (simp add: row_index_key_def row_index_ok_def is_row_data_def split: sum.splits)

definition offsets_of :: "bytes \<Rightarrow> uint32 list" where
  "offsets_of data = map (\<lambda>i. Uint32 (drop (i * 4) data)) [0..<length data div 4]"

lemma offsets_of_step: "length h = 4 \<Longrightarrow> offsets_of (h @ t) = Uint32 (h @ t) # offsets_of t"
proof -
  assume h: "length h = 4"
  then have "length (h @ t) div 4 = Suc (length t div 4)" by simp
  then show ?thesis using h by (simp only: offsets_of_def map_upt_Suc) simp
qed

lemma offsets_of_bytes: "length data mod 4 = 0 \<Longrightarrow> concat (map PutUint32 (offsets_of data)) = data"
proof (induction data rule: length_induct)
  case (1 data)
  show ?case
  proof (cases "data = []")
    case False
    then have "4 \<le> length data" using "1.prems" by (cases "length data < 4") simp_all
    then obtain a b c d t where data: "data = a # b # c # d # t"
      by (auto simp: numeral_eq_Suc Suc_le_length_iff)
    have "offsets_of data = Uint32 data # offsets_of t"
      using offsets_of_step [of "[a, b, c, d]" t] data by simp
    moreover have "concat (map PutUint32 (offsets_of t)) = t" using 1 data by simp
    ultimately show ?thesis by (simp add: data PutUint32_Uint32)
  qed (simp add: offsets_of_def)
qed

lemma row_index_run:
  "all_entries row_index_ok es \<Longrightarrow>
   run_entries row_index_key es None
     = last_at es vyRowIndexData None (\<lambda>v. Some (offsets_of (case readMPBin v of Inl _ \<Rightarrow> [] | Inr data \<Rightarrow> data)))"
proof (induction es rule: rev_induct)
  case (snoc e es)
  then show ?case
    by (cases e) (auto simp: row_index_key_def row_index_ok_def is_row_data_def offsets_of_def split: sum.splits)
qed simp

lemma DecodeVyRowIndexBody_iff:
  "DecodeVyRowIndexBody b = Inr r \<longleftrightarrow>
     (\<exists>es. mp_map b es \<and> all_entries row_index_ok es
        \<and> r = last_at es vyRowIndexData None (\<lambda>v. Some (offsets_of (case readMPBin v of Inl _ \<Rightarrow> [] | Inr data \<Rightarrow> data))))"
proof -
  have "DecodeVyRowIndexBody b = Inr r \<longleftrightarrow> walkBody row_index_key b None = (r, None)"
    by (auto simp: DecodeVyRowIndexBody_def split: prod.splits option.splits)
  then show ?thesis unfolding rowindex.walkBody_iff by (metis row_index_run)
qed

lemma offsets_of_enc: "offsets_of (concat (map PutUint32 offs)) = offs"
proof (induction offs)
  case (Cons x offs)
  have "Uint32 (PutUint32 x @ t) = x" for t
    using Uint32_PutUint32 [of x] by (simp add: Uint32_def PutUint32_def)
  then show ?case using Cons offsets_of_step [of "PutUint32 x"] by simp
qed (simp add: offsets_of_def)

lemma offsets_of_iff:
  "length data mod 4 = 0 \<and> offs = offsets_of data \<longleftrightarrow> data = concat (map PutUint32 offs)"
proof -
  have "length (concat (map PutUint32 offs)) mod 4 = 0" by (induction offs) simp_all
  then show ?thesis using offsets_of_bytes [of data] offsets_of_enc [of offs] by metis
qed

section \<open>Properties\<close>

text \<open>
  C33: the run info and the page info of a vinyl index decode exactly when their body is a well-formed
  map whose numbers are unsigned integers (and the statistics a map of them) and that holds every
  mandatory key; every field then is the last value of its key, the bloom filter with the version of the
  key it stood under. A body that is fine but for a mandatory key fails with \<open>ErrVyMissingKey\<close>, and no
  other body does.
\<close>

theorem vy_info_spec:
  "(DecodeVyRunInfoBodyInto ip b opts u = ((info, u'), None) \<longleftrightarrow>
     (\<exists>es. mp_map b es \<and> all_entries (run_info_ok ip) es \<and> rk_key ` set vyRunInfoRequired \<subseteq> fst ` set es
        \<and> info = run_info_of ip es \<and> u' = unknowns opts run_info_keys es u))
   \<and> (snd (DecodeVyRunInfoBodyInto ip b opts u) = Some [Body ErrVyMissingKey] \<longleftrightarrow>
     (\<exists>es. mp_map b es \<and> all_entries (run_info_ok ip) es \<and> \<not> rk_key ` set vyRunInfoRequired \<subseteq> fst ` set es))
   \<and> (DecodeVyPageInfoBodyInto b opts u = ((page, u'), None) \<longleftrightarrow>
     (\<exists>es. mp_map b es \<and> all_entries page_info_ok es \<and> rk_key ` set vyPageInfoRequired \<subseteq> fst ` set es
        \<and> page = page_info_of es \<and> u' = unknowns opts page_info_keys es u))
   \<and> (snd (DecodeVyPageInfoBodyInto b opts u) = Some [Body ErrVyMissingKey] \<longleftrightarrow>
     (\<exists>es. mp_map b es \<and> all_entries page_info_ok es \<and> \<not> rk_key ` set vyPageInfoRequired \<subseteq> fst ` set es))"
  unfolding info_results
  by (intro conjI vyrun.info_iff vyrun.info_missing vypage.info_iff vypage.info_missing)

text \<open>
  a row index decodes to some offsets exactly when the payload of its data is their big-endian
  encodings, one after the other, for any binary encoding of the data and whatever other keys the body
  has: encoding the offsets and decoding them are inverse. Without the data key the result is nil.
\<close>

theorem vy_row_index_roundtrip:
  "(DecodeVyRowIndexBody b = Inr (Some offs) \<longleftrightarrow>
     (\<exists>es v. mp_map b es \<and> all_entries row_index_ok es
        \<and> map_of (rev es) vyRowIndexData = Some v \<and> readMPBin v = Inr (concat (map PutUint32 offs))))
   \<and> (DecodeVyRowIndexBody b = Inr None \<longleftrightarrow> (\<exists>es. mp_map b es \<and> vyRowIndexData \<notin> fst ` set es))"
proof
  have data: "Some offs = last_at es vyRowIndexData None (\<lambda>v. Some (offsets_of (case readMPBin v of Inl _ \<Rightarrow> [] | Inr data \<Rightarrow> data)))
      \<longleftrightarrow> (\<exists>v. map_of (rev es) vyRowIndexData = Some v \<and> readMPBin v = Inr (concat (map PutUint32 offs)))"
    if "all_entries row_index_ok es" for es
  proof -
    have "is_row_data v" if "map_of (rev es) vyRowIndexData = Some v" for v
      using \<open>all_entries row_index_ok es\<close> map_of_SomeD [OF that] by (auto simp: all_entries_def row_index_ok_def)
    then show ?thesis
      using offsets_of_iff [of _ offs] by (fastforce simp: last_at_def is_row_data_def split: option.splits sum.splits)
  qed
  show "DecodeVyRowIndexBody b = Inr (Some offs) \<longleftrightarrow>
     (\<exists>es v. mp_map b es \<and> all_entries row_index_ok es
        \<and> map_of (rev es) vyRowIndexData = Some v \<and> readMPBin v = Inr (concat (map PutUint32 offs)))"
    unfolding DecodeVyRowIndexBody_iff using data by blast
  have "all_entries row_index_ok es" if "vyRowIndexData \<notin> fst ` set es" for es
    using that by (force simp: all_entries_def row_index_ok_def)
  then show "DecodeVyRowIndexBody b = Inr None \<longleftrightarrow> (\<exists>es. mp_map b es \<and> vyRowIndexData \<notin> fst ` set es)"
    unfolding DecodeVyRowIndexBody_iff
    by (auto simp: last_at_def map_of_eq_None_iff split: option.splits)
qed

end
