(* ===== verification/UpdateOps.thy ===== *)
theory UpdateOps
  imports Msgpack
begin

unbundle bit_operations_syntax

text \<open>
  The operations of an UPDATE or UPSERT (\<^verbatim>\<open>format/ops.go\<close>): opcodes with their arity, the readers of
  32-bit integers and of strings, the decoder of one operation and of an operation list. A list
  decodes exactly when it has the documented shape, its integers are read with their two's complement
  value and never truncated, and no operation is smaller than the bound the decoder preallocates by.
\<close>

section \<open>Opcodes\<close>

type_synonym OpCode = byte

definition OpSet :: OpCode where [simp]: "OpSet = of_char CHR ''=''"
definition OpInsert :: OpCode where [simp]: "OpInsert = of_char CHR ''!''"
definition OpAdd :: OpCode where [simp]: "OpAdd = of_char CHR ''+''"
definition OpSubtract :: OpCode where [simp]: "OpSubtract = of_char CHR ''-''"
definition OpAnd :: OpCode where [simp]: "OpAnd = of_char CHR ''&''"
definition OpOr :: OpCode where [simp]: "OpOr = of_char CHR ''|''"
definition OpXor :: OpCode where [simp]: "OpXor = of_char CHR ''^''"
definition OpSplice :: OpCode where [simp]: "OpSplice = of_char CHR '':''"
definition OpDelete :: OpCode where [simp]: "OpDelete = of_char CHR ''#''"

definition opArity :: nat where [simp]: "opArity = 3"
definition opSpliceArity :: nat where [simp]: "opSpliceArity = 5"
definition opMinSize :: nat where [simp]: "opMinSize = mpTagSize + mpHead8 + mpTagSize + mpTagSize"

text \<open>\<^verbatim>\<open>%02x\<close> of a byte.\<close>

definition hex_digit :: "nat \<Rightarrow> char" where
  "hex_digit n = ''0123456789abcdef'' ! n"

definition OpCode_String :: "OpCode \<Rightarrow> string" where
  "OpCode_String c =
     (if c = OpSet then ''='' else if c = OpInsert then ''!'' else if c = OpAdd then ''+''
      else if c = OpSubtract then ''-'' else if c = OpAnd then ''&'' else if c = OpOr then ''|''
      else if c = OpXor then ''^'' else if c = OpSplice then '':'' else if c = OpDelete then ''#''
      else ''OpCode(0x'' @ [hex_digit (unat c div 16), hex_digit (unat c mod 16)] @ '')'')"

definition arity :: "OpCode \<Rightarrow> nat" where
  "arity c =
     (if c = OpSet \<or> c = OpInsert \<or> c = OpAdd \<or> c = OpSubtract \<or> c = OpAnd \<or> c = OpOr \<or> c = OpXor \<or> c = OpDelete
      then opArity else if c = OpSplice then opSpliceArity else 0)"

text \<open>A nil \<^verbatim>\<open>FieldName\<close> is \<open>None\<close>: an operation that addresses its field by number.\<close>

record Operation =
  op_Op :: OpCode
  op_Field :: int32
  op_FieldName :: "bytes option"
  op_HasSplice :: bool
  op_Position :: int32
  op_Offset :: int32
  op_Value :: bytes

definition Operation0 :: Operation where
  "Operation0 = \<lparr>op_Op = 0, op_Field = 0, op_FieldName = None, op_HasSplice = False, op_Position = 0,
     op_Offset = 0, op_Value = []\<rparr>"

section \<open>Tags\<close>

definition isMPArray :: "byte \<Rightarrow> bool" where
  "isMPArray c \<longleftrightarrow> (mpcFixedArrayLow \<le> c \<and> c \<le> mpcFixedArrayHigh) \<or> c = mpcArray16 \<or> c = mpcArray32"

definition isMPStr :: "byte \<Rightarrow> bool" where
  "isMPStr c \<longleftrightarrow> (mpcFixedStrLow \<le> c \<and> c \<le> mpcFixedStrHigh) \<or> c = mpcStr8 \<or> c = mpcStr16 \<or> c = mpcStr32"

definition isMPBin :: "byte \<Rightarrow> bool" where
  "isMPBin c \<longleftrightarrow> c = mpcBin8 \<or> c = mpcBin16 \<or> c = mpcBin32"

definition isMPInt :: "byte \<Rightarrow> bool" where
  "isMPInt c \<longleftrightarrow> c \<le> mpcPosFixedNumHigh \<or> mpcNegFixedNumLow \<le> c
     \<or> c \<in> {mpcUint8, mpcUint16, mpcUint32, mpcUint64, mpcInt8, mpcInt16, mpcInt32, mpcInt64}"

section \<open>Readers\<close>

text \<open>
  The switch of \<^verbatim>\<open>readMPInt32\<close> yields the \<^verbatim>\<open>int64\<close> \<^verbatim>\<open>v\<close> as an integer: every branch widens, so no
  conversion in it wraps. The test of the range comes before the narrowing.
\<close>

definition readMPInt64_switch :: "bytes \<Rightarrow> error + (int \<times> nat)" where
  "readMPInt64_switch b = (let c = b ! 0 in
     if c = mpcInt8 then
       (if length b < mpHead8 then Inl [Mp ErrShortInput] else Inr (sint (b ! 1), mpHead8))
     else if c = mpcInt16 then
       (if length b < mpHead16 then Inl [Mp ErrShortInput]
        else Inr (sint (Uint16 (subslice b 1 mpHead16)), mpHead16))
     else if c = mpcInt32 then
       (if length b < mpHead32 then Inl [Mp ErrShortInput]
        else Inr (sint (Uint32 (subslice b 1 mpHead32)), mpHead32))
     else if c = mpcInt64 then
       (if length b < mpHead64 then Inl [Mp ErrShortInput]
        else Inr (sint (Uint64 (subslice b 1 mpHead64)), mpHead64))
     else if mpcNegFixedNumLow \<le> c then Inr (sint c, mpTagSize)
     else (case readMPUint b of Inl e \<Rightarrow> Inl e
       | Inr (u, m) \<Rightarrow> if u > 0x7fffffff then Inl [Opr ErrOpIntRange] else Inr (uint u, m)))"

definition readMPInt32 :: "bytes \<Rightarrow> error + (int32 \<times> nat)" where
  "readMPInt32 b =
     (if length b = 0 then Inl [Mp ErrEmptyInput]
      else (case readMPInt64_switch b of Inl e \<Rightarrow> Inl e
        | Inr (v, n) \<Rightarrow>
            if v < - (2 ^ 31) \<or> v > 2 ^ 31 - 1 then Inl [Opr ErrOpIntRange] else Inr (word_of_int v, n)))"

definition readMPStrBin_len :: "bytes \<Rightarrow> error + (nat \<times> nat)" where
  "readMPStrBin_len b = (let c = b ! 0 in
     if mpcFixedStrLow \<le> c \<and> c \<le> mpcFixedStrHigh then Inr (unat (c AND mpcFixedStrMask), mpTagSize)
     else if c = mpcStr8 \<or> c = mpcBin8 then
       (if length b < mpHead8 then Inl [Mp ErrShortInput] else Inr (unat (b ! 1), mpHead8))
     else if c = mpcStr16 \<or> c = mpcBin16 then
       (if length b < mpHead16 then Inl [Mp ErrShortInput]
        else Inr (unat (Uint16 (subslice b 1 mpHead16)), mpHead16))
     else if c = mpcStr32 \<or> c = mpcBin32 then
       (if length b < mpHead32 then Inl [Mp ErrShortInput]
        else Inr (unat (Uint32 (subslice b 1 mpHead32)), mpHead32))
     else Inl [Mp ErrUnexpectedTag])"

definition readMPStrBin :: "bytes \<Rightarrow> error + (bytes \<times> nat)" where
  "readMPStrBin b =
     (if length b = 0 then Inl [Mp ErrEmptyInput]
      else (case readMPStrBin_len b of Inl e \<Rightarrow> Inl e
        | Inr (l, head) \<Rightarrow>
            if l > length b - head then Inl [Mp ErrShortInput]
            else Inr (subslice b head (head + l), head + l)))"

definition readSpliceArg :: "bytes \<Rightarrow> error + (int32 \<times> nat)" where
  "readSpliceArg b =
     (if length b = 0 then Inl [Mp ErrTruncatedInput]
      else if \<not> isMPInt (b ! 0) then Inl [Opr ErrOpArgType] else readMPInt32 b)"

section \<open>Operations\<close>

text \<open>The four parts of an operation, in the order \<^verbatim>\<open>decodeOp\<close> reads them.\<close>

definition decodeOp_code :: "bytes \<Rightarrow> error + (Operation \<times> nat)" where
  "decodeOp_code b =
     (if length b = 0 then Inl [Mp ErrTruncatedInput]
      else if \<not> isMPArray (b ! 0) then Inl [Opr ErrOpNotArray]
      else (case readMPArrayLen b of Inl e \<Rightarrow> Inl e
        | Inr (argc, off) \<Rightarrow>
            if argc = 0 then Inl [Opr ErrOpArity]
            else if off \<ge> length b then Inl [Mp ErrTruncatedInput]
            else if \<not> isMPStr (b ! off) then Inl [Opr ErrOpCodeType]
            else (case readMPStrBin (drop off b) of Inl e \<Rightarrow> Inl e
              | Inr (code, n) \<Rightarrow>
                  if length code \<noteq> 1 \<or> arity (code ! 0) = 0 then Inl [Opr ErrUnknownOpCode]
                  else if argc \<noteq> arity (code ! 0) then Inl [Opr ErrOpArity]
                  else Inr (Operation0\<lparr>op_Op := code ! 0\<rparr>, off + n))))"

definition decodeOp_field :: "bytes \<Rightarrow> nat \<Rightarrow> Operation \<Rightarrow> error + (Operation \<times> nat)" where
  "decodeOp_field b off op =
     (if off \<ge> length b then Inl [Mp ErrTruncatedInput]
      else if isMPInt (b ! off) then
        (case readMPInt32 (drop off b) of Inl e \<Rightarrow> Inl e | Inr (v, n) \<Rightarrow> Inr (op\<lparr>op_Field := v\<rparr>, off + n))
      else if isMPStr (b ! off) \<or> isMPBin (b ! off) then
        (case readMPStrBin (drop off b) of Inl e \<Rightarrow> Inl e
         | Inr (v, n) \<Rightarrow> Inr (op\<lparr>op_FieldName := Some v\<rparr>, off + n))
      else Inl [Opr ErrOpFieldType])"

definition decodeOp_splice :: "bytes \<Rightarrow> nat \<Rightarrow> Operation \<Rightarrow> error + (Operation \<times> nat)" where
  "decodeOp_splice b off op =
     (if op_Op op \<noteq> OpSplice then Inr (op, off)
      else (case readSpliceArg (drop off b) of Inl e \<Rightarrow> Inl e
        | Inr (p, n) \<Rightarrow>
            (case readSpliceArg (drop (off + n) b) of Inl e \<Rightarrow> Inl e
             | Inr (o', n') \<Rightarrow>
                 Inr (op\<lparr>op_Position := p, op_Offset := o', op_HasSplice := True\<rparr>, off + n + n'))))"

definition decodeOp_value :: "bytes \<Rightarrow> nat \<Rightarrow> Operation \<Rightarrow> error + (Operation \<times> nat)" where
  "decodeOp_value b off op =
     (if off \<ge> length b then Inl [Mp ErrTruncatedInput]
      else (case skipMP (drop off b) of Inl e \<Rightarrow> Inl e
        | Inr n \<Rightarrow> Inr (op\<lparr>op_Value := subslice b off (off + n)\<rparr>, off + n)))"

definition decodeOp :: "bytes \<Rightarrow> error + (Operation \<times> nat)" where
  "decodeOp b = (case decodeOp_code b of Inl e \<Rightarrow> Inl e
     | Inr (op, off) \<Rightarrow> (case decodeOp_field b off op of Inl e \<Rightarrow> Inl e
     | Inr (op, off) \<Rightarrow> (case decodeOp_splice b off op of Inl e \<Rightarrow> Inl e
     | Inr (op, off) \<Rightarrow> decodeOp_value b off op)))"

fun decodeOps :: "bytes \<Rightarrow> nat \<Rightarrow> nat \<Rightarrow> Operation list \<Rightarrow> error + Operation list" where
  "decodeOps b off 0 dst = Inr dst"
| "decodeOps b off (Suc n) dst = (case decodeOp (drop off b) of Inl e \<Rightarrow> Inl e
     | Inr (op, m) \<Rightarrow> decodeOps b (off + m) n (dst @ [op]))"

definition readOpsLen :: "bytes \<Rightarrow> error + (nat \<times> nat)" where
  "readOpsLen b = (if length b = 0 then Inl [Mp ErrEmptyInput]
     else if \<not> isMPArray (b ! 0) then Inl [Opr ErrOpNotArray] else readMPArrayLen b)"

text \<open>The capacity \<^verbatim>\<open>DecodeOps\<close> preallocates for a list that announces \<open>n\<close> operations.\<close>

definition ops_cap :: "bytes \<Rightarrow> nat \<Rightarrow> nat \<Rightarrow> nat" where
  "ops_cap b off n = min n ((length b - off) div opMinSize)"

definition DecodeOps :: "bytes \<Rightarrow> error + Operation list" where
  "DecodeOps b = (case readOpsLen b of Inl e \<Rightarrow> Inl e | Inr (n, off) \<Rightarrow> decodeOps b off n [])"

definition DecodeOpsInto :: "bytes \<Rightarrow> Operation list \<times> error option" where
  "DecodeOpsInto b = (case readOpsLen b of Inl e \<Rightarrow> ([], Some e)
     | Inr (n, off) \<Rightarrow> (case decodeOps b off n [] of Inl e \<Rightarrow> ([], Some e) | Inr ops \<Rightarrow> (ops, None)))"

section \<open>Big-endian integers\<close>

text \<open>The natural number of a big-endian byte string, as a reference for the accessors.\<close>


definition be :: "bytes \<Rightarrow> nat" where
  "be bs = foldl (\<lambda>n x. 256 * n + unat x) 0 bs"

lemma div_step: "256 * (x div (256 * k)) + x div k mod 256 = (x div k :: nat)"
  by (metis div_mult2_eq mult.commute mult_div_mod_eq)

lemma unat_byte: "unat (ucast w :: byte) = unat (w :: 'a::len word) mod 256"
  by (simp add: unsigned_ucast_eq take_bit_eq_mod)

lemma unat_shift: "unat (drop_bit k w) = unat (w :: 'a::len word) div 2 ^ k"
  by (simp add: unat_drop_bit_eq) (simp add: drop_bit_eq_div)

lemma be_PutUint16: "be (PutUint16 w) = unat w"
proof -
  have "unat w < 2 ^ 16" using unsigned_less [of w] by simp
  then have "unat w div 2 ^ 8 mod 256 = unat w div 2 ^ 8" by (intro mod_less) (simp add: div_less_iff_less_mult)
  then show ?thesis using div_step [of "unat w" 1] by (simp add: be_def PutUint16_def unat_byte unat_shift)
qed

lemma be_PutUint32: "be (PutUint32 w) = unat w"
proof -
  have "unat w < 2 ^ 32" using unsigned_less [of w] by simp
  then have "unat w div 2 ^ 24 mod 256 = unat w div 2 ^ 24" by (intro mod_less) (simp add: div_less_iff_less_mult)
  then show ?thesis
    using div_step [of "unat w" "2 ^ 16"] div_step [of "unat w" "2 ^ 8"] div_step [of "unat w" 1]
    by (simp add: be_def PutUint32_def unat_byte unat_shift)
qed

lemma be_PutUint64: "be (PutUint64 w) = unat w"
proof -
  have "unat w < 2 ^ 64" using unsigned_less [of w] by simp
  then have "unat w div 2 ^ 56 mod 256 = unat w div 2 ^ 56" by (intro mod_less) (simp add: div_less_iff_less_mult)
  then show ?thesis
    using div_step [of "unat w" "2 ^ 48"] div_step [of "unat w" "2 ^ 40"] div_step [of "unat w" "2 ^ 32"] div_step [of "unat w" "2 ^ 24"]
      div_step [of "unat w" "2 ^ 16"] div_step [of "unat w" "2 ^ 8"] div_step [of "unat w" 1]
    by (simp add: be_def PutUint64_def unat_byte unat_shift)
qed

lemma be_Uint:
  "length bs = 2 \<Longrightarrow> unat (Uint16 bs) = be bs" "length bs = 4 \<Longrightarrow> unat (Uint32 bs) = be bs"
  "length bs = 8 \<Longrightarrow> unat (Uint64 bs) = be bs"
proof -
  assume "length bs = 2"
  then obtain a b where "bs = [a, b]" by (auto simp: length_Suc_conv numeral_eq_Suc)
  then show "unat (Uint16 bs) = be bs" using be_PutUint16 [of "Uint16 bs"] by (simp add: PutUint16_Uint16)
next
  assume "length bs = 4"
  then obtain a b c d where "bs = [a, b, c, d]" by (auto simp: length_Suc_conv numeral_eq_Suc)
  then show "unat (Uint32 bs) = be bs" using be_PutUint32 [of "Uint32 bs"] PutUint32_Uint32 [of a b c d "[]"] by simp
next
  assume "length bs = 8"
  then obtain a b c d e f g h where "bs = [a, b, c, d, e, f, g, h]" by (auto simp: length_Suc_conv numeral_eq_Suc)
  then show "unat (Uint64 bs) = be bs" using be_PutUint64 [of "Uint64 bs"] by (simp add: PutUint64_Uint64)
qed

text \<open>
  The integers of msgpack as its specification has them, without their range: a fixint, or a tag that
  gives the width and the signedness of the big-endian bytes after it.
\<close>

definition int_tag :: "byte \<Rightarrow> (nat \<times> bool) option" where
  "int_tag c = map_of [(0xcc, (1, False)), (0xcd, (2, False)), (0xce, (4, False)), (0xcf, (8, False)),
     (0xd0, (1, True)), (0xd1, (2, True)), (0xd2, (4, True)), (0xd3, (8, True))] c"

definition twos_complement :: "nat \<Rightarrow> nat \<Rightarrow> int" where
  "twos_complement w n = (if 2 ^ (8 * w - 1) \<le> n then int n - 2 ^ (8 * w) else int n)"

definition mp_int :: "bytes \<Rightarrow> (int \<times> nat) option" where
  "mp_int b = (case b of [] \<Rightarrow> None | c # t \<Rightarrow>
     if c \<le> 0x7f then Some (int (unat c), 1)
     else if 0xe0 \<le> c then Some (twos_complement 1 (unat c), 1)
     else (case int_tag c of None \<Rightarrow> None | Some (w, neg) \<Rightarrow>
       if length t < w then None
       else Some (if neg then twos_complement w (be (take w t)) else int (be (take w t)), 1 + w)))"

lemma sint_twos: "LENGTH('a) = 8 * w \<Longrightarrow> sint (x :: 'a::len word) = twos_complement w (unat x)"
proof -
  assume L: "LENGTH('a) = 8 * w"
  then obtain m where m: "LENGTH('a) = Suc m" using len_gt_0 [where 'a='a] by (metis Suc_pred)
  have lt: "uint x < 2 ^ Suc m" using uint_bounded [of x] m by simp
  have bit: "bit (uint x) m \<longleftrightarrow> 2 ^ m \<le> uint x"
  proof
    assume "2 ^ m \<le> uint x"
    then have "uint x div 2 ^ m = 1" using lt by (intro int_div_pos_eq [of _ _ _ "uint x - 2 ^ m"]) auto
    then show "bit (uint x) m" by (simp add: bit_iff_odd)
  qed (metis bit_iff_odd div_pos_pos_trivial even_zero not_le uint_ge_0)
  have "sint x = uint x - 2 ^ Suc m * of_bool (bit (uint x) m)"
    using take_bit_int_eq_self [OF uint_ge_0 lt] by (simp only: sint_uint signed_take_bit_eq_take_bit_minus m diff_Suc_Suc diff_zero)
  moreover have "2 ^ m \<le> unat x \<longleftrightarrow> 2 ^ m \<le> uint x"
    using of_nat_le_iff [of "2 ^ m" "unat x", where 'a=int] by simp
  ultimately show ?thesis unfolding bit twos_complement_def L [symmetric] m by simp
qed

lemma int_tag_cases:
  "int_tag c = None \<or> c \<in> {0xcc, 0xcd, 0xce, 0xcf, 0xd0, 0xd1, 0xd2, 0xd3}"
  by (auto simp: int_tag_def)

lemma mp_int_fixint:
  "c \<le> 0x7f \<Longrightarrow> mp_int (c # t) = Some (int (unat c), 1)"
  "\<not> c \<le> 0x7f \<Longrightarrow> 0xe0 \<le> c \<Longrightarrow> mp_int (c # t) = Some (sint c, 1)"
  using sint_twos [of 1 c] by (simp_all add: mp_int_def)

lemma mp_int_tagged:
  assumes "mp_int (c # t) = Some (v, n)" and "\<not> c \<le> 0x7f" "\<not> 0xe0 \<le> c"
  obtains w where "w \<le> length t" "n = 1 + w"
    and "w = 1 \<and> c \<in> {0xcc, 0xd0} \<or> w = 2 \<and> c \<in> {0xcd, 0xd1} \<or> w = 4 \<and> c \<in> {0xce, 0xd2} \<or> w = 8 \<and> c \<in> {0xcf, 0xd3}"
    and "v = (if c \<in> {0xd0, 0xd1, 0xd2, 0xd3} then twos_complement w (be (take w t)) else int (be (take w t)))"
proof -
  from assms have "int_tag c \<noteq> None" by (cases "int_tag c") (auto simp: mp_int_def)
  then have "c \<in> {0xcc, 0xcd, 0xce, 0xcf, 0xd0, 0xd1, 0xd2, 0xd3}" using int_tag_cases [of c] by auto
  moreover obtain w neg where w: "int_tag c = Some (w, neg)" using \<open>int_tag c \<noteq> None\<close> by auto
  ultimately have c: "w = 1 \<and> c \<in> {0xcc, 0xd0} \<or> w = 2 \<and> c \<in> {0xcd, 0xd1} \<or> w = 4 \<and> c \<in> {0xce, 0xd2} \<or> w = 8 \<and> c \<in> {0xcf, 0xd3}"
    and neg: "neg \<longleftrightarrow> c \<in> {0xd0, 0xd1, 0xd2, 0xd3}"
    by (auto simp: int_tag_def)
  from assms w have "w \<le> length t" "n = 1 + w"
    "v = (if neg then twos_complement w (be (take w t)) else int (be (take w t)))"
    by (auto simp: mp_int_def not_less split: if_splits)
  with c neg that show thesis by blast
qed

lemma be_one: "t \<noteq> [] \<Longrightarrow> be (take 1 t) = unat (t ! 0)"
  by (cases t) (simp_all add: be_def)

lemma unat_le_max: "(u :: uint64) > 0x7fffffff \<longleftrightarrow> int (unat u) > 0x7fffffff"
  by (simp add: word_less_def)

lemma Uint_be:
  "w = 2 \<Longrightarrow> w \<le> length t \<Longrightarrow> unat (Uint16 (take w t)) = be (take w t)"
  "w = 4 \<Longrightarrow> w \<le> length t \<Longrightarrow> unat (Uint32 (take w t)) = be (take w t)"
  "w = 8 \<Longrightarrow> w \<le> length t \<Longrightarrow> unat (Uint64 (take w t)) = be (take w t)"
  by (simp_all add: be_Uint)

lemma switch_signed:
  assumes "w \<le> length t"
  shows "w = 1 \<Longrightarrow> readMPInt64_switch (0xd0 # t) = Inr (twos_complement w (be (take w t)), 1 + w)"
    and "w = 2 \<Longrightarrow> readMPInt64_switch (0xd1 # t) = Inr (twos_complement w (be (take w t)), 1 + w)"
    and "w = 4 \<Longrightarrow> readMPInt64_switch (0xd2 # t) = Inr (twos_complement w (be (take w t)), 1 + w)"
    and "w = 8 \<Longrightarrow> readMPInt64_switch (0xd3 # t) = Inr (twos_complement w (be (take w t)), 1 + w)"
  using assms be_one [of t] Uint_be [of w t] sint_twos [of 1 "t ! 0"] sint_twos [of 2 "Uint16 (take 2 t)"]
    sint_twos [of 4 "Uint32 (take 4 t)"] sint_twos [of 8 "Uint64 (take 8 t)"]
  by (auto simp: readMPInt64_switch_def)

lemma ucast_wide:
  "unat (ucast (x :: byte) :: uint64) = unat x" "unat (ucast (y :: uint16) :: uint64) = unat y"
  "unat (ucast (z :: uint32) :: uint64) = unat z"
proof -
  have "unat x < 2 ^ 8" "unat y < 2 ^ 16" "unat z < 2 ^ 32"
    using unsigned_less [of x] unsigned_less [of y] unsigned_less [of z] by simp_all
  then show "unat (ucast x :: uint64) = unat x" "unat (ucast y :: uint64) = unat y" "unat (ucast z :: uint64) = unat z"
    by (simp_all add: unat_ucast_small)
qed

lemma switch_fixint:
  "c \<le> 0x7f \<Longrightarrow> readMPInt64_switch (c # t) = Inr (int (unat c), 1)"
  "\<not> c \<le> 0x7f \<Longrightarrow> 0xe0 \<le> c \<Longrightarrow> readMPInt64_switch (c # t) = Inr (sint c, 1)"
proof -
  assume c: "c \<le> 0x7f"
  then have "unat c \<le> 0x7f" by (simp add: word_le_nat_alt)
  moreover have "c \<notin> {0xd0, 0xd1, 0xd2, 0xd3}" "\<not> 0xe0 \<le> c" using c by (auto simp: word_le_nat_alt)
  moreover have "uint (ucast c :: uint64) = uint c" by (metis ucast_wide(1) uint_nat)
  moreover have "uint c \<le> 0x7f" using c by (simp add: word_le_def)
  ultimately show "readMPInt64_switch (c # t) = Inr (int (unat c), 1)"
    using c by (simp add: readMPInt64_switch_def readMPUint_def unat_le_max)
next
  assume "0xe0 \<le> c"
  moreover from this have "c \<notin> {0xd0, 0xd1, 0xd2, 0xd3}" by auto
  ultimately show "readMPInt64_switch (c # t) = Inr (sint c, 1)"
    by (simp add: readMPInt64_switch_def)
qed

lemma switch_unsigned:
  assumes "w \<le> length t"
    and "w = 1 \<and> c = 0xcc \<or> w = 2 \<and> c = 0xcd \<or> w = 4 \<and> c = 0xce \<or> w = 8 \<and> c = 0xcf"
  shows "readMPInt64_switch (c # t) = (if 0x7fffffff < be (take w t) then Inl [Opr ErrOpIntRange]
      else Inr (int (be (take w t)), 1 + w))"
proof -
  have "\<exists>u. readMPUint (c # t) = Inr (u, 1 + w) \<and> unat u = be (take w t)"
    using assms be_one [of t] Uint_be [of w t] by (auto simp: readMPUint_def ucast_wide)
  then obtain u where u: "readMPUint (c # t) = Inr (u, 1 + w)" "unat u = be (take w t)" by blast
  have "\<not> 0xe0 \<le> c" "c \<notin> {0xd0, 0xd1, 0xd2, 0xd3}" using assms(2) by auto
  moreover have "uint u = int (be (take w t))" using u(2) by (metis uint_nat)
  ultimately show ?thesis using u unat_le_max [of u] by (simp add: readMPInt64_switch_def u)
qed

lemma readMPInt32_in_range:
  assumes "mp_int b = Some (v, n)"
  shows "readMPInt32 b = (if - (2 ^ 31) \<le> v \<and> v < 2 ^ 31 then Inr (word_of_int v, n) else Inl [Opr ErrOpIntRange])"
proof (cases b)
  case (Cons c t)
  consider "c \<le> 0x7f" | "\<not> c \<le> 0x7f" "0xe0 \<le> c" | "\<not> c \<le> 0x7f" "\<not> 0xe0 \<le> c" by blast
  then show ?thesis
  proof cases
    case 1
    then have "unat c \<le> 0x7f" by (simp add: word_le_nat_alt)
    then show ?thesis using 1 assms mp_int_fixint(1) switch_fixint(1) by (auto simp: Cons readMPInt32_def)
  next
    case 2
    have "- 128 \<le> sint c" "sint c < 128" using sint_greater_eq [of c] sint_less [of c] by simp_all
    then show ?thesis using 2 assms mp_int_fixint(2) switch_fixint(2) by (auto simp: Cons readMPInt32_def)
  next
    case 3
    obtain w where w: "w \<le> length t" "n = 1 + w"
      and c: "w = 1 \<and> c \<in> {0xcc, 0xd0} \<or> w = 2 \<and> c \<in> {0xcd, 0xd1} \<or> w = 4 \<and> c \<in> {0xce, 0xd2} \<or> w = 8 \<and> c \<in> {0xcf, 0xd3}"
      and v: "v = (if c \<in> {0xd0, 0xd1, 0xd2, 0xd3} then twos_complement w (be (take w t)) else int (be (take w t)))"
      by (rule mp_int_tagged [OF assms [unfolded Cons] 3])
    show ?thesis
    proof (cases "c \<in> {0xd0, 0xd1, 0xd2, 0xd3}")
      case True
      then have "readMPInt64_switch b = Inr (v, n)" using c w v switch_signed [OF w(1)] Cons by auto
      then show ?thesis using Cons by (auto simp: readMPInt32_def)
    next
      case False
      then have "readMPInt64_switch b = (if 0x7fffffff < v then Inl [Opr ErrOpIntRange] else Inr (v, n))" "0 \<le> v"
        using c w v switch_unsigned [OF w(1), of c] Cons by auto
      then show ?thesis using Cons by (auto simp: readMPInt32_def)
    qed
  qed
qed (use assms in \<open>simp add: mp_int_def\<close>)

lemma readMPInt32_not_int:
  assumes "mp_int b = None"
  shows "\<exists>e. readMPInt32 b = Inl e \<and> set e \<subseteq> range Mp"
proof (cases b)
  case (Cons c t)
  have c: "\<not> c \<le> 0x7f" "\<not> 0xe0 \<le> c" using assms Cons mp_int_fixint by fastforce+
  have "\<exists>e. readMPInt64_switch b = Inl e \<and> set e \<subseteq> range Mp"
  proof (cases "int_tag c")
    case None
    then have "c \<notin> {0xcc, 0xcd, 0xce, 0xcf, 0xd0, 0xd1, 0xd2, 0xd3}" by (auto simp: int_tag_def)
    then show ?thesis using c by (simp add: Cons readMPInt64_switch_def readMPUint_def)
  next
    case (Some p)
    then have "c \<in> {0xcc, 0xcd, 0xce, 0xcf, 0xd0, 0xd1, 0xd2, 0xd3}" using int_tag_cases [of c] by auto
    moreover have "length t < fst p" using assms c Some by (cases p) (auto simp: Cons mp_int_def split: if_splits)
    ultimately show ?thesis using Some unfolding insert_iff empty_iff
      by (elim disjE) (auto simp: Cons int_tag_def readMPInt64_switch_def readMPUint_def)
  qed
  then show ?thesis using Cons by (auto simp: readMPInt32_def)
qed (simp add: readMPInt32_def)

lemma readMPInt32_iff:
  "readMPInt32 b = Inr (x, n) \<longleftrightarrow> (\<exists>v. mp_int b = Some (v, n) \<and> - (2 ^ 31) \<le> v \<and> v < 2 ^ 31 \<and> x = word_of_int v)"
proof (cases "mp_int b")
  case None
  then show ?thesis using readMPInt32_not_int [OF None] by auto
next
  case (Some p)
  then show ?thesis using readMPInt32_in_range [of b] by (cases p) auto
qed

lemma mp_int_prefix:
  assumes "mp_int b = Some (v, n)"
  shows "0 < n \<and> n \<le> length b \<and> mp_int (take n b @ d) = Some (v, n)"
  using assms by (auto simp: mp_int_def split: list.splits if_splits option.splits)

interpretation mpint32: prefix_decoder readMPInt32
  by unfold_locales (use mp_int_prefix in \<open>simp add: readMPInt32_iff; blast\<close>)+

lemma readMPStrBin_len_prefix:
  assumes "readMPStrBin_len b = Inr (l, h)" "b \<noteq> []" "l + h \<le> length b"
  shows "0 < h \<and> h \<le> length b \<and> readMPStrBin_len (take (h + l) b @ c) = Inr (l, h)"
  using assms
  by (cases b) (auto simp: readMPStrBin_len_def Let_def take_append_Cons nth_append
      simp flip: numeral_2_eq_2 split: if_splits)

interpretation mpstrbin: prefix_decoder readMPStrBin
proof
  fix b x n c assume r: "readMPStrBin b = Inr (x, n)"
  then obtain l h where lh: "readMPStrBin_len b = Inr (l, h)" by (auto simp: readMPStrBin_def split: if_splits sum.splits)
  with r have l: "b \<noteq> []" "readMPStrBin_len b = Inr (l, h)" "l \<le> length b - h"
    and x: "x = subslice b h (h + l)" "n = h + l"
    by (auto simp: readMPStrBin_def not_less split: if_splits)
  have h: "h \<le> length b" "0 < h" using l(1,2)
    by (auto simp: readMPStrBin_len_def Let_def Suc_le_eq split: if_splits)
  have p: "readMPStrBin_len (take (h + l) b @ c) = Inr (l, h)"
    using readMPStrBin_len_prefix [OF l(2,1)] l(3) h(1) by simp
  show "0 < n" "n \<le> length b" using h l(3) x(2) by auto
  show "readMPStrBin (take n b @ c) = Inr (x, n)"
    using p x h l by (simp add: readMPStrBin_def)
qed

interpretation splicearg: prefix_decoder readSpliceArg
proof
  fix b x n c assume r: "readSpliceArg b = Inr (x, n)"
  then have b: "b \<noteq> []" "isMPInt (b ! 0)" "readMPInt32 b = Inr (x, n)"
    by (auto simp: readSpliceArg_def split: if_splits)
  show n: "0 < n" "n \<le> length b" using mpint32.dec_pos [OF b(3)] mpint32.dec_le [OF b(3)] .
  show "readSpliceArg (take n b @ c) = Inr (x, n)"
    using b n mpint32.dec_prefix [OF b(3), of c] by (simp add: readSpliceArg_def nth_append)
qed

context prefix_decoder
begin

lemma dec_split: "dec b = Inr (x, n) \<longleftrightarrow> (\<exists>s c. b = s @ c \<and> n = length s \<and> dec s = Inr (x, length s))"
  using dec_take [of b x n] dec_le [of b x n] dec_append by (metis append_take_drop_id length_take min.absorb2)

lemma dec_split_drop:
  "dec (drop off b) = Inr (x, n) \<longleftrightarrow> (\<exists>s c. drop off b = s @ c \<and> n = length s \<and> dec s = Inr (x, length s))"
  by (rule dec_split)

lemma dec_nonempty: "dec s = Inr (x, length s) \<Longrightarrow> s \<noteq> []"
  using dec_pos by fastforce

end

section \<open>The shape of an operation\<close>

text \<open>
  The documented shapes, for any encoding of their parts: an array of as many elements as the opcode
  takes, the opcode as a one-character string, the field as a 32-bit integer or a name, the two integers of
  a splice, the value.
\<close>

definition code_form :: "Operation \<Rightarrow> bytes \<Rightarrow> bool" where
  "code_form op s \<longleftrightarrow> arity (op_Op op) \<noteq> 0 \<and> (\<exists>h k. s = h @ k
     \<and> isMPArray (hd h) \<and> readMPArrayLen h = Inr (arity (op_Op op), length h)
     \<and> isMPStr (hd k) \<and> readMPStrBin k = Inr ([op_Op op], length k))"

definition field_form :: "Operation \<Rightarrow> bytes \<Rightarrow> bool" where
  "field_form op s \<longleftrightarrow> (case op_FieldName op of
     None \<Rightarrow> isMPInt (hd s) \<and> readMPInt32 s = Inr (op_Field op, length s)
   | Some name \<Rightarrow> op_Field op = 0 \<and> (isMPStr (hd s) \<or> isMPBin (hd s)) \<and> readMPStrBin s = Inr (name, length s))"

definition splice_form :: "Operation \<Rightarrow> bytes \<Rightarrow> bool" where
  "splice_form op s \<longleftrightarrow>
     (if op_Op op = OpSplice then op_HasSplice op \<and> (\<exists>p q. s = p @ q
        \<and> readSpliceArg p = Inr (op_Position op, length p) \<and> readSpliceArg q = Inr (op_Offset op, length q))
      else s = [] \<and> \<not> op_HasSplice op \<and> op_Position op = 0 \<and> op_Offset op = 0)"

definition op_form :: "Operation \<Rightarrow> bytes \<Rightarrow> bool" where
  "op_form op s \<longleftrightarrow> mp_value (op_Value op) \<and> (\<exists>a f p. s = a @ f @ p @ op_Value op
     \<and> code_form op a \<and> field_form op f \<and> splice_form op p)"

lemma decodeOp_code_iff:
  "decodeOp_code b = Inr (op, n) \<longleftrightarrow>
     (\<exists>s c. b = s @ c \<and> n = length s \<and> code_form op s \<and> op = Operation0\<lparr>op_Op := op_Op op\<rparr>)"
proof
  assume d: "decodeOp_code b = Inr (op, n)"
  then obtain argc off code m where h: "readMPArrayLen b = Inr (argc, off)" "isMPArray (b ! 0)" "off < length b"
    "isMPStr (b ! off)" and k: "readMPStrBin (drop off b) = Inr (code, m)" "length code = 1" "arity (code ! 0) \<noteq> 0"
    and r: "argc = arity (code ! 0)" "op = Operation0\<lparr>op_Op := code ! 0\<rparr>" "n = off + m"
    by (auto simp: decodeOp_code_def not_le split: if_splits sum.splits)
  obtain x where code: "code = [x]" using k(2) by (auto simp: length_Suc_conv)
  obtain k' c where kc: "drop off b = k' @ c" "m = length k'" "readMPStrBin k' = Inr (code, length k')"
    using k(1) by (auto simp: mpstrbin.dec_split [of "drop off b"])
  have b: "b = (take off b @ k') @ c" using kc(1) by (metis append.assoc append_take_drop_id)
  have off: "length (take off b) = off" "take off b \<noteq> []"
    using h(3) mparray.dec_pos [OF h(1)] by auto
  have "code_form op (take off b @ k')" unfolding code_form_def
  proof (intro conjI exI)
    show "arity (op_Op op) \<noteq> 0" using k(3) r code by simp
    show "isMPArray (hd (take off b))" using h(2) off by (simp add: hd_conv_nth)
    show "readMPArrayLen (take off b) = Inr (arity (op_Op op), length (take off b))"
      using mparray.dec_take [OF h(1)] off r code by simp
    show "isMPStr (hd k')" using h(3,4) kc(1) mpstrbin.dec_nonempty [OF kc(3)]
      by (metis hd_append2 hd_drop_conv_nth)
    show "readMPStrBin k' = Inr ([op_Op op], length k')" using kc(3) code r by simp
  qed simp
  then show "\<exists>s c. b = s @ c \<and> n = length s \<and> code_form op s \<and> op = Operation0\<lparr>op_Op := op_Op op\<rparr>"
    using b off r kc(2) code by (intro exI [of _ "take off b @ k'"] exI [of _ c]) simp
next
  assume "\<exists>s c. b = s @ c \<and> n = length s \<and> code_form op s \<and> op = Operation0\<lparr>op_Op := op_Op op\<rparr>"
  then obtain h k c where b: "b = h @ k @ c" "n = length h + length k" and op: "op = Operation0\<lparr>op_Op := op_Op op\<rparr>"
    and ar: "arity (op_Op op) \<noteq> 0" and h: "isMPArray (hd h)" "readMPArrayLen h = Inr (arity (op_Op op), length h)"
    and k: "isMPStr (hd k)" "readMPStrBin k = Inr ([op_Op op], length k)"
    by (auto simp: code_form_def)
  have ne: "h \<noteq> []" "k \<noteq> []" using mparray.dec_nonempty [OF h(2)] mpstrbin.dec_nonempty [OF k(2)] .
  then have "b ! 0 = hd h" "b ! length h = hd k" using b(1) by (simp_all add: nth_append hd_conv_nth)
  then show "decodeOp_code b = Inr (op, n)"
    using b ar h k ne op mparray.dec_append [OF h(2), of "k @ c"] mpstrbin.dec_append [OF k(2), of c]
    by (simp add: decodeOp_code_def)
qed

lemma str_not_int: "isMPStr c \<or> isMPBin c \<Longrightarrow> \<not> isMPInt c"
  by (auto simp: isMPStr_def isMPBin_def isMPInt_def word_le_nat_alt)

lemma decodeOp_field_iff:
  assumes op: "op_Field op = 0" "op_FieldName op = None"
  shows "decodeOp_field b off op = Inr (op', off') \<longleftrightarrow>
     (\<exists>s c. drop off b = s @ c \<and> off' = off + length s \<and> field_form op' s
        \<and> op' = op\<lparr>op_Field := op_Field op', op_FieldName := op_FieldName op'\<rparr>)"
proof
  assume d: "decodeOp_field b off op = Inr (op', off')"
  then have lt: "off < length b" by (auto simp: decodeOp_field_def split: if_splits)
  then have hd: "hd (drop off b) = b ! off" by (rule hd_drop_conv_nth)
  show "\<exists>s c. drop off b = s @ c \<and> off' = off + length s \<and> field_form op' s
      \<and> op' = op\<lparr>op_Field := op_Field op', op_FieldName := op_FieldName op'\<rparr>"
  proof (cases "isMPInt (b ! off)")
    case True
    with d lt obtain v n where v: "readMPInt32 (drop off b) = Inr (v, n)" "op' = op\<lparr>op_Field := v\<rparr>" "off' = off + n"
      by (auto simp: decodeOp_field_def split: sum.splits)
    then obtain s c where s: "drop off b = s @ c" "n = length s" "readMPInt32 s = Inr (v, length s)"
      unfolding mpint32.dec_split [of "drop off b"] by blast
    then have "hd s = b ! off" using hd mpint32.dec_nonempty [OF s(3)] by simp
    then show ?thesis using s v True op by (intro exI [of _ s] exI [of _ c]) (simp add: field_form_def)
  next
    case False
    with d lt obtain v n where v: "readMPStrBin (drop off b) = Inr (v, n)" "op' = op\<lparr>op_FieldName := Some v\<rparr>" "off' = off + n"
      and str: "isMPStr (b ! off) \<or> isMPBin (b ! off)"
      by (auto simp: decodeOp_field_def split: sum.splits if_splits)
    then obtain s c where s: "drop off b = s @ c" "n = length s" "readMPStrBin s = Inr (v, length s)"
      unfolding mpstrbin.dec_split [of "drop off b"] by blast
    then have "hd s = b ! off" using hd mpstrbin.dec_nonempty [OF s(3)] by simp
    then show ?thesis using s v str op by (intro exI [of _ s] exI [of _ c]) (simp add: field_form_def)
  qed
next
  assume "\<exists>s c. drop off b = s @ c \<and> off' = off + length s \<and> field_form op' s
      \<and> op' = op\<lparr>op_Field := op_Field op', op_FieldName := op_FieldName op'\<rparr>"
  then obtain s c where s: "drop off b = s @ c" "off' = off + length s" "field_form op' s"
    and op': "op' = op\<lparr>op_Field := op_Field op', op_FieldName := op_FieldName op'\<rparr>" by blast
  have ne: "s \<noteq> []" using s(3) mpint32.dec_nonempty mpstrbin.dec_nonempty
    by (auto simp: field_form_def split: option.splits)
  have lt: "off < length b" using s(1) ne by (metis append_is_Nil_conv drop_all not_le)
  then have hd: "b ! off = hd s" using s(1) ne by (metis hd_append2 hd_drop_conv_nth)
  show "decodeOp_field b off op = Inr (op', off')"
  proof (cases "op_FieldName op'")
    case None
    then have "readMPInt32 (drop off b) = Inr (op_Field op', length s)" "isMPInt (b ! off)"
      using s hd mpint32.dec_append by (auto simp: field_form_def)
    moreover have "op\<lparr>op_Field := op_Field op'\<rparr> = op'" using op' None op(2) by (cases op; cases op') simp
    ultimately show ?thesis using lt s(2) by (simp add: decodeOp_field_def)
  next
    case (Some v)
    then have "readMPStrBin (drop off b) = Inr (v, length s)" "isMPStr (b ! off) \<or> isMPBin (b ! off)" "op_Field op' = 0"
      using s hd mpstrbin.dec_append by (auto simp: field_form_def)
    moreover from this have "op\<lparr>op_FieldName := Some v\<rparr> = op'" using op' Some op(1) by (cases op; cases op') simp
    ultimately show ?thesis using lt s(2) str_not_int by (simp add: decodeOp_field_def)
  qed
qed

lemma drop_append_offset: "drop off b = s @ d \<Longrightarrow> drop (off + length s) b = d"
  by (metis add.commute append_eq_conv_conj drop_drop)

lemma decodeOp_splice_iff:
  assumes op: "\<not> op_HasSplice op" "op_Position op = 0" "op_Offset op = 0"
  shows "decodeOp_splice b off op = Inr (op', off') \<longleftrightarrow>
     (\<exists>s c. drop off b = s @ c \<and> off' = off + length s \<and> splice_form op' s
        \<and> op' = op\<lparr>op_Position := op_Position op', op_Offset := op_Offset op', op_HasSplice := op_HasSplice op'\<rparr>)"
proof (cases "op_Op op = OpSplice")
  case False
  then show ?thesis using op
    by (cases op; cases op') (auto simp: decodeOp_splice_def splice_form_def)
next
  case True
  have "decodeOp_splice b off op = Inr (op', off') \<longleftrightarrow> (\<exists>p m q n. readSpliceArg (drop off b) = Inr (p, m)
      \<and> readSpliceArg (drop (off + m) b) = Inr (q, n) \<and> off' = off + m + n
      \<and> op' = op\<lparr>op_Position := p, op_Offset := q, op_HasSplice := True\<rparr>)"
    using True by (auto simp: decodeOp_splice_def split: sum.splits)
  also have "\<dots> \<longleftrightarrow> (\<exists>p s q t c. drop off b = s @ t @ c \<and> readSpliceArg s = Inr (p, length s)
      \<and> readSpliceArg t = Inr (q, length t) \<and> off' = off + length s + length t
      \<and> op' = op\<lparr>op_Position := p, op_Offset := q, op_HasSplice := True\<rparr>)" (is "?l \<longleftrightarrow> ?r")
  proof
    assume ?l
    then obtain p m q n where p: "readSpliceArg (drop off b) = Inr (p, m)" "readSpliceArg (drop (off + m) b) = Inr (q, n)"
      "off' = off + m + n" "op' = op\<lparr>op_Position := p, op_Offset := q, op_HasSplice := True\<rparr>" by blast
    obtain s d where s: "drop off b = s @ d" "m = length s" "readSpliceArg s = Inr (p, length s)"
      using p(1) unfolding splicearg.dec_split [of "drop off b"] by blast
    obtain t c where t: "drop (off + m) b = t @ c" "n = length t" "readSpliceArg t = Inr (q, length t)"
      using p(2) unfolding splicearg.dec_split [of "drop (off + m) b"] by blast
    have "d = t @ c" using s(1,2) t(1) drop_append_offset by metis
    then show ?r using s t p(3,4) by blast
  next
    assume ?r
    then obtain p s q t c where s: "drop off b = s @ t @ c" "readSpliceArg s = Inr (p, length s)"
      "readSpliceArg t = Inr (q, length t)" "off' = off + length s + length t"
      "op' = op\<lparr>op_Position := p, op_Offset := q, op_HasSplice := True\<rparr>" by blast
    have "readSpliceArg (drop off b) = Inr (p, length s)" "readSpliceArg (drop (off + length s) b) = Inr (q, length t)"
      using s(1) splicearg.dec_append [OF s(2), of "t @ c"] splicearg.dec_append [OF s(3), of c]
        drop_append_offset [OF s(1)] by simp_all
    then show ?l using s(4,5) by blast
  qed
  also have "\<dots> \<longleftrightarrow> (\<exists>s c. drop off b = s @ c \<and> off' = off + length s \<and> splice_form op' s
        \<and> op' = op\<lparr>op_Position := op_Position op', op_Offset := op_Offset op', op_HasSplice := op_HasSplice op'\<rparr>)" (is "?l \<longleftrightarrow> ?r")
  proof
    assume ?l
    then obtain p s q t c where s: "drop off b = s @ t @ c" "readSpliceArg s = Inr (p, length s)"
      "readSpliceArg t = Inr (q, length t)" "off' = off + length s + length t"
      "op' = op\<lparr>op_Position := p, op_Offset := q, op_HasSplice := True\<rparr>" by blast
    then have "splice_form op' (s @ t)" using True by (auto simp: splice_form_def)
    then show ?r using s by (intro exI [of _ "s @ t"] exI [of _ c]) simp
  next
    assume ?r
    then obtain u c where u: "drop off b = u @ c" "off' = off + length u" "splice_form op' u"
      and op': "op' = op\<lparr>op_Position := op_Position op', op_Offset := op_Offset op', op_HasSplice := op_HasSplice op'\<rparr>"
      by blast
    have "op_Op op' = op_Op op" by (subst op') simp
    then obtain s t where st: "u = s @ t" "readSpliceArg s = Inr (op_Position op', length s)"
      "readSpliceArg t = Inr (op_Offset op', length t)" and sp: "op_HasSplice op'"
      using u(3) True by (auto simp: splice_form_def)
    have "op' = op\<lparr>op_Position := op_Position op', op_Offset := op_Offset op', op_HasSplice := True\<rparr>"
      using op' sp by simp
    then show ?l using st u(1,2) by (intro exI [of _ "op_Position op'"] exI [of _ s] exI [of _ "op_Offset op'"] exI [of _ t] exI [of _ c]) simp
  qed
  finally show ?thesis .
qed

lemma decodeOp_value_iff:
  "decodeOp_value b off op = Inr (op', off') \<longleftrightarrow>
     (\<exists>c. drop off b = op_Value op' @ c \<and> off' = off + length (op_Value op') \<and> mp_value (op_Value op')
        \<and> op' = op\<lparr>op_Value := op_Value op'\<rparr>)"
proof
  assume d: "decodeOp_value b off op = Inr (op', off')"
  then obtain n where n1: "skipMP (drop off b) = Inr n"
    by (cases "skipMP (drop off b)") (simp_all add: decodeOp_value_def split: if_splits)
  with d have n: "skipMP (drop off b) = Inr n" "op' = op\<lparr>op_Value := subslice b off (off + n)\<rparr>" "off' = off + n"
    by (auto simp: decodeOp_value_def n1 split: if_splits)
  let ?v = "subslice b off (off + n)"
  have "n \<le> length b - off" "mp_value (take n (drop off b))" using n(1) skipMP_iff [of "drop off b" n] by simp_all
  then have v: "op_Value op' = ?v" "length ?v = n" "mp_value ?v"
    by (simp_all only: n(2) Operation.simps) (simp_all add: subslice_def)
  have "drop off b = ?v @ drop (off + n) b" by (rule drop_eq_slice_append) simp
  then show "\<exists>c. drop off b = op_Value op' @ c \<and> off' = off + length (op_Value op') \<and> mp_value (op_Value op')
        \<and> op' = op\<lparr>op_Value := op_Value op'\<rparr>"
    unfolding v(1) by (intro exI conjI) (simp_all only: v(2,3) n(2,3) simp_thms)
next
  assume "\<exists>c. drop off b = op_Value op' @ c \<and> off' = off + length (op_Value op') \<and> mp_value (op_Value op')
        \<and> op' = op\<lparr>op_Value := op_Value op'\<rparr>"
  then obtain c where c: "drop off b = op_Value op' @ c" "off' = off + length (op_Value op')" "mp_value (op_Value op')"
    "op' = op\<lparr>op_Value := op_Value op'\<rparr>" by blast
  have "off < length b" using c(1) mp_value_nonempty [OF c(3)] by (metis append_is_Nil_conv drop_all not_le)
  then show "decodeOp_value b off op = Inr (op', off')"
    using c skipMP_value [OF c(3), of c] by (simp add: decodeOp_value_def subslice_def)
qed

lemma form_cong:
  "op_Op op = op_Op op' \<Longrightarrow> code_form op s = code_form op' s"
  "op_Field op = op_Field op' \<Longrightarrow> op_FieldName op = op_FieldName op' \<Longrightarrow> field_form op s = field_form op' s"
  "op_Op op = op_Op op' \<Longrightarrow> op_HasSplice op = op_HasSplice op' \<Longrightarrow> op_Position op = op_Position op' \<Longrightarrow>
   op_Offset op = op_Offset op' \<Longrightarrow> splice_form op s = splice_form op' s"
  by (simp_all add: code_form_def field_form_def splice_form_def split: option.splits)

lemma op_form_split: "op_form op s \<longleftrightarrow> (\<exists>a f p. s = a @ f @ p @ op_Value op \<and> code_form op a \<and> field_form op f
    \<and> splice_form op p \<and> mp_value (op_Value op))"
  by (auto simp: op_form_def)

lemma decodeOp_sound:
  assumes "decodeOp b = Inr (op, n)"
  shows "\<exists>s c. b = s @ c \<and> n = length s \<and> op_form op s"
proof -
  obtain op1 o1 op2 o2 op3 o3 where 1: "decodeOp_code b = Inr (op1, o1)" and 2: "decodeOp_field b o1 op1 = Inr (op2, o2)"
    and 3: "decodeOp_splice b o2 op2 = Inr (op3, o3)" and 4: "decodeOp_value b o3 op3 = Inr (op, n)"
    using assms by (auto simp: decodeOp_def split: sum.splits)
  obtain a c1 where a: "b = a @ c1" "o1 = length a" "code_form op1 a" "op1 = Operation0\<lparr>op_Op := op_Op op1\<rparr>"
    using 1 unfolding decodeOp_code_iff by blast
  have op1: "op_Field op1 = 0" "op_FieldName op1 = None" "\<not> op_HasSplice op1" "op_Position op1 = 0" "op_Offset op1 = 0"
    by (subst a(4), simp add: Operation0_def)+
  obtain f c2 where f: "drop o1 b = f @ c2" "o2 = o1 + length f" "field_form op2 f"
    "op2 = op1\<lparr>op_Field := op_Field op2, op_FieldName := op_FieldName op2\<rparr>"
    using 2 unfolding decodeOp_field_iff [OF op1(1,2)] by blast
  have op2: "op_Op op2 = op_Op op1" "\<not> op_HasSplice op2" "op_Position op2 = 0" "op_Offset op2 = 0"
    using op1 by (subst f(4), simp)+
  obtain p c3 where p: "drop o2 b = p @ c3" "o3 = o2 + length p" "splice_form op3 p"
    "op3 = op2\<lparr>op_Position := op_Position op3, op_Offset := op_Offset op3, op_HasSplice := op_HasSplice op3\<rparr>"
    using 3 unfolding decodeOp_splice_iff [OF op2(2-4)] by blast
  have op3: "op_Op op3 = op_Op op1" "op_Field op3 = op_Field op2" "op_FieldName op3 = op_FieldName op2"
    using op2 by (subst p(4), simp)+
  obtain c where c: "drop o3 b = op_Value op @ c" "n = o3 + length (op_Value op)" "mp_value (op_Value op)"
    "op = op3\<lparr>op_Value := op_Value op\<rparr>"
    using 4 unfolding decodeOp_value_iff by blast
  have op: "op_Op op = op_Op op1" "op_Field op = op_Field op2" "op_FieldName op = op_FieldName op2"
    "op_HasSplice op = op_HasSplice op3" "op_Position op = op_Position op3" "op_Offset op = op_Offset op3"
    using op3 by (subst c(4), simp)+
  have "b = (a @ f @ p @ op_Value op) @ c"
    using a(1,2) f(1,2) p(1,2) c(1) drop_append_offset [OF f(1)] drop_append_offset [OF p(1)] by simp
  moreover have "n = length (a @ f @ p @ op_Value op)" using a(2) f(2) p(2) c(2) by simp
  moreover have "code_form op a" "field_form op f" "splice_form op p"
    using a(3) f(3) p(3) op op3 form_cong(1) [of op op1] form_cong(2) [of op op2] form_cong(3) [of op op3] by simp_all
  ultimately show ?thesis using c(3) unfolding op_form_split by blast
qed

lemma decodeOp_complete:
  assumes "op_form op s"
  shows "decodeOp (s @ c) = Inr (op, length s)"
proof -
  obtain a f p where s: "s = a @ f @ p @ op_Value op" and a: "code_form op a" and f: "field_form op f"
    and p: "splice_form op p" and v: "mp_value (op_Value op)"
    using assms unfolding op_form_split by blast
  let ?b = "s @ c"
  let ?op1 = "Operation0\<lparr>op_Op := op_Op op\<rparr>"
  let ?op2 = "?op1\<lparr>op_Field := op_Field op, op_FieldName := op_FieldName op\<rparr>"
  let ?op3 = "?op2\<lparr>op_Position := op_Position op, op_Offset := op_Offset op, op_HasSplice := op_HasSplice op\<rparr>"
  have 1: "decodeOp_code ?b = Inr (?op1, length a)"
    unfolding decodeOp_code_iff using s a form_cong(1) [of op ?op1 a]
    by (intro exI [of _ a] exI [of _ "f @ p @ op_Value op @ c"]) simp
  have 2: "decodeOp_field ?b (length a) ?op1 = Inr (?op2, length a + length f)"
    using s f form_cong(2) [of op ?op2 f] by (subst decodeOp_field_iff)
      (simp_all add: Operation0_def, blast)
  have 3: "decodeOp_splice ?b (length a + length f) ?op2 = Inr (?op3, length a + length f + length p)"
    using s p form_cong(3) [of op ?op3 p] by (subst decodeOp_splice_iff) (simp_all add: Operation0_def, blast)
  have 4: "decodeOp_value ?b (length a + length f + length p) ?op3 = Inr (op, length s)"
    using s v by (subst decodeOp_value_iff) (cases op, simp add: Operation0_def)
  show ?thesis by (simp add: decodeOp_def 1 2 3 4)
qed

lemma decodeOp_iff: "decodeOp b = Inr (op, n) \<longleftrightarrow> (\<exists>s c. b = s @ c \<and> n = length s \<and> op_form op s)"
  using decodeOp_sound decodeOp_complete by blast

text \<open>One operation is read by a prefix decoder, so a list of them is split in one way only.\<close>

lemma op_form_size:
  assumes "op_form op s"
  shows "opMinSize \<le> length s"
proof -
  obtain h k f p where s: "s = h @ k @ f @ p @ op_Value op" and h: "readMPArrayLen h = Inr (arity (op_Op op), length h)"
    and k: "readMPStrBin k = Inr ([op_Op op], length k)" and f: "field_form op f" and v: "mp_value (op_Value op)"
    using assms by (auto simp: op_form_def code_form_def)
  have "0 < length h" using mparray.dec_pos [OF h] .
  moreover have "2 \<le> length k"
    using k by (auto simp: readMPStrBin_def readMPStrBin_len_def Let_def split: if_splits sum.splits
        dest!: arg_cong [where f = length])
  moreover have "0 < length f"
    using f mpint32.dec_nonempty mpstrbin.dec_nonempty by (auto simp: field_form_def split: option.splits)
  moreover have "0 < length (op_Value op)" using mp_value_nonempty [OF v] by simp
  ultimately show ?thesis unfolding s opMinSize_def mpTagSize_def mpHead8_def length_append by linarith
qed

interpretation op: prefix_decoder decodeOp
proof
  fix b x n c assume "decodeOp b = Inr (x, n)"
  then obtain s d where s: "b = s @ d" "n = length s" "op_form x s" unfolding decodeOp_iff by blast
  show "0 < n" "n \<le> length b" using s op_form_size [OF s(3)] by auto
  show "decodeOp (take n b @ c) = Inr (x, n)" using s decodeOp_complete [OF s(3)] by simp
qed

lemma decodeOps_iff:
  "decodeOps b off n dst = Inr ops \<longleftrightarrow> (\<exists>new parts c. ops = dst @ new \<and> length new = n
     \<and> drop off b = concat parts @ c \<and> list_all2 op_form new parts)"
proof (induction n arbitrary: off dst)
  case 0
  then show ?case by auto
next
  case (Suc n)
  show ?case
  proof
    assume d: "decodeOps b off (Suc n) dst = Inr ops"
    then obtain op m where m: "decodeOp (drop off b) = Inr (op, m)" "decodeOps b (off + m) n (dst @ [op]) = Inr ops"
      by (auto split: sum.splits)
    from m(1) obtain s c where s: "drop off b = s @ c" "m = length s" "op_form op s" unfolding decodeOp_iff by blast
    from m(2) [unfolded Suc.IH] obtain new parts d where new: "ops = (dst @ [op]) @ new" "length new = n"
      "drop (off + m) b = concat parts @ d" "list_all2 op_form new parts" by blast
    have "drop off b = concat (s # parts) @ d" using s drop_append_offset [OF s(1)] new(3) by simp
    then show "\<exists>new parts c. ops = dst @ new \<and> length new = Suc n \<and> drop off b = concat parts @ c \<and> list_all2 op_form new parts"
      using new s(3) by (intro exI [of _ "op # new"] exI [of _ "s # parts"] exI [of _ d]) simp
  next
    assume "\<exists>new parts c. ops = dst @ new \<and> length new = Suc n \<and> drop off b = concat parts @ c \<and> list_all2 op_form new parts"
    then obtain op new s parts c where new: "ops = dst @ op # new" "length new = n" "drop off b = s @ concat parts @ c"
      "op_form op s" "list_all2 op_form new parts"
      by (auto simp: length_Suc_conv list_all2_Cons1)
    have "decodeOps b (off + length s) n (dst @ [op]) = Inr ops"
      unfolding Suc.IH using new drop_append_offset [OF new(3)] by (intro exI [of _ new] exI [of _ parts] exI [of _ c]) simp
    then show "decodeOps b off (Suc n) dst = Inr ops" using decodeOp_complete [OF new(4)] new(3) by simp
  qed
qed

lemma isMPArray_len: "readMPArrayLen h = Inr (n, m) \<Longrightarrow> isMPArray (h ! 0)"
  by (auto simp: readMPArrayLen_def isMPArray_def split: list.splits if_splits)

lemma readOpsLen_iff: "readOpsLen b = Inr (n, m) \<longleftrightarrow> readMPArrayLen b = Inr (n, m)"
  using isMPArray_len [of b n m] mparray.dec_le [of b n m] mparray.dec_pos [of b n m] by (auto simp: readOpsLen_def)

lemma DecodeOps_iff:
  "DecodeOps b = Inr ops \<longleftrightarrow> (\<exists>h parts c. b = h @ concat parts @ c
     \<and> readMPArrayLen h = Inr (length ops, length h) \<and> list_all2 op_form ops parts)"
proof
  assume "DecodeOps b = Inr ops"
  then obtain n off where r: "readMPArrayLen b = Inr (n, off)" and d: "decodeOps b off n [] = Inr ops"
    by (auto simp: DecodeOps_def readOpsLen_iff [symmetric] split: sum.splits)
  obtain h c where h: "b = h @ c" "off = length h" "readMPArrayLen h = Inr (n, length h)"
    using r unfolding mparray.dec_split [of b] by blast
  obtain parts d where "length ops = n" "drop off b = concat parts @ d" "list_all2 op_form ops parts"
    using d unfolding decodeOps_iff by auto
  then show "\<exists>h parts c. b = h @ concat parts @ c \<and> readMPArrayLen h = Inr (length ops, length h) \<and> list_all2 op_form ops parts"
    using h by (intro exI [of _ h] exI [of _ parts] exI [of _ d]) simp
next
  assume "\<exists>h parts c. b = h @ concat parts @ c \<and> readMPArrayLen h = Inr (length ops, length h) \<and> list_all2 op_form ops parts"
  then obtain h parts c where h: "b = h @ concat parts @ c" "readMPArrayLen h = Inr (length ops, length h)"
    "list_all2 op_form ops parts" by blast
  have "readMPArrayLen b = Inr (length ops, length h)" using mparray.dec_append [OF h(2)] h(1) by simp
  moreover have "decodeOps b (length h) (length ops) [] = Inr ops" unfolding decodeOps_iff using h by auto
  ultimately show "DecodeOps b = Inr ops" by (simp add: DecodeOps_def readOpsLen_iff [THEN iffD2])
qed

lemma op_forms_size: "list_all2 op_form ops parts \<Longrightarrow> length ops * opMinSize \<le> length (concat parts)"
proof (induction rule: list_all2_induct)
  case (Cons op ops s parts)
  then show ?case using op_form_size [OF Cons.hyps(1)] by simp
qed simp

section \<open>Properties\<close>

text \<open>
  C34: an operation list decodes exactly when it is an array of operations of the documented shapes: the
  arity of the opcode, a one-character opcode string, a field that is a 32-bit integer or a name, the two
  32-bit integers of a splice, one value. The result is those operations in order, and what follows the
  array does not matter.
\<close>

theorem decode_ops_spec:
  "DecodeOps b = Inr ops \<longleftrightarrow> (\<exists>h parts c. b = h @ concat parts @ c
     \<and> readMPArrayLen h = Inr (length ops, length h) \<and> list_all2 op_form ops parts)"
  by (rule DecodeOps_iff)

text \<open>
  C35: the bounds of the operation decoder. A field number or splice argument is read exactly when the
  two's complement integer of its msgpack encoding, of any width, fits 32 bits, and then without change;
  an integer that does not fit is refused with \<open>ErrOpIntRange\<close>. A decoded list never outgrows the
  capacity preallocated for it, so the bound on the announced count costs no operation.
\<close>

theorem decode_ops_bounds:
  "(readMPInt32 b = Inr (x, n) \<longleftrightarrow> (\<exists>v. mp_int b = Some (v, n) \<and> - (2 ^ 31) \<le> v \<and> v < 2 ^ 31 \<and> sint x = v))
   \<and> (readMPInt32 b = Inl [Opr ErrOpIntRange] \<longleftrightarrow> (\<exists>v n. mp_int b = Some (v, n) \<and> (v < - (2 ^ 31) \<or> 2 ^ 31 \<le> v)))
   \<and> \<not> (DecodeOps b = Inr ops \<and> readOpsLen b = Inr (m, off) \<and> ops_cap b off m < length ops)"
proof (intro conjI)
  have sint: "sint (word_of_int v :: int32) = v" if "- (2 ^ 31) \<le> v" "v < 2 ^ 31" for v
  proof -
    have "sint (word_of_int v :: int32) = signed_take_bit (LENGTH(32) - Suc 0) v" by transfer simp
    then show ?thesis using that by (simp add: signed_take_bit_int_eq_self)
  qed
  have eq: "- (2 ^ 31) \<le> v \<and> v < 2 ^ 31 \<and> x = word_of_int v \<longleftrightarrow> - (2 ^ 31) \<le> v \<and> v < 2 ^ 31 \<and> sint x = v" for v
    using sint [of v] of_int_sint [of x] by auto
  show "readMPInt32 b = Inr (x, n) \<longleftrightarrow> (\<exists>v. mp_int b = Some (v, n) \<and> - (2 ^ 31) \<le> v \<and> v < 2 ^ 31 \<and> sint x = v)"
    unfolding readMPInt32_iff eq ..
  show "readMPInt32 b = Inl [Opr ErrOpIntRange] \<longleftrightarrow> (\<exists>v n. mp_int b = Some (v, n) \<and> (v < - (2 ^ 31) \<or> 2 ^ 31 \<le> v))"
    using readMPInt32_in_range [of b] readMPInt32_not_int [of b] by (cases "mp_int b") (auto simp: not_le not_less split: if_splits)
  show "\<not> (DecodeOps b = Inr ops \<and> readOpsLen b = Inr (m, off) \<and> ops_cap b off m < length ops)"
  proof
    assume "DecodeOps b = Inr ops \<and> readOpsLen b = Inr (m, off) \<and> ops_cap b off m < length ops"
    then obtain h parts c where h: "b = h @ concat parts @ c" "readMPArrayLen h = Inr (length ops, length h)"
      "list_all2 op_form ops parts" and m: "readMPArrayLen b = Inr (m, off)" "ops_cap b off m < length ops"
      by (auto simp: DecodeOps_iff readOpsLen_iff)
    have "m = length ops" "off = length h" using mparray.dec_append [OF h(2), of "concat parts @ c"] h(1) m(1) by auto
    moreover have "length ops * opMinSize \<le> length b - length h" using op_forms_size [OF h(3)] h(1) by simp
    then have "length ops \<le> (length b - length h) div opMinSize" by (simp add: less_eq_div_iff_mult_less_eq)
    ultimately show False using m(2) by (simp add: ops_cap_def)
  qed
qed

end
