(* ===== verification/MetaTools.thy ===== *)
theory MetaTools
  imports WriterFile
begin

text \<open>
  The tools that change a header (\<^verbatim>\<open>tools/rewrite_meta.go\<close>, \<^verbatim>\<open>tools/fields.go\<close>): a file is copied with a
  transformed header, its blocks untouched, and replaces the destination under one rename. Every call to
  the system may fail.
\<close>

section \<open>Reading the source\<close>

text \<open>
  How the calls on the source end: opening it, a read error after some bytes, opening it again, seeking, a
  read error of the copy after some bytes.
\<close>

record srcfaults =
  srcOpenErr :: "error option"
  srcReadErr :: "(nat \<times> error) option"
  srcReopenErr :: "error option"
  srcSeekErr :: "error option"
  srcCopyErr :: "(nat \<times> error) option"

definition no_srcfaults :: srcfaults where
  "no_srcfaults = \<lparr>srcOpenErr = None, srcReadErr = None, srcReopenErr = None, srcSeekErr = None, srcCopyErr = None\<rparr>"

definition os_Open :: "error option \<Rightarrow> string \<Rightarrow> world \<Rightarrow> error + nat" where
  "os_Open oerr p w = (case oerr of Some e \<Rightarrow> Inl e
     | None \<Rightarrow> (case names w p of None \<Rightarrow> Inl [Go OsErrNotExist] | Some ino \<Rightarrow> Inr ino))"

text \<open>A buffered reader on a file counts what it took from it; the rest of its buffer is not consumed.\<close>

definition file_reader :: "(nat \<times> error) option \<Rightarrow> bytes \<Rightarrow> bufreader" where
  "file_reader rerr f = (case rerr of None \<Rightarrow> \<lparr>br_rest = f, br_err = [Go EOF]\<rparr>
     | Some (n, e) \<Rightarrow> \<lparr>br_rest = take n f, br_err = e\<rparr>)"

definition decode_header :: "uuidlib \<Rightarrow> (nat \<times> error) option \<Rightarrow> bool \<Rightarrow> bytes \<Rightarrow> error + (Meta \<times> nat)" where
  "decode_header u rerr legacy f =
     (let r = file_reader rerr f in
      case DecodeMeta u (Some r) \<lparr>AcceptV012 = legacy\<rparr> of
        (Inl e, _) \<Rightarrow> Inl e
      | (Inr m, r') \<Rightarrow> Inr (m, length (br_rest r) - (case r' of None \<Rightarrow> 0 | Some r' \<Rightarrow> length (br_rest r'))))"

text \<open>\<^verbatim>\<open>io.Copy\<close> of the source from an offset: all bytes, until a read or a write fails.\<close>

definition io_Copy :: "faults \<Rightarrow> (nat \<times> error) option \<Rightarrow> nat \<Rightarrow> nat \<Rightarrow> bytes \<Rightarrow> world \<Rightarrow> error option \<times> world" where
  "io_Copy fl cerr ino off f w =
     (case cerr of
        None \<Rightarrow> (case file_write fl ino (drop off f) w of (_, err, w') \<Rightarrow> (err, w'))
      | Some (k, e) \<Rightarrow> (case file_write fl ino (take k (drop off f)) w of
            (_, Some e', w') \<Rightarrow> (Some e', w') | (_, None, w') \<Rightarrow> (Some e, w')))"

section \<open>Rewriting\<close>

type_synonym transform = "Meta \<Rightarrow> Meta option"

text \<open>Writing the header into the new file and copying the blocks behind it (stages 2 to 4, up to the close).\<close>

definition rewrite_fill ::
    "uuidlib \<Rightarrow> faults \<Rightarrow> srcfaults \<Rightarrow> string \<Rightarrow> transform \<Rightarrow> Meta \<Rightarrow> nat \<Rightarrow> nat \<Rightarrow> world \<Rightarrow> error option \<times> world" where
  "rewrite_fill u fl sf srcPath fn meta metaEndOffset ino w =
     (case fn (the (Meta_Clone (Some meta))) of
        None \<Rightarrow> (Some [Tl ErrNilMetaFromFn], w)
      | Some newMeta \<Rightarrow>
          (case EncodeMeta u None (Some newMeta) of
             Inl e \<Rightarrow> (Some e, w)
           | Inr hdr \<Rightarrow>
               (case file_write fl ino (str_bytes hdr) w of
                  (_, Some e, w1) \<Rightarrow> (Some e, w1)
                | (_, None, w1) \<Rightarrow>
                    (case os_Open (srcReopenErr sf) srcPath w1 of
                       Inl e \<Rightarrow> (Some e, w1)
                     | Inr src \<Rightarrow>
                         (case srcSeekErr sf of Some e \<Rightarrow> (Some e, w1)
                          | None \<Rightarrow>
                              (case io_Copy fl (srcCopyErr sf) ino metaEndOffset (content w1 src) w1 of
                                 (Some e, w2) \<Rightarrow> (Some e, w2)
                               | (None, w2) \<Rightarrow>
                                   (case file_sync fl ino w2 of
                                      (Some e, w3) \<Rightarrow> (Some e, w3)
                                    | (None, w3) \<Rightarrow> (closeErr fl, w3))))))))"

text \<open>The deferred removal of the partial file runs on every path that does not reach the rename.\<close>

definition RewriteMeta ::
    "uuidlib \<Rightarrow> faults \<Rightarrow> srcfaults \<Rightarrow> string \<Rightarrow> string \<Rightarrow> transform option \<Rightarrow> world \<Rightarrow> error option \<times> world" where
  "RewriteMeta u fl sf srcPath dstPath fo w = (case fo of
     None \<Rightarrow> (Some [Tl ErrNilTransformFn], w)
   | Some fn \<Rightarrow>
     (case os_Open (srcOpenErr sf) srcPath w of Inl e \<Rightarrow> (Some e, w)
      | Inr src \<Rightarrow>
     (case decode_header u (srcReadErr sf) False (content w src) of Inl e \<Rightarrow> (Some e, w)
      | Inr (meta, metaEndOffset) \<Rightarrow>
          (let inprogress = dstPath @ ''.inprogress'' in
           case OpenExcl fl inprogress w of
             (Inl e, w1) \<Rightarrow> (Some e, w1)
           | (Inr ino, w1) \<Rightarrow>
               (case rewrite_fill u fl sf srcPath fn meta metaEndOffset ino w1 of
                  (Some e, w2) \<Rightarrow> (Some e, snd (os_Remove fl inprogress w2))
                | (None, w2) \<Rightarrow>
                    (case Rename fl inprogress dstPath w2 of
                       (Some e, w3) \<Rightarrow> (Some e, snd (os_Remove fl inprogress w3))
                     | (None, w3) \<Rightarrow> SyncDir fl (filepath_Dir dstPath) w3))))))"

section \<open>Transformations\<close>

definition ReplaceInstanceUUID :: "bytes \<Rightarrow> transform" where
  "ReplaceInstanceUUID newID m = Some (m\<lparr>InstanceUUID := newID\<rparr>)"

text \<open>\<open>remap\<close> is a Go map from old to new ids.\<close>

definition remapVC :: "(uint32 \<times> uint32) list \<Rightarrow> VClock \<Rightarrow> VClock" where
  "remapVC remap v = (case v of None \<Rightarrow> None
     | Some es \<Rightarrow> Some (foldl (\<lambda>out (oldID, lsn).
         entries_set out (case map_of remap oldID of None \<Rightarrow> oldID | Some newID \<Rightarrow> newID) lsn) [] es))"

definition RemapVClock :: "(uint32 \<times> uint32) list \<Rightarrow> transform" where
  "RemapVClock remap m = Some (m\<lparr>MVClock := remapVC remap (MVClock m), PrevVClock := remapVC remap (PrevVClock m)\<rparr>)"

type_synonym MetaOption = "Meta \<Rightarrow> Meta"

definition WithFormatVer :: "string \<Rightarrow> MetaOption" where
  "WithFormatVer v m = m\<lparr>FormatVer := v\<rparr>"

definition WithInstanceUUID :: "bytes \<Rightarrow> MetaOption" where
  "WithInstanceUUID x m = m\<lparr>InstanceUUID := x\<rparr>"

definition WithVersion :: "string \<Rightarrow> MetaOption" where
  "WithVersion v m = m\<lparr>Version := v\<rparr>"

definition WithVClock :: "VClock \<Rightarrow> MetaOption" where
  "WithVClock vc m = m\<lparr>MVClock := VClock_Clone vc\<rparr>"

definition RewriteMetaFields ::
    "uuidlib \<Rightarrow> faults \<Rightarrow> srcfaults \<Rightarrow> string \<Rightarrow> string \<Rightarrow> MetaOption list \<Rightarrow> world \<Rightarrow> error option \<times> world" where
  "RewriteMetaFields u fl sf srcPath dstPath opts w =
     RewriteMeta u fl sf srcPath dstPath (Some (\<lambda>m. Some (foldl (\<lambda>m opt. opt m) m opts))) w"

section \<open>What a rewrite does\<close>

text \<open>The file a rewrite makes of a source: the transformed header, then the bytes behind the old one.\<close>

definition rewritten :: "uuidlib \<Rightarrow> srcfaults \<Rightarrow> transform \<Rightarrow> bytes \<Rightarrow> bytes \<Rightarrow> bool" where
  "rewritten u sf fn f out \<longleftrightarrow> (\<exists>m off m' hdr. decode_header u (srcReadErr sf) False f = Inr (m, off)
     \<and> fn m = Some m' \<and> EncodeMeta u None (Some m') = Inr hdr \<and> out = str_bytes hdr @ drop off f)"

lemma Meta_Clone_id: "Meta_Clone (Some m) = Some m"
  by (cases m) (simp add: Meta_Clone_def VClock_Clone_def split: option.splits)

text \<open>A step on one file: it may grow and be synced, nothing else changes.\<close>

definition touched :: "nat \<Rightarrow> world \<Rightarrow> world \<Rightarrow> bool" where
  "touched ino w w' \<longleftrightarrow> names w' = names w \<and> kept_names w' = kept_names w \<and> fresh w' = fresh w
     \<and> (\<forall>i. i \<noteq> ino \<longrightarrow> content w' i = content w i)"

lemma touched_refl [simp]: "touched ino w w"
  by (simp add: touched_def)

lemma touched_trans: "touched ino w w1 \<Longrightarrow> touched ino w1 w2 \<Longrightarrow> touched ino w w2"
  by (simp add: touched_def)

lemma wrote_touched: "wrote ino w w' s \<Longrightarrow> touched ino w w'"
  using wrote_simps [of ino w w' s] by (simp add: touched_def)

lemma sync_touched: "file_sync fl ino w = (e, w') \<Longrightarrow> touched ino w w'
    \<and> content w' = content w \<and> (e = None \<longrightarrow> kept_content w' ino = content w ino)"
  by (auto simp: file_sync_def touched_def split: option.splits)

lemma copy_touched:
  assumes "io_Copy fl cerr ino off f w = (e, w')"
  shows "touched ino w w' \<and> (e = None \<longrightarrow> content w' ino = content w ino @ drop off f)"
proof -
  have "\<exists>n e1 s. file_write fl ino s w = (n, e1, w') \<and> (e = None \<longrightarrow> e1 = None \<and> s = drop off f)"
    using assms by (auto simp: io_Copy_def split: option.splits prod.splits)
  then obtain n e1 s where f: "file_write fl ino s w = (n, e1, w')" and s: "e = None \<longrightarrow> e1 = None \<and> s = drop off f" by blast
  from file_write_wrote [OF f] s show ?thesis using wrote_touched wrote_simps(5) by fastforce
qed

lemma rewrite_fill_effect:
  assumes "rewrite_fill u fl sf src fn m off ino w = (e, w')" and "names w src = Some i" "i \<noteq> ino"
  shows "touched ino w w' \<and> (e = None \<longrightarrow> kept_content w' ino = content w' ino
      \<and> (\<exists>m' hdr. fn m = Some m' \<and> EncodeMeta u None (Some m') = Inr hdr
          \<and> content w' ino = content w ino @ str_bytes hdr @ drop off (content w i)))"
proof (cases "\<exists>m' hdr. fn m = Some m' \<and> EncodeMeta u None (Some m') = Inr hdr")
  case False
  then show ?thesis using assms(1)
    by (auto simp: rewrite_fill_def Meta_Clone_id split: option.splits sum.splits)
next
  case True
  then obtain m' hdr where m': "fn m = Some m'" and hdr: "EncodeMeta u None (Some m') = Inr hdr" by blast
  obtain n e1 w1 where f: "file_write fl ino (str_bytes hdr) w = (n, e1, w1)" by (metis prod_cases3)
  have t1: "touched ino w w1" using file_write_wrote [OF f] wrote_touched by blast
  have i: "names w1 src = Some i" "content w1 i = content w i" using t1 assms(2,3) by (simp_all add: touched_def)
  note unf = rewrite_fill_def Meta_Clone_id m' hdr f
  show ?thesis
  proof (cases "e1 = None \<and> srcReopenErr sf = None \<and> srcSeekErr sf = None")
    case False
    then show ?thesis using assms(1) t1 i by (auto simp: unf os_Open_def split: option.splits)
  next
    case ok: True
    obtain e2 w2 where c: "io_Copy fl (srcCopyErr sf) ino off (content w i) w1 = (e2, w2)" by fastforce
    obtain e3 w3 where y: "file_sync fl ino w2 = (e3, w3)" by fastforce
    note t2 = copy_touched [OF c] and t3 = sync_touched [OF y]
    have w: "(e, w') = (case e2 of Some x \<Rightarrow> (Some x, w2) | None \<Rightarrow> (case e3 of Some x \<Rightarrow> (Some x, w3) | None \<Rightarrow> (closeErr fl, w3)))"
      using assms(1) [symmetric] ok i c y by (auto simp: unf os_Open_def split: option.split)
    have h: "content w1 ino = content w ino @ str_bytes hdr"
      using file_write_wrote [OF f] ok wrote_simps(5) by fastforce
    have "touched ino w w2" "touched ino w w3" using t1 t2 t3 touched_trans by blast+
    moreover have "e = None \<longrightarrow> w' = w3 \<and> e2 = None \<and> e3 = None" using w by (auto split: option.splits)
    ultimately show ?thesis using w m' hdr h t2 t3 by (auto split: option.splits)
  qed
qed

lemma OpenExcl_new:
  assumes "OpenExcl fl p w = (Inr ino, w1)"
  shows "ino = fresh w" "names w p = None" "names w1 = (names w)(p \<mapsto> ino)" "kept_names w1 = kept_names w"
    "content w1 ino = []" "\<forall>i. i \<noteq> ino \<longrightarrow> content w1 i = content w i"
  using assms by (auto simp: OpenExcl_def split: option.splits if_splits)

lemma file_of_touched:
  assumes "touched ino w1 w2" "names w1 = (names w)(q \<mapsto> ino)" "\<forall>i. i \<noteq> ino \<longrightarrow> content w1 i = content w i"
    and "\<And>p. names w p \<noteq> Some ino" "names w q = None"
  shows "names w2 = (names w)(q \<mapsto> ino)" "p \<noteq> q \<Longrightarrow> file_of w2 p = file_of w p"
proof -
  show n: "names w2 = (names w)(q \<mapsto> ino)" using assms(1,2) by (simp add: touched_def)
  have "content w2 i = content w i" if "i \<noteq> ino" for i using assms(1,3) that by (simp add: touched_def)
  then show "p \<noteq> q \<Longrightarrow> file_of w2 p = file_of w p"
    using assms(4) [of p] by (cases "names w p") (simp_all add: file_of_def n)
qed

lemma not_inprogress [simp]: "d @ ''.inprogress'' \<noteq> d" "d \<noteq> d @ ''.inprogress''"
  by simp_all

text \<open>The deferred removal: the partial file goes, unless removing it fails, and nothing else changes.\<close>

lemma removed_partial:
  assumes "names w2 = (names w)(q \<mapsto> ino)" "\<And>p. p \<noteq> q \<Longrightarrow> file_of w2 p = file_of w p" "names w q = None"
    and "w3 = snd (os_Remove fl q w2)"
  shows "p \<noteq> q \<Longrightarrow> file_of w3 p = file_of w p" "removeErr fl = None \<Longrightarrow> file_of w3 q = None"
  using assms by (auto simp: os_Remove_def file_of_def split: option.splits)

lemma RewriteMeta_cases:
  assumes "world_ok w" "RewriteMeta u fl sf src dst (Some fn) w = (e, w')"
  defines "q \<equiv> dst @ ''.inprogress''"
  shows "(e \<noteq> None \<and> (\<forall>p. p \<noteq> q \<longrightarrow> file_of w' p = file_of w p)
       \<and> (removeErr fl = None \<longrightarrow> file_of w' q = file_of w q))
    \<or> (e = dirErr fl \<and> (\<forall>p. p \<noteq> q \<and> p \<noteq> dst \<longrightarrow> file_of w' p = file_of w p) \<and> file_of w' q = None
       \<and> (\<exists>f out. file_of w src = Some f \<and> rewritten u sf fn f out \<and> file_of w' dst = Some out
            \<and> (e = None \<longrightarrow> kept_file w' dst = Some out)))" (is "?fail \<or> ?done")
proof (cases "\<exists>i m off ino w1. os_Open (srcOpenErr sf) src w = Inr i
    \<and> decode_header u (srcReadErr sf) False (content w i) = Inr (m, off) \<and> OpenExcl fl q w = (Inr ino, w1)")
  case False
  then have "e \<noteq> None \<and> w' = w"
    using assms(2) by (auto simp: RewriteMeta_def q_def [symmetric] Let_def OpenExcl_def split: sum.splits option.splits if_splits) metis
  then show ?thesis by simp
next
  case True
  then obtain i m off ino w1 where o: "os_Open (srcOpenErr sf) src w = Inr i"
    and d: "decode_header u (srcReadErr sf) False (content w i) = Inr (m, off)" and x: "OpenExcl fl q w = (Inr ino, w1)" by blast
  note x1 = OpenExcl_new [OF x]
  have old: "names w p \<noteq> Some ino" for p using assms(1) x1(1) by (auto simp: world_ok_def)
  have i: "names w src = Some i" using o by (auto simp: os_Open_def split: option.splits)
  then have src: "names w1 src = Some i" "i \<noteq> ino" using x1(2,3) old by auto
  obtain e2 w2 where r: "rewrite_fill u fl sf src fn m off ino w1 = (e2, w2)" by fastforce
  note eff = rewrite_fill_effect [OF r src]
  note keep = file_of_touched [OF conjunct1 [OF eff] x1(3) x1(6) old x1(2)]
  have unf: "RewriteMeta u fl sf src dst (Some fn) w = (case e2 of Some e \<Rightarrow> (Some e, snd (os_Remove fl q w2))
      | None \<Rightarrow> (case Rename fl q dst w2 of (Some e, w3) \<Rightarrow> (Some e, snd (os_Remove fl q w3))
          | (None, w3) \<Rightarrow> SyncDir fl (filepath_Dir dst) w3))"
    using o d x r by (simp add: RewriteMeta_def q_def [symmetric] Let_def split: option.splits)
  show ?thesis
  proof (cases "e2 = None \<and> renameErr fl = None")
    case False
    then have "e \<noteq> None \<and> w' = snd (os_Remove fl q w2)"
      using assms(2) unf by (auto simp: Rename_def split: option.splits) metis
    then show ?thesis using removed_partial [OF keep x1(2), of w' fl] x1(2) by (simp add: file_of_def)
  next
    case ok: True
    define w3 where "w3 = w2\<lparr>names := (names w2)(q := None, dst \<mapsto> ino)\<rparr>"
    have "Rename fl q dst w2 = (None, w3)" using ok keep(1) by (simp add: Rename_def w3_def)
    then have y: "SyncDir fl (filepath_Dir dst) w3 = (e, w')" using assms(2) unf ok by simp
    have n: "names w' = (names w)(q := None, dst \<mapsto> ino)" "content w' = content w2" "e = dirErr fl"
      "e = None \<Longrightarrow> kept_file w' dst = Some (kept_content w2 ino)"
      using y keep(1) by (auto simp: SyncDir_def w3_def kept_file_def split: option.splits)
    from eff ok obtain m' hdr where "fn m = Some m'" "EncodeMeta u None (Some m') = Inr hdr"
      and c: "content w2 ino = str_bytes hdr @ drop off (content w i)" "kept_content w2 ino = content w2 ino"
      using x1(5,6) src(2) by auto
    then have "rewritten u sf fn (content w i) (content w2 ino)" using d by (auto simp: rewritten_def)
    moreover have "file_of w' p = file_of w p" if "p \<noteq> q" "p \<noteq> dst" for p
      using keep(2) [OF that(1)] keep(1) n that by (simp add: file_of_def)
    moreover have "file_of w src = Some (content w i)" "file_of w' dst = Some (content w2 ino)" "file_of w' q = None"
      using i n(1,2) by (simp_all add: file_of_def q_def)
    ultimately have ?done using n(3,4) c(2) by (intro disjI2 conjI) auto
    then show ?thesis by blast
  qed
qed

section \<open>A rewrite without failures\<close>

lemma decode_header_enc:
  assumes "uuid_ok u" "meta_ok m" "FormatVer m = LegacyFormatVersion \<Longrightarrow> legacy" "EncodeMeta u None (Some m) = Inr hdr"
  shows "decode_header u None legacy (str_bytes hdr @ rest) = Inr (meta_canon m, length hdr)"
proof -
  obtain h where h: "EncodeMeta u None (Some m) = Inr h"
    "DecodeMeta u (Some (rd h rest [Go EOF])) \<lparr>AcceptV012 = legacy\<rparr> = (Inr (meta_canon m), Some (rd [] rest [Go EOF]))"
    by (rule DecodeMeta_EncodeMeta [OF assms(1,2), of "\<lparr>AcceptV012 = legacy\<rparr>"]) (use assms(3) in auto)
  then show ?thesis using assms(4) by (simp add: decode_header_def file_reader_def rd_def str_bytes_def)
qed

lemma RewriteMeta_ok:
  assumes "world_ok w" "room w = None" "names w src = Some i" "names w (dst @ ''.inprogress'') = None"
    and "decode_header u None False (content w i) = Inr (m, off)" "fn m = Some m'" "EncodeMeta u None (Some m') = Inr hdr"
  shows "\<exists>w'. RewriteMeta u no_faults no_srcfaults src dst (Some fn) w = (None, w')"
proof -
  let ?q = "dst @ ''.inprogress''"
  define w1 where "w1 = w\<lparr>names := (names w)(?q \<mapsto> fresh w), content := (content w)(fresh w := []),
      kept_content := (kept_content w)(fresh w := []), fresh := fresh w + 1\<rparr>"
  have x: "OpenExcl no_faults ?q w = (Inr (fresh w), w1)" using assms(4) by (simp add: OpenExcl_def no_faults_def w1_def)
  have src: "names w1 src = Some i" "i \<noteq> fresh w" using assms(1,3,4) by (auto simp: w1_def world_ok_def)
  obtain e w2 where r: "rewrite_fill u no_faults no_srcfaults src fn m off (fresh w) w1 = (e, w2)" by fastforce
  have "e = None"
    using r src assms(2,6,7) by (auto simp: rewrite_fill_def Meta_Clone_id file_write_def Let_def w1_def os_Open_def
        no_srcfaults_def io_Copy_def file_sync_def no_faults_def)
  moreover have "names w2 ?q = Some (fresh w)"
    using rewrite_fill_effect [OF r src] by (simp add: touched_def w1_def)
  moreover have "renameErr no_faults = None" "dirErr no_faults = None" "srcOpenErr no_srcfaults = None"
    "srcReadErr no_srcfaults = None" by (simp_all add: no_faults_def no_srcfaults_def)
  ultimately show ?thesis
    using assms(3,5) x r by (simp add: RewriteMeta_def os_Open_def Rename_def SyncDir_def Let_def)
qed

text \<open>A device with one complete file of one transaction.\<close>

definition one_file :: "bytes \<Rightarrow> world" where
  "one_file f = empty_world\<lparr>names := [''a.xlog'' \<mapsto> 0], content := (\<lambda>_. f), kept_names := [''a.xlog'' \<mapsto> 0],
     kept_content := (\<lambda>_. f), fresh := 1\<rparr>"

lemma one_file_ok: "world_ok (one_file f)" "room (one_file f) = None" "file_of (one_file f) ''a.xlog'' = Some f"
  "p \<noteq> ''a.xlog'' \<Longrightarrow> names (one_file f) p = None"
  by (auto simp: one_file_def world_ok_def empty_world_def file_of_def split: if_splits)

lemma sample_rewrite:
  "\<exists>hdr w'. EncodeMeta uuid_hex None (Some sample_meta) = Inr hdr
    \<and> RewriteMeta uuid_hex no_faults no_srcfaults ''a.xlog'' ''b.xlog'' (Some (\<lambda>_. Some sample_meta)) (one_file (str_bytes hdr)) = (None, w')"
proof -
  obtain hdr where h: "EncodeMeta uuid_hex None (Some sample_meta) = Inr hdr" using sample_hdr by blast
  have "decode_header uuid_hex None False (str_bytes hdr) = Inr (meta_canon sample_meta, length hdr)"
    using decode_header_enc [OF uuid_hex_ok sample_meta_ok _ h, of False "[]"] sample_legacy by (simp add: sample_meta_def LegacyFormatVersion_def)
  then have "\<exists>w'. RewriteMeta uuid_hex no_faults no_srcfaults ''a.xlog'' ''b.xlog'' (Some (\<lambda>_. Some sample_meta)) (one_file (str_bytes hdr)) = (None, w')"
    by (intro RewriteMeta_ok [where i = 0 and m' = sample_meta and hdr = hdr]) (simp_all add: one_file_ok h, simp_all add: one_file_def)
  with h show ?thesis by blast
qed

section \<open>Properties\<close>

text \<open>
  C14: a header rewrite is atomic, whatever fails. No path but the destination and its temporary name ever
  changes. The destination holds what it held, or the complete new file: the transformed header followed by
  the bytes of the source behind its header, verbatim. When the rewrite succeeds it is the new file, it
  survives a power loss, and the temporary name is gone; when it fails before the rename the temporary file
  is removed, if it can be.
\<close>

theorem rewrite_meta_atomic:
  assumes "world_ok w" "RewriteMeta u fl sf src dst (Some fn) w = (e, w')"
  shows "(\<forall>p. p \<notin> {dst, dst @ ''.inprogress''} \<longrightarrow> file_of w' p = file_of w p)
    \<and> (file_of w' dst = file_of w dst \<and> e \<noteq> None
         \<and> (removeErr fl = None \<longrightarrow> file_of w' (dst @ ''.inprogress'') = file_of w (dst @ ''.inprogress''))
       \<or> (\<exists>f out. file_of w src = Some f \<and> rewritten u sf fn f out \<and> file_of w' dst = Some out
            \<and> file_of w' (dst @ ''.inprogress'') = None \<and> (e = None \<longrightarrow> kept_file w' dst = Some out)))"
  using RewriteMeta_cases [OF assms] by auto

theorem rewrite_meta_atomic_witness:
  "\<exists>w w' out. RewriteMeta uuid_hex no_faults no_srcfaults ''a.xlog'' ''b.xlog'' (Some (\<lambda>_. Some sample_meta)) w = (None, w')
    \<and> file_of w' ''a.xlog'' = file_of w ''a.xlog'' \<and> file_of w' ''b.xlog'' = Some out \<and> kept_file w' ''b.xlog'' = Some out"
proof -
  obtain hdr w' where r: "RewriteMeta uuid_hex no_faults no_srcfaults ''a.xlog'' ''b.xlog'' (Some (\<lambda>_. Some sample_meta)) (one_file (str_bytes hdr)) = (None, w')"
    using sample_rewrite by blast
  from rewrite_meta_atomic [OF one_file_ok(1) r] have "file_of w' ''a.xlog'' = file_of (one_file (str_bytes hdr)) ''a.xlog''"
    "\<exists>out. file_of w' ''b.xlog'' = Some out \<and> kept_file w' ''b.xlog'' = Some out" by auto
  with r show ?thesis by blast
qed



end
