(* ===== verification/InPlace.thy ===== *)
theory InPlace
  imports MetaTools
begin

text \<open>
  Overwriting the instance uuid of a file in place (\<^verbatim>\<open>tools/inplace.go\<close>), with the undo log that makes it
  survive a crash: every call may fail, a power loss may strike between any two calls, and it may leave any
  part of what was not synced.
\<close>

section \<open>Overwriting a file\<close>

text \<open>\<^verbatim>\<open>WriteAt\<close> replaces bytes, padding with zeros behind the end; it may stop after some of them.\<close>

definition overwrite :: "bytes \<Rightarrow> nat \<Rightarrow> bytes \<Rightarrow> bytes" where
  "overwrite f off p = take off (f @ replicate (off - length f) 0) @ p @ drop (off + length p) f"

definition os_WriteAt :: "(nat \<times> error) option \<Rightarrow> nat \<Rightarrow> bytes \<Rightarrow> nat \<Rightarrow> world \<Rightarrow> error option \<times> world" where
  "os_WriteAt werr ino p off w = (case werr of
     None \<Rightarrow> (None, w\<lparr>content := (content w)(ino := overwrite (content w ino) off p)\<rparr>)
   | Some (n, e) \<Rightarrow> (Some e, w\<lparr>content := (content w)(ino := overwrite (content w ino) off (take n p))\<rparr>))"

definition OpenTrunc :: "faults \<Rightarrow> string \<Rightarrow> world \<Rightarrow> (error + nat) \<times> world" where
  "OpenTrunc fl p w = (case openErr fl of Some e \<Rightarrow> (Inl e, w)
     | None \<Rightarrow> (case names w p of
         Some ino \<Rightarrow> (Inr ino, w\<lparr>content := (content w)(ino := [])\<rparr>)
       | None \<Rightarrow> (Inr (fresh w), w\<lparr>names := (names w)(p \<mapsto> fresh w), content := (content w)(fresh w := []),
                 kept_content := (kept_content w)(fresh w := []), fresh := fresh w + 1\<rparr>)))"

section \<open>The value in the header\<close>

definition IndexByte :: "bytes \<Rightarrow> byte \<Rightarrow> nat option" where
  "IndexByte b c = (let n = length (takeWhile (\<lambda>x. x \<noteq> c) b) in if n < length b then Some n else None)"

definition bytes_HasPrefix :: "bytes \<Rightarrow> string \<Rightarrow> bool" where
  "bytes_HasPrefix b s \<longleftrightarrow> take (length s) b = str_bytes s"

function skip_front :: "bytes \<Rightarrow> nat \<Rightarrow> nat \<Rightarrow> nat" where
  "skip_front header valStart valEnd =
     (if valStart < valEnd \<and> header ! valStart = 0x20 then skip_front header (valStart + 1) valEnd else valStart)"
  by pat_completeness auto
termination by (relation "measure (\<lambda>(header, valStart, valEnd). valEnd - valStart)") auto

fun skip_back :: "bytes \<Rightarrow> nat \<Rightarrow> nat \<Rightarrow> nat" where
  "skip_back header valStart 0 = 0"
| "skip_back header valStart (Suc e) =
     (if Suc e > valStart \<and> (header ! e = 0x20 \<or> header ! e = 0x0d) then skip_back header valStart e else Suc e)"

declare skip_front.simps [simp del]

function instanceValueSpan_from :: "bytes \<Rightarrow> nat \<Rightarrow> (nat \<times> nat) option" where
  "instanceValueSpan_from header lineStart =
     (if lineStart < length header then
        (case IndexByte (drop lineStart header) 0x0a of
           None \<Rightarrow> None
         | Some nl \<Rightarrow>
             (let lineEnd = lineStart + nl; line = take nl (drop lineStart header);
                  span = (\<lambda>keyLen. let valStart = skip_front header (lineStart + keyLen) lineEnd
                     in Some (valStart, skip_back header valStart lineEnd))
              in if bytes_HasPrefix line ''Instance:'' then span (length ''Instance:'')
                 else if bytes_HasPrefix line ''Server:'' then span (length ''Server:'')
                 else instanceValueSpan_from header (lineEnd + 1)))
      else None)"
  by pat_completeness auto
termination by (relation "measure (\<lambda>(header, lineStart). length header - lineStart)") auto

declare instanceValueSpan_from.simps [simp del]

definition instanceValueSpan :: "bytes \<Rightarrow> (nat \<times> nat) option" where
  "instanceValueSpan header = instanceValueSpan_from header 0"

section \<open>The undo log\<close>

definition uuidBackupSuffix :: string where
  "uuidBackupSuffix = ''.uuidbak''"

definition uuidBackupHeaderLen :: nat where
  [simp]: "uuidBackupHeaderLen = 8"

definition maxUUIDBackupValueLen :: nat where
  [simp]: "maxUUIDBackupValueLen = 64"

definition writeUUIDBackup :: "faults \<Rightarrow> string \<Rightarrow> nat \<Rightarrow> bytes \<Rightarrow> world \<Rightarrow> error option \<times> world" where
  "writeUUIDBackup fl path off orig w =
     (let buf = PutUint64 (of_nat off) @ orig; backupPath = path @ uuidBackupSuffix in
      case OpenTrunc fl backupPath w of
        (Inl e, w1) \<Rightarrow> (Some e, w1)
      | (Inr bf, w1) \<Rightarrow>
          (case file_write fl bf buf w1 of
             (_, Some e, w2) \<Rightarrow> (Some e, w2)
           | (_, None, w2) \<Rightarrow>
               (case file_sync fl bf w2 of
                  (Some e, w3) \<Rightarrow> (Some e, w3)
                | (None, w3) \<Rightarrow>
                    (case closeErr fl of Some e \<Rightarrow> (Some e, w3)
                     | None \<Rightarrow> SyncDir fl (filepath_Dir backupPath) w3))))"

definition removeUUIDBackup :: "faults \<Rightarrow> string \<Rightarrow> world \<Rightarrow> error option \<times> world" where
  "removeUUIDBackup fl path w =
     (let backupPath = path @ uuidBackupSuffix in
      case os_Remove fl backupPath w of (err, w1) \<Rightarrow>
        (case err of
           None \<Rightarrow> SyncDir fl (filepath_Dir backupPath) w1
         | Some e \<Rightarrow> if errors_Is e (Go OsErrNotExist) then SyncDir fl (filepath_Dir backupPath) w1 else (Some e, w1)))"

text \<open>How the calls of a recovery end; \<open>recFl\<close> holds the outcomes of the sync and of the removal.\<close>

record recfaults =
  bakOpenErr :: "error option"
  bakReadErr :: "error option"
  bakCloseErr :: "error option"
  recOpenErr :: "error option"
  recWriteErr :: "(nat \<times> error) option"
  recFl :: faults

definition RecoverInstanceUUIDInPlace :: "recfaults \<Rightarrow> string \<Rightarrow> world \<Rightarrow> (error + bool) \<times> world" where
  "RecoverInstanceUUIDInPlace fs path w =
     (let backupPath = path @ uuidBackupSuffix in
      case os_Open (bakOpenErr fs) backupPath w of
        Inl e \<Rightarrow> if errors_Is e (Go OsErrNotExist) then (Inr False, w) else (Inl e, w)
      | Inr bf \<Rightarrow>
          (case bakReadErr fs of Some e \<Rightarrow> (Inl e, w) | None \<Rightarrow>
          (case bakCloseErr fs of Some e \<Rightarrow> (Inl e, w) | None \<Rightarrow>
          (let data = take (uuidBackupHeaderLen + maxUUIDBackupValueLen + 1) (content w bf) in
           if length data \<le> uuidBackupHeaderLen \<or> length data - uuidBackupHeaderLen > maxUUIDBackupValueLen
           then (Inl [Tl ErrCorruptUUIDBackup], w)
           else
             (let off = Uint64 (take uuidBackupHeaderLen data); orig = drop uuidBackupHeaderLen data in
              if sint off < 0 then (Inl [Tl ErrCorruptUUIDBackup], w)
              else
                (case os_Open (recOpenErr fs) path w of
                   Inl e \<Rightarrow> (Inl e, w)
                 | Inr f \<Rightarrow>
                     (case os_WriteAt (recWriteErr fs) f orig (unat off) w of
                        (Some e, w1) \<Rightarrow> (Inl e, w1)
                      | (None, w1) \<Rightarrow>
                          (case file_sync (recFl fs) f w1 of
                             (Some e, w2) \<Rightarrow> (Inl e, w2)
                           | (None, w2) \<Rightarrow>
                               (case removeUUIDBackup (recFl fs) path w2 of
                                  (Some e, w3) \<Rightarrow> (Inl e, w3)
                                | (None, w3) \<Rightarrow> (Inr True, w3))))))))))"

section \<open>The replacement\<close>

text \<open>
  How the calls of a replacement end: the recovery on entry, opening the file, a read error after some bytes
  of the header, seeking back, reading the header again, the calls on the undo log, the overwrite and its
  sync, the removal of the undo log.
\<close>

record ipfaults =
  ipRec :: recfaults
  ipOpenErr :: "error option"
  ipReadErr :: "(nat \<times> error) option"
  ipSeekErr :: "error option"
  ipFullErr :: "error option"
  ipBak :: faults
  ipWriteErr :: "(nat \<times> error) option"
  ipSync :: faults
  ipRemove :: faults

definition overwrite_uuid :: "ipfaults \<Rightarrow> string \<Rightarrow> nat \<Rightarrow> bytes \<Rightarrow> nat \<Rightarrow> nat \<Rightarrow> bytes \<Rightarrow> world \<Rightarrow> error option \<times> world" where
  "overwrite_uuid fs path f header valStart valEnd want w =
     (case writeUUIDBackup (ipBak fs) path valStart (subslice header valStart valEnd) w of
        (Some e, w1) \<Rightarrow> (Some e, w1)
      | (None, w1) \<Rightarrow>
          (case os_WriteAt (ipWriteErr fs) f want valStart w1 of
             (Some e, w2) \<Rightarrow> (Some e, w2)
           | (None, w2) \<Rightarrow>
               (case file_sync (ipSync fs) f w2 of
                  (Some e, w3) \<Rightarrow> (Some e, w3)
                | (None, w3) \<Rightarrow> removeUUIDBackup (ipRemove fs) path w3)))"

definition ReplaceInstanceUUIDInPlace ::
    "uuidlib \<Rightarrow> ipfaults \<Rightarrow> string \<Rightarrow> bytes \<Rightarrow> world \<Rightarrow> error option \<times> world" where
  "ReplaceInstanceUUIDInPlace u fs path newID w =
     (case RecoverInstanceUUIDInPlace (ipRec fs) path w of
        (Inl e, w1) \<Rightarrow> (Some e, w1)
      | (Inr _, w1) \<Rightarrow>
     (case os_Open (ipOpenErr fs) path w1 of Inl e \<Rightarrow> (Some e, w1)
      | Inr f \<Rightarrow>
     (case decode_header u (ipReadErr fs) True (content w1 f) of Inl e \<Rightarrow> (Some e, w1)
      | Inr (_, headerLen) \<Rightarrow>
     (case ipSeekErr fs of Some e \<Rightarrow> (Some e, w1) | None \<Rightarrow>
     (case ipFullErr fs of Some e \<Rightarrow> (Some e, w1) | None \<Rightarrow>
       (let header = take headerLen (content w1 f) in
        case instanceValueSpan header of
          None \<Rightarrow> (Some [Tl ErrUUIDLineNotFound], w1)
        | Some (valStart, valEnd) \<Rightarrow>
            (let want = str_bytes (uuid_String u newID) in
             if valEnd - valStart \<noteq> length want then (Some [Tl ErrUUIDWidthMismatch], w1)
             else if subslice header valStart valEnd = want then (None, w1)
             else overwrite_uuid fs path f header valStart valEnd want w1)))))))"

section \<open>Power loss\<close>

text \<open>
  What a power loss leaves of a file whose synced contents are \<open>old\<close> and whose current contents are \<open>new\<close>:
  of an overwritten file anything at the positions that changed, of an appended file some part of what was
  appended, of other files anything.
\<close>

definition torn :: "bytes \<Rightarrow> bytes \<Rightarrow> bytes \<Rightarrow> bool" where
  "torn old new t \<longleftrightarrow>
     (if length old = length new
      then length t = length old \<and> (\<forall>k < length old. old ! k = new ! k \<longrightarrow> t ! k = old ! k)
      else prefix old new \<longrightarrow> prefix old t \<and> prefix t new)"

text \<open>
  A name is there or not as the directory was last synced or as it is. A process that dies without a power
  loss is the case in which everything stays as it is.
\<close>

definition crashed :: "world \<Rightarrow> world \<Rightarrow> bool" where
  "crashed w w' \<longleftrightarrow> (\<forall>p. names w' p \<in> {names w p, kept_names w p})
     \<and> (\<forall>i. torn (kept_content w i) (content w i) (content w' i))
     \<and> kept_names w' = names w' \<and> kept_content w' = content w'"

lemma torn_same: "torn f f t \<Longrightarrow> t = f"
  by (simp add: torn_def list_eq_iff_nth_eq)

lemma torn_now: "torn old new new"
  by (auto simp: torn_def)

lemma torn_prefix:
  assumes "torn old new t" "prefix old new" "prefix new r"
  shows "prefix t r"
proof (cases "length old = length new")
  case True
  then have "old = new" using assms(2) by (auto simp: prefix_def)
  then show ?thesis using torn_same assms(1,3) by metis
next
  case False
  then show ?thesis using assms prefix_order.trans by (auto simp: torn_def)
qed

lemma torn_span:
  assumes "torn (pre @ a @ post) (pre @ b @ post) t" "length a = length b"
  shows "\<exists>c. length c = length a \<and> t = pre @ c @ post"
proof -
  let ?n = "length pre" and ?m = "length a"
  have len: "length t = ?n + ?m + length post"
    and nth: "\<And>k. k < ?n + ?m + length post \<Longrightarrow> (pre @ a @ post) ! k = (pre @ b @ post) ! k \<Longrightarrow> t ! k = (pre @ a @ post) ! k"
    using assms by (simp_all add: torn_def)
  have "take ?n t = pre"
  proof (rule nth_equalityI)
    fix i assume "i < length (take ?n t)"
    then show "take ?n t ! i = pre ! i" using nth [of i] by (simp add: nth_append)
  qed (use len in simp)
  moreover have "drop (?n + ?m) t = post"
  proof (rule nth_equalityI)
    fix i assume "i < length (drop (?n + ?m) t)"
    then show "drop (?n + ?m) t ! i = post ! i"
      using nth [of "?n + (?m + i)"] len by (simp add: nth_append_right assms(2) flip: add.assoc)
  qed (use len in simp)
  ultimately have "t = pre @ take ?m (drop ?n t) @ post"
    by (metis append_take_drop_id drop_drop add.commute)
  moreover have "length (take ?m (drop ?n t)) = ?m" using len by simp
  ultimately show ?thesis by blast
qed

lemma overwrite_span:
  assumes "length p \<le> length a"
  shows "overwrite (pre @ a @ post) (length pre) p = pre @ (p @ drop (length p) a) @ post"
  using assms by (simp add: overwrite_def)

section \<open>States of an interrupted replacement\<close>

text \<open>
  The file is \<open>pre @ v @ post\<close> before and \<open>pre @ x @ post\<close> after the replacement. The states between: the
  file is untouched and the undo log may be incomplete; the undo log is durable and the value may be torn; or
  the value is durable and the undo log may be on its way out.
\<close>

record uuid_edit =
  ePath :: string
  eIno :: nat
  ePre :: bytes
  eOld :: bytes
  eNew :: bytes
  ePost :: bytes

definition bak :: "uuid_edit \<Rightarrow> string" where
  "bak ed = ePath ed @ uuidBackupSuffix"

definition bakrec :: "uuid_edit \<Rightarrow> bytes" where
  "bakrec ed = PutUint64 (of_nat (length (ePre ed))) @ eOld ed"

definition filled :: "uuid_edit \<Rightarrow> bytes \<Rightarrow> bytes" where
  "filled ed v = ePre ed @ v @ ePost ed"

definition edit_ok :: "uuid_edit \<Rightarrow> bool" where
  "edit_ok ed \<longleftrightarrow> length (eOld ed) = length (eNew ed) \<and> length (eOld ed) \<le> maxUUIDBackupValueLen
     \<and> length (ePre ed) < 2 ^ 63"

text \<open>The inodes that the undo log's name may lead to, now or after a power loss.\<close>

definition bak_inos :: "uuid_edit \<Rightarrow> world \<Rightarrow> nat set" where
  "bak_inos ed w = {j. names w (bak ed) = Some j \<or> kept_names w (bak ed) = Some j}"

definition held :: "uuid_edit \<Rightarrow> world \<Rightarrow> bool" where
  "held ed w \<longleftrightarrow> names w (ePath ed) = Some (eIno ed) \<and> kept_names w (ePath ed) = Some (eIno ed) \<and> eIno ed \<notin> bak_inos ed w"

definition logging :: "uuid_edit \<Rightarrow> world \<Rightarrow> bool" where
  "logging ed w \<longleftrightarrow> held ed w \<and> content w (eIno ed) = filled ed (eOld ed) \<and> kept_content w (eIno ed) = filled ed (eOld ed)
     \<and> (\<forall>j\<in>bak_inos ed w. prefix (kept_content w j) (content w j) \<and> prefix (content w j) (bakrec ed))"

definition overwriting :: "uuid_edit \<Rightarrow> world \<Rightarrow> bool" where
  "overwriting ed w \<longleftrightarrow> held ed w
     \<and> (\<exists>j. names w (bak ed) = Some j \<and> kept_names w (bak ed) = Some j \<and> content w j = bakrec ed \<and> kept_content w j = bakrec ed)
     \<and> (\<exists>v. length v = length (eOld ed) \<and> content w (eIno ed) = filled ed v)
     \<and> (\<exists>v. length v = length (eOld ed) \<and> kept_content w (eIno ed) = filled ed v)"

definition finishing :: "uuid_edit \<Rightarrow> world \<Rightarrow> bool" where
  "finishing ed w \<longleftrightarrow> held ed w \<and> content w (eIno ed) = kept_content w (eIno ed)
     \<and> content w (eIno ed) \<in> {filled ed (eOld ed), filled ed (eNew ed)}
     \<and> (names w (bak ed) = None \<or> names w (bak ed) = kept_names w (bak ed))
     \<and> (\<forall>j\<in>bak_inos ed w. content w j = bakrec ed \<and> kept_content w j = bakrec ed)"

definition recoverable :: "uuid_edit \<Rightarrow> world \<Rightarrow> bool" where
  "recoverable ed w \<longleftrightarrow> logging ed w \<or> overwriting ed w \<or> finishing ed w"

lemmas edit_states = logging_def overwriting_def finishing_def held_def

lemma crash_names:
  assumes "crashed w w'"
  shows "bak_inos ed w' \<subseteq> bak_inos ed w" "held ed w \<Longrightarrow> held ed w'"
proof -
  have n: "names w' p = names w p \<or> names w' p = kept_names w p" "kept_names w' = names w'" for p
    using assms by (auto simp: crashed_def)
  note np = n(1)
  show *: "bak_inos ed w' \<subseteq> bak_inos ed w" using np [of "bak ed"] n(2) by (auto simp: bak_inos_def)
  show "held ed w \<Longrightarrow> held ed w'" using np [of "ePath ed"] n(2) * by (auto simp: held_def)
qed

lemma crash_stable: "crashed w w' \<Longrightarrow> content w i = f \<Longrightarrow> kept_content w i = f \<Longrightarrow> content w' i = f \<and> kept_content w' i = f"
  unfolding crashed_def using torn_same by metis

lemma crash_recoverable:
  assumes "crashed w w'" "recoverable ed w"
  shows "recoverable ed w'"
proof -
  note n = crash_names [OF assms(1), of ed]
  have k: "kept_content w' = content w'" "kept_names w' = names w'" using assms(1) by (simp_all add: crashed_def)
  have t: "torn (kept_content w i) (content w i) (content w' i)" for i using assms(1) by (simp add: crashed_def)
  from assms(2) consider "logging ed w" | "overwriting ed w" | "finishing ed w" by (auto simp: recoverable_def)
  then show ?thesis
  proof cases
    case 1
    then have "logging ed w'"
      unfolding logging_def k using n crash_stable [OF assms(1)] torn_prefix [OF t] by (auto simp: k)
    then show ?thesis by (simp add: recoverable_def)
  next
    case 2
    then obtain j v v' where j: "names w (bak ed) = Some j" "kept_names w (bak ed) = Some j" "content w j = bakrec ed"
      "kept_content w j = bakrec ed" and v: "length v = length (eOld ed)" "content w (eIno ed) = filled ed v"
      "length v' = length (eOld ed)" "kept_content w (eIno ed) = filled ed v'" by (auto simp: overwriting_def)
    have "names w' (bak ed) = Some j" using assms(1) j by (auto simp: crashed_def dest!: spec [of _ "bak ed"])
    moreover have "\<exists>c. length c = length (eOld ed) \<and> content w' (eIno ed) = filled ed c"
      using torn_span [of "ePre ed" v' "ePost ed" v] t [of "eIno ed"] v by (simp add: filled_def)
    ultimately have "overwriting ed w'"
      using 2 n(2) crash_stable [OF assms(1) j(3,4)] by (auto simp: overwriting_def k)
    then show ?thesis by (simp add: recoverable_def)
  next
    case 3
    then have "finishing ed w'"
      unfolding finishing_def k using n crash_stable [OF assms(1) _ refl] by (auto simp: subset_iff)
    then show ?thesis by (simp add: recoverable_def)
  qed
qed

section \<open>Recovery\<close>

lemma bak_not_path [simp]: "bak ed \<noteq> ePath ed" "ePath ed \<noteq> bak ed"
  by (simp_all add: bak_def uuidBackupSuffix_def)

lemma remove_effect:
  assumes "removeUUIDBackup fl (ePath ed) w = (e, w')"
  shows "content w' = content w" "kept_content w' = kept_content w" "names w' (ePath ed) = names w (ePath ed)"
    "kept_names w' (ePath ed) \<in> {kept_names w (ePath ed), names w (ePath ed)}"
    "names w' (bak ed) = None \<or> names w' (bak ed) = names w (bak ed)"
    "kept_names w' (bak ed) = kept_names w (bak ed) \<or> kept_names w' (bak ed) = names w' (bak ed)"
  using assms unfolding bak_def
  by (auto simp: removeUUIDBackup_def os_Remove_def SyncDir_def Let_def uuidBackupSuffix_def split: option.splits if_splits)

lemma remove_names:
  assumes "removeUUIDBackup fl (ePath ed) w = (e, w')"
  shows "bak_inos ed w' \<subseteq> bak_inos ed w" "held ed w \<Longrightarrow> held ed w'"
proof -
  note r = remove_effect [OF assms]
  show *: "bak_inos ed w' \<subseteq> bak_inos ed w" using r(5,6) by (auto simp: bak_inos_def)
  show "held ed w \<Longrightarrow> held ed w'" using r(3,4) * by (auto simp: held_def)
qed

lemma remove_finishing:
  "removeUUIDBackup fl (ePath ed) w = (e, w') \<Longrightarrow> finishing ed w \<Longrightarrow> finishing ed w'"
  using remove_effect [of fl ed w e w'] remove_names [of fl ed w e w'] by (auto simp: finishing_def subset_iff)

lemma remove_logging:
  "removeUUIDBackup fl (ePath ed) w = (e, w') \<Longrightarrow> logging ed w \<Longrightarrow> logging ed w'"
  using remove_effect [of fl ed w e w'] remove_names [of fl ed w e w'] by (auto simp: logging_def subset_iff)

lemma bak_prefix:
  assumes "prefix d (bakrec ed)" "edit_ok ed" "uuidBackupHeaderLen < length d"
  shows "length d \<le> 72" "sint (Uint64 (take 8 d)) \<ge> 0" "unat (Uint64 (take 8 d)) = length (ePre ed)" "prefix (drop 8 d) (eOld ed)"
proof -
  obtain o' where d: "bakrec ed = d @ o'" using assms(1) by (auto simp: prefix_def)
  have l: "length d \<ge> 8" using assms(3) by simp
  have t: "take 8 d = PutUint64 (of_nat (length (ePre ed)))" "drop 8 d @ o' = eOld ed"
    using arg_cong [OF d, of "take 8"] arg_cong [OF d, of "drop 8"] l by (simp_all add: bakrec_def)
  show "prefix (drop 8 d) (eOld ed)" using t(2) prefixI by metis
  have "length (drop 8 d) \<le> 64" using arg_cong [OF t(2), of length] assms(2) by (simp add: edit_ok_def)
  then show "length d \<le> 72" by simp
  have u: "unat (of_nat (length (ePre ed)) :: uint64) = length (ePre ed)"
    using assms(2) by (simp add: edit_ok_def unat_of_nat_small)
  then show "unat (Uint64 (take 8 d)) = length (ePre ed)" by (simp add: t(1))
  show "sint (Uint64 (take 8 d)) \<ge> 0"
    using assms(2) by (simp add: t(1) edit_ok_def signed_of_nat signed_take_bit_int_eq_self)
qed

text \<open>What a recovery does to a file: nothing, or a part of the logged bytes is written; the log goes only after a sync.\<close>

lemma Recover_steps:
  assumes "RecoverInstanceUUIDInPlace fs (ePath ed) w = (r, w')" "names w (ePath ed) = Some i" "edit_ok ed"
    and "\<And>j. names w (bak ed) = Some j \<Longrightarrow> prefix (content w j) (bakrec ed)"
  shows "w' = w \<or> (\<exists>j o' k f. names w (bak ed) = Some j \<and> uuidBackupHeaderLen < length (content w j) \<and> o' = drop 8 (content w j)
    \<and> f = overwrite (content w i) (length (ePre ed)) (take k o') \<and>
      (w' = w\<lparr>content := (content w)(i := f)\<rparr> \<or>
       (k = length o' \<and> (\<exists>e. removeUUIDBackup (recFl fs) (ePath ed)
          (w\<lparr>content := (content w)(i := f), kept_content := (kept_content w)(i := f)\<rparr>) = (e, w')))))"
proof (cases "\<exists>j. names w (bak ed) = Some j \<and> uuidBackupHeaderLen < length (content w j) \<and> bakOpenErr fs = None \<and> bakReadErr fs = None
    \<and> bakCloseErr fs = None \<and> recOpenErr fs = None")
  case False
  then have "w' = w" using assms(1)
    by (auto simp: RecoverInstanceUUIDInPlace_def Let_def os_Open_def bak_def [symmetric] split: option.splits if_splits)
  then show ?thesis by blast
next
  case True
  then obtain j where j: "names w (bak ed) = Some j" "uuidBackupHeaderLen < length (content w j)" by blast
  let ?d = "content w j" and ?n = "length (ePre ed)"
  note d = bak_prefix [OF assms(4) [OF j(1)] assms(3) j(2)]
  obtain e1 w1 where wr: "os_WriteAt (recWriteErr fs) i (drop 8 ?d) ?n w = (e1, w1)" by fastforce
  have s: "\<not> 64 < length ?d - 8" using d(1) by simp
  have unf: "RecoverInstanceUUIDInPlace fs (ePath ed) w = (case e1 of Some e \<Rightarrow> (Inl e, w1) | None \<Rightarrow>
      (case file_sync (recFl fs) i w1 of (Some e, w2) \<Rightarrow> (Inl e, w2)
       | (None, w2) \<Rightarrow> (case removeUUIDBackup (recFl fs) (ePath ed) w2 of (Some e, w3) \<Rightarrow> (Inl e, w3) | (None, w3) \<Rightarrow> (Inr True, w3))))"
    using True j d s wr assms(2) by (simp add: RecoverInstanceUUIDInPlace_def Let_def os_Open_def bak_def [symmetric] split: option.split)
  show ?thesis
  proof (cases e1)
    case (Some e)
    then obtain k where "w1 = w\<lparr>content := (content w)(i := overwrite (content w i) ?n (take k (drop 8 ?d)))\<rparr>"
      using wr by (auto simp: os_WriteAt_def split: option.splits)
    then show ?thesis using assms(1) unf Some j by auto
  next
    case None
    let ?f = "overwrite (content w i) ?n (drop 8 ?d)"
    have w1: "w1 = w\<lparr>content := (content w)(i := ?f)\<rparr>" using wr None by (auto simp: os_WriteAt_def split: option.splits)
    have "w' = w1 \<or> (\<exists>e. removeUUIDBackup (recFl fs) (ePath ed) (w1\<lparr>kept_content := (kept_content w)(i := ?f)\<rparr>) = (e, w'))"
      using assms(1) unf None by (auto simp: file_sync_def w1 split: option.splits prod.splits)
    moreover have "take (length (drop 8 ?d)) (drop 8 ?d) = drop 8 ?d" by simp
    ultimately show ?thesis using j w1
      by (intro disjI2 exI [of _ j] exI [of _ "drop 8 ?d"] exI [of _ "length (drop 8 ?d)"] exI [of _ ?f]) auto
  qed
qed

lemma logged_prefix: "recoverable ed w \<Longrightarrow> names w (bak ed) = Some j \<Longrightarrow> prefix (content w j) (bakrec ed)"
  by (auto simp: recoverable_def edit_states bak_inos_def)

lemma recoverable_held: "recoverable ed w \<Longrightarrow> held ed w"
  by (auto simp: recoverable_def edit_states)

lemma edit_names [simp]:
  "bak_inos ed (w\<lparr>content := c\<rparr>) = bak_inos ed w" "bak_inos ed (w\<lparr>kept_content := c\<rparr>) = bak_inos ed w"
  "held ed (w\<lparr>content := c\<rparr>) = held ed w" "held ed (w\<lparr>kept_content := c\<rparr>) = held ed w"
  by (simp_all add: bak_inos_def held_def)

lemma finishing_overwriting:
  "edit_ok ed \<Longrightarrow> finishing ed w \<Longrightarrow> names w (bak ed) = Some j \<Longrightarrow> overwriting ed w"
  by (auto simp: finishing_def overwriting_def bak_inos_def edit_ok_def intro!: exI [of _ j])

lemma overwrite_value:
  "length v = length (eOld ed) \<Longrightarrow> length p \<le> length v
    \<Longrightarrow> overwrite (filled ed v) (length (ePre ed)) p = filled ed (p @ drop (length p) v)"
  using overwrite_span [of p v "ePre ed" "ePost ed"] by (simp add: filled_def)

lemma overwriting_write:
  assumes "overwriting ed w" "content w (eIno ed) = filled ed v" "length v = length (eOld ed)" "length p \<le> length v"
    and "f = overwrite (content w (eIno ed)) (length (ePre ed)) p"
  shows "overwriting ed (w\<lparr>content := (content w)(eIno ed := f)\<rparr>)"
    and "p \<in> {eOld ed, eNew ed} \<Longrightarrow> edit_ok ed
      \<Longrightarrow> finishing ed (w\<lparr>content := (content w)(eIno ed := f), kept_content := (kept_content w)(eIno ed := f)\<rparr>)"
proof -
  have f: "f = filled ed (p @ drop (length p) v)" using overwrite_value assms by simp
  obtain j where j: "names w (bak ed) = Some j" "kept_names w (bak ed) = Some j" "content w j = bakrec ed"
    "kept_content w j = bakrec ed" using assms(1) by (auto simp: overwriting_def)
  have "j \<noteq> eIno ed" using assms(1) j by (auto simp: overwriting_def held_def bak_inos_def)
  moreover have "bak_inos ed w = {j}" using j by (auto simp: bak_inos_def)
  moreover have "\<exists>c. length c = length (eOld ed) \<and> f = filled ed c"
    using f assms(3,4) by (intro exI [of _ "p @ drop (length p) v"]) simp
  ultimately show "overwriting ed (w\<lparr>content := (content w)(eIno ed := f)\<rparr>)"
    and "p \<in> {eOld ed, eNew ed} \<Longrightarrow> edit_ok ed
      \<Longrightarrow> finishing ed (w\<lparr>content := (content w)(eIno ed := f), kept_content := (kept_content w)(eIno ed := f)\<rparr>)"
    using assms(1,3) j f by (auto simp: overwriting_def finishing_def edit_ok_def)
qed

lemma Recover_recoverable:
  assumes "RecoverInstanceUUIDInPlace fs (ePath ed) w = (r, w')" "edit_ok ed" "recoverable ed w"
  shows "recoverable ed w'"
proof -
  have h: "held ed w" using recoverable_held assms(3) by blast
  then have i: "names w (ePath ed) = Some (eIno ed)" by (simp add: held_def)
  note steps = Recover_steps [OF assms(1) i assms(2) logged_prefix [OF assms(3)]]
  from steps consider "w' = w" | j o' k f where "names w (bak ed) = Some j" "uuidBackupHeaderLen < length (content w j)"
    "o' = drop 8 (content w j)" "f = overwrite (content w (eIno ed)) (length (ePre ed)) (take k o')"
    "w' = w\<lparr>content := (content w)(eIno ed := f)\<rparr> \<or> k = length o' \<and> (\<exists>e. removeUUIDBackup (recFl fs) (ePath ed)
        (w\<lparr>content := (content w)(eIno ed := f), kept_content := (kept_content w)(eIno ed := f)\<rparr>) = (e, w'))" by blast
  then show ?thesis
  proof cases
    case 2
    have j: "eIno ed \<noteq> j" using h 2(1) by (auto simp: held_def bak_inos_def)
    note p = bak_prefix(4) [OF logged_prefix [OF assms(3) 2(1)] assms(2) 2(2)]
    from assms(3) 2(1) finishing_overwriting [OF assms(2)] consider "logging ed w" | "overwriting ed w"
      by (auto simp: recoverable_def)
    then show ?thesis
    proof cases
      case 1
      obtain s where s: "eOld ed = take k o' @ s" using p 2(3) take_is_prefix prefix_order.trans prefixE by metis
      have "overwrite (filled ed (eOld ed)) (length (ePre ed)) (take k o') = filled ed (eOld ed)"
        using overwrite_value [of "eOld ed" ed "take k o'"] arg_cong [OF s, of "drop (length (take k o'))"]
          arg_cong [OF s, of length] s by simp
      then have f: "f = filled ed (eOld ed)" using 1 2(4) by (simp add: logging_def)
      have "logging ed (w\<lparr>content := (content w)(eIno ed := f)\<rparr>)"
        "logging ed (w\<lparr>content := (content w)(eIno ed := f), kept_content := (kept_content w)(eIno ed := f)\<rparr>)"
        using 1 h by (auto simp: logging_def f held_def)
      then show ?thesis using 2(5) remove_logging by (auto simp: recoverable_def)
    next
      case ov: 2
      obtain v where v: "length v = length (eOld ed)" "content w (eIno ed) = filled ed v" using ov by (auto simp: overwriting_def)
      have o': "o' = eOld ed" using ov 2(1,3) by (auto simp: overwriting_def bakrec_def)
      have l: "length (take k o') \<le> length v" by (simp add: o' v)
      note w = overwriting_write [OF ov v(2,1) l 2(4)]
      show ?thesis using 2(5) w(1) w(2) [OF _ assms(2)] remove_finishing by (auto simp: recoverable_def o')
    qed
  qed (use assms(3) in simp)
qed

section \<open>The replacement\<close>

text \<open>Before the replacement: the file is durable and there is no undo log.\<close>

definition settled :: "uuid_edit \<Rightarrow> world \<Rightarrow> bool" where
  "settled ed w \<longleftrightarrow> world_ok w \<and> names w (ePath ed) = Some (eIno ed) \<and> kept_names w (ePath ed) = Some (eIno ed)
     \<and> content w (eIno ed) = filled ed (eOld ed) \<and> kept_content w (eIno ed) = filled ed (eOld ed)
     \<and> names w (bak ed) = None \<and> kept_names w (bak ed) = None"

lemma settled_logging: "settled ed w \<Longrightarrow> logging ed w"
  by (auto simp: settled_def logging_def held_def bak_inos_def)

text \<open>While the undo log is written: it is in a new file that holds a part of it.\<close>

definition bak_at :: "uuid_edit \<Rightarrow> nat \<Rightarrow> world \<Rightarrow> bool" where
  "bak_at ed j w \<longleftrightarrow> j \<noteq> eIno ed \<and> names w (bak ed) = Some j \<and> kept_names w (bak ed) \<in> {None, Some j}
     \<and> names w (ePath ed) = Some (eIno ed) \<and> kept_names w (ePath ed) = Some (eIno ed)
     \<and> content w (eIno ed) = filled ed (eOld ed) \<and> kept_content w (eIno ed) = filled ed (eOld ed)
     \<and> prefix (kept_content w j) (content w j) \<and> prefix (content w j) (bakrec ed)"

lemma bak_at_logging: "bak_at ed j w \<Longrightarrow> logging ed w"
  by (auto simp: bak_at_def logging_def held_def bak_inos_def)

lemma bak_at_overwriting:
  "bak_at ed j w \<Longrightarrow> kept_names w (bak ed) = Some j \<Longrightarrow> content w j = bakrec ed \<Longrightarrow> kept_content w j = bakrec ed
    \<Longrightarrow> overwriting ed w \<and> content w (eIno ed) = filled ed (eOld ed)"
  by (auto simp: bak_at_def overwriting_def held_def bak_inos_def)

lemma backup_written:
  assumes "settled ed w" "writeUUIDBackup fl (ePath ed) (length (ePre ed)) (eOld ed) w = (e, w')"
  shows "logging ed w'" "e = None \<Longrightarrow> overwriting ed w' \<and> content w' (eIno ed) = filled ed (eOld ed)"
proof -
  let ?j = "fresh w"
  have j: "?j \<noteq> eIno ed" using assms(1) unfolding settled_def world_ok_def by (metis less_irrefl)
  obtain r w1 where o: "OpenTrunc fl (bak ed) w = (r, w1)" by fastforce
  obtain n e2 w2 where f: "file_write fl ?j (bakrec ed) w1 = (n, e2, w2)" by (metis prod_cases3)
  obtain e3 w3 where y: "file_sync fl ?j w2 = (e3, w3)" by fastforce
  have o1: "r = Inl x \<Longrightarrow> w1 = w" "r = Inr bf \<Longrightarrow> w1 = w\<lparr>names := (names w)(bak ed \<mapsto> ?j), content := (content w)(?j := []),
      kept_content := (kept_content w)(?j := []), fresh := ?j + 1\<rparr>"
      "r = Inr bf \<Longrightarrow> bf = ?j" for x bf
    using o assms(1) by (auto simp: OpenTrunc_def settled_def split: option.splits)
  have unf: "writeUUIDBackup fl (ePath ed) (length (ePre ed)) (eOld ed) w = (case r of Inl e \<Rightarrow> (Some e, w1)
      | Inr bf \<Rightarrow> (case e2 of Some e \<Rightarrow> (Some e, w2) | None \<Rightarrow> (case e3 of Some e \<Rightarrow> (Some e, w3)
        | None \<Rightarrow> (case closeErr fl of Some e \<Rightarrow> (Some e, w3) | None \<Rightarrow> SyncDir fl (filepath_Dir (bak ed)) w3))))"
  proof (cases r)
    case (Inr bf)
    with o f y o1(3) [OF Inr] show ?thesis
      by (simp add: writeUUIDBackup_def bak_def [symmetric] bakrec_def [symmetric] Let_def split: option.split)
  qed (use o in \<open>simp add: writeUUIDBackup_def bak_def [symmetric] Let_def\<close>)
  have "logging ed w' \<and> (e = None \<longrightarrow> overwriting ed w' \<and> content w' (eIno ed) = filled ed (eOld ed))"
  proof (cases r)
    case (Inl x)
    then have "w' = w" "e \<noteq> None" using assms(2) unf o1 by auto
    then show ?thesis
      using settled_logging [OF assms(1)] by auto
  next
    case (Inr bf)
    note w1 = o1(2) [OF Inr]
    note wr = file_write_wrote [OF f]
    note w2 = wrote_simps [OF conjunct1 [OF wr]]
    have b2: "bak_at ed ?j w2" "kept_names w2 (bak ed) = None" "e2 = None \<longrightarrow> content w2 ?j = bakrec ed"
      using assms(1) j w2(1-5) w2(6) [of "eIno ed"] wr by (auto simp: w1 bak_at_def settled_def take_is_prefix)
    have b3: "bak_at ed ?j w3" "content w3 = content w2" "e3 = None \<longrightarrow> kept_content w3 ?j = content w3 ?j"
      using y b2(1) j by (auto simp: file_sync_def bak_at_def split: option.splits)
    have "bak_at ed ?j w4 \<and> content w4 = content w3 \<and> kept_content w4 = kept_content w3 \<and> (e4 = None \<longrightarrow> kept_names w4 (bak ed) = Some ?j)"
      if "SyncDir fl (filepath_Dir (bak ed)) w3 = (e4, w4)" for e4 w4
      using b3(1) that by (auto simp: SyncDir_def bak_at_def split: option.splits)
    then have "bak_at ed ?j w'" "e = None \<Longrightarrow> kept_names w' (bak ed) = Some ?j \<and> content w' ?j = bakrec ed \<and> kept_content w' ?j = bakrec ed"
      using assms(2) unf Inr b2 b3 by (auto split: option.splits)
    then show ?thesis
      using bak_at_logging bak_at_overwriting by blast
  qed
  then show "logging ed w'" "e = None \<Longrightarrow> overwriting ed w' \<and> content w' (eIno ed) = filled ed (eOld ed)" by simp_all
qed

lemma overwrite_uuid_recoverable:
  assumes "settled ed w" "edit_ok ed" "subslice header (length (ePre ed)) valEnd = eOld ed"
    and "overwrite_uuid fs (ePath ed) (eIno ed) header (length (ePre ed)) valEnd (eNew ed) w = (e, w')"
  shows "recoverable ed w'"
proof -
  obtain e1 w1 where b: "writeUUIDBackup (ipBak fs) (ePath ed) (length (ePre ed)) (eOld ed) w = (e1, w1)" by fastforce
  note w1 = backup_written [OF assms(1) b]
  show ?thesis
  proof (cases e1)
    case (Some x)
    then show ?thesis using assms(3,4) b w1(1) by (simp add: overwrite_uuid_def recoverable_def)
  next
    case None
    then have ov: "overwriting ed w1" "content w1 (eIno ed) = filled ed (eOld ed)" using w1(2) by simp_all
    let ?f = "\<lambda>p. overwrite (content w1 (eIno ed)) (length (ePre ed)) p"
    have len: "length (take n (eNew ed)) \<le> length (eOld ed)" for n using assms(2) by (simp add: edit_ok_def)
    note wr = overwriting_write [OF ov refl len refl]
    have full: "take (length (eNew ed)) (eNew ed) = eNew ed" by simp
    have "overwriting ed (w1\<lparr>content := (content w1)(eIno ed := ?f (eNew ed))\<rparr>)"
      "finishing ed (w1\<lparr>content := (content w1)(eIno ed := ?f (eNew ed)), kept_content := (kept_content w1)(eIno ed := ?f (eNew ed))\<rparr>)"
      using wr [of "length (eNew ed)"] assms(2) unfolding full by simp_all
    then show ?thesis using assms(3,4) b None wr(1) remove_finishing
      by (auto simp: overwrite_uuid_def os_WriteAt_def file_sync_def recoverable_def split: option.splits)
  qed
qed

lemma skip_front_bounds: "a \<le> e \<Longrightarrow> a \<le> skip_front h a e \<and> skip_front h a e \<le> e"
  by (induction h a e rule: skip_front.induct) (subst (1 2) skip_front.simps, fastforce)

lemma skip_back_bounds: "a \<le> e \<Longrightarrow> a \<le> skip_back h a e \<and> skip_back h a e \<le> e"
  by (induction h a e rule: skip_back.induct) auto

lemma skip_bounds:
  "a \<le> e \<Longrightarrow> e \<le> n \<Longrightarrow> skip_front h a e \<le> skip_back h (skip_front h a e) e \<and> skip_back h (skip_front h a e) e \<le> n"
  using skip_front_bounds [of a e h] skip_back_bounds [of "skip_front h a e" e h] by auto

lemma instanceValueSpan_from_bounds: "instanceValueSpan_from h l = Some (s, t) \<Longrightarrow> s \<le> t \<and> t \<le> length h"
proof (induction h l rule: instanceValueSpan_from.induct)
  case (1 h l)
  from "1.prems" obtain nl where nl: "l < length h" "IndexByte (drop l h) 0x0a = Some nl"
    by (auto simp: instanceValueSpan_from.simps [of h l] split: if_splits option.splits)
  then have le: "l + nl \<le> length h" by (auto simp: IndexByte_def Let_def split: if_splits)
  have key: "l + length k \<le> l + nl" if "bytes_HasPrefix (take nl (drop l h)) k" for k
    using arg_cong [OF that [unfolded bytes_HasPrefix_def], of length] by (simp add: str_bytes_def)
  show ?case
    using "1.prems" "1.IH" [OF nl refl refl refl] nl skip_bounds [OF key le, of "''Instance:''" h] skip_bounds [OF key le, of "''Server:''" h]
    by (auto simp: instanceValueSpan_from.simps [of h l] Let_def split: if_splits)
qed

lemma Recover_nothing: "names w (path @ uuidBackupSuffix) = None \<Longrightarrow> snd (RecoverInstanceUUIDInPlace fs path w) = w"
  by (cases "bakOpenErr fs") (simp_all add: RecoverInstanceUUIDInPlace_def os_Open_def Let_def)

lemma Replace_steps:
  assumes "ReplaceInstanceUUIDInPlace u fs path x w = (e, w')" "names w path = Some i" "names w (path @ uuidBackupSuffix) = None"
  shows "w' = w \<or> (\<exists>m n s t. decode_header u (ipReadErr fs) True (content w i) = Inr (m, n)
    \<and> instanceValueSpan (take n (content w i)) = Some (s, t) \<and> t - s = length (uuid_String u x)
    \<and> overwrite_uuid fs path i (take n (content w i)) s t (str_bytes (uuid_String u x)) w = (e, w'))"
proof -
  obtain r where "RecoverInstanceUUIDInPlace (ipRec fs) path w = (r, w)"
    using Recover_nothing [OF assms(3)] by (metis prod.collapse)
  then show ?thesis
    using assms(1,2) by (auto simp: ReplaceInstanceUUIDInPlace_def os_Open_def Let_def str_bytes_def split: sum.splits option.splits if_splits)
qed

text \<open>The file with its value replaced.\<close>

definition restamped :: "uuidlib \<Rightarrow> (nat \<times> error) option \<Rightarrow> bytes \<Rightarrow> bytes \<Rightarrow> bytes option" where
  "restamped u rerr x f = (case decode_header u rerr True f of Inl _ \<Rightarrow> None
     | Inr (_, n) \<Rightarrow> (case instanceValueSpan (take n f) of None \<Rightarrow> None
         | Some (s, t) \<Rightarrow> Some (take s f @ str_bytes (uuid_String u x) @ drop t f)))"

text \<open>A file that is durable under its name, with no undo log beside it.\<close>

definition settled_file :: "world \<Rightarrow> string \<Rightarrow> bytes \<Rightarrow> bool" where
  "settled_file w path f \<longleftrightarrow> world_ok w \<and> file_of w path = Some f \<and> kept_file w path = Some f
     \<and> kept_names w path = names w path \<and> file_of w (path @ uuidBackupSuffix) = None \<and> kept_file w (path @ uuidBackupSuffix) = None"

lemma Replace_recoverable:
  assumes "settled_file w path f" "length f < 2 ^ 63" "length (uuid_String u x) = 36"
    and "ReplaceInstanceUUIDInPlace u fs path x w = (e, w')"
  shows "\<exists>ed. ePath ed = path \<and> edit_ok ed \<and> recoverable ed w' \<and> filled ed (eOld ed) = f
    \<and> (filled ed (eNew ed) = f \<or> restamped u (ipReadErr fs) x f = Some (filled ed (eNew ed)))"
proof -
  obtain i where i: "names w path = Some i" "kept_names w path = Some i" "content w i = f" "kept_content w i = f"
    "names w (path @ uuidBackupSuffix) = None" "kept_names w (path @ uuidBackupSuffix) = None" "world_ok w"
    using assms(1) by (auto simp: settled_file_def file_of_def kept_file_def)
  from Replace_steps [OF assms(4) i(1,5)] consider "w' = w"
    | m n s t where "decode_header u (ipReadErr fs) True f = Inr (m, n)" "instanceValueSpan (take n f) = Some (s, t)"
      "t - s = 36" "overwrite_uuid fs path i (take n f) s t (str_bytes (uuid_String u x)) w = (e, w')"
    using i(3) assms(3) by auto
  then show ?thesis
  proof cases
    case 2
    have b: "s \<le> t" "t \<le> length (take n f)" using instanceValueSpan_from_bounds [of "take n f" 0 s t] 2(2) by (simp_all add: instanceValueSpan_def)
    let ?ed = "\<lparr>ePath = path, eIno = i, ePre = take s f, eOld = subslice (take n f) s t, eNew = str_bytes (uuid_String u x), ePost = drop t f\<rparr>"
    have len: "length (ePre ?ed) = s" "length (eOld ?ed) = 36" "length (eNew ?ed) = 36"
      using b 2(3) assms(3) by (auto simp: subslice_def str_bytes_def min_def split: if_splits)
    have sl: "subslice (take n f) s t = drop s (take t f)" using b by (simp add: subslice_def drop_take min_absorb1 diff_le_mono)
    have "take s (take t f) = take s f" using b(1) by (simp add: min_absorb1)
    then have "take s f @ drop s (take t f) = take t f" using append_take_drop_id [of s "take t f"] by simp
    then have f: "filled ?ed (eOld ?ed) = f" by (simp add: filled_def sl flip: append.assoc)
    have ok: "edit_ok ?ed" using len assms(2) b by (auto simp: edit_ok_def)
    have se: "settled ?ed w" using i f by (simp add: settled_def bak_def)
    have "recoverable ?ed w'"
      by (rule overwrite_uuid_recoverable [OF se ok, of "take n f" t fs e]) (use 2(4) len in simp_all)
    moreover have "restamped u (ipReadErr fs) x f = Some (filled ?ed (eNew ?ed))"
      using 2(1,2) by (simp add: restamped_def filled_def)
    ultimately show ?thesis using ok f by (intro exI [of _ ?ed]) simp
  next
    case 1
    let ?ed = "\<lparr>ePath = path, eIno = i, ePre = f, eOld = [], eNew = [], ePost = []\<rparr>"
    have "settled ?ed w" using i by (simp add: settled_def bak_def filled_def)
    then have "recoverable ?ed w'" using 1 settled_logging by (simp add: recoverable_def)
    then show ?thesis using assms(2) by (intro exI [of _ ?ed]) (simp add: edit_ok_def filled_def)
  qed
qed

section \<open>Healing\<close>

text \<open>Any number of power losses, and of recoveries that may fail anywhere.\<close>

inductive disturbed :: "string \<Rightarrow> world \<Rightarrow> world \<Rightarrow> bool" for path where
  calm: "disturbed path w w"
| power_loss: "disturbed path w w1 \<Longrightarrow> crashed w1 w2 \<Longrightarrow> disturbed path w w2"
| recovery: "disturbed path w w1 \<Longrightarrow> RecoverInstanceUUIDInPlace fs path w1 = (r, w2) \<Longrightarrow> disturbed path w w2"

lemma disturbed_recoverable:
  "disturbed path w w' \<Longrightarrow> path = ePath ed \<Longrightarrow> edit_ok ed \<Longrightarrow> recoverable ed w \<Longrightarrow> recoverable ed w'"
  by (induction rule: disturbed.induct) (auto intro: crash_recoverable Recover_recoverable)

definition no_recfaults :: recfaults where
  "no_recfaults = \<lparr>bakOpenErr = None, bakReadErr = None, bakCloseErr = None, recOpenErr = None, recWriteErr = None, recFl = no_faults\<rparr>"

text \<open>
  A recovery without failures: it may only refuse an undo log that was never completed, and then the file is
  the old one; otherwise the file is one of the two, durable, and the undo log is gone.
\<close>

definition healed :: "string \<Rightarrow> error + bool \<Rightarrow> bytes \<Rightarrow> bytes \<Rightarrow> world \<Rightarrow> bool" where
  "healed path r old new w \<longleftrightarrow> kept_file w path = file_of w path \<and> (case r of
     Inl e \<Rightarrow> e = [Tl ErrCorruptUUIDBackup] \<and> file_of w path = Some old
   | Inr b \<Rightarrow> file_of w path \<in> {Some old, Some new} \<and> (b \<longrightarrow> file_of w path = Some old) \<and> file_of w (path @ uuidBackupSuffix) = None)"

lemma undo_restores:
  assumes "recoverable ed w" "edit_ok ed" "names w (bak ed) = Some j" "uuidBackupHeaderLen < length (content w j)"
  shows "overwrite (content w (eIno ed)) (length (ePre ed)) (drop 8 (content w j)) = filled ed (eOld ed)"
proof -
  from assms(1,3) finishing_overwriting [OF assms(2)] consider "logging ed w" | "overwriting ed w" by (auto simp: recoverable_def)
  then show ?thesis
  proof cases
    case 1
    obtain s where s: "eOld ed = drop 8 (content w j) @ s"
      using bak_prefix(4) [OF logged_prefix [OF assms(1,3)] assms(2,4)] prefixE by metis
    have "overwrite (filled ed (eOld ed)) (length (ePre ed)) (drop 8 (content w j)) = filled ed (eOld ed)"
      by (subst overwrite_value) (simp_all add: s)
    then show ?thesis using 1 by (simp add: logging_def)
  next
    case 2
    then obtain v where "length v = length (eOld ed)" "content w (eIno ed) = filled ed v" "content w j = bakrec ed"
      using assms(3) by (auto simp: overwriting_def)
    then show ?thesis by (simp add: overwrite_value bakrec_def)
  qed
qed

lemma Recover_heals:
  assumes "recoverable ed w" "edit_ok ed" "RecoverInstanceUUIDInPlace no_recfaults (ePath ed) w = (r, w')"
  shows "healed (ePath ed) r (filled ed (eOld ed)) (filled ed (eNew ed)) w'"
proof -
  have i: "names w (ePath ed) = Some (eIno ed)" "kept_names w (ePath ed) = Some (eIno ed)"
    using recoverable_held [OF assms(1)] by (simp_all add: held_def)
  note unf = RecoverInstanceUUIDInPlace_def Let_def os_Open_def bak_def [symmetric] no_recfaults_def i
  consider "names w (bak ed) = None" | j where "names w (bak ed) = Some j" "length (content w j) \<le> 8"
    | j where "names w (bak ed) = Some j" "8 < length (content w j)" by (metis not_le option.exhaust)
  then show ?thesis
  proof cases
    case 1
    then have "r = Inr False" "w' = w" using assms(3) by (simp_all add: unf)
    moreover have "content w (eIno ed) = kept_content w (eIno ed)" "content w (eIno ed) \<in> {filled ed (eOld ed), filled ed (eNew ed)}"
      using assms(1) 1 by (auto simp: recoverable_def edit_states)
    ultimately show ?thesis using 1 i by (auto simp: healed_def file_of_def kept_file_def bak_def)
  next
    case 2
    then have "r = Inl [Tl ErrCorruptUUIDBackup]" "w' = w" using assms(3) by (simp_all add: unf)
    moreover have "content w (eIno ed) = filled ed (eOld ed) \<and> kept_content w (eIno ed) = filled ed (eOld ed)"
    proof (cases "eOld ed = []")
      case True
      then show ?thesis using assms(1,2) by (auto simp: recoverable_def edit_states edit_ok_def)
    next
      case False
      then have "\<not> overwriting ed w" "\<not> finishing ed w" using 2 by (auto simp: edit_states bakrec_def bak_inos_def)
      then show ?thesis using assms(1) by (simp add: recoverable_def logging_def)
    qed
    ultimately show ?thesis using i by (simp add: healed_def file_of_def kept_file_def)
  next
    case 3
    let ?d = "content w j" and ?n = "length (ePre ed)"
    have l: "uuidBackupHeaderLen < length ?d" using 3(2) by simp
    note d = bak_prefix [OF logged_prefix [OF assms(1) 3(1)] assms(2) l]
    have s: "\<not> 64 < length ?d - 8" using d(1) by simp
    have ov: "overwrite (content w (eIno ed)) ?n (drop 8 ?d) = filled ed (eOld ed)" by (rule undo_restores [OF assms(1,2) 3(1) l])
    let ?w = "w\<lparr>content := (content w)(eIno ed := filled ed (eOld ed)), kept_content := (kept_content w)(eIno ed := filled ed (eOld ed)),
      names := (names w)(bak ed := None)\<rparr>"
    have "(r, w') = (Inr True, snd (SyncDir no_faults (filepath_Dir (bak ed)) ?w))"
      using assms(3) 3 d s by (simp add: unf os_WriteAt_def file_sync_def removeUUIDBackup_def os_Remove_def SyncDir_def ov no_faults_def)
    then show ?thesis
      using i by (auto simp: SyncDir_def no_faults_def healed_def file_of_def kept_file_def bak_def uuidBackupSuffix_def)
  qed
qed

section \<open>A replacement without failures\<close>

definition no_ipfaults :: ipfaults where
  "no_ipfaults = \<lparr>ipRec = no_recfaults, ipOpenErr = None, ipReadErr = None, ipSeekErr = None, ipFullErr = None, ipBak = no_faults,
     ipWriteErr = None, ipSync = no_faults, ipRemove = no_faults\<rparr>"

lemma overwrite_uuid_ok:
  assumes "settled ed w" "edit_ok ed" "room w = None" "subslice header (length (ePre ed)) valEnd = eOld ed"
  shows "\<exists>w'. overwrite_uuid no_ipfaults (ePath ed) (eIno ed) header (length (ePre ed)) valEnd (eNew ed) w = (None, w')
    \<and> file_of w' (ePath ed) = Some (filled ed (eNew ed)) \<and> kept_file w' (ePath ed) = Some (filled ed (eNew ed))
    \<and> file_of w' (bak ed) = None \<and> kept_file w' (bak ed) = None
    \<and> (\<forall>p. names w p \<noteq> Some (eIno ed) \<and> p \<noteq> bak ed \<longrightarrow> file_of w' p = file_of w p)"
proof -
  let ?j = "fresh w" and ?d = "filepath_Dir (bak ed)" and ?f = "filled ed (eNew ed)"
  have s: "names w (ePath ed) = Some (eIno ed)" "kept_names w (ePath ed) = Some (eIno ed)" "content w (eIno ed) = filled ed (eOld ed)"
    "names w (bak ed) = None" "kept_names w (bak ed) = None" using assms(1) by (simp_all add: settled_def)
  have old: "names w p \<noteq> Some ?j" for p using assms(1) unfolding settled_def world_ok_def by (metis less_irrefl)
  then have j: "?j \<noteq> eIno ed" using s(1) by metis
  have ov: "overwrite (filled ed (eOld ed)) (length (ePre ed)) (eNew ed) = ?f"
    using assms(2) by (simp add: overwrite_value edit_ok_def)
  define w1 where "w1 = w\<lparr>names := (names w)(bak ed \<mapsto> ?j), content := (content w)(?j := bakrec ed),
      kept_content := (kept_content w)(?j := bakrec ed), fresh := ?j + 1,
      kept_names := (\<lambda>p. if filepath_Dir p = ?d then ((names w)(bak ed \<mapsto> ?j)) p else kept_names w p)\<rparr>"
  have b: "writeUUIDBackup no_faults (ePath ed) (length (ePre ed)) (eOld ed) w = (None, w1)"
    using s(4) assms(3) by (cases w) (simp add: writeUUIDBackup_def bak_def [symmetric] bakrec_def [symmetric] Let_def OpenTrunc_def no_faults_def
        file_write_def file_sync_def SyncDir_def w1_def cong: if_cong)
  define w3 where "w3 = w1\<lparr>content := (content w1)(eIno ed := ?f), kept_content := (kept_content w1)(eIno ed := ?f),
      names := (names w1)(bak ed := None)\<rparr>"
  have r: "overwrite_uuid no_ipfaults (ePath ed) (eIno ed) header (length (ePre ed)) valEnd (eNew ed) w
      = SyncDir no_faults ?d w3"
    using b assms(4) j s ov by (simp add: overwrite_uuid_def no_ipfaults_def os_WriteAt_def file_sync_def removeUUIDBackup_def os_Remove_def
        bak_def [symmetric] Let_def no_faults_def w1_def w3_def)
  have n: "names w3 = names w" using s(4) by (auto simp: w3_def w1_def)
  have "file_of w3 p = file_of w p" if "names w p \<noteq> Some (eIno ed)" for p
    using that old [of p] by (cases "names w p") (auto simp: file_of_def n, auto simp: w3_def w1_def)
  moreover have "file_of w3 (ePath ed) = Some ?f" "kept_content w3 (eIno ed) = ?f" "kept_names w3 (ePath ed) = Some (eIno ed)"
    using s by (simp_all add: file_of_def n, simp_all add: w3_def w1_def)
  ultimately show ?thesis unfolding r using s
    by (auto simp: SyncDir_def no_faults_def file_of_def kept_file_def n)
qed

section \<open>The span in an encoded header\<close>

lemma span_line:
  assumes "header = a @ str_bytes l @ 0x0a # b" "CHR 0x0a \<notin> set l"
  shows "IndexByte (drop (length a) header) 0x0a = Some (length l)" "take (length l) (drop (length a) header) = str_bytes l"
    "length a < length header"
proof -
  have "\<forall>x\<in>set (str_bytes l). x \<noteq> 0x0a" using assms(2) str_bytes_newline [of l] by auto
  then have "takeWhile (\<lambda>x. x \<noteq> 0x0a) (str_bytes l @ 0x0a # b) = str_bytes l" by (simp add: takeWhile_append2)
  then show "IndexByte (drop (length a) header) 0x0a = Some (length l)" "take (length l) (drop (length a) header) = str_bytes l"
    "length a < length header" using assms(1) by (simp_all add: IndexByte_def Let_def str_bytes_def)
qed

lemma str_bytes_prefix: "bytes_HasPrefix (str_bytes l) k \<longleftrightarrow> take (length k) l = k"
  unfolding bytes_HasPrefix_def by (metis bytes_str_str_bytes str_bytes_def take_map)

lemma span_skip:
  assumes "header = a @ str_bytes l @ 0x0a # b" "CHR 0x0a \<notin> set l" "\<not> bytes_HasPrefix (str_bytes l) ''Instance:''" "\<not> bytes_HasPrefix (str_bytes l) ''Server:''"
  shows "instanceValueSpan_from header (length a) = instanceValueSpan_from header (length (a @ str_bytes l @ [0x0a]))"
  using span_line [OF assms(1,2)] assms(3,4)
  by (simp add: instanceValueSpan_from.simps [of header "length a"] Let_def)

lemma byte_char_eq: "(of_nat (of_char c) :: byte) = of_nat (of_char d) \<longleftrightarrow> c = d"
  by (metis of_char_eq_iff unat_of_char)

lemma span_found:
  assumes "header = a @ str_bytes (''Instance: '' @ v) @ 0x0a # b" "CHR 0x0a \<notin> set v" "v \<noteq> []"
    and "hd v \<noteq> CHR '' ''" "last v \<noteq> CHR '' ''" "last v \<noteq> CHR 0x0d"
  shows "instanceValueSpan_from header (length a) = Some (length a + 10, length a + 10 + length v)"
proof -
  let ?s = "length a + 9" and ?e = "length a + 10 + length v"
  note l = span_line [OF assms(1)]
  have h: "header = (a @ str_bytes ''Instance: '') @ str_bytes v @ 0x0a # b" using assms(1) by (simp add: str_bytes_def)
  have sp: "(of_nat (of_char c) :: byte) = 0x20 \<longleftrightarrow> c = CHR '' ''" "(of_nat (of_char c) :: byte) = 0x0d \<longleftrightarrow> c = CHR 0x0d" for c
    using byte_char_eq [of c "CHR '' ''"] byte_char_eq [of c "CHR 0x0d"] by simp_all
  have nth: "header ! (length a + 10 + k) = of_nat (of_char (v ! k))" if "k < length v" for k
    using that by (simp add: h nth_append str_bytes_def)
  have "header ! ?s = 0x20" by (simp add: h nth_append str_bytes_def)
  moreover have "header ! (length a + 10) \<noteq> 0x20" using nth [of 0] assms(3,4) sp by (simp add: hd_conv_nth)
  ultimately have f: "skip_front header ?s ?e = length a + 10"
    using skip_front.simps [of header ?s ?e] skip_front.simps [of header "length a + 10" ?e] by (simp add: add.commute)
  have last: "header ! (length a + 10 + (length v - 1)) \<notin> {0x20, 0x0d}"
    using nth [of "length v - 1"] assms(3,5,6) sp by (simp add: last_conv_nth)
  have e: "?e = Suc (length a + 10 + (length v - 1))" using assms(3) by simp
  have b: "skip_back header (length a + 10) ?e = ?e" unfolding e skip_back.simps using last by auto
  show ?thesis
    using l assms(2) f b by (simp add: instanceValueSpan_from.simps [of header "length a"] Let_def str_bytes_prefix eval_nat_numeral)
qed

lemma hdr_span:
  assumes "uuid_ok u" "meta_ok m" "EncodeMeta u None (Some m) = Inr hdr" "length x = 16"
  obtains pre post where "hdr = pre @ uuid_String u (InstanceUUID m) @ post"
    "EncodeMeta u None (Some (m\<lparr>InstanceUUID := x\<rparr>)) = Inr (pre @ uuid_String u x @ post)"
    "instanceValueSpan (str_bytes hdr) = Some (length pre, length pre + length (uuid_String u (InstanceUUID m)))"
proof -
  let ?nl = "[CHR 0x0a]" and ?ver = "if FormatVer m \<noteq> [] then FormatVer m else FormatVersion" and ?id = "uuid_String u (InstanceUUID m)"
  define post where "post = ?nl @ ''VClock: '' @ VClock_String (MVClock m) @ ?nl
     @ (if length (ventries (PrevVClock m)) > 0 then ''PrevVClock: '' @ VClock_String (PrevVClock m) @ ?nl else [])
     @ concat (map (\<lambda>k. k @ '': '' @ the (map_of (Extras_entries m) k) @ ?nl) (sortStrings (map fst (Extras_entries m)))) @ ?nl"
  define pre where "pre = MFiletype m @ ?nl @ ?ver @ ?nl @ ''Version: '' @ Version m @ ?nl @ ''Instance: ''"
  have ft: "MFiletype m \<in> {FiletypeXLOG, FiletypeSNAP, FiletypeVYLOG, FiletypeRUN, FiletypeINDEX}"
    and ver: "?ver \<in> {FormatVersion, LegacyFormatVersion}" using assms(2) by (auto simp: meta_ok_def)
  have enc: "EncodeMeta u None (Some (m\<lparr>InstanceUUID := y\<rparr>)) = Inr (pre @ uuid_String u y @ post)" for y
    using ft assms(2) by (auto simp: EncodeMeta_def meta_ok_def filetype_defs Let_def pre_def post_def Extras_entries_def)
  have hdr: "hdr = pre @ ?id @ post" using enc [of "InstanceUUID m"] assms(3) by simp
  have alpha: "c \<in> set hex_alphabet \<Longrightarrow> c \<notin> {CHR 0x0a, CHR '' '', CHR 0x0d}" for c by (auto simp: hex_alphabet_def)
  have ne: "?id \<noteq> []" and sub: "set ?id \<subseteq> set hex_alphabet" using assms(1,2) by (simp_all add: uuid_ok_def meta_ok_def)
  have id: "CHR 0x0a \<notin> set ?id" "hd ?id \<noteq> CHR '' ''" "last ?id \<noteq> CHR '' ''" "last ?id \<noteq> CHR 0x0d"
    using alpha [OF subsetD [OF sub hd_in_set [OF ne]]] alpha [OF subsetD [OF sub last_in_set [OF ne]]] alpha [OF subsetD [OF sub], of "CHR 0x0a"]
    by auto
  let ?l1 = "str_bytes (MFiletype m) @ [0x0a]" and ?l2 = "str_bytes ?ver @ [0x0a]" and ?l3 = "str_bytes (''Version: '' @ Version m) @ [0x0a]"
  have split: "str_bytes hdr = ?l1 @ ?l2 @ ?l3 @ str_bytes (''Instance: '' @ ?id) @ 0x0a # str_bytes (tl post)"
    unfolding hdr pre_def by (simp add: str_bytes_def post_def)
  have no: "\<not> bytes_HasPrefix (str_bytes l) ''Instance:''" "\<not> bytes_HasPrefix (str_bytes l) ''Server:''"
    if "l \<in> {FiletypeXLOG, FiletypeSNAP, FiletypeVYLOG, FiletypeRUN, FiletypeINDEX, FormatVersion, LegacyFormatVersion}" for l
    using that by (auto simp: str_bytes_prefix filetype_defs FormatVersion_def LegacyFormatVersion_def)
  have nl: "CHR 0x0a \<notin> set (MFiletype m)" "CHR 0x0a \<notin> set ?ver" "CHR 0x0a \<notin> set (''Version: '' @ Version m)"
    using ft ver assms(2) by (auto simp: filetype_defs FormatVersion_def LegacyFormatVersion_def meta_ok_def value_ok_def line_ok_def)
  have "instanceValueSpan_from (str_bytes hdr) 0 = instanceValueSpan_from (str_bytes hdr) (length ?l1)"
    using span_skip [of "str_bytes hdr" "[]" "MFiletype m"] split nl(1) no [of "MFiletype m"] ft by auto
  also have "\<dots> = instanceValueSpan_from (str_bytes hdr) (length (?l1 @ ?l2))"
    using span_skip [of "str_bytes hdr" ?l1 ?ver] split nl(2) no [of ?ver] ver by auto
  also have "\<dots> = instanceValueSpan_from (str_bytes hdr) (length (?l1 @ ?l2 @ ?l3))"
    using span_skip [of "str_bytes hdr" "?l1 @ ?l2" "''Version: '' @ Version m"] split nl(3) by (auto simp: str_bytes_prefix)
  also have "\<dots> = Some (length pre, length pre + length ?id)"
    using span_found [of "str_bytes hdr" "?l1 @ ?l2 @ ?l3" ?id] split id ne by (simp add: pre_def)
  finally show ?thesis using that [OF hdr enc] by (simp add: instanceValueSpan_def)
qed

lemma uuid_hex_width: "length y = 16 \<Longrightarrow> length (uuid_String uuid_hex y) = 36"
proof -
  have "length (hex_bytes z) = 2 * length z" for z by (induction z) (simp_all add: hex_bytes_def)
  then show "length y = 16 \<Longrightarrow> length (uuid_String uuid_hex y) = 36" by (simp add: uuid_hex_def subslice_def)
qed

lemma one_file_settled: "settled_file (one_file f) ''a.xlog'' f"
  using one_file_ok(1,3) [where f = f] by (simp add: settled_file_def file_of_def kept_file_def) (simp add: one_file_def uuidBackupSuffix_def empty_world_def)

lemma sample_hdr_short: "EncodeMeta uuid_hex None (Some sample_meta) = Inr hdr \<Longrightarrow> length hdr < 300"
proof -
  have "case EncodeMeta uuid_hex None (Some sample_meta) of Inl _ \<Rightarrow> True | Inr h \<Rightarrow> length h < 300" by code_simp
  then show "EncodeMeta uuid_hex None (Some sample_meta) = Inr hdr \<Longrightarrow> length hdr < 300" by simp
qed

section \<open>Properties\<close>

text \<open>
  C7: replacing the instance uuid in place is crash safe. Whatever call of the replacement fails, whatever
  power losses and failing recoveries follow, in any number and order, a recovery that runs through leaves
  the old file or the file with the new uuid, durable, never a torn header, and no undo log. The only
  exception is an undo log that a power loss caught before it was complete: the recovery then reports
  \<^verbatim>\<open>ErrCorruptUUIDBackup\<close>, and the file is the old one.
\<close>

theorem uuid_in_place_crash_safe:
  assumes "settled_file w path f" "length f < 2 ^ 63" "length (uuid_String u x) = 36"
    and "ReplaceInstanceUUIDInPlace u fs path x w = (e, w1)" "disturbed path w1 w2"
    and "RecoverInstanceUUIDInPlace no_recfaults path w2 = (r, w3)"
  shows "\<exists>new. (new = f \<or> restamped u (ipReadErr fs) x f = Some new) \<and> healed path r f new w3"
proof -
  obtain ed where ed: "ePath ed = path" "edit_ok ed" "recoverable ed w1" "filled ed (eOld ed) = f"
    "filled ed (eNew ed) = f \<or> restamped u (ipReadErr fs) x f = Some (filled ed (eNew ed))"
    using Replace_recoverable [OF assms(1-4)] by blast
  have "recoverable ed w2" using disturbed_recoverable [OF assms(5) _ ed(2,3)] ed(1) by simp
  from Recover_heals [OF this ed(2), of r w3] assms(6) ed show ?thesis by auto
qed

theorem uuid_in_place_crash_safe_witness:
  "\<exists>f e w1 w2 r w3 new. ReplaceInstanceUUIDInPlace uuid_hex (no_ipfaults\<lparr>ipWriteErr := Some (3, [Go (IoFailure 1)])\<rparr>) ''a.xlog''
      (replicate 16 0) (one_file f) = (e, w1)
    \<and> crashed w1 w2 \<and> RecoverInstanceUUIDInPlace no_recfaults ''a.xlog'' w2 = (r, w3)
    \<and> healed ''a.xlog'' r f new w3 \<and> (new = f \<or> restamped uuid_hex None (replicate 16 0) f = Some new)"
proof -
  obtain hdr where hdr: "EncodeMeta uuid_hex None (Some sample_meta) = Inr hdr" using sample_hdr by blast
  let ?f = "str_bytes hdr" and ?fs = "no_ipfaults\<lparr>ipWriteErr := Some (3, [Go (IoFailure 1)])\<rparr>"
  obtain e w1 where 1: "ReplaceInstanceUUIDInPlace uuid_hex ?fs ''a.xlog'' (replicate 16 0) (one_file ?f) = (e, w1)" by fastforce
  define w2 where "w2 = w1\<lparr>kept_names := names w1, kept_content := content w1\<rparr>"
  have 2: "crashed w1 w2" by (simp add: crashed_def w2_def torn_now)
  then have 3: "disturbed ''a.xlog'' w1 w2" using disturbed.intros by blast
  obtain r w3 where 4: "RecoverInstanceUUIDInPlace no_recfaults ''a.xlog'' w2 = (r, w3)" by fastforce
  have 5: "length ?f < 2 ^ 63" "length (uuid_String uuid_hex (replicate 16 0)) = 36"
    using sample_hdr_short [OF hdr] uuid_hex_width by simp_all
  have 6: "ipReadErr ?fs = None" by (simp add: no_ipfaults_def)
  from uuid_in_place_crash_safe [OF one_file_settled 5 1 3 4] 1 2 4 show ?thesis unfolding 6 by blast
qed

text \<open>
  C16: when nothing fails, replacing the instance uuid in place of a file that begins with a well-formed
  header turns the header into the one that encoding with the new uuid gives, of the same length, and
  leaves every byte behind it; the new file is durable, the undo log is gone and no other file changes.
\<close>

theorem uuid_in_place_replaces:
  assumes "uuid_ok u" "\<forall>y. length y = 16 \<longrightarrow> length (uuid_String u y) = 36" "meta_ok m" "EncodeMeta u None (Some m) = Inr hdr"
    and "settled_file w path (str_bytes hdr @ rest)" "length (str_bytes hdr @ rest) < 2 ^ 63" "room w = None" "length x = 16"
    and "\<And>p. p \<noteq> path \<Longrightarrow> names w p \<noteq> names w path"
  shows "\<exists>w' hdr'. ReplaceInstanceUUIDInPlace u no_ipfaults path x w = (None, w')
    \<and> EncodeMeta u None (Some (m\<lparr>InstanceUUID := x\<rparr>)) = Inr hdr' \<and> length hdr' = length hdr
    \<and> file_of w' path = Some (str_bytes hdr' @ rest) \<and> kept_file w' path = Some (str_bytes hdr' @ rest)
    \<and> file_of w' (path @ uuidBackupSuffix) = None \<and> (\<forall>p. p \<notin> {path, path @ uuidBackupSuffix} \<longrightarrow> file_of w' p = file_of w p)"
proof -
  let ?f = "str_bytes hdr @ rest" and ?new = "uuid_String u x" and ?old = "uuid_String u (InstanceUUID m)"
  obtain pre post where h: "hdr = pre @ ?old @ post" "EncodeMeta u None (Some (m\<lparr>InstanceUUID := x\<rparr>)) = Inr (pre @ ?new @ post)"
    "instanceValueSpan (str_bytes hdr) = Some (length pre, length pre + length ?old)"
    by (rule hdr_span [OF assms(1,3,4,8)])
  have len: "length ?old = 36" "length ?new = 36" using assms(2,3,8) by (auto simp: meta_ok_def)
  obtain i where i: "names w path = Some i" "kept_names w path = Some i" "content w i = ?f" "kept_content w i = ?f"
    "names w (path @ uuidBackupSuffix) = None" "kept_names w (path @ uuidBackupSuffix) = None" "world_ok w"
    using assms(5) by (auto simp: settled_file_def file_of_def kept_file_def)
  have d: "decode_header u None True ?f = Inr (meta_canon m, length hdr)" by (rule decode_header_enc [OF assms(1,3) _ assms(4)]) simp
  let ?ed = "\<lparr>ePath = path, eIno = i, ePre = str_bytes pre, eOld = str_bytes ?old, eNew = str_bytes ?new, ePost = str_bytes post @ rest\<rparr>"
  have sub: "subslice (str_bytes hdr) (length pre) (length pre + 36) = str_bytes ?old"
    using len by (simp add: subslice_def h(1) str_bytes_def)
  have se: "settled ?ed w" using i by (simp add: settled_def bak_def filled_def h(1) str_bytes_def)
  have ok: "edit_ok ?ed" using len assms(6) by (simp add: edit_ok_def h(1))
  have run: "ReplaceInstanceUUIDInPlace u no_ipfaults path x w = (if str_bytes ?old = str_bytes ?new then (None, w)
      else overwrite_uuid no_ipfaults path i (str_bytes hdr) (length pre) (length pre + 36) (str_bytes ?new) w)"
    using i d h(3) len sub by (simp add: ReplaceInstanceUUIDInPlace_def RecoverInstanceUUIDInPlace_def os_Open_def no_ipfaults_def
        no_recfaults_def Let_def)
  have other: "p \<noteq> path \<Longrightarrow> names w p \<noteq> Some i" for p using assms(9) [of p] i(1) by simp
  show ?thesis
  proof (cases "str_bytes ?old = str_bytes ?new")
    case True
    then have "str_bytes hdr = str_bytes (pre @ ?new @ post)" by (simp add: h(1) str_bytes_def)
    then show ?thesis using run True h(2) i len by (auto simp: file_of_def kept_file_def h(1))
  next
    case False
    from overwrite_uuid_ok [OF se ok assms(7), of "str_bytes hdr" "length pre + 36"] sub obtain w' where
      w': "overwrite_uuid no_ipfaults path i (str_bytes hdr) (length pre) (length pre + 36) (str_bytes ?new) w = (None, w')"
        "file_of w' path = Some (filled ?ed (str_bytes ?new))" "kept_file w' path = Some (filled ?ed (str_bytes ?new))"
        "file_of w' (path @ uuidBackupSuffix) = None"
        "\<forall>p. names w p \<noteq> Some i \<and> p \<noteq> path @ uuidBackupSuffix \<longrightarrow> file_of w' p = file_of w p" by (auto simp: bak_def)
    have "filled ?ed (str_bytes ?new) = str_bytes (pre @ ?new @ post) @ rest" by (simp add: filled_def str_bytes_def)
    then show ?thesis using run False h w' other len by (intro exI [of _ w'] exI [of _ "pre @ ?new @ post"]) auto
  qed
qed

theorem uuid_in_place_replaces_witness:
  "\<exists>hdr w' hdr'. ReplaceInstanceUUIDInPlace uuid_hex no_ipfaults ''a.xlog'' (replicate 16 0) (one_file (str_bytes hdr @ [0xd5])) = (None, w')
    \<and> EncodeMeta uuid_hex None (Some (sample_meta\<lparr>InstanceUUID := replicate 16 0\<rparr>)) = Inr hdr'
    \<and> file_of w' ''a.xlog'' = Some (str_bytes hdr' @ [0xd5]) \<and> file_of w' ''a.xlog.uuidbak'' = None"
proof -
  obtain hdr where hdr: "EncodeMeta uuid_hex None (Some sample_meta) = Inr hdr" using sample_hdr by blast
  let ?w = "one_file (str_bytes hdr @ [0xd5])"
  have 1: "\<forall>y. length y = 16 \<longrightarrow> length (uuid_String uuid_hex y) = 36" using uuid_hex_width by blast
  have 2: "length (str_bytes hdr @ [0xd5]) < 2 ^ 63" "length (replicate 16 (0 :: byte)) = 16" using sample_hdr_short [OF hdr] by simp_all
  have 3: "p \<noteq> ''a.xlog'' \<Longrightarrow> names ?w p \<noteq> names ?w ''a.xlog''" for p by (simp add: one_file_def)
  from uuid_in_place_replaces [OF uuid_hex_ok 1 sample_meta_ok hdr one_file_settled 2(1) one_file_ok(2) 2(2) 3]
  show ?thesis by (auto simp: uuidBackupSuffix_def)
qed

end
