(* ===== verification/Follow.thy ===== *)
theory Follow
  imports Dir
begin

text \<open>
  Following files while they are written (\<^verbatim>\<open>follow/\<close>): a state machine that reads the rows a writer appends,
  waits when there are none, and moves along the chain of a directory. The environment (the files, the
  context, the watcher) changes under it.
\<close>

section \<open>The environment\<close>

text \<open>
  What the engine observes in one round of one of its loops: the context's error, the files when it opens
  one, the contents of the open file when it reads (by the path it was opened under: an open file stays open
  when it is renamed), the files when it looks whether they exist, the directory when it is indexed and when
  it is listed, and how waiting for a path ends. A file only grows, so a read that is short is short against
  what is there at its end, and one look at the contents per call stands for all of its reads.
\<close>

record moment =
  mCtx :: "error option"
  mOpen :: filesystem
  mNow :: "string \<Rightarrow> bytes"
  mExists :: "string \<Rightarrow> bool"
  mIndex :: filesystem
  mListing :: listing
  mDents :: listing
  mCerr :: "error option"
  mWait :: "string \<Rightarrow> error option"

section \<open>Configuration\<close>

datatype startMode = startNone | startHead | startLSN | startVClock

datatype Watcher = PollWatcher int | CustomWatcher

record fconfig =
  pollInterval :: int
  readerOpts :: "ReaderOption list"
  watcher :: "Watcher option"
  startOffset :: nat
  fmode :: startMode
  lsnReplica :: uint32
  flsn :: int64
  fvclock :: VClock
  readInprogress :: bool

definition defaultPollInterval :: int where
  "defaultPollInterval = 200 * 1000000"

definition defaultConfig :: fconfig where
  "defaultConfig = \<lparr>pollInterval = defaultPollInterval, readerOpts = [], watcher = None, startOffset = 0, fmode = startNone,
     lsnReplica = 0, flsn = 0, fvclock = None, readInprogress = False\<rparr>"

definition fconfig_resolve :: "fconfig \<Rightarrow> fconfig" where
  "fconfig_resolve c = (if watcher c = None then c\<lparr>watcher := Some (PollWatcher (pollInterval c))\<rparr> else c)"

type_synonym FollowOption = "fconfig \<Rightarrow> fconfig"

definition applyOptions :: "FollowOption list \<Rightarrow> fconfig" where
  "applyOptions opts = fconfig_resolve (foldl (\<lambda>c opt. opt c) defaultConfig opts)"

definition WithPollInterval :: "int \<Rightarrow> FollowOption" where "WithPollInterval d c = c\<lparr>pollInterval := d\<rparr>"
definition WithReaderOptions :: "ReaderOption list \<Rightarrow> FollowOption" where "WithReaderOptions opts c = c\<lparr>readerOpts := readerOpts c @ opts\<rparr>"
definition WithStartOffset :: "nat \<Rightarrow> FollowOption" where "WithStartOffset off c = c\<lparr>startOffset := off\<rparr>"
definition WithFromHead :: FollowOption where "WithFromHead c = c\<lparr>fmode := startHead\<rparr>"
definition WithStartLSN :: "uint32 \<Rightarrow> int64 \<Rightarrow> FollowOption" where
  "WithStartLSN replicaID lsn c = c\<lparr>fmode := startLSN, lsnReplica := replicaID, flsn := lsn\<rparr>"
definition WithStartVClock :: "VClock \<Rightarrow> FollowOption" where
  "WithStartVClock target c = c\<lparr>fmode := startVClock, fvclock := VClock_Clone target\<rparr>"
definition WithReadInprogress :: FollowOption where "WithReadInprogress c = c\<lparr>readInprogress := True\<rparr>"
definition WithWatcher :: "Watcher \<Rightarrow> FollowOption" where "WithWatcher w c = c\<lparr>watcher := Some w\<rparr>"

definition vclockEqual :: "VClock \<Rightarrow> VClock \<Rightarrow> bool" where
  "vclockEqual a b = (case Compare a b of (ord, ok) \<Rightarrow> ok \<and> ord = 0)"

section \<open>The engine\<close>

text \<open>\<open>look\<close> is the position up to which the open file has been handed to the reader.\<close>

record engine =
  ecfg :: fconfig
  er :: "Reader option"
  eoff :: nat
  fileMode :: bool
  epath :: string
  dirPath :: string
  efiletype :: Filetype
  started :: bool
  curSig :: int64
  curVClock :: VClock
  isInprogress :: bool
  ipSig :: int64
  ipVClock :: VClock
  look :: nat

text \<open>A call that may wait returns, or is still blocked when the observations end.\<close>

datatype 'a outcome = Ret "error + 'a" | Blocked

definition engine_closeReader :: "error option \<Rightarrow> engine \<Rightarrow> error option \<times> engine" where
  "engine_closeReader cerr e = (case er e of None \<Rightarrow> (None, e)
     | Some r \<Rightarrow> (fst (Reader_Close cerr r), e\<lparr>er := None\<rparr>))"

text \<open>Every call but the one of \<^verbatim>\<open>Follower.Close\<close> drops the error: \<^verbatim>\<open>_ = e.closeReader()\<close>.\<close>

definition closeReader :: "engine \<Rightarrow> engine" where
  "closeReader e = e\<lparr>er := None\<rparr>"

lemma closeReader_drops_error: "snd (engine_closeReader cerr e) = closeReader e"
  by (cases "er e") (simp_all add: engine_closeReader_def closeReader_def)

definition engine_wait :: "moment \<Rightarrow> string \<Rightarrow> error + unit" where
  "engine_wait m path = (case mWait m path of Some err \<Rightarrow> Inl err | None \<Rightarrow> Inr ())"

definition adoptInprogressIdentity :: "engine \<Rightarrow> engine" where
  "adoptInprogressIdentity e =
     (let e1 = e\<lparr>curSig := ipSig e\<rparr>; e2 = (if ipVClock e1 \<noteq> None then e1\<lparr>curVClock := ipVClock e1\<rparr> else e1)
      in e2\<lparr>isInprogress := False\<rparr>)"

definition reswitchToFinalized :: "moment \<Rightarrow> engine \<Rightarrow> bool \<times> engine" where
  "reswitchToFinalized m e =
     (let finalPath = TrimSuffix (epath e) ''.inprogress'' in
      if finalPath = epath e then (False, e)
      else if mExists m (epath e) \<or> \<not> mExists m finalPath then (False, e)
      else (True, (adoptInprogressIdentity e)\<lparr>epath := finalPath\<rparr>))"

definition engine_open :: "uuidlib \<Rightarrow> moment \<Rightarrow> engine \<Rightarrow> error option \<times> engine" where
  "engine_open u m e =
     (case OpenAt u (mOpen m) (mCerr m) (epath e) (eoff e) (IgnoreMissingEOF # readerOpts (ecfg e)) of
        Inl err \<Rightarrow> (Some err, e)
      | Inr r \<Rightarrow>
          (let e1 = (if isInprogress e \<and> ipVClock e = None then e\<lparr>ipVClock := VClock_Clone (MVClock (rmeta r))\<rparr> else e) in
           if isInprogress e1 \<and> \<not> vclockEqual (PrevVClock (rmeta r)) (curVClock e1) then (Some [Ch ErrChainBroken], e1)
           else (None, e1\<lparr>er := Some r, look := max (eoff e) (case mOpen m (epath e) of None \<Rightarrow> 0 | Some f \<Rightarrow> length f)\<rparr>)))"

definition setCurrent :: "FileEntry \<Rightarrow> engine \<Rightarrow> engine" where
  "setCurrent entry e = e\<lparr>curSig := FE_Signature entry, curVClock := FE_VClock entry, epath := FE_Path entry,
     isInprogress := False, ipVClock := None, eoff := 0\<rparr>"

definition engine_index :: "uuidlib \<Rightarrow> moment \<Rightarrow> engine \<Rightarrow> error + Dir" where
  "engine_index u m e = OpenDir u (mIndex m) (mListing m) (mCerr m) (dirPath e) (efiletype e)"

fun startDir :: "uuidlib \<Rightarrow> engine \<Rightarrow> moment list \<Rightarrow> unit outcome \<times> engine \<times> moment list" where
  "startDir u e [] = (Blocked, e, [])"
| "startDir u e (m # ms) = (case mCtx m of Some err \<Rightarrow> (Ret (Inl err), e, ms) | None \<Rightarrow>
     (case engine_index u m e of Inl err \<Rightarrow> (Ret (Inl err), e, ms)
      | Inr d \<Rightarrow>
          (case fmode (ecfg e) of
             startHead \<Rightarrow>
               (case Files d of
                  [] \<Rightarrow> (case engine_wait m (dirPath e) of Inl err \<Rightarrow> (Ret (Inl err), e, ms) | Inr _ \<Rightarrow> startDir u e ms)
                | f # _ \<Rightarrow> (Ret (Inr ()), setCurrent f e, ms))
           | startLSN \<Rightarrow>
               (case LocateLSN d (lsnReplica (ecfg e)) (flsn (ecfg e)) of
                  Inl err \<Rightarrow> (Ret (Inl err), e, ms) | Inr entry \<Rightarrow> (Ret (Inr ()), setCurrent entry e, ms))
           | startVClock \<Rightarrow>
               (case LocateVClock d (fvclock (ecfg e)) of
                  Inl err \<Rightarrow> (Ret (Inl err), e, ms) | Inr entry \<Rightarrow> (Ret (Inr ()), setCurrent entry e, ms))
           | startNone \<Rightarrow> (Ret (Inl [Ch ErrNoStart]), e, ms))))"

text \<open>The loop over the index: the entry with the smallest signature above the current one.\<close>

fun successor_loop :: "int64 \<Rightarrow> FileEntry list \<Rightarrow> FileEntry option \<Rightarrow> FileEntry option" where
  "successor_loop sig0 [] best = best"
| "successor_loop sig0 (f # fs) best =
     (if sint (FE_Signature f) \<le> sint sig0 then successor_loop sig0 fs best
      else (case best of
              None \<Rightarrow> successor_loop sig0 fs (Some f)
            | Some b \<Rightarrow> successor_loop sig0 fs (if sint (FE_Signature f) < sint (FE_Signature b) then Some f else best)))"

definition findSuccessor :: "uuidlib \<Rightarrow> moment \<Rightarrow> engine \<Rightarrow> error + FileEntry option" where
  "findSuccessor u m e = (case engine_index u m e of Inl err \<Rightarrow> Inl err
     | Inr d \<Rightarrow>
         (case successor_loop (curSig e) (Files d) None of
            None \<Rightarrow> Inr None
          | Some f \<Rightarrow> if \<not> vclockEqual (FE_PrevVClock f) (curVClock e) then Inl [Ch ErrChainBroken] else Inr (Some f)))"

fun inprogress_loop :: "string \<Rightarrow> int64 \<Rightarrow> (string \<times> bool) list \<Rightarrow> (int64 \<times> string) option \<Rightarrow> (int64 \<times> string) option" where
  "inprogress_loop sfx sig0 [] best = best"
| "inprogress_loop sfx sig0 ((name, isDir) # dents) best =
     (if isDir then inprogress_loop sfx sig0 dents best
      else if \<not> HasSuffix name sfx \<or> \<not> allDigits (TrimSuffix name sfx) then inprogress_loop sfx sig0 dents best
      else (case ParseInt64 (TrimSuffix name sfx) of
              Inl _ \<Rightarrow> inprogress_loop sfx sig0 dents best
            | Inr sig \<Rightarrow>
                if sint sig \<le> sint sig0 then inprogress_loop sfx sig0 dents best
                else (case best of
                        None \<Rightarrow> inprogress_loop sfx sig0 dents (Some (sig, name))
                      | Some (bestSig, _) \<Rightarrow>
                          inprogress_loop sfx sig0 dents (if sint sig < sint bestSig then Some (sig, name) else best))))"

definition findInprogressSuccessor :: "moment \<Rightarrow> engine \<Rightarrow> error + (string \<times> int64) option" where
  "findInprogressSuccessor m e = (case Ext (efiletype e) of Inl err \<Rightarrow> Inl err
     | Inr ext \<Rightarrow>
         (case mDents m (dirPath e) of Inl err \<Rightarrow> Inl err
          | Inr dents \<Rightarrow>
              (case inprogress_loop (ext @ ''.inprogress'') (curSig e) dents None of
                 None \<Rightarrow> Inr None
               | Some (sig, name) \<Rightarrow> Inr (Some (filepath_Join (dirPath e) name, sig)))))"

fun advance_file :: "uuidlib \<Rightarrow> engine \<Rightarrow> moment list \<Rightarrow> unit outcome \<times> engine \<times> moment list" where
  "advance_file u e [] = (Blocked, e, [])"
| "advance_file u e (m # ms) = (case mCtx m of Some err \<Rightarrow> (Ret (Inl err), e, ms) | None \<Rightarrow>
     (case findSuccessor u m e of
        Inl err \<Rightarrow> (Ret (Inl err), e, ms)
      | Inr (Some f) \<Rightarrow> (Ret (Inr ()), setCurrent f e, ms)
      | Inr None \<Rightarrow>
          (case (if readInprogress (ecfg e) then findInprogressSuccessor m e else Inr None) of
             Inl err \<Rightarrow> (Ret (Inl err), e, ms)
           | Inr (Some (ipPath, sig)) \<Rightarrow>
               (Ret (Inr ()), e\<lparr>epath := ipPath, ipSig := sig, isInprogress := True, ipVClock := None, eoff := 0\<rparr>, ms)
           | Inr None \<Rightarrow>
               (case engine_wait m (dirPath e) of Inl err \<Rightarrow> (Ret (Inl err), e, ms) | Inr _ \<Rightarrow> advance_file u e ms))))"

section \<open>The loop over rows\<close>

text \<open>Before a read the reader is given what has been appended to the open file since the last one.\<close>

definition refresh :: "moment \<Rightarrow> engine \<Rightarrow> Reader \<Rightarrow> Reader" where
  "refresh m e r = r\<lparr>br := map_option (\<lambda>b. b\<lparr>br_rest := br_rest b @ drop (look e) (mNow m (epath e))\<rparr>) (br r)\<rparr>"

definition seen_upto :: "moment \<Rightarrow> engine \<Rightarrow> nat" where
  "seen_upto m e = max (look e) (length (mNow m (epath e)))"

definition ret_wait :: "moment \<Rightarrow> string \<Rightarrow> 'a \<Rightarrow> 'a outcome" where
  "ret_wait m path x = (case engine_wait m path of Inl err \<Rightarrow> Ret (Inl err) | Inr _ \<Rightarrow> Ret (Inr x))"

definition onWait :: "moment \<Rightarrow> engine \<Rightarrow> unit outcome \<times> engine" where
  "onWait m e =
     (let e1 = closeReader e in
      if \<not> fileMode e1 \<and> isInprogress e1 then
        (case reswitchToFinalized m e1 of
           (True, e2) \<Rightarrow> (Ret (Inr ()), e2)
         | (False, e2) \<Rightarrow> (ret_wait m (epath e2) (), e2))
      else (ret_wait m (epath e1) (), e1))"

definition onInprogressEOF :: "uuidlib \<Rightarrow> moment \<Rightarrow> bool \<Rightarrow> engine \<Rightarrow> moment list \<Rightarrow> unit outcome \<times> engine \<times> moment list" where
  "onInprogressEOF u m finalized e ms =
     (if finalized then advance_file u (adoptInprogressIdentity e) ms
      else (case reswitchToFinalized m e of
              (True, e1) \<Rightarrow> (Ret (Inr ()), e1, ms)
            | (False, e1) \<Rightarrow> (ret_wait m (epath e1) (), e1, ms)))"

text \<open>The result tells whether the read loop goes on.\<close>

definition onEOF :: "uuidlib \<Rightarrow> moment \<Rightarrow> Reader \<Rightarrow> engine \<Rightarrow> moment list \<Rightarrow> bool outcome \<times> engine \<times> moment list" where
  "onEOF u m r e ms =
     (let finalized = SawEOFMarker r;
          e1 = closeReader (e\<lparr>eoff := Offset r\<rparr>);
          goOn = (\<lambda>(res, e2, ms2). ((case res of Blocked \<Rightarrow> Blocked | Ret (Inl err) \<Rightarrow> Ret (Inl err) | Ret (Inr _) \<Rightarrow> Ret (Inr True)), e2, ms2))
      in if fileMode e1 then (if finalized then (Ret (Inr False), e1, ms) else (ret_wait m (epath e1) True, e1, ms))
         else if \<not> isInprogress e1 then
           (if finalized then goOn (advance_file u e1 ms) else (ret_wait m (epath e1) True, e1, ms))
         else goOn (onInprogressEOF u m finalized e1 ms))"

lemma advance_file_shorter: "advance_file u e ms = (res, e', ms') \<Longrightarrow> length ms' \<le> length ms"
proof (induction u e ms rule: advance_file.induct)
  case (2 u e m ms)
  show ?case
  proof (cases "advance_file u e (m # ms) = advance_file u e ms")
    case True
    then have "length ms' \<le> length ms" if "mCtx m = None" "findSuccessor u m e = Inr None"
        "(if readInprogress (ecfg e) then findInprogressSuccessor m e else Inr None) = Inr None" "engine_wait m (dirPath e) = Inr ()"
      using 2 that by auto
    with 2(2) show ?thesis
      by (auto simp del: if_split split: option.splits sum.splits)
  next
    case False
    with 2(2) show ?thesis by (auto split: option.splits sum.splits)
  qed
qed simp

lemma onEOF_shorter: "onEOF u m r e ms = (res, e', ms') \<Longrightarrow> length ms' \<le> length ms"
  by (auto simp: onEOF_def onInprogressEOF_def Let_def split: if_splits prod.splits bool.splits dest: advance_file_shorter)

text \<open>One round of the loop of \<^verbatim>\<open>next\<close>: it returns, or goes on.\<close>

datatype turn = Stop "XRow outcome" | Onward

definition next_round :: "uuidlib \<Rightarrow> iproto \<Rightarrow> zstd \<Rightarrow> moment \<Rightarrow> engine \<Rightarrow> moment list \<Rightarrow> turn \<times> engine \<times> moment list" where
  "next_round u ip z m e ms = (case mCtx m of Some err \<Rightarrow> (Stop (Ret (Inl err)), e, ms) | None \<Rightarrow>
     (case (if er e = None then engine_open u m e else (None, e)) of
        (Some err, e1) \<Rightarrow> (Stop (Ret (Inl err)), e1, ms)
      | (None, e1) \<Rightarrow>
          (case Next ip z (refresh m e1 (the (er e1))) of (res, r) \<Rightarrow>
             (let e2 = e1\<lparr>er := Some r, look := seen_upto m e1\<rparr> in
              case res of
                Inr row \<Rightarrow> (Stop (Ret (Inr row)), e2\<lparr>eoff := Offset r\<rparr>, ms)
              | Inl err \<Rightarrow>
                  if errors_Is err (Go EOF) then
                    (case onEOF u m r e2 ms of
                       (Ret (Inr True), e3, ms3) \<Rightarrow> (Onward, e3, ms3)
                     | (Ret (Inr False), e3, ms3) \<Rightarrow> (Stop (Ret (Inl [Go EOF])), e3, ms3)
                     | (Ret (Inl err3), e3, ms3) \<Rightarrow> (Stop (Ret (Inl err3)), e3, ms3)
                     | (Blocked, e3, ms3) \<Rightarrow> (Stop Blocked, e3, ms3))
                  else if errors_Is err (Rd ErrTruncated) then
                    (case onWait m (e2\<lparr>eoff := Offset r\<rparr>) of
                       (Ret (Inr _), e3) \<Rightarrow> (Onward, e3, ms)
                     | (Ret (Inl err3), e3) \<Rightarrow> (Stop (Ret (Inl err3)), e3, ms)
                     | (Blocked, e3) \<Rightarrow> (Stop Blocked, e3, ms))
                  else (Stop (Ret (Inl err)), closeReader e2, ms)))))"

lemma next_round_shorter:
  assumes "next_round u ip z m e ms = (t, e', ms')"
  shows "length ms' \<le> length ms"
proof -
  have "ms' = ms \<or> (\<exists>r e2 res e3. onEOF u m r e2 ms = (res, e3, ms'))"
    using assms unfolding next_round_def Let_def
    by (auto split: option.splits prod.splits sum.splits if_splits outcome.splits bool.splits)
  then show ?thesis using onEOF_shorter by auto
qed

function next_loop :: "uuidlib \<Rightarrow> iproto \<Rightarrow> zstd \<Rightarrow> engine \<Rightarrow> moment list \<Rightarrow> XRow outcome \<times> engine \<times> moment list" where
  "next_loop u ip z e [] = (Blocked, e, [])"
| "next_loop u ip z e (m # ms) = (case next_round u ip z m e ms of
     (Onward, e', ms') \<Rightarrow> next_loop u ip z e' ms'
   | (Stop res, e', ms') \<Rightarrow> (res, e', ms'))"
  by pat_completeness auto
termination
  by (relation "measure (\<lambda>(u, ip, z, e, ms). length ms)") (auto dest: next_round_shorter [OF sym])

declare next_loop.simps [simp del]

definition engine_next :: "uuidlib \<Rightarrow> iproto \<Rightarrow> zstd \<Rightarrow> engine \<Rightarrow> moment list \<Rightarrow> XRow outcome \<times> engine \<times> moment list" where
  "engine_next u ip z e ms =
     (if \<not> fileMode e \<and> \<not> started e then
        (case startDir u e ms of
           (Ret (Inr _), e1, ms1) \<Rightarrow> next_loop u ip z (e1\<lparr>started := True\<rparr>) ms1
         | (Ret (Inl err), e1, ms1) \<Rightarrow> (Ret (Inl err), e1, ms1)
         | (Blocked, e1, ms1) \<Rightarrow> (Blocked, e1, ms1))
      else next_loop u ip z e ms)"

lemma startDir_shorter: "startDir u e ms = (res, e', ms') \<Longrightarrow> length ms' \<le> length ms"
  by (induction u e ms rule: startDir.induct) (fastforce split: option.splits sum.splits startMode.splits list.splits)+

lemma next_loop_shorter: "next_loop u ip z e ms = (Ret x, e', ms') \<Longrightarrow> length ms' < length ms"
proof (induction u ip z e ms rule: next_loop.induct)
  case (2 u ip z e m ms)
  obtain t e1 ms1 where r: "next_round u ip z m e ms = (t, e1, ms1)" by (metis prod_cases3)
  then show ?case using 2 next_round_shorter [OF r] by (cases t) (fastforce simp: next_loop.simps)+
qed (simp add: next_loop.simps)

lemma engine_next_shorter: "engine_next u ip z e ms = (Ret (Inr row), e', ms') \<Longrightarrow> length ms' < length ms"
  by (auto simp: engine_next_def split: if_splits prod.splits outcome.splits sum.splits dest!: next_loop_shorter dest: startDir_shorter)

section \<open>The iterators\<close>

definition stopClean :: "error \<Rightarrow> bool" where
  "stopClean err \<longleftrightarrow> errors_Is err (Go EOF) \<or> errors_Is err (Go Canceled) \<or> errors_Is err (Go DeadlineExceeded)"

text \<open>
  \<open>yield\<close> is the body of the consuming loop on a state of its own. The Boolean tells whether the iterator
  has ended; otherwise it is still waiting.
\<close>

function engine_run ::
    "uuidlib \<Rightarrow> iproto \<Rightarrow> zstd \<Rightarrow> ('s \<Rightarrow> error + XRow \<Rightarrow> 's \<times> bool) \<Rightarrow> 's \<Rightarrow> engine \<Rightarrow> moment list \<Rightarrow> 's \<times> bool \<times> engine" where
  "engine_run u ip z yield s e ms = (case engine_next u ip z e ms of
     (Blocked, e', _) \<Rightarrow> (s, False, e')
   | (Ret (Inl err), e', _) \<Rightarrow> if stopClean err then (s, True, closeReader e') else (fst (yield s (Inl err)), True, closeReader e')
   | (Ret (Inr row), e', ms') \<Rightarrow>
       (case yield s (Inr row) of (s', True) \<Rightarrow> engine_run u ip z yield s' e' ms' | (s', False) \<Rightarrow> (s', True, closeReader e')))"
  by pat_completeness auto
termination
  by (relation "measure (\<lambda>(u, ip, z, yield, s, e, ms). length ms)") (auto dest: engine_next_shorter [OF sym])

function engine_runTx ::
    "uuidlib \<Rightarrow> iproto \<Rightarrow> zstd \<Rightarrow> ('s \<Rightarrow> error + Transaction \<Rightarrow> 's \<times> bool) \<Rightarrow> 's \<Rightarrow> XRow list \<Rightarrow> engine \<Rightarrow> moment list \<Rightarrow> 's \<times> bool \<times> engine" where
  "engine_runTx u ip z yield s rows e ms = (case engine_next u ip z e ms of
     (Blocked, e', _) \<Rightarrow> (s, False, e')
   | (Ret (Inl err), e', _) \<Rightarrow>
       if errors_Is err (Go EOF) \<and> length rows > 0 then (fst (yield s (Inl [Rd ErrTruncated])), True, closeReader e')
       else if stopClean err then (s, True, closeReader e') else (fst (yield s (Inl err)), True, closeReader e')
   | (Ret (Inr row), e', ms') \<Rightarrow>
       if IsCommit ip row then
         (case yield s (Inr \<lparr>TxRows = rows @ [row], StartLSN = LSN ((rows @ [row]) ! 0)\<rparr>) of
            (s', True) \<Rightarrow> engine_runTx u ip z yield s' [] e' ms' | (s', False) \<Rightarrow> (s', True, closeReader e'))
       else engine_runTx u ip z yield s (rows @ [row]) e' ms')"
  by pat_completeness auto
termination
  by (relation "measure (\<lambda>(u, ip, z, yield, s, rows, e, ms). length ms)") (auto dest: engine_next_shorter [OF sym])

declare engine_run.simps [simp del] engine_runTx.simps [simp del]

section \<open>The entry points\<close>

definition engine0 :: "fconfig \<Rightarrow> engine" where
  "engine0 c = \<lparr>ecfg = c, er = None, eoff = 0, fileMode = False, epath = [], dirPath = [], efiletype = [], started = False, curSig = 0,
     curVClock = None, isInprogress = False, ipSig = 0, ipVClock = None, look = 0\<rparr>"

definition newFileEngine :: "string \<Rightarrow> FollowOption list \<Rightarrow> engine" where
  "newFileEngine path opts = (let c = applyOptions opts in (engine0 c)\<lparr>fileMode := True, epath := path, eoff := startOffset c\<rparr>)"

definition newDirEngine :: "string \<Rightarrow> Filetype \<Rightarrow> FollowOption list \<Rightarrow> engine" where
  "newDirEngine dirp ft opts = (engine0 (applyOptions opts))\<lparr>dirPath := dirp, efiletype := ft\<rparr>"

definition follow_File where
  "follow_File u ip z path opts yield s ms = engine_run u ip z yield s (newFileEngine path opts) ms"

definition follow_FileTx where
  "follow_FileTx u ip z path opts yield s ms = engine_runTx u ip z yield s [] (newFileEngine path opts) ms"

definition follow_Dir where
  "follow_Dir u ip z dirp ft opts yield s ms = engine_run u ip z yield s (newDirEngine dirp ft opts) ms"

definition follow_DirTx where
  "follow_DirTx u ip z dirp ft opts yield s ms = engine_runTx u ip z yield s [] (newDirEngine dirp ft opts) ms"

record Follower =
  fe :: engine

definition NewFileFollower :: "string \<Rightarrow> FollowOption list \<Rightarrow> Follower" where
  "NewFileFollower path opts = \<lparr>fe = newFileEngine path opts\<rparr>"

definition NewDirFollower :: "string \<Rightarrow> Filetype \<Rightarrow> FollowOption list \<Rightarrow> Follower" where
  "NewDirFollower dirp ft opts = \<lparr>fe = newDirEngine dirp ft opts\<rparr>"

definition Follower_Next :: "uuidlib \<Rightarrow> iproto \<Rightarrow> zstd \<Rightarrow> Follower \<Rightarrow> moment list \<Rightarrow> XRow outcome \<times> Follower \<times> moment list" where
  "Follower_Next u ip z f ms = (case engine_next u ip z (fe f) ms of (res, e, ms') \<Rightarrow> (res, f\<lparr>fe := e\<rparr>, ms'))"

definition Follower_Offset :: "Follower \<Rightarrow> nat" where
  "Follower_Offset f = eoff (fe f)"

definition Follower_Close :: "error option \<Rightarrow> Follower \<Rightarrow> error option \<times> Follower" where
  "Follower_Close cerr f = (case engine_closeReader cerr (fe f) of (err, e) \<Rightarrow> (err, f\<lparr>fe := e\<rparr>))"

end
