(* ===== verification/FollowFile.thy ===== *)
theory FollowFile
  imports Follow
begin

text \<open>
  What a follower of one file delivers while the file grows: every row once, in order, whatever part of the
  file is visible whenever it looks.
\<close>

section \<open>A reader in front of a growing file\<close>

text \<open>The complete file from some block boundary on: blocks that hold \<open>rows\<close>, then the end marker.\<close>

definition rest_rows :: "iproto \<Rightarrow> zstd \<Rightarrow> bytes \<Rightarrow> XRow list \<Rightarrow> bool" where
  "rest_rows ip z rest rows \<longleftrightarrow> (\<exists>blks rowss. list_all2 (good_block ip z) blks rowss \<and> rest = concat blks @ EOFMarker \<and> rows = concat rowss)"

text \<open>
  A reader that stands at byte \<open>at\<close> of a file: behind it the file is \<open>rest\<close>, of which \<open>vis\<close> is visible. It has
  still to deliver \<open>rows\<close>.
\<close>

definition tails :: "iproto \<Rightarrow> zstd \<Rightarrow> readerCfg \<Rightarrow> nat \<Rightarrow> bytes \<Rightarrow> bytes \<Rightarrow> Reader \<Rightarrow> XRow list \<Rightarrow> bool" where
  "tails ip z c at rest vis r rows \<longleftrightarrow> \<not> eofSeen r \<and> \<not> markerSeen r \<and> cfg r = c \<and> consumed r + blockBytes r = at
     \<and> br r = Some \<lparr>br_rest = vis, br_err = [Go EOF]\<rparr> \<and> prefix vis rest \<and> plainOff r \<le> length (plain r)
     \<and> (\<exists>pend later. drop (plainOff r) (plain r) = payload_bytes ip pend \<and> rows_ok ip pend \<and> rest_rows ip z rest later \<and> rows = pend @ later)"

lemma tails_grow: "tails ip z c at rest vis r rows \<Longrightarrow> prefix vis' rest
    \<Longrightarrow> tails ip z c at rest vis' (r\<lparr>br := Some \<lparr>br_rest = vis', br_err = [Go EOF]\<rparr>\<rparr>) rows"
  by (simp add: tails_def)

lemma tails_pending:
  assumes "iproto_ok ip" "tails ip z c at rest vis r rows" "plainOff r < length (plain r)"
  shows "\<exists>row rows' r'. rows = row # rows' \<and> Next ip z r = (Inr (xrow_canon ip row), r') \<and> tails ip z c at rest vis r' rows'"
proof -
  from assms(2) obtain pend later where p: "drop (plainOff r) (plain r) = payload_bytes ip pend" "rows_ok ip pend"
    "rest_rows ip z rest later" "rows = pend @ later" "\<not> eofSeen r" by (auto simp: tails_def)
  with assms(3) obtain row pend' where r: "pend = row # pend'" by (cases pend) (auto simp: payload_bytes_def)
  let ?n = "length (xrow_bytes ip row)"
  have d: "drop (plainOff r) (plain r) = xrow_bytes ip row @ payload_bytes ip pend'" using p(1) r by (simp add: payload_bytes_def)
  have "Next ip z r = (Inr (xrow_canon ip row), r\<lparr>plainOff := plainOff r + ?n\<rparr>)"
    using Next_loaded [OF assms(1) p(5)] p(1,2) r by blast
  moreover have "plainOff r + ?n \<le> length (plain r)" using arg_cong [OF d, of length] assms(3) by simp
  moreover have "drop (plainOff r + ?n) (plain r) = payload_bytes ip pend'" using d by (rule drop_append_drop)
  ultimately show ?thesis using assms(2) p r by (auto simp: tails_def)
qed

section \<open>Loading\<close>

lemma load_round_consumed: "consumed (snd (load_round z r b)) = consumed r"
  by (auto simp: load_round_def handleMissingEOF_def readTxBlock_def scanForwardToMagic_def resync_def stash_block_def set_rest_def Let_def
      split: sum.splits prod.splits option.splits if_splits)

lemma load_loop_consumed: "consumed (snd (load_loop z r b)) = consumed r"
proof (induction z r b rule: load_loop.induct)
  case (1 z r b)
  obtain x r1 where r1: "load_round z r b = (x, r1)" by fastforce
  then have c: "consumed r1 = consumed r" using load_round_consumed [of z r b] by simp
  show ?case
  proof (cases x)
    case (Done res)
    then show ?thesis using r1 c by (simp add: load_loop.simps [of z r b])
  next
    case Again
    then obtain b1 where b1: "br r1 = Some b1" using load_round_left r1 by blast
    from "1.IH" [OF r1 [symmetric, unfolded Again] refl b1] r1 Again c b1 show ?thesis
      by (simp add: load_loop.simps [of z r b])
  qed
qed

lemma tail_short: "0 < length t \<Longrightarrow> length t < MarkerSize \<Longrightarrow> tail_gives z c t [Rd ErrTruncated] (\<lambda>r. True)"
  by (rule tail_round) (auto intro: synced_short simp: load_round_def peekMagic_def Peek_def)

text \<open>An incomplete block or marker gives \<^verbatim>\<open>ErrTruncated\<close>, with the offset where it starts.\<close>

lemma Next_torn:
  assumes "\<not> eofSeen r" "plainOff r \<ge> length (plain r)" "br r = Some \<lparr>br_rest = t, br_err = [Go EOF]\<rparr>"
    and "tail_gives z (cfg r) t [Rd ErrTruncated] (\<lambda>r. True)"
  shows "\<exists>r'. Next ip z r = (Inl [Rd ErrTruncated], r') \<and> Offset r' = consumed r + blockBytes r"
proof -
  let ?b = "\<lparr>br_rest = t, br_err = [Go EOF]\<rparr>"
  have "\<exists>r'. load_loop z (drain_block r) ?b = (Inl [Rd ErrTruncated], r')"
    using assms(3,4) unfolding tail_gives_def by (auto dest!: spec [of _ "drain_block r"] spec [of _ ?b])
  then obtain r' where r': "load_loop z (drain_block r) ?b = (Inl [Rd ErrTruncated], r')" by blast
  then have "consumed r' = consumed r + blockBytes r"
    using load_loop_consumed [of z "drain_block r" ?b] by (simp add: drain_block_def)
  then show ?thesis using assms(1-3) r' by (simp add: Next_def load_rows.simps [of z r] loadNextTx_br Offset_def)
qed

lemma prefix_past: "prefix v (a @ b) \<Longrightarrow> length a \<le> length v \<Longrightarrow> \<exists>w. v = a @ w \<and> prefix w b"
proof -
  assume p: "prefix v (a @ b)" "length a \<le> length v"
  then consider "prefix v a" | w where "v = a @ w" "prefix w b" by (auto simp: prefix_append)
  then show ?thesis
  proof cases
    case 1
    then have "v = a" using p(2) by (auto simp: prefix_def)
    then show ?thesis by simp
  qed blast
qed

lemma prefix_within: "prefix v (a @ b) \<Longrightarrow> length v < length a \<Longrightarrow> v = take (length v) a"
  by (auto simp: prefix_append) (metis append_eq_conv_conj prefix_def)

text \<open>The four things a read can give, and what they mean for what is visible.\<close>

lemma tails_end:
  assumes "iproto_ok ip" "ignoreMissingEOF c" "tails ip z c at rest vis r rows" "plainOff r \<ge> length (plain r)"
  shows "(\<exists>blk rest' vis' r'. rest = blk @ rest' \<and> vis = blk @ vis' \<and> Next ip z r = Next ip z r'
        \<and> tails ip z c (at + length blk) rest' vis' r' rows \<and> plainOff r' < length (plain r'))
    \<or> rest_rows ip z rest rows \<and> vis \<noteq> rest \<and> (\<exists>err r'. Next ip z r = (Inl err, r') \<and> Offset r' = at
        \<and> (err = [Rd ErrTruncated] \<or> err = [Go EOF] \<and> \<not> SawEOFMarker r'))
    \<or> rows = [] \<and> vis = rest \<and> (\<exists>r'. Next ip z r = (Inl [Go EOF], r') \<and> SawEOFMarker r' \<and> Offset r' = at)"
    (is "?load \<or> ?wait \<or> ?done")
proof -
  let ?b = "\<lparr>br_rest = vis, br_err = [Go EOF]\<rparr>"
  from assms(3,4) obtain blks rowss where t: "\<not> eofSeen r" "\<not> markerSeen r" "cfg r = c" "consumed r + blockBytes r = at"
    "br r = Some ?b" "prefix vis rest" "list_all2 (good_block ip z) blks rowss" "rest = concat blks @ EOFMarker" "rows = concat rowss"
    by (auto simp: tails_def rest_rows_def eq_commute [of "[]"])
  have rr: "rest_rows ip z rest rows" using t(7-9) by (auto simp: rest_rows_def)
  have torn: ?wait if "tail_gives z c vis [Rd ErrTruncated] (\<lambda>r. True)" "vis \<noteq> rest"
    using Next_torn [OF t(1) assms(4) t(5)] that t(3,4) rr by fastforce
  show ?thesis
  proof (cases "vis = []")
    case True
    let ?r = "(drain_block r)\<lparr>eofSeen := True\<rparr>"
    have "load_round z (drain_block r) ?b = (Done (Inr ()), ?r)"
      using True assms(2) t(3) by (simp add: load_round_def peekMagic_def Peek_def handleMissingEOF_def)
    then have "Next ip z r = (Inl [Go EOF], ?r)"
      using t(1,5) assms(4) by (simp add: Next_def load_rows.simps [of z r] loadNextTx_br load_loop.simps)
    moreover have "Offset ?r = at" "\<not> SawEOFMarker ?r" using t(2,4) by (simp_all add: Offset_def SawEOFMarker_def drain_block_def)
    moreover have "vis \<noteq> rest" using True t(8) by (simp add: EOFMarker_def)
    ultimately show ?thesis using rr by blast
  next
    case ne: False
    show ?thesis
    proof (cases blks)
      case Nil
      then have rest: "rest = EOFMarker" "rows = []" using t(7-9) by auto
      show ?thesis
      proof (cases "vis = rest")
        case True
        let ?r = "(set_rest (drain_block r) ?b [])\<lparr>eofSeen := True, markerSeen := True\<rparr>"
        have "load_round z (drain_block r) ?b = (Done (Inr ()), ?r)"
          using True rest by (simp add: load_round_def peekMagic_def Peek_def)
        then have "Next ip z r = (Inl [Go EOF], ?r)"
          using t(1,5) assms(4) by (simp add: Next_def load_rows.simps [of z r] loadNextTx_br load_loop.simps)
        moreover have "Offset ?r = at" "SawEOFMarker ?r" using t(4) by (simp_all add: Offset_def SawEOFMarker_def set_rest_def drain_block_def)
        ultimately show ?thesis using True rest(2) by blast
      next
        case False
        then have "length vis < length rest" using t(6) by (metis prefix_length_less strict_prefixI)
        then have "tail_gives z c vis [Rd ErrTruncated] (\<lambda>r. True)" using ne rest by (intro tail_short) simp_all
        then show ?thesis using torn False by blast
      qed
    next
      case (Cons blk blks')
      then obtain brows rowss' where c: "rowss = brows # rowss'" "good_block ip z blk brows" "list_all2 (good_block ip z) blks' rowss'"
        using t(7) by (auto simp: list_all2_Cons1)
      let ?rest = "concat blks' @ EOFMarker"
      have rest: "rest = blk @ ?rest" using t(8) Cons by simp
      show ?thesis
      proof (cases "length blk \<le> length vis")
        case True
        then obtain vis' where v: "vis = blk @ vis'" "prefix vis' ?rest" using prefix_past t(6) unfolding rest by blast
        let ?r = "(drain_block r)\<lparr>br := Some \<lparr>br_rest = vis', br_err = [Go EOF]\<rparr>, plain := payload_bytes ip brows, plainOff := 0, blockBytes := length blk\<rparr>"
        have ok: "brows \<noteq> []" "rows_ok ip brows" using c(2) by (simp_all add: good_block_def)
        then have pl: "payload_bytes ip brows \<noteq> []" by (cases brows) (simp_all add: payload_bytes_def)
        have "load_round z (drain_block r) ?b = (Done (Inr ()), ?r)"
          using load_round_good [OF c(2), of ?b vis' "drain_block r"] v(1) by simp
        then have "load_rows z r = (Inr True, ?r)"
          using t(1,5) assms(4) pl by (simp add: load_rows.simps [of z r] loadNextTx_br load_loop.simps load_rows.simps [of z ?r])
        then have n: "Next ip z r = Next ip z ?r" using t(1) by (intro Next_load_rows) simp_all
        have "rest_rows ip z ?rest (concat rowss')" using c(3) by (auto simp: rest_rows_def)
        then have "tails ip z c (at + length blk) ?rest vis' ?r rows"
          using t(1-5,9) v(2) ok c(1) unfolding tails_def
          by (intro conjI exI [of _ brows] exI [of _ "concat rowss'"]) (simp_all add: drain_block_def)
        then show ?thesis using rest v(1) n pl by (intro disjI1 exI conjI) auto
      next
        case False
        have k: "vis = take (length vis) blk"
          using prefix_within t(6) False unfolding rest by (metis not_le)
        then have "tail_gives z c vis [Rd ErrTruncated] (\<lambda>r. True)"
          using tail_torn [OF c(2), of "length vis" c] ne False by simp
        moreover have "vis \<noteq> rest" using False rest by auto
        ultimately show ?thesis using torn by blast
      qed
    qed
  qed
qed

text \<open>One call of \<^verbatim>\<open>Next\<close>, with the file read up to \<open>k\<close>.\<close>

lemma tails_Next:
  assumes "iproto_ok ip" "ignoreMissingEOF c" "tails ip z c at (drop at f) (drop at (take k f)) r rows"
  shows "(\<exists>row rows' at' r'. rows = row # rows' \<and> Next ip z r = (Inr (xrow_canon ip row), r')
        \<and> at \<le> at' \<and> at' \<le> max at k \<and> tails ip z c at' (drop at' f) (drop at' (take k f)) r' rows')
    \<or> rest_rows ip z (drop at f) rows \<and> k < length f \<and> (\<exists>err r'. Next ip z r = (Inl err, r') \<and> Offset r' = at
        \<and> (err = [Rd ErrTruncated] \<or> err = [Go EOF] \<and> \<not> SawEOFMarker r'))
    \<or> rows = [] \<and> (\<exists>r'. Next ip z r = (Inl [Go EOF], r') \<and> SawEOFMarker r')"
proof (cases "plainOff r < length (plain r)")
  case True
  from tails_pending [OF assms(1,3) this] show ?thesis by auto
next
  case False
  then have "plainOff r \<ge> length (plain r)" by simp
  note fin = tails_end [OF assms this]
  consider blk rest' vis' r1 where "drop at f = blk @ rest'" "drop at (take k f) = blk @ vis'" "Next ip z r = Next ip z r1"
      "tails ip z c (at + length blk) rest' vis' r1 rows" "plainOff r1 < length (plain r1)"
    | "rest_rows ip z (drop at f) rows" "drop at (take k f) \<noteq> drop at f" "\<exists>err r'. Next ip z r = (Inl err, r') \<and> Offset r' = at
        \<and> (err = [Rd ErrTruncated] \<or> err = [Go EOF] \<and> \<not> SawEOFMarker r')"
    | "rows = []" "\<exists>r'. Next ip z r = (Inl [Go EOF], r') \<and> SawEOFMarker r'" using fin by blast
  then show ?thesis
  proof cases
    case 1
    have d: "rest' = drop (at + length blk) f" "vis' = drop (at + length blk) (take k f)"
      using arg_cong [OF 1(1), of "drop (length blk)"] arg_cong [OF 1(2), of "drop (length blk)"] by (simp_all add: add.commute)
    have le: "at + length blk \<le> max at k" using arg_cong [OF 1(2), of length] by (simp split: if_splits)
    from tails_pending [OF assms(1) 1(4,5)] show ?thesis using 1(3) le unfolding d by (metis le_add1)
  next
    case 2
    then have "k < length f" by (metis not_le take_all)
    then show ?thesis using 2 by blast
  qed blast
qed

section \<open>A follower of one file\<close>

text \<open>
  The environment of a file that is being written: whenever the follower opens or reads it, a growing part of
  the finished file \<open>f\<close> is there. The context is not cancelled and waiting does not fail.
\<close>

fun growing :: "string \<Rightarrow> bytes \<Rightarrow> nat \<Rightarrow> moment list \<Rightarrow> bool" where
  "growing p f k [] = True"
| "growing p f k (m # ms) = (mCtx m = None \<and> mWait m p = None \<and> (\<exists>k1 k2. k \<le> k1 \<and> k1 \<le> k2 \<and> k2 \<le> length f
     \<and> mOpen m p = Some (take k1 f) \<and> mNow m p = take k2 f \<and> growing p f k2 ms))"

definition engine_cfg :: "engine \<Rightarrow> readerCfg" where
  "engine_cfg e = apply_options (IgnoreMissingEOF # readerOpts (ecfg e))"

definition following :: "iproto \<Rightarrow> zstd \<Rightarrow> string \<Rightarrow> nat \<Rightarrow> bytes \<Rightarrow> nat \<Rightarrow> engine \<Rightarrow> XRow list \<Rightarrow> bool" where
  "following ip z p hlen f k e rows \<longleftrightarrow> epath e = p \<and> \<not> isInprogress e \<and> hlen \<le> k \<and> k \<le> length f \<and> (case er e of
     None \<Rightarrow> (\<exists>at. at = max hlen (eoff e) \<and> at \<le> k \<and> rest_rows ip z (drop at f) rows)
   | Some r \<Rightarrow> look e = k \<and> (\<exists>at. hlen \<le> at \<and> at \<le> k \<and> tails ip z (engine_cfg e) at (drop at f) (drop at (take k f)) r rows))"

definition reader_options :: "ReaderOption set" where
  "reader_options = {SkipCorruptTx, IgnoreMissingEOF, AcceptV012Opt, WithAliasBodies}"

lemma options_keep_ignore: "set opts \<subseteq> reader_options \<Longrightarrow> ignoreMissingEOF (apply_options (IgnoreMissingEOF # opts))"
proof (induction opts rule: rev_induct)
  case (snoc opt opts)
  then show ?case by (auto simp: apply_options_def reader_options_def SkipCorruptTx_def IgnoreMissingEOF_def AcceptV012Opt_def WithAliasBodies_def)
qed (simp add: apply_options_def IgnoreMissingEOF_def)

lemma OpenAt_tails:
  assumes "uuid_ok u" "meta_ok m" "FormatVer m = LegacyFormatVersion \<longrightarrow> AcceptV012 (metaOpts (apply_options opts))"
    and "EncodeMeta u None (Some m) = Inr hdr" "f = str_bytes hdr @ body" "length hdr \<le> k" "fs p = Some (take k f)"
    and "at = max (length hdr) off" "at \<le> k" "rest_rows ip z (drop at f) rows"
  shows "\<exists>r. OpenAt u fs cerr p off opts = Inr r \<and> rmeta r = meta_canon m
    \<and> tails ip z (apply_options opts) at (drop at f) (drop at (take k f)) r rows"
proof -
  let ?c = "apply_options opts" and ?k = "k - length hdr"
  have f: "take k f = str_bytes hdr @ take ?k body" using assms(5,6) by simp
  obtain hdr' where h: "EncodeMeta u None (Some m) = Inr hdr'"
    "DecodeMeta u (Some (rd hdr' (take ?k body) [Go EOF])) (metaOpts ?c) = (Inr (meta_canon m), Some (rd [] (take ?k body) [Go EOF]))"
    by (rule DecodeMeta_EncodeMeta [OF assms(1,2)]) (use assms(3) in simp)
  let ?b = "\<lparr>br_rest = drop at (take k f), br_err = [Go EOF]\<rparr>"
  let ?r = "(reader_init ?c (Some ?b) (meta_canon m) [] 0 at)\<lparr>owned := True\<rparr>"
  have "newReaderAt u (take k f) off opts = Inr (reader_init ?c (Some ?b) (meta_canon m) [] 0 at)"
    using h assms(4,8) f by (simp add: newReaderAt_def rd_def str_bytes_def Let_def max_def)
  then have "OpenAt u fs cerr p off opts = Inr ?r" using assms(7) by (simp add: OpenAt_def own_or_close_def)
  moreover have "prefix (drop at (take k f)) (drop at f)"
    by (metis append_take_drop_id drop_append prefixI)
  then have "tails ip z ?c at (drop at f) (drop at (take k f)) ?r rows" using assms(10)
    by (auto simp: tails_def reader_init_def payload_bytes_def intro!: exI [of _ "[]"])
  ultimately show ?thesis by (auto simp: reader_init_def)
qed

text \<open>What is known of a followed file: its header is well formed and can be read with the options of the follower.\<close>

definition followable :: "uuidlib \<Rightarrow> iproto \<Rightarrow> fconfig \<Rightarrow> Meta \<Rightarrow> string \<Rightarrow> bytes \<Rightarrow> bool" where
  "followable u ip fc m hdr f \<longleftrightarrow> iproto_ok ip \<and> uuid_ok u \<and> meta_ok m \<and> EncodeMeta u None (Some m) = Inr hdr
     \<and> (FormatVer m = LegacyFormatVersion \<longrightarrow> AcceptV012 (metaOpts (apply_options (IgnoreMissingEOF # readerOpts fc))))
     \<and> set (readerOpts fc) \<subseteq> reader_options \<and> prefix (str_bytes hdr) f"

text \<open>Steps that read the current file change nothing else of the engine.\<close>

definition same_file :: "engine \<Rightarrow> engine \<Rightarrow> bool" where
  "same_file e e' \<longleftrightarrow> ecfg e' = ecfg e \<and> fileMode e' = fileMode e \<and> epath e' = epath e \<and> dirPath e' = dirPath e \<and> efiletype e' = efiletype e
     \<and> started e' = started e \<and> curSig e' = curSig e \<and> curVClock e' = curVClock e \<and> isInprogress e' = isInprogress e"

lemma engine_read:
  assumes "followable u ip (ecfg e) mt hdr f" "following ip z p (length hdr) f k e rows"
    and "k \<le> k1" "k1 \<le> k2" "k2 \<le> length f" "mOpen m p = Some (take k1 f)" "mNow m p = take k2 f"
  shows "\<exists>e1 r at. (if er e = None then engine_open u m e else (None, e)) = (None, e1) \<and> same_file e e1
    \<and> refresh m e1 (the (er e1)) = r \<and> seen_upto m e1 = k2 \<and> length hdr \<le> at \<and> at \<le> k2
    \<and> tails ip z (engine_cfg e) at (drop at f) (drop at (take k2 f)) r rows"
proof -
  have e: "epath e = p" "\<not> isInprogress e" "length hdr \<le> k" using assms(2) by (simp_all add: following_def)
  have pre: "prefix (drop at (take k2 f)) (drop at f)" for at by (metis append_take_drop_id drop_append prefixI)
  have glue: "drop at (take j f) @ drop j (take k2 f) = drop at (take k2 f)" if "at \<le> j" "j \<le> k2" for at j
  proof -
    have "take k2 f = take j f @ drop j (take k2 f)" using that(2) by (metis append_take_drop_id min.absorb1 take_take)
    then have "drop at (take k2 f) = drop at (take j f @ drop j (take k2 f))" by simp
    then show ?thesis using that assms(5) by simp
  qed
  show ?thesis
  proof (cases "er e")
    case None
    define at where "at = max (length hdr) (eoff e)"
    have at: "at \<le> k" "rest_rows ip z (drop at f) rows" using assms(2) None by (simp_all add: following_def at_def)
    obtain body where f: "f = str_bytes hdr @ body" using assms(1) by (auto simp: followable_def prefix_def)
    have ok: "uuid_ok u" "meta_ok mt" "EncodeMeta u None (Some mt) = Inr hdr"
      "FormatVer mt = LegacyFormatVersion \<longrightarrow> AcceptV012 (metaOpts (apply_options (IgnoreMissingEOF # readerOpts (ecfg e))))"
      using assms(1) by (simp_all add: followable_def)
    have le: "length hdr \<le> k1" "at \<le> k1" using e(3) assms(3) at(1) by simp_all
    obtain r0 where r0: "OpenAt u (mOpen m) (mCerr m) p (eoff e) (IgnoreMissingEOF # readerOpts (ecfg e)) = Inr r0"
      "tails ip z (engine_cfg e) at (drop at f) (drop at (take k1 f)) r0 rows"
      using OpenAt_tails [OF ok(1,2,4,3) f le(1) _ at_def le(2) at(2), of "mOpen m" p "mCerr m"] assms(6) by (auto simp: engine_cfg_def)
    let ?e1 = "e\<lparr>er := Some r0, look := k1\<rparr>"
    have "max (eoff e) (length (take k1 f)) = k1" using at(1) assms(3,4,5) by (simp add: at_def)
    then have o: "engine_open u m e = (None, ?e1)" using r0(1) e(1,2) assms(6) by (simp add: engine_open_def)
    have "br r0 = Some \<lparr>br_rest = drop at (take k1 f), br_err = [Go EOF]\<rparr>" using r0(2) by (simp add: tails_def)
    then have "refresh m ?e1 r0 = r0\<lparr>br := Some \<lparr>br_rest = drop at (take k2 f), br_err = [Go EOF]\<rparr>\<rparr>"
      using glue [OF le(2) assms(4)] e(1) assms(7) by (simp add: refresh_def)
    then have "tails ip z (engine_cfg e) at (drop at f) (drop at (take k2 f)) (refresh m ?e1 r0) rows"
      using tails_grow [OF r0(2) pre] by simp
    moreover have "seen_upto m ?e1 = k2" using e(1) assms(4,5,7) by (simp add: seen_upto_def)
    ultimately show ?thesis using None o le assms(4)
      by (intro exI [of _ ?e1] exI [of _ "refresh m ?e1 r0"] exI [of _ at]) (simp add: same_file_def at_def)
  next
    case (Some r0)
    then obtain at where at: "look e = k" "length hdr \<le> at" "at \<le> k"
      "tails ip z (engine_cfg e) at (drop at f) (drop at (take k f)) r0 rows" using assms(2) by (auto simp: following_def)
    have "br r0 = Some \<lparr>br_rest = drop at (take k f), br_err = [Go EOF]\<rparr>" using at(4) by (simp add: tails_def)
    then have "refresh m e r0 = r0\<lparr>br := Some \<lparr>br_rest = drop at (take k2 f), br_err = [Go EOF]\<rparr>\<rparr>"
      using glue [OF at(3), of] at(1) e(1) assms(3,4,7) by (simp add: refresh_def)
    then have "tails ip z (engine_cfg e) at (drop at f) (drop at (take k2 f)) (refresh m e r0) rows"
      using tails_grow [OF at(4) pre] by simp
    moreover have "seen_upto m e = k2" using e(1) at(1) assms(3,4,5,7) by (simp add: seen_upto_def)
    ultimately show ?thesis using Some at assms(3,4)
      by (intro exI [of _ e] exI [of _ "refresh m e r0"] exI [of _ at]) (simp add: same_file_def)
  qed
qed

text \<open>
  One round of the loop on the current file: a row is returned; or nothing is there yet, the file is not
  complete, and the loop goes on after waiting; or the file is finished and all its rows are delivered.
\<close>

definition finished_turn :: "uuidlib \<Rightarrow> engine \<Rightarrow> moment list \<Rightarrow> turn \<times> engine \<times> moment list" where
  "finished_turn u e ms = (if fileMode e then (Stop (Ret (Inl [Go EOF])), e, ms)
     else (case advance_file u e ms of (Blocked, e', ms') \<Rightarrow> (Stop Blocked, e', ms')
       | (Ret (Inl err), e', ms') \<Rightarrow> (Stop (Ret (Inl err)), e', ms') | (Ret (Inr _), e', ms') \<Rightarrow> (Onward, e', ms')))"

lemma next_round_cases:
  assumes "followable u ip (ecfg e) mt hdr f" "following ip z p (length hdr) f k e rows" "mCtx m = None" "mWait m p = None"
    and "k \<le> k1" "k1 \<le> k2" "k2 \<le> length f" "mOpen m p = Some (take k1 f)" "mNow m p = take k2 f"
  shows "\<exists>e'. same_file e e' \<and>
    ((\<exists>row rows'. rows = row # rows' \<and> next_round u ip z m e ms = (Stop (Ret (Inr (xrow_canon ip row))), e', ms)
        \<and> following ip z p (length hdr) f k2 e' rows')
     \<or> next_round u ip z m e ms = (Onward, e', ms) \<and> following ip z p (length hdr) f k2 e' rows \<and> k2 < length f
     \<or> rows = [] \<and> er e' = None \<and> next_round u ip z m e ms = finished_turn u e' ms)"
proof -
  obtain e1 r at where o: "(if er e = None then engine_open u m e else (None, e)) = (None, e1)" "same_file e e1"
    "refresh m e1 (the (er e1)) = r" "seen_upto m e1 = k2" "length hdr \<le> at" "at \<le> k2"
    "tails ip z (engine_cfg e) at (drop at f) (drop at (take k2 f)) r rows"
    using engine_read [OF assms(1,2,5-9)] by blast
  have e: "epath e = p" "\<not> isInprogress e" "length hdr \<le> k2" using assms(2,5,6) by (simp_all add: following_def)
  have sf: "ecfg e1 = ecfg e" "fileMode e1 = fileMode e" "epath e1 = p" "\<not> isInprogress e1" "engine_cfg e1 = engine_cfg e"
    using o(2) e by (simp_all add: same_file_def engine_cfg_def)
  note unf = next_round_def assms(3) o(1,3,4) Let_def
  have ign: "ignoreMissingEOF (engine_cfg e)" "iproto_ok ip" using assms(1) options_keep_ignore by (auto simp: engine_cfg_def followable_def)
  from tails_Next [OF ign(2,1) o(7)] consider
      row rows' at' r' where "rows = row # rows'" "Next ip z r = (Inr (xrow_canon ip row), r')" "at \<le> at'" "at' \<le> max at k2"
        "tails ip z (engine_cfg e) at' (drop at' f) (drop at' (take k2 f)) r' rows'"
    | err r' where "rest_rows ip z (drop at f) rows" "k2 < length f" "Next ip z r = (Inl err, r')" "Offset r' = at"
        "err = [Rd ErrTruncated] \<or> err = [Go EOF] \<and> \<not> SawEOFMarker r'"
    | r' where "rows = []" "Next ip z r = (Inl [Go EOF], r')" "SawEOFMarker r'" by blast
  then show ?thesis
  proof cases
    case 1
    let ?e = "e1\<lparr>er := Some r', look := k2, eoff := Offset r'\<rparr>"
    have "next_round u ip z m e ms = (Stop (Ret (Inr (xrow_canon ip row))), ?e, ms)" by (simp add: unf 1(2))
    moreover have "following ip z p (length hdr) f k2 ?e rows'"
      using 1(3-5) o(5,6) e(3) sf assms(7) by (auto simp: following_def engine_cfg_def intro!: exI [of _ at'])
    moreover have "same_file e ?e" using o(2) by (simp add: same_file_def)
    ultimately show ?thesis using 1(1) by blast
  next
    case 2
    let ?e = "e1\<lparr>er := None, look := k2, eoff := at\<rparr>"
    have "next_round u ip z m e ms = (Onward, ?e, ms)" using 2(5)
    proof
      assume "err = [Rd ErrTruncated]"
      then show ?thesis using 2(3,4) sf assms(4)
        by (simp add: unf onWait_def closeReader_def ret_wait_def engine_wait_def)
    next
      assume "err = [Go EOF] \<and> \<not> SawEOFMarker r'"
      then show ?thesis using 2(3,4) sf assms(4)
        by (simp add: unf onEOF_def closeReader_def ret_wait_def engine_wait_def)
    qed
    moreover have "following ip z p (length hdr) f k2 ?e rows"
      using 2(1) o(5,6) e(3) sf assms(7) by (simp add: following_def max_def)
    moreover have "same_file e ?e" using o(2) by (simp add: same_file_def)
    ultimately show ?thesis using 2(2) by blast
  next
    case 3
    let ?e = "e1\<lparr>look := k2, eoff := Offset r', er := None\<rparr>"
    have "next_round u ip z m e ms = finished_turn u ?e ms"
      using 3(2,3) sf by (auto simp: unf onEOF_def closeReader_def finished_turn_def split: prod.splits outcome.splits sum.splits)
    moreover have "same_file e ?e" using o(2) by (simp add: same_file_def)
    moreover have "er ?e = None" by simp
    ultimately show ?thesis using 3(1) by blast
  qed
qed

section \<open>Delivery\<close>

text \<open>The rounds in which the follower sees the whole file.\<close>

definition complete_rounds :: "string \<Rightarrow> bytes \<Rightarrow> moment list \<Rightarrow> nat" where
  "complete_rounds p f ms = length (filter (\<lambda>m. mNow m p = f) ms)"

lemma engine_run_next:
  assumes "fileMode e \<or> started e" "next_loop u ip z e ms = x"
  shows "engine_run u ip z yield s e ms = (case x of
     (Blocked, e', _) \<Rightarrow> (s, False, e')
   | (Ret (Inl err), e', _) \<Rightarrow> if stopClean err then (s, True, closeReader e') else (fst (yield s (Inl err)), True, closeReader e')
   | (Ret (Inr row), e', ms') \<Rightarrow>
       (case yield s (Inr row) of (s', True) \<Rightarrow> engine_run u ip z yield s' e' ms' | (s', False) \<Rightarrow> (s', True, closeReader e')))"
  using assms by (subst engine_run.simps) (auto simp: engine_next_def)

lemma engine_run_round:
  assumes "fileMode e \<or> started e" "fileMode e' \<or> started e'"
  shows "next_round u ip z m e ms = (Onward, e', ms') \<Longrightarrow> engine_run u ip z yield s e (m # ms) = engine_run u ip z yield s e' ms'"
    "next_round u ip z m e ms = (Stop (Ret (Inr row)), e', ms') \<Longrightarrow> yield s (Inr row) = (s', True)
      \<Longrightarrow> engine_run u ip z yield s e (m # ms) = engine_run u ip z yield s' e' ms'"
    "next_round u ip z m e ms = (Stop Blocked, e', ms') \<Longrightarrow> engine_run u ip z yield s e (m # ms) = (s, False, e')"
    "next_round u ip z m e ms = (Stop (Ret (Inl err)), e', ms') \<Longrightarrow> engine_run u ip z yield s e (m # ms)
      = (if stopClean err then (s, True, closeReader e') else (fst (yield s (Inl err)), True, closeReader e'))"
  using engine_run_next [OF assms(1) refl, where ms = "m # ms" and yield = yield and s = s and u = u and ip = ip and z = z]
    engine_run_next [OF assms(2) refl, where ms = ms' and yield = yield and s = s and u = u and ip = ip and z = z]
  by (simp_all add: next_loop.simps)

lemma follow_run:
  assumes "followable u ip (ecfg e) mt hdr f" "following ip z p (length hdr) f k e rows" "fileMode e" "growing p f k ms"
  shows "\<exists>n e' fin. engine_run u ip z collect acc e ms = (acc @ map (\<lambda>row. Inr (xrow_canon ip row)) (take n rows), fin, e')
    \<and> (fin \<longrightarrow> take n rows = rows) \<and> (complete_rounds p f ms > length rows \<longrightarrow> fin)"
  using assms
proof (induction ms arbitrary: e k rows acc)
  case Nil
  then have "engine_run u ip z collect acc e [] = (acc, False, e)"
    by (subst engine_run_next [OF _ refl]) (simp_all add: next_loop.simps)
  then show ?case by (intro exI [of _ 0] exI [of _ e] exI [of _ False]) (simp add: complete_rounds_def)
next
  case (Cons m ms)
  from Cons.prems(4) obtain k1 k2 where g: "mCtx m = None" "mWait m p = None" "k \<le> k1" "k1 \<le> k2" "k2 \<le> length f"
    "mOpen m p = Some (take k1 f)" "mNow m p = take k2 f" "growing p f k2 ms" by auto
  obtain e1 where e1: "same_file e e1" and c: "(\<exists>row rows'. rows = row # rows' \<and> next_round u ip z m e ms = (Stop (Ret (Inr (xrow_canon ip row))), e1, ms)
        \<and> following ip z p (length hdr) f k2 e1 rows')
     \<or> next_round u ip z m e ms = (Onward, e1, ms) \<and> following ip z p (length hdr) f k2 e1 rows \<and> k2 < length f
     \<or> rows = [] \<and> er e1 = None \<and> next_round u ip z m e ms = finished_turn u e1 ms"
    using next_round_cases [OF Cons.prems(1,2) g(1-7)] by blast
  have f1: "followable u ip (ecfg e1) mt hdr f" "fileMode e1" "fileMode e \<or> started e" "fileMode e1 \<or> started e1"
    using e1 Cons.prems(1,3) by (simp_all add: same_file_def)
  note run = engine_run_round [OF f1(3,4), where s = acc and yield = collect]
  have cr: "complete_rounds p f (m # ms) = (if k2 = length f then 1 else 0) + complete_rounds p f ms"
    using g(5,7) by (auto simp: complete_rounds_def)
  from c consider row rows' where "rows = row # rows'" "next_round u ip z m e ms = (Stop (Ret (Inr (xrow_canon ip row))), e1, ms)"
      "following ip z p (length hdr) f k2 e1 rows'"
    | "next_round u ip z m e ms = (Onward, e1, ms)" "following ip z p (length hdr) f k2 e1 rows" "k2 < length f"
    | "rows = []" "next_round u ip z m e ms = (Stop (Ret (Inl [Go EOF])), e1, ms)" using f1(2) by (auto simp: finished_turn_def)
  then show ?case
  proof cases
    case 1
    from Cons.IH [OF f1(1) 1(3) f1(2) g(8), of "acc @ [Inr (xrow_canon ip row)]"] obtain n e' fin where
      r: "engine_run u ip z collect (acc @ [Inr (xrow_canon ip row)]) e1 ms
        = ((acc @ [Inr (xrow_canon ip row)]) @ map (\<lambda>row. Inr (xrow_canon ip row)) (take n rows'), fin, e')"
      "fin \<longrightarrow> take n rows' = rows'" "complete_rounds p f ms > length rows' \<longrightarrow> fin" by blast
    then show ?thesis using run(2) [OF 1(2) refl] 1(1) cr
      by (intro exI [of _ "Suc n"] exI [of _ e'] exI [of _ fin]) auto
  next
    case 2
    from Cons.IH [OF f1(1) 2(2) f1(2) g(8), of acc] run(1) [OF 2(1)] cr 2(3) show ?thesis by simp
  next
    case 3
    from run(4) [OF 3(2)] have "engine_run u ip z collect acc e (m # ms) = (acc, True, closeReader e1)" by (simp add: stopClean_def)
    then show ?thesis using 3(1) by (intro exI [of _ 0] exI [of _ "closeReader e1"] exI [of _ True]) simp
  qed
qed

section \<open>Transactions\<close>

text \<open>Rows grouped at the commit rows: the transactions, and the rows of one that is still open.\<close>

fun group_rows :: "iproto \<Rightarrow> XRow list \<Rightarrow> XRow list \<Rightarrow> XRow list list \<times> XRow list" where
  "group_rows ip open_tx [] = ([], open_tx)"
| "group_rows ip open_tx (row # rows) =
     (if IsCommit ip row then (case group_rows ip [] rows of (txs, pend) \<Rightarrow> ((open_tx @ [row]) # txs, pend))
      else group_rows ip (open_tx @ [row]) rows)"

lemma runTx_groups:
  "\<exists>rows errs errs' fin e'. engine_run u ip z collect acc e ms = (acc @ map Inr rows @ map Inl errs, fin, e')
    \<and> engine_runTx u ip z collect acc' open_tx e ms = (acc' @ map (\<lambda>tx. Inr (tx_of tx)) (fst (group_rows ip open_tx rows)) @ map Inl errs', fin, e')
    \<and> (errs' = errs \<or> errs = [] \<and> errs' = [[Rd ErrTruncated]] \<and> fin \<and> snd (group_rows ip open_tx rows) \<noteq> [])"
proof (induction ms arbitrary: acc acc' open_tx e rule: length_induct)
  case (1 ms)
  obtain x e1 ms1 where n: "engine_next u ip z e ms = (x, e1, ms1)" by (metis prod_cases3)
  note run = engine_run.simps [of u ip z collect acc e ms] engine_runTx.simps [of u ip z collect acc' open_tx e ms]
  show ?case
  proof (cases "\<exists>row. x = Ret (Inr row)")
    case False
    then consider "x = Blocked" | err where "x = Ret (Inl err)" by (metis outcome.exhaust sum.exhaust)
    then show ?thesis
    proof cases
      case 1
      then show ?thesis using n run by (intro exI [of _ "[]"] exI [of _ False] exI [of _ e1]) simp
    next
      case (2 err)
      let ?errs = "if stopClean err then [] else [err]" and ?cut = "errors_Is err (Go EOF) \<and> length open_tx > 0"
      show ?thesis
        using n run 2 by (intro exI [of _ "[]"] exI [of _ ?errs] exI [of _ "if ?cut then [[Rd ErrTruncated]] else ?errs"]
            exI [of _ True] exI [of _ "closeReader e1"]) (simp add: stopClean_def)
    qed
  next
    case True
    then obtain row where x: "x = Ret (Inr row)" by blast
    have sh: "length ms1 < length ms" using engine_next_shorter n x by blast
    show ?thesis
    proof (cases "IsCommit ip row")
      case True
      from "1.IH" [rule_format, OF sh, of "acc @ [Inr row]" e1 "acc' @ [Inr (tx_of (open_tx @ [row]))]" "[]"]
      obtain rows errs errs' fin e' where
        i: "engine_run u ip z collect (acc @ [Inr row]) e1 ms1 = ((acc @ [Inr row]) @ map Inr rows @ map Inl errs, fin, e')"
          "engine_runTx u ip z collect (acc' @ [Inr (tx_of (open_tx @ [row]))]) [] e1 ms1
            = ((acc' @ [Inr (tx_of (open_tx @ [row]))]) @ map (\<lambda>tx. Inr (tx_of tx)) (fst (group_rows ip [] rows)) @ map Inl errs', fin, e')"
          "errs' = errs \<or> errs = [] \<and> errs' = [[Rd ErrTruncated]] \<and> fin \<and> snd (group_rows ip [] rows) \<noteq> []" by blast
      then show ?thesis using n run x True
        by (intro exI [of _ "row # rows"] exI [of _ errs] exI [of _ errs'] exI [of _ fin] exI [of _ e']) (auto simp: tx_of_def split: prod.split)
    next
      case False
      from "1.IH" [rule_format, OF sh, of "acc @ [Inr row]" e1 acc' "open_tx @ [row]"] obtain rows errs errs' fin e' where
        i: "engine_run u ip z collect (acc @ [Inr row]) e1 ms1 = ((acc @ [Inr row]) @ map Inr rows @ map Inl errs, fin, e')"
          "engine_runTx u ip z collect acc' (open_tx @ [row]) e1 ms1
            = (acc' @ map (\<lambda>tx. Inr (tx_of tx)) (fst (group_rows ip (open_tx @ [row]) rows)) @ map Inl errs', fin, e')"
          "errs' = errs \<or> errs = [] \<and> errs' = [[Rd ErrTruncated]] \<and> fin \<and> snd (group_rows ip (open_tx @ [row]) rows) \<noteq> []" by blast
      then show ?thesis using n run x False
        by (intro exI [of _ "row # rows"] exI [of _ errs] exI [of _ errs'] exI [of _ fin] exI [of _ e']) auto
    qed
  qed
qed

section \<open>Properties\<close>

text \<open>
  C8: a follower of a file that is still being written delivers its rows, in order, each once, and ends when
  the file is finished. At every look, to open the file and to read on, the follower may see any growing part
  of the finished file, cut anywhere. What it has delivered is always an initial part of the rows from its
  start offset on; when it ends, it has delivered all of them; and it does end, once it has seen the complete
  file in more rounds than there are rows.
\<close>

theorem follow_file_delivers:
  assumes "followable u ip (applyOptions opts) mt hdr f" "f = str_bytes hdr @ concat blks1 @ concat blks @ EOFMarker"
    and "list_all2 (good_block ip z) blks rowss"
    and "max (length hdr) (startOffset (applyOptions opts)) = length (str_bytes hdr @ concat blks1)"
    and "growing path f (length (str_bytes hdr @ concat blks1)) ms"
  shows "\<exists>n e fin. follow_File u ip z path opts collect [] ms = (map (\<lambda>row. Inr (xrow_canon ip row)) (take n (concat rowss)), fin, e)
    \<and> (fin \<longrightarrow> take n (concat rowss) = concat rowss) \<and> (complete_rounds path f ms > length (concat rowss) \<longrightarrow> fin)"
proof -
  let ?e = "newFileEngine path opts" and ?at = "length (str_bytes hdr @ concat blks1)"
  have e: "ecfg ?e = applyOptions opts" "fileMode ?e" "er ?e = None" "epath ?e = path" "\<not> isInprogress ?e" "eoff ?e = startOffset (applyOptions opts)"
    by (simp_all add: newFileEngine_def engine0_def Let_def)
  have "rest_rows ip z (drop ?at f) (concat rowss)" using assms(2,3) by (auto simp: rest_rows_def)
  then have "following ip z path (length hdr) f ?at ?e (concat rowss)" using e assms(2,4) by (simp add: following_def)
  from follow_run [OF _ this e(2) assms(5), of u mt "[]"] assms(1) e(1) show ?thesis by (simp add: follow_File_def)
qed

text \<open>A look at a file of which \<open>k\<close> bytes are there.\<close>

definition glimpse :: "bytes \<Rightarrow> nat \<Rightarrow> moment" where
  "glimpse f k = \<lparr>mCtx = None, mOpen = (\<lambda>_. Some (take k f)), mNow = (\<lambda>_. take k f), mExists = (\<lambda>_. True), mIndex = (\<lambda>_. None),
     mListing = (\<lambda>_. Inr []), mDents = (\<lambda>_. Inr []), mCerr = None, mWait = (\<lambda>_. None)\<rparr>"

lemma growing_glimpse: "k \<le> j \<Longrightarrow> j \<le> length f \<Longrightarrow> growing p f j ms \<Longrightarrow> growing p f k (glimpse f j # ms)"
  by (auto simp: glimpse_def)

lemma applyOptions_default: "readerOpts (applyOptions []) = []" "startOffset (applyOptions []) = 0"
  by (simp_all add: applyOptions_def fconfig_resolve_def defaultConfig_def)

lemma sample_followable:
  assumes "EncodeMeta uuid_hex None (Some sample_meta) = Inr hdr" "prefix (str_bytes hdr) f" "readerOpts fc = []"
  shows "followable uuid_hex iproto_numbers fc sample_meta hdr f"
  using assms iproto_numbers_ok uuid_hex_ok sample_meta_ok by (simp add: followable_def sample_legacy)

theorem follow_file_delivers_witness:
  "\<exists>f e. follow_File uuid_hex iproto_numbers zstd_store ''a.xlog'' [] collect []
      [glimpse f (length f - 5), glimpse f (length f - 3), glimpse f (length f), glimpse f (length f), glimpse f (length f)]
    = (map (\<lambda>row. Inr (xrow_canon iproto_numbers row)) sample_tx, True, e)"
proof -
  obtain hdr b where s: "EncodeMeta uuid_hex None (Some sample_meta) = Inr hdr" "good_block iproto_numbers zstd_store b sample_tx"
    using sample_hdr sample_block by blast
  let ?f = "str_bytes hdr @ concat [] @ concat [b] @ EOFMarker"
  let ?n = "length ?f" and ?g = "glimpse (str_bytes hdr @ concat [] @ concat [b] @ EOFMarker)"
  let ?ms = "[?g (?n - 5), ?g (?n - 3), ?g ?n, ?g ?n, ?g ?n]"
  have "b \<noteq> []" using good_block_layout [OF s(2)] by (metis FixheaderSize_def append_is_Nil_conv list.size(3) zero_neq_numeral)
  then have len: "length hdr \<le> ?n - 5" by (cases b) (simp_all add: EOFMarker_def)
  have 1: "followable uuid_hex iproto_numbers (applyOptions []) sample_meta hdr ?f"
    by (rule sample_followable [OF s(1)]) (simp_all add: applyOptions_default)
  have 2: "list_all2 (good_block iproto_numbers zstd_store) [b] [sample_tx]" using s(2) by simp
  have 3: "max (length hdr) (startOffset (applyOptions [])) = length (str_bytes hdr @ concat [])" by (simp add: applyOptions_default)
  have 4: "growing ''a.xlog'' ?f (length (str_bytes hdr @ concat [])) ?ms"
    by (intro growing_glimpse) (use len in simp_all)
  have 5: "complete_rounds ''a.xlog'' ?f ?ms > length (concat [sample_tx])"
    by (simp add: complete_rounds_def glimpse_def sample_tx_def)
  from follow_file_delivers [OF 1 refl 2 3 4] obtain n e fin where
    r: "follow_File uuid_hex iproto_numbers zstd_store ''a.xlog'' [] collect [] ?ms
        = (map (\<lambda>row. Inr (xrow_canon iproto_numbers row)) (take n (concat [sample_tx])), fin, e)"
      "fin \<longrightarrow> take n (concat [sample_tx]) = concat [sample_tx]" "complete_rounds ''a.xlog'' ?f ?ms > length (concat [sample_tx]) \<longrightarrow> fin"
    by blast
  then have "fin" "take n (concat [sample_tx]) = sample_tx" using 5 by auto
  with r(1) show ?thesis by (intro exI [of _ ?f] exI [of _ e]) (simp only:)
qed


end
