(* ===== verification/FollowDir.thy ===== *)
theory FollowDir
  imports FollowFile
begin

text \<open>
  What a follower of a directory delivers: the rows of the chain, file after file, while the files of the
  chain are published one by one.
\<close>

section \<open>The next file of a chain\<close>

lemma successor_loop_none: "\<forall>f\<in>set fs. sint (FE_Signature f) \<le> sint sig0 \<Longrightarrow> successor_loop sig0 fs best = best"
  by (induction fs) simp_all

lemma successor_loop_kept:
  "\<forall>f\<in>set fs. sint (FE_Signature b) < sint (FE_Signature f) \<Longrightarrow> successor_loop sig0 fs (Some b) = Some b"
  by (induction fs) auto

lemma successor_loop_first:
  assumes "\<forall>f\<in>set xs. sint (FE_Signature f) \<le> sint sig0" "sint sig0 < sint (FE_Signature f)"
    and "\<forall>y\<in>set ys. sint (FE_Signature f) < sint (FE_Signature y)"
  shows "successor_loop sig0 (xs @ f # ys) None = Some f"
  using assms(1) by (induction xs) (use assms(2,3) in \<open>simp_all add: successor_loop_kept\<close>)

text \<open>A file of a chain: its entry in the index, its header and bytes, and its rows.\<close>

record chain_file =
  cfEntry :: FileEntry
  cfMeta :: Meta
  cfHdr :: string
  cfBytes :: bytes
  cfRows :: "XRow list"

text \<open>Complete files with ascending signatures, each linked to the clock of the one before.\<close>

definition chain_ok :: "uuidlib \<Rightarrow> iproto \<Rightarrow> zstd \<Rightarrow> fconfig \<Rightarrow> chain_file list \<Rightarrow> bool" where
  "chain_ok u ip z fc cs \<longleftrightarrow> (\<forall>c\<in>set cs. followable u ip fc (cfMeta c) (cfHdr c) (cfBytes c)
       \<and> rest_rows ip z (drop (length (cfHdr c)) (cfBytes c)) (cfRows c))
     \<and> sorted_wrt (\<lambda>a b. sint (FE_Signature (cfEntry a)) < sint (FE_Signature (cfEntry b))) cs
     \<and> (\<forall>i. Suc i < length cs \<longrightarrow> vclockEqual (FE_PrevVClock (cfEntry (cs ! Suc i))) (FE_VClock (cfEntry (cs ! i))))"

text \<open>
  The environment of a chain that is being written: at every look the first files of it are there, complete,
  and more of them as time goes on. The context is not cancelled and waiting does not fail.
\<close>

fun publishing :: "uuidlib \<Rightarrow> string \<Rightarrow> Filetype \<Rightarrow> chain_file list \<Rightarrow> nat \<Rightarrow> moment list \<Rightarrow> bool" where
  "publishing u d ft cs j [] = True"
| "publishing u d ft cs j (m # ms) = (mCtx m = None \<and> (\<forall>p. mWait m p = None)
     \<and> (\<exists>j' D. j \<le> j' \<and> j' \<le> length cs \<and> OpenDir u (mIndex m) (mListing m) (mCerr m) d ft = Inr D
         \<and> Files D = map cfEntry (take j' cs)
         \<and> (\<forall>c\<in>set (take j' cs). mOpen m (FE_Path (cfEntry c)) = Some (cfBytes c) \<and> mNow m (FE_Path (cfEntry c)) = cfBytes c)
         \<and> publishing u d ft cs j' ms))"

text \<open>The rounds in which the whole chain is there.\<close>

definition full_rounds :: "uuidlib \<Rightarrow> string \<Rightarrow> Filetype \<Rightarrow> chain_file list \<Rightarrow> moment list \<Rightarrow> nat" where
  "full_rounds u d ft cs ms = length (filter (\<lambda>m. \<exists>D. OpenDir u (mIndex m) (mListing m) (mCerr m) d ft = Inr D
     \<and> Files D = map cfEntry cs) ms)"

definition at_file :: "string \<Rightarrow> Filetype \<Rightarrow> chain_file \<Rightarrow> engine \<Rightarrow> bool" where
  "at_file d ft c e \<longleftrightarrow> \<not> fileMode e \<and> started e \<and> \<not> isInprogress e \<and> \<not> readInprogress (ecfg e) \<and> dirPath e = d \<and> efiletype e = ft
     \<and> epath e = FE_Path (cfEntry c) \<and> curSig e = FE_Signature (cfEntry c) \<and> curVClock e = FE_VClock (cfEntry c)"

lemma at_file_same: "same_file e e' \<Longrightarrow> at_file d ft c e \<Longrightarrow> at_file d ft c e'"
  by (simp add: same_file_def at_file_def)

lemma findSuccessor_chain:
  assumes "chain_ok u ip z fc cs" "at_file d ft (cs ! i) e" "i < length cs" "j \<le> length cs" "i < j"
    and "OpenDir u (mIndex m) (mListing m) (mCerr m) d ft = Inr D" "Files D = map cfEntry (take j cs)"
  shows "findSuccessor u m e = Inr (if Suc i < j then Some (cfEntry (cs ! Suc i)) else None)"
proof -
  let ?sig = "\<lambda>c. sint (FE_Signature (cfEntry c))"
  have e: "engine_index u m e = Inr D" "curSig e = FE_Signature (cfEntry (cs ! i))" "curVClock e = FE_VClock (cfEntry (cs ! i))"
    using assms(2,6) by (simp_all add: at_file_def engine_index_def)
  have asc: "?sig (cs ! a) < ?sig (cs ! b)" if "a < b" "b < length cs" for a b
    using assms(1) that by (simp add: chain_ok_def sorted_wrt_iff_nth_less)
  have low: "\<forall>f\<in>set (map cfEntry (take (Suc i) cs)). sint (FE_Signature f) \<le> sint (curSig e)"
  proof -
    have "?sig (cs ! a) \<le> ?sig (cs ! i)" if "a \<le> i" for a using asc [of a i] that assms(3) by (cases "a = i") auto
    then show ?thesis using assms(3) by (auto simp: e(2) in_set_conv_nth less_Suc_eq_le)
  qed
  show ?thesis
  proof (cases "Suc i < j")
    case False
    then have "j = Suc i" using assms(5) by simp
    then show ?thesis using e(1) assms(7) successor_loop_none [OF low] by (simp add: findSuccessor_def)
  next
    case True
    let ?n = "cs ! Suc i" and ?later = "map cfEntry (drop (Suc (Suc i)) (take j cs))"
    have n: "Suc i < length cs" using True assms(4) by simp
    have split: "map cfEntry (take j cs) = map cfEntry (take (Suc i) cs) @ cfEntry ?n # ?later"
      using True n by (subst id_take_nth_drop [of "Suc i" "take j cs"]) (simp_all add: min_def)
    have "\<forall>y\<in>set ?later. sint (FE_Signature (cfEntry ?n)) < sint (FE_Signature y)"
      using asc assms(4) by (auto simp: in_set_conv_nth)
    moreover have "sint (curSig e) < sint (FE_Signature (cfEntry ?n))" using asc [of i "Suc i"] n by (simp add: e(2))
    ultimately have "successor_loop (curSig e) (Files D) None = Some (cfEntry ?n)"
      unfolding assms(7) split by (intro successor_loop_first low)
    moreover have "vclockEqual (FE_PrevVClock (cfEntry ?n)) (curVClock e)" using assms(1) n by (simp add: chain_ok_def e(3))
    ultimately show ?thesis using True e(1) by (simp add: findSuccessor_def)
  qed
qed

lemma advance_chain:
  assumes "chain_ok u ip z fc cs" "at_file d ft (cs ! i) e" "i < length cs" "i < j" "publishing u d ft cs j ms"
  shows "advance_file u e ms = (Blocked, e, []) \<and> (Suc i < length cs \<longrightarrow> full_rounds u d ft cs ms = 0)
    \<or> (\<exists>ms' j'. Suc i < j' \<and> j' \<le> length cs \<and> publishing u d ft cs j' ms' \<and> length ms' < length ms
        \<and> full_rounds u d ft cs ms \<le> Suc (full_rounds u d ft cs ms')
        \<and> advance_file u e ms = (Ret (Inr ()), setCurrent (cfEntry (cs ! Suc i)) e, ms'))"
  using assms(4,5)
proof (induction ms arbitrary: j)
  case Nil
  then show ?case by (simp add: full_rounds_def)
next
  case (Cons m ms)
  from Cons.prems(2) obtain j' D where p: "mCtx m = None" "\<forall>p. mWait m p = None" "j \<le> j'" "j' \<le> length cs"
    "OpenDir u (mIndex m) (mListing m) (mCerr m) d ft = Inr D" "Files D = map cfEntry (take j' cs)" "publishing u d ft cs j' ms"
    by auto
  have e: "\<not> readInprogress (ecfg e)" "dirPath e = d" using assms(2) by (simp_all add: at_file_def)
  have i: "i < j'" using Cons.prems(1) p(3) by simp
  note fs = findSuccessor_chain [OF assms(1-3) p(4) i p(5,6)]
  have fr: "full_rounds u d ft cs (m # ms) \<le> Suc (full_rounds u d ft cs ms)" by (simp add: full_rounds_def)
  show ?case
  proof (cases "Suc i < j'")
    case True
    then have "advance_file u e (m # ms) = (Ret (Inr ()), setCurrent (cfEntry (cs ! Suc i)) e, ms)" using p(1) fs by simp
    then show ?thesis using True p(4,7) fr by (intro disjI2 exI [of _ ms] exI [of _ j']) simp
  next
    case False
    then have a: "advance_file u e (m # ms) = advance_file u e ms" using p(1,2) fs e by (simp add: engine_wait_def)
    have "full_rounds u d ft cs (m # ms) = full_rounds u d ft cs ms" if "Suc i < length cs"
    proof -
      have "length (take j' cs) \<noteq> length cs" using that False i by simp
      then have "map cfEntry (take j' cs) \<noteq> map cfEntry cs" by (metis length_map)
      then show ?thesis using p(5,6) by (simp add: full_rounds_def)
    qed
    with Cons.IH [OF i p(7)] a show ?thesis by (cases "Suc i < length cs") (fastforce, fastforce)
  qed
qed

section \<open>Delivery\<close>

definition later_rows :: "chain_file list \<Rightarrow> nat \<Rightarrow> XRow list" where
  "later_rows cs i = concat (map cfRows (drop i cs))"

lemma later_rows_step: "i < length cs \<Longrightarrow> later_rows cs i = cfRows (cs ! i) @ later_rows cs (Suc i)"
  by (simp add: later_rows_def flip: Cons_nth_drop_Suc)

lemma following_new:
  assumes "chain_ok u ip z fc cs" "c \<in> set cs" "e' = setCurrent (cfEntry c) e" "er e = None"
  shows "following ip z (FE_Path (cfEntry c)) (length (cfHdr c)) (cfBytes c) (length (cfBytes c)) e' (cfRows c)"
proof -
  have "prefix (str_bytes (cfHdr c)) (cfBytes c)" "rest_rows ip z (drop (length (cfHdr c)) (cfBytes c)) (cfRows c)"
    using assms(1,2) by (auto simp: chain_ok_def followable_def)
  moreover from this(1) have "length (cfHdr c) \<le> length (cfBytes c)" using prefix_length_le by fastforce
  ultimately show ?thesis using assms(3,4) by (simp add: following_def setCurrent_def)
qed

lemma chain_run:
  assumes "chain_ok u ip z fc cs" "i < length cs" "at_file d ft (cs ! i) e" "ecfg e = fc" "i < j" "publishing u d ft cs j ms"
    and "following ip z (FE_Path (cfEntry (cs ! i))) (length (cfHdr (cs ! i))) (cfBytes (cs ! i)) (length (cfBytes (cs ! i))) e rows"
  shows "\<exists>n e'. engine_run u ip z collect acc e ms
      = (acc @ map (\<lambda>row. Inr (xrow_canon ip row)) (take n (rows @ later_rows cs (Suc i))), False, e')
    \<and> (full_rounds u d ft cs ms \<ge> length (rows @ later_rows cs (Suc i)) + 2 * (length cs - Suc i) \<longrightarrow> length (rows @ later_rows cs (Suc i)) \<le> n)"
  using assms(2-)
proof (induction ms arbitrary: i e j rows acc rule: length_induct)
  case (1 ms)
  let ?c = "cs ! i" and ?all = "rows @ later_rows cs (Suc i)"
  have st: "fileMode e \<or> started e" using "1.prems"(2) by (simp add: at_file_def)
  show ?case
  proof (cases ms)
    case Nil
    then have "engine_run u ip z collect acc e ms = (acc, False, e)"
      using st by (subst engine_run_next [OF _ refl]) (simp_all add: next_loop.simps)
    then show ?thesis using Nil by (intro exI [of _ 0] exI [of _ e]) (simp add: full_rounds_def)
  next
    case (Cons m ms1)
    from "1.prems"(5) Cons obtain j' D where p: "mCtx m = None" "\<forall>p. mWait m p = None" "j \<le> j'" "j' \<le> length cs"
      "\<forall>c\<in>set (take j' cs). mOpen m (FE_Path (cfEntry c)) = Some (cfBytes c) \<and> mNow m (FE_Path (cfEntry c)) = cfBytes c"
      "publishing u d ft cs j' ms1" by auto
    have i: "i < j'" using "1.prems"(4) p(3) by simp
    then have "?c \<in> set (take j' cs)" using "1.prems"(1) by (auto simp: in_set_conv_nth)
    then have m: "mOpen m (FE_Path (cfEntry ?c)) = Some (take (length (cfBytes ?c)) (cfBytes ?c))"
      "mNow m (FE_Path (cfEntry ?c)) = take (length (cfBytes ?c)) (cfBytes ?c)" using p(5) by simp_all
    have fo: "followable u ip (ecfg e) (cfMeta ?c) (cfHdr ?c) (cfBytes ?c)" using assms(1) "1.prems"(1,3) by (simp add: chain_ok_def)
    obtain e1 where e1: "same_file e e1" and c: "(\<exists>row rows'. rows = row # rows' \<and> next_round u ip z m e ms1 = (Stop (Ret (Inr (xrow_canon ip row))), e1, ms1)
        \<and> following ip z (FE_Path (cfEntry ?c)) (length (cfHdr ?c)) (cfBytes ?c) (length (cfBytes ?c)) e1 rows')
       \<or> rows = [] \<and> er e1 = None \<and> next_round u ip z m e ms1 = finished_turn u e1 ms1"
      using next_round_cases [OF fo "1.prems"(6) p(1) _ order_refl order_refl order_refl m, of ms1] p(2) by auto
    have e1': "at_file d ft ?c e1" "ecfg e1 = fc" using at_file_same [OF e1 "1.prems"(2)] e1 "1.prems"(3) by (simp_all add: same_file_def)
    then have st1: "fileMode e1 \<or> started e1" "\<not> fileMode e1" by (simp_all add: at_file_def)
    note run = engine_run_round [OF st, where s = acc and yield = collect]
    have fr: "full_rounds u d ft cs ms \<le> Suc (full_rounds u d ft cs ms1)" using Cons by (simp add: full_rounds_def)
    have sh: "length ms1 < length ms" using Cons by simp
    from c show ?thesis
    proof (elim disjE exE conjE)
      fix row rows' assume r: "rows = row # rows'" "next_round u ip z m e ms1 = (Stop (Ret (Inr (xrow_canon ip row))), e1, ms1)"
        "following ip z (FE_Path (cfEntry ?c)) (length (cfHdr ?c)) (cfBytes ?c) (length (cfBytes ?c)) e1 rows'"
      from "1.IH" [rule_format, OF sh "1.prems"(1) e1' i p(6) r(3), of "acc @ [Inr (xrow_canon ip row)]"] obtain n e' where
        h: "engine_run u ip z collect (acc @ [Inr (xrow_canon ip row)]) e1 ms1
            = ((acc @ [Inr (xrow_canon ip row)]) @ map (\<lambda>row. Inr (xrow_canon ip row)) (take n (rows' @ later_rows cs (Suc i))), False, e')"
          "full_rounds u d ft cs ms1 \<ge> length (rows' @ later_rows cs (Suc i)) + 2 * (length cs - Suc i) \<longrightarrow> length (rows' @ later_rows cs (Suc i)) \<le> n"
        by blast
      then show ?thesis using run(2) [OF st1(1) r(2) refl] r(1) fr Cons by (intro exI [of _ "Suc n"] exI [of _ e']) auto
    next
      assume r: "rows = []" "er e1 = None" "next_round u ip z m e ms1 = finished_turn u e1 ms1"
      from advance_chain [OF assms(1) e1'(1) "1.prems"(1) i p(6)] show ?thesis
      proof (elim disjE exE conjE)
        assume a: "advance_file u e1 ms1 = (Blocked, e1, [])" "Suc i < length cs \<longrightarrow> full_rounds u d ft cs ms1 = 0"
        then have "engine_run u ip z collect acc e ms = (acc, False, e1)"
          using run(3) [OF st1(1)] r(3) st1(2) Cons by (simp add: finished_turn_def)
        moreover have "Suc i < length cs \<or> later_rows cs (Suc i) = []" using "1.prems"(1) by (auto simp: later_rows_def)
        ultimately show ?thesis using r(1) a(2) fr by (intro exI [of _ 0] exI [of _ e1]) auto
      next
        fix ms2 j2 assume a: "Suc i < j2" "j2 \<le> length cs" "publishing u d ft cs j2 ms2" "length ms2 < length ms1"
          "full_rounds u d ft cs ms1 \<le> Suc (full_rounds u d ft cs ms2)"
          "advance_file u e1 ms1 = (Ret (Inr ()), setCurrent (cfEntry (cs ! Suc i)) e1, ms2)"
        let ?e2 = "setCurrent (cfEntry (cs ! Suc i)) e1"
        have n: "Suc i < length cs" using a(1,2) by simp
        have e2: "at_file d ft (cs ! Suc i) ?e2" "ecfg ?e2 = fc" using e1' by (simp_all add: at_file_def setCurrent_def)
        have f2: "following ip z (FE_Path (cfEntry (cs ! Suc i))) (length (cfHdr (cs ! Suc i))) (cfBytes (cs ! Suc i)) (length (cfBytes (cs ! Suc i))) ?e2 (cfRows (cs ! Suc i))"
          by (rule following_new [OF assms(1) nth_mem [OF n] refl r(2)])
        have g: "engine_run u ip z collect acc e ms = engine_run u ip z collect acc ?e2 ms2"
          using run(1) [of ?e2] e2(1) r(3) st1(2) a(6) Cons by (simp add: finished_turn_def at_file_def)
        have sh2: "length ms2 < length ms" using a(4) sh by simp
        have all: "?all = cfRows (cs ! Suc i) @ later_rows cs (Suc (Suc i))" using later_rows_step [OF n] r(1) by simp
        have two: "2 * (length cs - Suc i) = 2 + 2 * (length cs - Suc (Suc i))" using n by simp
        from "1.IH" [rule_format, OF sh2 n e2 a(1,3) f2, of acc] obtain n' e' where
          "engine_run u ip z collect acc ?e2 ms2 = (acc @ map (\<lambda>row. Inr (xrow_canon ip row)) (take n' ?all), False, e')"
          "full_rounds u d ft cs ms2 \<ge> length ?all + 2 * (length cs - Suc (Suc i)) \<longrightarrow> length ?all \<le> n'" unfolding all by blast
        then show ?thesis using g fr a(5) two by (intro exI [of _ n'] exI [of _ e']) auto
      qed
    qed
  qed
qed

lemma start_chain:
  assumes "fmode (ecfg e) = startHead" "dirPath e = d" "efiletype e = ft" "publishing u d ft cs j ms"
  shows "startDir u e ms = (Blocked, e, []) \<and> (cs \<noteq> [] \<longrightarrow> full_rounds u d ft cs ms = 0)
    \<or> (\<exists>ms' j'. 0 < j' \<and> j' \<le> length cs \<and> publishing u d ft cs j' ms' \<and> full_rounds u d ft cs ms \<le> Suc (full_rounds u d ft cs ms')
        \<and> startDir u e ms = (Ret (Inr ()), setCurrent (cfEntry (cs ! 0)) e, ms'))"
  using assms(4)
proof (induction ms arbitrary: j)
  case Nil
  then show ?case by (simp add: full_rounds_def)
next
  case (Cons m ms)
  from Cons.prems obtain j' D where p: "mCtx m = None" "\<forall>p. mWait m p = None" "j' \<le> length cs"
    "OpenDir u (mIndex m) (mListing m) (mCerr m) d ft = Inr D" "Files D = map cfEntry (take j' cs)" "publishing u d ft cs j' ms"
    by auto
  have i: "engine_index u m e = Inr D" using p(4) assms(2,3) by (simp add: engine_index_def)
  show ?case
  proof (cases "j' = 0 \<or> cs = []")
    case True
    then have "startDir u e (m # ms) = startDir u e ms" using p(1,2,5) i assms(1) by (auto simp: engine_wait_def)
    moreover have "full_rounds u d ft cs (m # ms) = full_rounds u d ft cs ms" if "cs \<noteq> []"
      using that True p(4,5) by (auto simp: full_rounds_def)
    ultimately show ?thesis using Cons.IH [OF p(6)] p(3) by (cases "cs = []") auto
  next
    case False
    then obtain c cs' where cs: "cs = c # cs'" by (cases cs) auto
    with False obtain n where "j' = Suc n" by (cases j') auto
    with cs p(5) have "Files D = cfEntry c # map cfEntry (take n cs')" by simp
    then have "startDir u e (m # ms) = (Ret (Inr ()), setCurrent (cfEntry (cs ! 0)) e, ms)" using p(1) i assms(1) cs by simp
    moreover have "full_rounds u d ft cs (m # ms) \<le> Suc (full_rounds u d ft cs ms)" by (simp add: full_rounds_def)
    ultimately show ?thesis using False p(3,6) by (intro disjI2 exI [of _ ms] exI [of _ j']) simp
  qed
qed

section \<open>Properties\<close>

text \<open>
  C9: a follower of a directory that starts at the head delivers the rows of the chain in the order of its
  files, each once, while the files are published one after the other. What it has delivered is always an
  initial part of the rows of the chain, it never ends by itself, and once the whole chain is there it
  delivers all of them, within two rounds per file and one per row.
\<close>

theorem follow_dir_delivers:
  assumes "chain_ok u ip z (applyOptions opts) cs" "fmode (applyOptions opts) = startHead" "\<not> readInprogress (applyOptions opts)"
    and "publishing u d ft cs 0 ms"
  shows "\<exists>n e. follow_Dir u ip z d ft opts collect [] ms
      = (map (\<lambda>row. Inr (xrow_canon ip row)) (take n (concat (map cfRows cs))), False, e)
    \<and> (full_rounds u d ft cs ms \<ge> length (concat (map cfRows cs)) + 2 * length cs \<longrightarrow> length (concat (map cfRows cs)) \<le> n)"
proof -
  let ?e = "newDirEngine d ft opts" and ?all = "concat (map cfRows cs)"
  have e: "ecfg ?e = applyOptions opts" "\<not> fileMode ?e" "\<not> started ?e" "er ?e = None" "dirPath ?e = d" "efiletype ?e = ft"
    by (simp_all add: newDirEngine_def engine0_def)
  have m: "fmode (ecfg ?e) = startHead" using e(1) assms(2) by simp
  from start_chain [OF m e(5,6) assms(4)] show ?thesis
  proof (elim disjE exE conjE)
    assume s: "startDir u ?e ms = (Blocked, ?e, [])" "cs \<noteq> [] \<longrightarrow> full_rounds u d ft cs ms = 0"
    then have "follow_Dir u ip z d ft opts collect [] ms = ([], False, ?e)"
      using e(2,3) by (simp add: follow_Dir_def engine_run.simps [of u ip z _ _ ?e] engine_next_def)
    then show ?thesis using s(2) by (intro exI [of _ 0] exI [of _ ?e]) auto
  next
    fix ms1 j1 assume s: "0 < j1" "j1 \<le> length cs" "publishing u d ft cs j1 ms1" "full_rounds u d ft cs ms \<le> Suc (full_rounds u d ft cs ms1)"
      "startDir u ?e ms = (Ret (Inr ()), setCurrent (cfEntry (cs ! 0)) ?e, ms1)"
    let ?e1 = "(setCurrent (cfEntry (cs ! 0)) ?e)\<lparr>started := True\<rparr>"
    have c: "0 < length cs" using s(1,2) by linarith
    have e1: "at_file d ft (cs ! 0) ?e1" "ecfg ?e1 = applyOptions opts" "fileMode ?e1 \<or> started ?e1"
      using e assms(3) by (simp_all add: at_file_def setCurrent_def)
    have "following ip z (FE_Path (cfEntry (cs ! 0))) (length (cfHdr (cs ! 0))) (cfBytes (cs ! 0)) (length (cfBytes (cs ! 0)))
        (setCurrent (cfEntry (cs ! 0)) ?e) (cfRows (cs ! 0))"
      by (rule following_new [OF assms(1) nth_mem [OF c] refl e(4)])
    then have f1: "following ip z (FE_Path (cfEntry (cs ! 0))) (length (cfHdr (cs ! 0))) (cfBytes (cs ! 0)) (length (cfBytes (cs ! 0))) ?e1 (cfRows (cs ! 0))"
      using e(4) by (simp add: following_def setCurrent_def)
    have g: "engine_run u ip z collect [] ?e ms = engine_run u ip z collect [] ?e1 ms1"
      using e(2,3) s(5) e1(3) by (simp add: engine_run.simps [of u ip z _ _ ?e] engine_run.simps [of u ip z _ _ ?e1] engine_next_def)
    have all: "?all = cfRows (cs ! 0) @ later_rows cs (Suc 0)" using later_rows_step [OF c] by (simp add: later_rows_def)
    from chain_run [OF assms(1) c e1(1,2) s(1,3) f1, of "[]"] obtain n e' where
      r: "engine_run u ip z collect [] ?e1 ms1 = (map (\<lambda>row. Inr (xrow_canon ip row)) (take n ?all), False, e')"
        "full_rounds u d ft cs ms1 \<ge> length ?all + 2 * (length cs - 1) \<longrightarrow> length ?all \<le> n" unfolding all by auto
    have "length ?all + 2 * length cs \<le> full_rounds u d ft cs ms \<Longrightarrow> length ?all + 2 * (length cs - 1) \<le> full_rounds u d ft cs ms1"
      using s(4) c by linarith
    with r g show ?thesis by (intro exI [of _ n] exI [of _ e']) (auto simp: follow_Dir_def)
  qed
qed

text \<open>A directory with one file of the chain, as every look shows it.\<close>

definition dir_glimpse :: "bytes \<Rightarrow> moment" where
  "dir_glimpse f = (glimpse f (length f))\<lparr>mIndex := (\<lambda>p. if p = ''d/00000000000000000012.xlog'' then Some f else None), mListing := sample_listing\<rparr>"

lemma sample_index:
  assumes "EncodeMeta uuid_hex None (Some sample_meta) = Inr hdr" "f = str_bytes hdr @ rest"
  shows "OpenDir uuid_hex (mIndex (dir_glimpse f)) (mListing (dir_glimpse f)) (mCerr (dir_glimpse f)) ''d'' FiletypeXLOG
    = Inr \<lparr>dir_path = ''d'', dir_filetype = FiletypeXLOG, entries = [sample_entry]\<rparr>"
proof -
  have i: "mIndex (dir_glimpse f) = (\<lambda>p. if p = ''d/00000000000000000012.xlog'' then Some f else None)" by (simp add: dir_glimpse_def)
  have "loadEntry uuid_hex (mIndex (dir_glimpse f)) None ''d/00000000000000000012.xlog'' 12 FiletypeXLOG = Inr sample_entry"
    unfolding sample_entry_def
    by (rule loadEntry_ok [OF uuid_hex_ok sample_meta_ok _ assms(1), where rest = rest])
      (simp_all only: sample_names i [unfolded assms(2)] assms(2) simp_thms if_True, simp add: sample_meta_def LegacyFormatVersion_def)
  then show ?thesis
    by (simp add: OpenDir_def sample_names dir_glimpse_def glimpse_def sample_listing_def buildDir_def del: Ext_def)
qed

lemma publishing_constant:
  assumes "OpenDir u (mIndex m) (mListing m) (mCerr m) d ft = Inr D" "Files D = [cfEntry c]" "mCtx m = None" "\<forall>p. mWait m p = None"
    and "mOpen m (FE_Path (cfEntry c)) = Some (cfBytes c)" "mNow m (FE_Path (cfEntry c)) = cfBytes c"
  shows "j \<le> 1 \<Longrightarrow> publishing u d ft [c] j (replicate n m)" "full_rounds u d ft [c] (replicate n m) = n"
proof -
  show "j \<le> 1 \<Longrightarrow> publishing u d ft [c] j (replicate n m)"
  proof (induction n arbitrary: j)
    case (Suc n)
    then show ?case using assms by (auto intro!: exI [of _ 1] exI [of _ D])
  qed simp
  show "full_rounds u d ft [c] (replicate n m) = n" using assms(1,2) by (simp add: full_rounds_def)
qed

theorem follow_dir_delivers_witness:
  "\<exists>f e. follow_Dir uuid_hex iproto_numbers zstd_store ''d'' FiletypeXLOG [WithFromHead] collect [] (replicate 7 (dir_glimpse f))
    = (map (\<lambda>row. Inr (xrow_canon iproto_numbers row)) sample_tx, False, e)"
proof -
  obtain hdr b where s: "EncodeMeta uuid_hex None (Some sample_meta) = Inr hdr" "good_block iproto_numbers zstd_store b sample_tx"
    using sample_hdr sample_block by blast
  let ?f = "str_bytes hdr @ b @ EOFMarker" and ?o = "applyOptions [WithFromHead]"
  let ?c = "\<lparr>cfEntry = sample_entry, cfMeta = sample_meta, cfHdr = hdr, cfBytes = str_bytes hdr @ b @ EOFMarker, cfRows = sample_tx\<rparr>"
  have o: "readerOpts ?o = []" "fmode ?o = startHead" "\<not> readInprogress ?o"
    by (simp_all add: applyOptions_def fconfig_resolve_def defaultConfig_def WithFromHead_def)
  have "rest_rows iproto_numbers zstd_store (b @ EOFMarker) sample_tx"
    unfolding rest_rows_def using s(2) by (intro exI [of _ "[b]"] exI [of _ "[sample_tx]"]) simp
  then have 1: "chain_ok uuid_hex iproto_numbers zstd_store ?o [?c]"
    using sample_followable [OF s(1), of ?f ?o] o(1) by (simp add: chain_ok_def)
  have p: "mCtx (dir_glimpse ?f) = None" "\<forall>p. mWait (dir_glimpse ?f) p = None" "mOpen (dir_glimpse ?f) (FE_Path (cfEntry ?c)) = Some (cfBytes ?c)"
    "mNow (dir_glimpse ?f) (FE_Path (cfEntry ?c)) = cfBytes ?c" by (simp_all add: dir_glimpse_def glimpse_def)
  have fs: "Files \<lparr>dir_path = ''d'', dir_filetype = FiletypeXLOG, entries = [sample_entry]\<rparr> = [cfEntry ?c]" by (simp add: Files_def)
  note pub = publishing_constant [OF sample_index [OF s(1) refl] fs p(1,2) p(3,4)]
  from follow_dir_delivers [OF 1 o(2,3) pub(1) [of 0 7]] obtain n e where
    r: "follow_Dir uuid_hex iproto_numbers zstd_store ''d'' FiletypeXLOG [WithFromHead] collect [] (replicate 7 (dir_glimpse ?f))
      = (map (\<lambda>row. Inr (xrow_canon iproto_numbers row)) (take n (concat (map cfRows [?c]))), False, e)"
      "full_rounds uuid_hex ''d'' FiletypeXLOG [?c] (replicate 7 (dir_glimpse ?f)) \<ge> length (concat (map cfRows [?c])) + 2 * length [?c]
        \<longrightarrow> length (concat (map cfRows [?c])) \<le> n" by auto
  have "length sample_tx = 2" by (simp add: sample_tx_def)
  then have "take n (concat (map cfRows [?c])) = sample_tx" using r(2) pub(2) [of 7] by simp
  then show ?thesis using r(1) by (intro exI [of _ ?f] exI [of _ e]) (simp only:)
qed

text \<open>
  C39: a follower that tails the file in progress loses it when the writer finishes it during a wait. The
  follower has caught up and waits; the writer then completes the file and renames it to its final name; on
  the next round the follower opens the old name again, and its iteration ends with the error that the file
  does not exist, whatever the directory holds.
\<close>

theorem inprogress_rename_lost:
  assumes "\<not> fileMode e" "started e" "isInprogress e" "epath e = p @ ''.inprogress''" "er e = Some r"
    and "mCtx m1 = None" "Next ip z (refresh m1 e r) = (Inl err, r')" "err = [Rd ErrTruncated] \<or> err = [Go EOF] \<and> \<not> SawEOFMarker r'"
    and "mExists m1 (p @ ''.inprogress'')" "mWait m1 (p @ ''.inprogress'') = None"
    and "mCtx m2 = None" "mOpen m2 (p @ ''.inprogress'') = None"
  shows "\<exists>e'. engine_run u ip z yield s e (m1 # m2 # ms) = (fst (yield s (Inl [Go OsErrNotExist])), True, e') \<and> er e' = None"
proof -
  let ?e1 = "e\<lparr>look := seen_upto m1 e, eoff := Offset r', er := None\<rparr>"
  have onward: "next_round u ip z m1 e (m2 # ms) = (Onward, ?e1, m2 # ms)" using assms(8)
  proof
    assume "err = [Rd ErrTruncated]"
    then show ?thesis using assms(1-7,9,10)
      by (simp add: next_round_def Let_def onWait_def closeReader_def reswitchToFinalized_def ret_wait_def engine_wait_def)
  next
    assume "err = [Go EOF] \<and> \<not> SawEOFMarker r'"
    then show ?thesis using assms(1-7,9,10)
      by (simp add: next_round_def Let_def onEOF_def onInprogressEOF_def closeReader_def reswitchToFinalized_def ret_wait_def engine_wait_def)
  qed
  have not_clean: "\<not> stopClean [Go OsErrNotExist]" by (simp add: stopClean_def)
  from onward have "engine_run u ip z yield s e (m1 # m2 # ms) = engine_run u ip z yield s ?e1 (m2 # ms)"
    using assms(2) by (intro engine_run_round(1)) simp_all
  moreover have "next_round u ip z m2 ?e1 ms = (Stop (Ret (Inl [Go OsErrNotExist])), ?e1, ms)"
    using assms(4,11,12) by (simp add: next_round_def engine_open_def OpenAt_def)
  then have "engine_run u ip z yield s ?e1 (m2 # ms) = (if stopClean [Go OsErrNotExist] then (s, True, closeReader ?e1)
      else (fst (yield s (Inl [Go OsErrNotExist])), True, closeReader ?e1))"
    using assms(2) by (intro engine_run_round(4)) simp_all
  ultimately show ?thesis using not_clean by (simp add: closeReader_def)
qed

theorem inprogress_rename_lost_witness:
  "\<exists>e m1 m2 e'. isInprogress e \<and> mOpen m2 ''d/13.xlog'' \<noteq> None
    \<and> engine_run uuid_hex iproto_numbers zstd_store collect [] e [m1, m2] = ([Inl [Go OsErrNotExist]], True, e')"
proof -
  obtain hdr where hdr: "EncodeMeta uuid_hex None (Some sample_meta) = Inr hdr" using sample_hdr by blast
  let ?n = "length hdr" and ?f = "str_bytes hdr @ EOFMarker"
  have rr: "rest_rows iproto_numbers zstd_store (drop ?n ?f) []" unfolding rest_rows_def by (intro exI [of _ "[]"]) simp
  obtain r where r: "tails iproto_numbers zstd_store (apply_options [IgnoreMissingEOF]) ?n (drop ?n ?f) (drop ?n (take ?n ?f)) r []"
    using OpenAt_tails [OF uuid_hex_ok sample_meta_ok sample_legacy hdr refl order_refl _ _ order_refl rr, of "\<lambda>_. Some (take ?n ?f)" "[]" 0 None] by auto
  have ign: "ignoreMissingEOF (apply_options [IgnoreMissingEOF])" using options_keep_ignore [of "[]"] by simp
  have nl: "\<not> plainOff r < length (plain r)" using tails_pending [OF iproto_numbers_ok r] by auto
  have em: "EOFMarker \<noteq> []" by (simp add: EOFMarker_def)
  from tails_end [OF iproto_numbers_ok ign r] nl obtain err r' where n: "Next iproto_numbers zstd_store r = (Inl err, r')"
    "err = [Rd ErrTruncated] \<or> err = [Go EOF] \<and> \<not> SawEOFMarker r'"
    using tails_pending [OF iproto_numbers_ok] em by fastforce
  let ?p = "''d/13.xlog''"
  let ?e = "(engine0 (applyOptions []))\<lparr>started := True, isInprogress := True, epath := ?p @ ''.inprogress'', er := Some r, look := ?n\<rparr>"
  let ?m1 = "glimpse ?f ?n" and ?m2 = "(glimpse ?f (length ?f))\<lparr>mOpen := [?p \<mapsto> ?f]\<rparr>"
  have "br r = Some \<lparr>br_rest = [], br_err = [Go EOF]\<rparr>" using r by (simp add: tails_def)
  then have "refresh ?m1 ?e r = r" by (simp add: refresh_def glimpse_def)
  then have m1: "Next iproto_numbers zstd_store (refresh ?m1 ?e r) = (Inl err, r')" using n(1) by simp
  have "\<exists>e'. engine_run uuid_hex iproto_numbers zstd_store collect [] ?e [?m1, ?m2] = (fst (collect [] (Inl [Go OsErrNotExist])), True, e') \<and> er e' = None"
    by (rule inprogress_rename_lost [where r = r and p = ?p, OF _ _ _ _ _ _ m1 n(2)]) (simp_all add: engine0_def glimpse_def)
  then obtain e' where "engine_run uuid_hex iproto_numbers zstd_store collect [] ?e [?m1, ?m2] = ([Inl [Go OsErrNotExist]], True, e')" by auto
  then show ?thesis by (intro exI [of _ ?e] exI [of _ ?m1] exI [of _ ?m2] exI [of _ e']) simp
qed

end
