(* ===== verification/Clone.thy ===== *)
theory Clone
  imports Vinyl UpdateOps
begin

text \<open>
  Deep copies of decoded values (\<^verbatim>\<open>format/clone.go\<close>). Everywhere else a byte slice is the list of its bytes;
  here sharing is the point, so slices are windows into arrays of an explicit store, and the fields of the
  structs are slices. The store also holds the vector clocks, the key maps of vinyl log records and the arrays
  of operations, each under its number.

  \<open>sp n\<close> is the spare capacity the allocator gives a slice that grew to \<open>n\<close> bytes: Go leaves it open, so it
  is a parameter of every operation that appends.
\<close>

section \<open>The store\<close>

record slice =
  sl_arr :: nat
  sl_off :: nat
  sl_len :: nat
  sl_cap :: nat

record OperationS =
  os_Op :: OpCode
  os_Field :: int32
  os_FieldName :: "slice option"
  os_HasSplice :: bool
  os_Position :: int32
  os_Offset :: int32
  os_Value :: "slice option"

record heap =
  arrays :: "bytes list"
  clocks :: "(uint32 \<times> int64) list list"
  keymaps :: "(VyKey \<times> slice option) list list"
  oparrays :: "OperationS list list"

text \<open>\<^verbatim>\<open>nil\<close> is \<open>None\<close>; it has no length and no capacity. \<open>[]byte{}\<close> is a window of no bytes.\<close>

definition slen :: "slice option \<Rightarrow> nat" where
  "slen s = (case s of None \<Rightarrow> 0 | Some x \<Rightarrow> sl_len x)"

definition scap :: "slice option \<Rightarrow> nat" where
  "scap s = (case s of None \<Rightarrow> 0 | Some x \<Rightarrow> sl_cap x)"

definition empty_slice :: slice where
  "empty_slice = \<lparr>sl_arr = 0, sl_off = 0, sl_len = 0, sl_cap = 0\<rparr>"

definition window :: "heap \<Rightarrow> slice \<Rightarrow> bytes" where
  "window h x = take (sl_len x) (drop (sl_off x) (arrays h ! sl_arr x))"

definition sread :: "heap \<Rightarrow> slice option \<Rightarrow> bytes option" where
  "sread h s = (case s of None \<Rightarrow> None | Some x \<Rightarrow> Some (window h x))"

text \<open>\<^verbatim>\<open>copy\<close> of bytes into an array from a position on, and a new array.\<close>

definition poke :: "heap \<Rightarrow> nat \<Rightarrow> nat \<Rightarrow> bytes \<Rightarrow> heap" where
  "poke h a p bs = h\<lparr>arrays := (arrays h)[a := take p (arrays h ! a) @ bs @ drop (p + length bs) (arrays h ! a)]\<rparr>"

definition alloc :: "heap \<Rightarrow> bytes \<Rightarrow> nat \<Rightarrow> heap \<times> slice" where
  "alloc h bs c = (h\<lparr>arrays := arrays h @ [bs @ replicate (c - length bs) 0]\<rparr>,
     \<lparr>sl_arr = length (arrays h), sl_off = 0, sl_len = length bs, sl_cap = max c (length bs)\<rparr>)"

text \<open>\<^verbatim>\<open>bytes.Clone\<close> is \<^verbatim>\<open>append([]byte{}, b...)\<close>, and nil for nil.\<close>

definition bytes_Clone :: "(nat \<Rightarrow> nat) \<Rightarrow> heap \<Rightarrow> slice option \<Rightarrow> heap \<times> slice option" where
  "bytes_Clone sp h src = (case src of None \<Rightarrow> (h, None)
     | Some x \<Rightarrow> if sl_len x = 0 then (h, Some empty_slice)
         else (case alloc h (window h x) (sl_len x + sp (sl_len x)) of (h', y) \<Rightarrow> (h', Some y)))"

definition go_append :: "(nat \<Rightarrow> nat) \<Rightarrow> heap \<Rightarrow> slice option \<Rightarrow> bytes \<Rightarrow> heap \<times> slice" where
  "go_append sp h s bs =
     (let n = slen s + length bs in
      case s of
        Some x \<Rightarrow> if n \<le> sl_cap x then (poke h (sl_arr x) (sl_off x + sl_len x) bs, x\<lparr>sl_len := n\<rparr>)
                  else alloc h (window h x @ bs) (n + sp n)
      | None \<Rightarrow> alloc h bs (n + sp n))"

section \<open>Copying slices\<close>

text \<open>Two slices of one array whose capacities end at the same byte.\<close>

definition sameArray :: "slice option \<Rightarrow> slice option \<Rightarrow> bool" where
  "sameArray a b \<longleftrightarrow> scap a > 0 \<and> scap b > 0
     \<and> sl_arr (the a) = sl_arr (the b) \<and> sl_off (the a) + scap a - 1 = sl_off (the b) + scap b - 1"

definition cloneBytesInto :: "(nat \<Rightarrow> nat) \<Rightarrow> heap \<Rightarrow> slice option \<Rightarrow> slice option \<Rightarrow> heap \<times> slice option" where
  "cloneBytesInto sp h dst src = (case src of
     None \<Rightarrow> (h, None)
   | Some x \<Rightarrow>
       if scap dst < sl_len x \<or> sameArray dst src then bytes_Clone sp h src
       else (case dst of
           None \<Rightarrow> (h, Some empty_slice)
         | Some y \<Rightarrow> (poke h (sl_arr y) (sl_off y) (window h x), Some (y\<lparr>sl_len := sl_len x\<rparr>))))"

type_synonym cloneArena = "slice option"

definition newCloneArena :: "heap \<Rightarrow> nat \<Rightarrow> heap \<times> cloneArena" where
  "newCloneArena h n = (if n = 0 then (h, None)
     else (case alloc h [] n of (h', x) \<Rightarrow> (h', Some x)))"

definition arena_clone :: "(nat \<Rightarrow> nat) \<Rightarrow> heap \<Rightarrow> cloneArena \<Rightarrow> slice option \<Rightarrow> heap \<times> cloneArena \<times> slice option" where
  "arena_clone sp h a src = (case src of
     None \<Rightarrow> (h, a, None)
   | Some x \<Rightarrow>
       if sl_len x = 0 then (h, a, Some empty_slice)
       else (let start = slen a in
         case go_append sp h a (window h x) of
           (h', a') \<Rightarrow> (h', Some a', Some (a'\<lparr>sl_off := sl_off a' + start, sl_len := sl_len a' - start, sl_cap := sl_len a' - start\<rparr>))))"

section \<open>Copying structs\<close>

record XRowS =
  xs_Type :: "64 word"
  xs_ReplicaID :: uint32
  xs_GroupID :: uint32
  xs_LSN :: int64
  xs_TSN :: int64
  xs_Timestamp :: float64
  xs_Flags :: "64 word"
  xs_BodyRaw :: "slice option"
  xs_StreamID :: uint64
  xs_Sync :: uint64
  xs_SchemaVersion :: uint64
  xs_Present :: Present

definition XRow_Clone :: "(nat \<Rightarrow> nat) \<Rightarrow> heap \<Rightarrow> XRowS option \<Rightarrow> heap \<times> XRowS option" where
  "XRow_Clone sp h r = (case r of None \<Rightarrow> (h, None)
     | Some out \<Rightarrow> (case bytes_Clone sp h (xs_BodyRaw out) of (h1, body) \<Rightarrow> (h1, Some (out\<lparr>xs_BodyRaw := body\<rparr>))))"

definition XRow_CloneInto :: "(nat \<Rightarrow> nat) \<Rightarrow> heap \<Rightarrow> XRowS \<Rightarrow> XRowS \<Rightarrow> heap \<times> XRowS" where
  "XRow_CloneInto sp h r dst = (case cloneBytesInto sp h (xs_BodyRaw dst) (xs_BodyRaw r) of
     (h1, body) \<Rightarrow> (h1, r\<lparr>xs_BodyRaw := body\<rparr>))"

record DMLBodyS =
  ds_SpaceID :: uint32
  ds_IndexID :: uint32
  ds_IndexBase :: uint32
  ds_Tuple :: "slice option"
  ds_Key :: "slice option"
  ds_Ops :: "slice option"
  ds_OldTuple :: "slice option"
  ds_NewTuple :: "slice option"
  ds_Arrow :: "slice option"

definition DMLBody_Clone :: "(nat \<Rightarrow> nat) \<Rightarrow> heap \<Rightarrow> DMLBodyS option \<Rightarrow> heap \<times> DMLBodyS option" where
  "DMLBody_Clone sp h bo = (case bo of None \<Rightarrow> (h, None) | Some b \<Rightarrow>
     (case newCloneArena h (slen (ds_Tuple b) + slen (ds_Key b) + slen (ds_Ops b) + slen (ds_OldTuple b)
             + slen (ds_NewTuple b) + slen (ds_Arrow b)) of (h0, arena) \<Rightarrow>
      case arena_clone sp h0 arena (ds_Tuple b) of (h1, a1, tuple) \<Rightarrow>
      case arena_clone sp h1 a1 (ds_Key b) of (h2, a2, key) \<Rightarrow>
      case arena_clone sp h2 a2 (ds_Ops b) of (h3, a3, ops) \<Rightarrow>
      case arena_clone sp h3 a3 (ds_OldTuple b) of (h4, a4, oldTuple) \<Rightarrow>
      case arena_clone sp h4 a4 (ds_NewTuple b) of (h5, a5, newTuple) \<Rightarrow>
      case arena_clone sp h5 a5 (ds_Arrow b) of (h6, a6, arrow) \<Rightarrow>
        (h6, Some (b\<lparr>ds_Tuple := tuple, ds_Key := key, ds_Ops := ops, ds_OldTuple := oldTuple,
                     ds_NewTuple := newTuple, ds_Arrow := arrow\<rparr>))))"

definition DMLBody_CloneInto :: "(nat \<Rightarrow> nat) \<Rightarrow> heap \<Rightarrow> DMLBodyS \<Rightarrow> DMLBodyS \<Rightarrow> heap \<times> DMLBodyS" where
  "DMLBody_CloneInto sp h b dst =
     (case cloneBytesInto sp h (ds_Tuple dst) (ds_Tuple b) of (h1, tuple) \<Rightarrow>
      case cloneBytesInto sp h1 (ds_Key dst) (ds_Key b) of (h2, key) \<Rightarrow>
      case cloneBytesInto sp h2 (ds_Ops dst) (ds_Ops b) of (h3, ops) \<Rightarrow>
      case cloneBytesInto sp h3 (ds_OldTuple dst) (ds_OldTuple b) of (h4, oldTuple) \<Rightarrow>
      case cloneBytesInto sp h4 (ds_NewTuple dst) (ds_NewTuple b) of (h5, newTuple) \<Rightarrow>
      case cloneBytesInto sp h5 (ds_Arrow dst) (ds_Arrow b) of (h6, arrow) \<Rightarrow>
        (h6, b\<lparr>ds_Tuple := tuple, ds_Key := key, ds_Ops := ops, ds_OldTuple := oldTuple,
               ds_NewTuple := newTuple, ds_Arrow := arrow\<rparr>))"

record VyStmtBodyS =
  ss_SpaceID :: uint32
  ss_Tuple :: "slice option"
  ss_Key :: "slice option"
  ss_Ops :: "slice option"
  ss_Flags :: VyStmtFlags

definition VyStmtBody_Clone :: "(nat \<Rightarrow> nat) \<Rightarrow> heap \<Rightarrow> VyStmtBodyS option \<Rightarrow> heap \<times> VyStmtBodyS option" where
  "VyStmtBody_Clone sp h bo = (case bo of None \<Rightarrow> (h, None) | Some b \<Rightarrow>
     (case newCloneArena h (slen (ss_Tuple b) + slen (ss_Key b) + slen (ss_Ops b)) of (h0, arena) \<Rightarrow>
      case arena_clone sp h0 arena (ss_Tuple b) of (h1, a1, tuple) \<Rightarrow>
      case arena_clone sp h1 a1 (ss_Key b) of (h2, a2, key) \<Rightarrow>
      case arena_clone sp h2 a2 (ss_Ops b) of (h3, a3, ops) \<Rightarrow>
        (h3, Some (b\<lparr>ss_Tuple := tuple, ss_Key := key, ss_Ops := ops\<rparr>))))"

definition VyStmtBody_CloneInto :: "(nat \<Rightarrow> nat) \<Rightarrow> heap \<Rightarrow> VyStmtBodyS \<Rightarrow> VyStmtBodyS \<Rightarrow> heap \<times> VyStmtBodyS" where
  "VyStmtBody_CloneInto sp h b dst =
     (case cloneBytesInto sp h (ss_Tuple dst) (ss_Tuple b) of (h1, tuple) \<Rightarrow>
      case cloneBytesInto sp h1 (ss_Key dst) (ss_Key b) of (h2, key) \<Rightarrow>
      case cloneBytesInto sp h2 (ss_Ops dst) (ss_Ops b) of (h3, ops) \<Rightarrow>
        (h3, b\<lparr>ss_Tuple := tuple, ss_Key := key, ss_Ops := ops\<rparr>))"

record VyRunInfoS =
  rs_MinKey :: "slice option"
  rs_MaxKey :: "slice option"
  rs_MinLSN :: int64
  rs_MaxLSN :: int64
  rs_PageCount :: uint32
  rs_BloomVersion :: byte
  rs_Bloom :: "slice option"
  rs_StmtStat :: VyStmtStat

definition VyRunInfo_Clone :: "(nat \<Rightarrow> nat) \<Rightarrow> heap \<Rightarrow> VyRunInfoS option \<Rightarrow> heap \<times> VyRunInfoS option" where
  "VyRunInfo_Clone sp h io = (case io of None \<Rightarrow> (h, None) | Some info \<Rightarrow>
     (case newCloneArena h (slen (rs_MinKey info) + slen (rs_MaxKey info) + slen (rs_Bloom info)) of (h0, arena) \<Rightarrow>
      case arena_clone sp h0 arena (rs_MinKey info) of (h1, a1, minKey) \<Rightarrow>
      case arena_clone sp h1 a1 (rs_MaxKey info) of (h2, a2, maxKey) \<Rightarrow>
      case arena_clone sp h2 a2 (rs_Bloom info) of (h3, a3, bloom) \<Rightarrow>
        (h3, Some (info\<lparr>rs_MinKey := minKey, rs_MaxKey := maxKey, rs_Bloom := bloom\<rparr>))))"

definition VyRunInfo_CloneInto :: "(nat \<Rightarrow> nat) \<Rightarrow> heap \<Rightarrow> VyRunInfoS \<Rightarrow> VyRunInfoS \<Rightarrow> heap \<times> VyRunInfoS" where
  "VyRunInfo_CloneInto sp h info dst =
     (case cloneBytesInto sp h (rs_MinKey dst) (rs_MinKey info) of (h1, minKey) \<Rightarrow>
      case cloneBytesInto sp h1 (rs_MaxKey dst) (rs_MaxKey info) of (h2, maxKey) \<Rightarrow>
      case cloneBytesInto sp h2 (rs_Bloom dst) (rs_Bloom info) of (h3, bloom) \<Rightarrow>
        (h3, info\<lparr>rs_MinKey := minKey, rs_MaxKey := maxKey, rs_Bloom := bloom\<rparr>))"

record VyPageInfoS =
  ps_Offset :: uint64
  ps_Size :: uint32
  ps_UnpackedSize :: uint32
  ps_RowCount :: uint32
  ps_MinKey :: "slice option"
  ps_RowIndexOffset :: uint32

definition VyPageInfo_Clone :: "(nat \<Rightarrow> nat) \<Rightarrow> heap \<Rightarrow> VyPageInfoS option \<Rightarrow> heap \<times> VyPageInfoS option" where
  "VyPageInfo_Clone sp h po = (case po of None \<Rightarrow> (h, None)
     | Some page \<Rightarrow> (case bytes_Clone sp h (ps_MinKey page) of (h1, minKey) \<Rightarrow> (h1, Some (page\<lparr>ps_MinKey := minKey\<rparr>))))"

definition VyPageInfo_CloneInto :: "(nat \<Rightarrow> nat) \<Rightarrow> heap \<Rightarrow> VyPageInfoS \<Rightarrow> VyPageInfoS \<Rightarrow> heap \<times> VyPageInfoS" where
  "VyPageInfo_CloneInto sp h page dst = (case cloneBytesInto sp h (ps_MinKey dst) (ps_MinKey page) of
     (h1, minKey) \<Rightarrow> (h1, page\<lparr>ps_MinKey := minKey\<rparr>))"

definition Operation_Clone :: "(nat \<Rightarrow> nat) \<Rightarrow> heap \<Rightarrow> OperationS \<Rightarrow> heap \<times> OperationS" where
  "Operation_Clone sp h op =
     (case newCloneArena h (slen (os_FieldName op) + slen (os_Value op)) of (h0, arena) \<Rightarrow>
      case arena_clone sp h0 arena (os_FieldName op) of (h1, a1, name) \<Rightarrow>
      case arena_clone sp h1 a1 (os_Value op) of (h2, a2, val) \<Rightarrow>
        (h2, op\<lparr>os_FieldName := name, os_Value := val\<rparr>))"

definition Operation_CloneInto :: "(nat \<Rightarrow> nat) \<Rightarrow> heap \<Rightarrow> OperationS \<Rightarrow> OperationS \<Rightarrow> heap \<times> OperationS" where
  "Operation_CloneInto sp h op dst =
     (case cloneBytesInto sp h (os_FieldName dst) (os_FieldName op) of (h1, name) \<Rightarrow>
      case cloneBytesInto sp h1 (os_Value dst) (os_Value op) of (h2, val) \<Rightarrow>
        (h2, op\<lparr>os_FieldName := name, os_Value := val\<rparr>))"

section \<open>Copying maps\<close>

text \<open>A reference to a map of the store; \<^verbatim>\<open>VClock.Clone\<close> makes a new one.\<close>

definition clone_clock :: "heap \<Rightarrow> nat option \<Rightarrow> heap \<times> nat option" where
  "clone_clock h v = (case v of None \<Rightarrow> (h, None)
     | Some r \<Rightarrow> (h\<lparr>clocks := clocks h @ [clocks h ! r]\<rparr>, Some (length (clocks h))))"

record RaftBodyS =
  fs_Term :: uint64
  fs_Vote :: uint64
  fs_State :: uint32
  fs_VClock :: "nat option"
  fs_LeaderID :: uint32
  fs_IsLeaderSeen :: bool

definition RaftBody_Clone :: "heap \<Rightarrow> RaftBodyS option \<Rightarrow> heap \<times> RaftBodyS option" where
  "RaftBody_Clone h bo = (case bo of None \<Rightarrow> (h, None)
     | Some out \<Rightarrow> (case clone_clock h (fs_VClock out) of (h1, vc) \<Rightarrow> (h1, Some (out\<lparr>fs_VClock := vc\<rparr>))))"

definition RaftBody_CloneInto :: "heap \<Rightarrow> RaftBodyS \<Rightarrow> RaftBodyS \<Rightarrow> heap \<times> RaftBodyS" where
  "RaftBody_CloneInto h b dst = (case clone_clock h (fs_VClock b) of (h1, vc) \<Rightarrow> (h1, b\<lparr>fs_VClock := vc\<rparr>))"

record SynchroBodyS =
  ys_ReplicaID :: uint32
  ys_LSN :: int64
  ys_Term :: uint64
  ys_ConfirmedVClock :: "nat option"

definition SynchroBody_Clone :: "heap \<Rightarrow> SynchroBodyS option \<Rightarrow> heap \<times> SynchroBodyS option" where
  "SynchroBody_Clone h bo = (case bo of None \<Rightarrow> (h, None)
     | Some out \<Rightarrow> (case clone_clock h (ys_ConfirmedVClock out) of (h1, vc) \<Rightarrow> (h1, Some (out\<lparr>ys_ConfirmedVClock := vc\<rparr>))))"

definition SynchroBody_CloneInto :: "heap \<Rightarrow> SynchroBodyS \<Rightarrow> SynchroBodyS \<Rightarrow> heap \<times> SynchroBodyS" where
  "SynchroBody_CloneInto h b dst = (case clone_clock h (ys_ConfirmedVClock b) of (h1, vc) \<Rightarrow> (h1, b\<lparr>ys_ConfirmedVClock := vc\<rparr>))"

text \<open>The map of a vinyl log record: the order of its entries stands for the order Go ranges over them in.\<close>

fun vykeys_loop :: "(nat \<Rightarrow> nat) \<Rightarrow> heap \<Rightarrow> cloneArena \<Rightarrow> (VyKey \<times> slice option) list \<Rightarrow> (VyKey \<times> slice option) list
    \<Rightarrow> heap \<times> (VyKey \<times> slice option) list" where
  "vykeys_loop sp h a [] out = (h, out)"
| "vykeys_loop sp h a ((k, v) # keys) out = (case arena_clone sp h a v of (h', a', v') \<Rightarrow> vykeys_loop sp h' a' keys (out @ [(k, v')]))"

definition cloneVyKeys :: "(nat \<Rightarrow> nat) \<Rightarrow> heap \<Rightarrow> nat option \<Rightarrow> heap \<times> nat option" where
  "cloneVyKeys sp h ko = (case ko of None \<Rightarrow> (h, None)
     | Some m \<Rightarrow>
         (let keys = keymaps h ! m; n = foldl (\<lambda>n (_, v). n + slen v) 0 keys in
          case newCloneArena h n of (h0, arena) \<Rightarrow>
          case vykeys_loop sp h0 arena keys [] of (h1, out) \<Rightarrow>
            (h1\<lparr>keymaps := keymaps h1 @ [out]\<rparr>, Some (length (keymaps h1)))))"

record VyLogBodyS =
  ls_Type :: VyLogType
  ls_Keys :: "nat option"

definition VyLogBody_Clone :: "(nat \<Rightarrow> nat) \<Rightarrow> heap \<Rightarrow> VyLogBodyS option \<Rightarrow> heap \<times> VyLogBodyS option" where
  "VyLogBody_Clone sp h bo = (case bo of None \<Rightarrow> (h, None)
     | Some b \<Rightarrow> (case cloneVyKeys sp h (ls_Keys b) of (h1, keys) \<Rightarrow> (h1, Some \<lparr>ls_Type = ls_Type b, ls_Keys = keys\<rparr>)))"

definition VyLogBody_CloneInto :: "(nat \<Rightarrow> nat) \<Rightarrow> heap \<Rightarrow> VyLogBodyS \<Rightarrow> VyLogBodyS \<Rightarrow> heap \<times> VyLogBodyS" where
  "VyLogBody_CloneInto sp h b dst = (case cloneVyKeys sp h (ls_Keys b) of (h1, keys) \<Rightarrow> (h1, b\<lparr>ls_Keys := keys\<rparr>))"

section \<open>Copying lists of operations\<close>

text \<open>A slice of operations is a window into an array of operations.\<close>

definition op_at :: "heap \<Rightarrow> slice \<Rightarrow> nat \<Rightarrow> OperationS" where
  "op_at h x i = oparrays h ! sl_arr x ! (sl_off x + i)"

definition set_op :: "heap \<Rightarrow> slice \<Rightarrow> nat \<Rightarrow> OperationS \<Rightarrow> heap" where
  "set_op h x i op = h\<lparr>oparrays := (oparrays h)[sl_arr x := (oparrays h ! sl_arr x)[sl_off x + i := op]]\<rparr>"

definition OperationS0 :: OperationS where
  "OperationS0 = \<lparr>os_Op = 0, os_Field = 0, os_FieldName = None, os_HasSplice = False, os_Position = 0,
     os_Offset = 0, os_Value = None\<rparr>"

definition make_ops :: "heap \<Rightarrow> OperationS list \<Rightarrow> nat \<Rightarrow> heap \<times> slice" where
  "make_ops h ops c = (h\<lparr>oparrays := oparrays h @ [ops @ replicate (c - length ops) OperationS0]\<rparr>,
     \<lparr>sl_arr = length (oparrays h), sl_off = 0, sl_len = length ops, sl_cap = max c (length ops)\<rparr>)"

fun clone_ops_loop :: "(nat \<Rightarrow> nat) \<Rightarrow> heap \<Rightarrow> cloneArena \<Rightarrow> slice \<Rightarrow> slice \<Rightarrow> nat list \<Rightarrow> heap" where
  "clone_ops_loop sp h a ops out [] = h"
| "clone_ops_loop sp h a ops out (i # is) =
     (let h0 = set_op h out i (op_at h ops i) in
      case arena_clone sp h0 a (os_FieldName (op_at h0 ops i)) of (h1, a1, name) \<Rightarrow>
      let h1' = set_op h1 out i ((op_at h1 out i)\<lparr>os_FieldName := name\<rparr>) in
      case arena_clone sp h1' a1 (os_Value (op_at h1' ops i)) of (h2, a2, val) \<Rightarrow>
      let h2' = set_op h2 out i ((op_at h2 out i)\<lparr>os_Value := val\<rparr>) in
      clone_ops_loop sp h2' a2 ops out is)"

definition CloneOps :: "(nat \<Rightarrow> nat) \<Rightarrow> heap \<Rightarrow> slice option \<Rightarrow> heap \<times> slice option" where
  "CloneOps sp h opso = (case opso of None \<Rightarrow> (h, None)
     | Some ops \<Rightarrow>
         (let n = foldl (\<lambda>n i. n + (slen (os_FieldName (op_at h ops i)) + slen (os_Value (op_at h ops i)))) 0 [0..<sl_len ops] in
          case newCloneArena h n of (h0, arena) \<Rightarrow>
          case make_ops h0 (replicate (sl_len ops) OperationS0) (sl_len ops) of (h1, out) \<Rightarrow>
            (clone_ops_loop sp h1 arena ops out [0..<sl_len ops], Some out)))"

fun clone_ops_into_loop :: "(nat \<Rightarrow> nat) \<Rightarrow> heap \<Rightarrow> slice \<Rightarrow> slice \<Rightarrow> nat list \<Rightarrow> heap" where
  "clone_ops_into_loop sp h src dst [] = h"
| "clone_ops_into_loop sp h src dst (i # is) =
     (case Operation_CloneInto sp h (op_at h src i) (op_at h dst i) of
        (h1, op) \<Rightarrow> clone_ops_into_loop sp (set_op h1 dst i op) src dst is)"

definition CloneOpsInto :: "(nat \<Rightarrow> nat) \<Rightarrow> heap \<Rightarrow> slice option \<Rightarrow> slice option \<Rightarrow> heap \<times> slice option" where
  "CloneOpsInto sp h srco dst = (case srco of None \<Rightarrow> (h, None)
     | Some src \<Rightarrow>
         (let (h1, dst1) =
            (if scap dst < sl_len src then
               (case make_ops h (map (\<lambda>i. op_at h (the dst) i) [0..<scap dst] @ replicate (sl_len src - scap dst) OperationS0)
                       (sl_len src + sp (sl_len src)) of (h', d) \<Rightarrow> (h', Some d))
             else (h, dst)) in
          case dst1 of None \<Rightarrow> (h1, Some empty_slice)
          | Some d \<Rightarrow> (let d' = d\<lparr>sl_len := sl_len src\<rparr> in
              (clone_ops_into_loop sp h1 src d' [0..<sl_len src], Some d'))))"


section \<open>Memory\<close>

text \<open>The bytes a slice can reach through its capacity, and what it takes to be a slice of the store.\<close>

definition cells :: "slice option \<Rightarrow> (nat \<times> nat) set" where
  "cells s = (case s of None \<Rightarrow> {} | Some x \<Rightarrow> {sl_arr x} \<times> {sl_off x..<sl_off x + sl_cap x})"

definition sl_ok :: "heap \<Rightarrow> slice option \<Rightarrow> bool" where
  "sl_ok h s = (case s of None \<Rightarrow> True | Some x \<Rightarrow> sl_len x \<le> sl_cap x
     \<and> (0 < sl_cap x \<longrightarrow> sl_arr x < length (arrays h) \<and> sl_off x + sl_cap x \<le> length (arrays h ! sl_arr x)))"

definition fresh :: "heap \<Rightarrow> (nat \<times> nat) set" where
  "fresh h = {(a, i). length (arrays h) \<le> a}"

text \<open>At most the bytes of \<open>W\<close> changed among those that were there, and nothing but bytes.\<close>

definition frame :: "(nat \<times> nat) set \<Rightarrow> heap \<Rightarrow> heap \<Rightarrow> bool" where
  "frame W h h' \<longleftrightarrow> length (arrays h) \<le> length (arrays h')
     \<and> clocks h' = clocks h \<and> keymaps h' = keymaps h \<and> oparrays h' = oparrays h
     \<and> (\<forall>a<length (arrays h). length (arrays h' ! a) = length (arrays h ! a)
         \<and> (\<forall>i<length (arrays h ! a). (a, i) \<notin> W \<longrightarrow> arrays h' ! a ! i = arrays h ! a ! i))"

lemma cells_Some: "cells (Some x) = {sl_arr x} \<times> {sl_off x..<sl_off x + sl_cap x}"
  by (simp add: cells_def)

lemma cells_simps [simp]: "cells None = {}" "cells (Some empty_slice) = {}" "sl_cap x = 0 \<Longrightarrow> cells (Some x) = {}"
  by (simp_all add: cells_def empty_slice_def)

lemma sl_ok_simps [simp]: "sl_ok h None" "sl_ok h (Some empty_slice)"
  by (simp_all add: sl_ok_def empty_slice_def)

lemma sread_simps [simp]: "sread h None = None" "sread h (Some x) = Some (window h x)" "window h empty_slice = []"
  by (simp_all add: sread_def window_def empty_slice_def)

lemma slen_simps [simp]: "slen None = 0" "slen (Some x) = sl_len x" "scap None = 0" "scap (Some x) = sl_cap x"
  by (simp_all add: slen_def scap_def)

lemma window_empty [simp]: "sl_len x = 0 \<Longrightarrow> window h x = []"
  by (simp add: window_def)

lemma window_length: "sl_ok h (Some x) \<Longrightarrow> length (window h x) = sl_len x"
  by (cases "sl_cap x = 0") (auto simp: sl_ok_def window_def)

lemma ok_not_fresh: "sl_ok h s \<Longrightarrow> cells s \<inter> fresh h = {}"
  by (cases s) (auto simp: sl_ok_def fresh_def cells_Some)

lemma frame_refl [simp]: "frame W h h"
  by (simp add: frame_def)

lemma frame_trans:
  assumes "frame W h h1" "frame W' h1 h2"
  shows "frame (W \<union> W') h h2"
proof -
  have "arrays h2 ! a ! i = arrays h ! a ! i"
    if "a < length (arrays h)" "i < length (arrays h ! a)" "(a, i) \<notin> W \<union> W'" for a i
  proof -
    have "arrays h1 ! a ! i = arrays h ! a ! i" "i < length (arrays h1 ! a)" "a < length (arrays h1)"
      using assms(1) that by (auto simp: frame_def)
    with assms(2) that show ?thesis by (auto simp: frame_def)
  qed
  with assms show ?thesis by (auto simp: frame_def)
qed

lemma frame_fresh: "frame W h h' \<Longrightarrow> W \<subseteq> W' \<union> fresh h \<Longrightarrow> frame W' h h'"
  unfolding frame_def fresh_def by fastforce

lemma frame_fresh_mono: "frame W h h' \<Longrightarrow> fresh h' \<subseteq> fresh h"
  by (auto simp: frame_def fresh_def)

lemma frame_ok: "frame W h h' \<Longrightarrow> sl_ok h s \<Longrightarrow> sl_ok h' s"
  by (cases s) (auto simp: frame_def sl_ok_def)

lemma frame_window:
  assumes f: "frame W h h'" and ok: "sl_ok h (Some x)" and d: "cells (Some x) \<inter> W = {}"
  shows "window h' x = window h x"
proof (rule nth_equalityI)
  show l: "length (window h' x) = length (window h x)"
    using window_length [OF ok] window_length [OF frame_ok [OF f ok]] by simp
  fix i assume "i < length (window h' x)"
  then have i: "i < sl_len x" using l window_length [OF ok] by simp
  then have a: "sl_arr x < length (arrays h)" "sl_off x + sl_cap x \<le> length (arrays h ! sl_arr x)" "i < sl_cap x"
    using ok by (auto simp: sl_ok_def)
  then have "(sl_arr x, sl_off x + i) \<in> cells (Some x)" by (simp add: cells_Some)
  then have "(sl_arr x, sl_off x + i) \<notin> W" using d by blast
  with f a have "arrays h' ! sl_arr x ! (sl_off x + i) = arrays h ! sl_arr x ! (sl_off x + i)"
    "length (arrays h' ! sl_arr x) = length (arrays h ! sl_arr x)" by (auto simp: frame_def)
  then show "window h' x ! i = window h x ! i" using a i by (simp add: window_def)
qed

lemma frame_read: "frame W h h' \<Longrightarrow> sl_ok h s \<Longrightarrow> cells s \<inter> W = {} \<Longrightarrow> sread h' s = sread h s"
  by (cases s) (simp_all add: frame_window)

lemma alloc_effect:
  assumes "alloc h bs c = (h', x)"
  shows "frame {} h h'" "sl_ok h' (Some x)" "cells (Some x) \<subseteq> fresh h" "window h' x = bs" "sl_len x = length bs" "length bs \<le> sl_cap x"
    "c \<le> sl_cap x"
  using assms by (auto simp: alloc_def frame_def sl_ok_def fresh_def window_def nth_append cells_Some)

lemma poke_effect:
  assumes "a < length (arrays h)" "p + length bs \<le> length (arrays h ! a)"
  shows "frame ({a} \<times> {p..<p + length bs}) h (poke h a p bs)" "take (length bs) (drop p (arrays (poke h a p bs) ! a)) = bs"
proof -
  let ?b = "arrays h ! a"
  have "(take p ?b @ bs @ drop (p + length bs) ?b) ! i = ?b ! i" if "i < p \<or> p + length bs \<le> i" "i < length ?b" for i
    using that assms(2) by (auto simp: nth_append min_def)
  then show "frame ({a} \<times> {p..<p + length bs}) h (poke h a p bs)"
    using assms by (auto simp: frame_def poke_def nth_list_update not_le)
  show "take (length bs) (drop p (arrays (poke h a p bs) ! a)) = bs"
    using assms by (simp add: poke_def)
qed

lemma bytes_Clone_effect:
  assumes "bytes_Clone sp h s = (h', y)" "sl_ok h s"
  shows "frame {} h h' \<and> sl_ok h' y \<and> cells y \<subseteq> fresh h \<and> sread h' y = sread h s"
proof (cases s)
  case None
  then show ?thesis using assms by (simp add: bytes_Clone_def)
next
  case (Some x)
  show ?thesis
  proof (cases "sl_len x = 0")
    case True
    then show ?thesis using assms Some by (auto simp: bytes_Clone_def)
  next
    case False
    then obtain y' where y: "alloc h (window h x) (sl_len x + sp (sl_len x)) = (h', y')" "y = Some y'"
      using assms Some by (auto simp: bytes_Clone_def split: prod.splits)
    from alloc_effect [OF y(1)] show ?thesis using y(2) Some by simp
  qed
qed

section \<open>Copying into owned memory\<close>

text \<open>The bytes of \<open>d\<close> that a copy of \<open>s\<close> may write: none when both are of one array.\<close>

definition tcells :: "slice option \<times> slice option \<Rightarrow> (nat \<times> nat) set" where
  "tcells p = (if sameArray (fst p) (snd p) then {} else cells (fst p))"

lemma cloneBytesInto_effect:
  assumes "cloneBytesInto sp h d s = (h', y)" "sl_ok h d" "sl_ok h s"
  shows "frame (tcells (d, s)) h h' \<and> sl_ok h' y \<and> cells y \<subseteq> fresh h \<union> tcells (d, s) \<and> sread h' y = sread h s"
proof (cases s)
  case None
  then show ?thesis using assms by (simp add: cloneBytesInto_def)
next
  case (Some x)
  show ?thesis
  proof (cases "scap d < sl_len x \<or> sameArray d s")
    case True
    then have "bytes_Clone sp h s = (h', y)" using assms(1) Some by (simp add: cloneBytesInto_def)
    from bytes_Clone_effect [OF this assms(3)] show ?thesis using frame_fresh [of "{}" h h'] by auto
  next
    case False
    note F = False
    show ?thesis
    proof (cases d)
      case None
      then show ?thesis using F assms(1) Some by (auto simp: cloneBytesInto_def)
    next
      case (Some w)
      let ?bs = "window h x"
      have l: "length ?bs = sl_len x" using assms(3) \<open>s = Some x\<close> window_length by simp
      have r: "h' = poke h (sl_arr w) (sl_off w) ?bs" "y = Some (w\<lparr>sl_len := sl_len x\<rparr>)"
        using F assms(1) Some \<open>s = Some x\<close> by (auto simp: cloneBytesInto_def)
      have t: "tcells (d, s) = cells d" using F by (simp add: tcells_def)
      show ?thesis
      proof (cases "sl_cap w = 0")
        case True
        then have "sl_len x = 0" using F Some by simp
        moreover have "h' = h"
          using r(1) \<open>sl_len x = 0\<close> by (simp add: poke_def)
        ultimately show ?thesis using r(2) t True Some \<open>s = Some x\<close> by (auto simp: sl_ok_def)
      next
        case False
        then have a: "sl_arr w < length (arrays h)" "sl_off w + length ?bs \<le> length (arrays h ! sl_arr w)" "sl_len x \<le> sl_cap w"
          using assms(2) F Some l by (auto simp: sl_ok_def)
        note pe = poke_effect [OF a(1,2)]
        have "frame (cells d) h h'" unfolding r(1) by (rule frame_fresh [OF pe(1)]) (use a(3) Some l in \<open>auto simp: cells_Some\<close>)
        moreover from frame_ok [OF this assms(2)] have "sl_ok h' y" using r(2) Some a(3) by (simp add: sl_ok_def)
        moreover have "sread h' y = sread h s" using pe(2) r l \<open>s = Some x\<close> by (simp add: window_def)
        ultimately show ?thesis using r(2) t Some by (auto simp: cells_Some)
      qed
    qed
  qed
qed

text \<open>A sequence of copies, slice by slice.\<close>

fun intos :: "(nat \<Rightarrow> nat) \<Rightarrow> heap \<Rightarrow> (slice option \<times> slice option) list \<Rightarrow> heap \<times> slice option list" where
  "intos sp h [] = (h, [])"
| "intos sp h ((d, s) # ps) = (case cloneBytesInto sp h d s of (h1, y) \<Rightarrow>
     case intos sp h1 ps of (h2, ys) \<Rightarrow> (h2, y # ys))"

definition writable :: "(slice option \<times> slice option) list \<Rightarrow> (nat \<times> nat) set" where
  "writable ps = (\<Union>p\<in>set ps. tcells p)"

definition apart :: "slice option list \<Rightarrow> bool" where
  "apart ss = sorted_wrt (\<lambda>x y. cells x \<inter> cells y = {}) ss"

text \<open>
  What the package asks of a destination: a slice of it is of the same array as the slice copied into it, or
  it reaches no byte of the source and none that another slice of the destination reaches.
\<close>

definition owned :: "(slice option \<times> slice option) list \<Rightarrow> bool" where
  "owned ps \<longleftrightarrow> (\<forall>(d, s)\<in>set ps. cells s \<inter> writable ps = {})
     \<and> sorted_wrt (\<lambda>p q. tcells p \<inter> tcells q = {}) ps"

definition copied :: "heap \<Rightarrow> (slice option \<times> slice option) list \<Rightarrow> heap \<Rightarrow> slice option list \<Rightarrow> bool" where
  "copied h ps h' ys \<longleftrightarrow> frame (writable ps) h h' \<and> map (sread h') ys = map (sread h) (map snd ps)
     \<and> (\<forall>y\<in>set ys. sl_ok h' y \<and> cells y \<subseteq> fresh h \<union> writable ps) \<and> apart ys"

lemma writable_simps [simp]: "writable [] = {}" "writable (p # ps) = tcells p \<union> writable ps"
  by (simp_all add: writable_def)

lemma tcells_sub: "tcells (d, s) \<subseteq> cells d"
  by (simp add: tcells_def)

lemma intos_copied:
  assumes "intos sp h ps = (h', ys)" "\<forall>(d, s)\<in>set ps. sl_ok h d \<and> sl_ok h s" "owned ps"
  shows "copied h ps h' ys"
  using assms
proof (induction ps arbitrary: h h' ys)
  case Nil
  then show ?case by (simp add: copied_def apart_def)
next
  case (Cons p ps)
  obtain d s where p: "p = (d, s)" by force
  obtain h1 y ys' where r: "cloneBytesInto sp h d s = (h1, y)" "intos sp h1 ps = (h', ys')" "ys = y # ys'"
    using Cons.prems(1) p by (auto split: prod.splits)
  have ok: "sl_ok h d" "sl_ok h s" and ok': "\<forall>(d, s)\<in>set ps. sl_ok h d \<and> sl_ok h s" using Cons.prems(2) p by auto
  have e: "frame (tcells p) h h1" "sl_ok h1 y" "cells y \<subseteq> fresh h \<union> tcells p" "sread h1 y = sread h s"
    using cloneBytesInto_effect [OF r(1) ok] p by simp_all
  have "owned ps" using Cons.prems(3) by (auto simp: owned_def)
  then have c: "copied h1 ps h' ys'"
    using frame_ok [OF e(1)] ok' by (intro Cons.IH [OF r(2)]) auto
  have wf: "writable ps \<inter> fresh h = {}"
    using ok_not_fresh ok' tcells_sub by (fastforce simp: writable_def)
  have tw: "tcells p \<inter> writable ps = {}" using Cons.prems(3) by (auto simp: owned_def writable_def)
  have "sread h1 s' = sread h s'" if "(d', s') \<in> set ps" for d' s'
  proof (rule frame_read [OF e(1)])
    show "sl_ok h s'" using that ok' by auto
    have "cells s' \<inter> writable (p # ps) = {}" using that Cons.prems(3) unfolding owned_def by fastforce
    then show "cells s' \<inter> tcells p = {}" by auto
  qed
  then have srcs: "map (sread h1) (map snd ps) = map (sread h) (map snd ps)" by auto
  have yw: "cells y \<inter> writable ps = {}" using e(3) wf tw by blast
  have "frame (writable (p # ps)) h h'" using frame_trans [OF e(1)] c by (simp add: copied_def)
  moreover have "map (sread h') ys = map (sread h) (map snd (p # ps))"
    using c srcs frame_read [OF _ e(2) yw] e(4) r(3) p by (simp add: copied_def)
  moreover have "sl_ok h' z \<and> cells z \<subseteq> fresh h \<union> writable (p # ps)" if "z \<in> set ys" for z
    using that c e(2,3) frame_ok frame_fresh_mono [OF e(1)] r(3) unfolding copied_def by fastforce
  moreover have "apart ys"
    using c yw ok_not_fresh [OF e(2)] r(3) by (fastforce simp: copied_def apart_def)
  ultimately show ?case by (simp add: copied_def)
qed

lemma copied_sources:
  assumes "copied h ps h' ys" "owned ps" "\<forall>(d, s)\<in>set ps. sl_ok h d \<and> sl_ok h s"
  shows "map (sread h') (map snd ps) = map (sread h) (map snd ps)"
    "s \<in> set (map snd ps) \<Longrightarrow> t \<in> set ys \<Longrightarrow> cells s \<inter> cells t = {}"
proof -
  have src: "sl_ok h s" "cells s \<inter> writable ps = {}" if "s \<in> set (map snd ps)" for s
    using that assms(2,3) unfolding owned_def by fastforce+
  show "map (sread h') (map snd ps) = map (sread h) (map snd ps)"
    using assms(1) src by (intro map_cong refl frame_read [of "writable ps"]) (simp_all add: copied_def)
  show "cells s \<inter> cells t = {}" if "s \<in> set (map snd ps)" "t \<in> set ys"
    using assms(1) src [OF that(1)] ok_not_fresh that(2) unfolding copied_def by blast
qed

text \<open>The three destinations the package documents: the zero value, the source itself, and slices of its own.\<close>

lemma owned_zero: "owned (map (Pair None) ss)"
proof -
  have t: "tcells (None, s) = {}" for s by (simp add: tcells_def)
  then have w: "writable (map (Pair None) ss) = {}" by (auto simp: writable_def)
  have "sorted_wrt (\<lambda>p q. tcells p \<inter> tcells q = {}) (map (Pair None) ss)" by (induction ss) (simp_all add: t)
  then show ?thesis by (auto simp: owned_def w)
qed

lemma tcells_same: "tcells (s, s) = {}"
  by (cases s) (auto simp: tcells_def sameArray_def)

lemma owned_self: "owned (zip ss ss)"
proof -
  have w: "writable (zip ss ss) = {}" by (auto simp: writable_def tcells_same zip_same_conv_map)
  have "sorted_wrt (\<lambda>p q. tcells p \<inter> tcells q = {}) (zip ss ss)" by (induction ss) (simp_all add: tcells_same)
  then show ?thesis by (auto simp: owned_def w)
qed

lemma owned_apart:
  assumes "apart ds" "\<And>d s. d \<in> set ds \<Longrightarrow> s \<in> set ss \<Longrightarrow> cells d \<inter> cells s = {}"
  shows "owned (zip ds ss)"
proof -
  have w: "writable (zip ds ss) \<subseteq> \<Union> (cells ` set ds)"
    using tcells_sub by (fastforce simp: writable_def dest: set_zip_leftD)
  have "sorted_wrt (\<lambda>p q. tcells p \<inter> tcells q = {}) (zip ds ss)" using assms(1)
  proof (induction ds ss rule: list_induct2')
    case (4 d ds s ss)
    have "tcells (d, s) \<inter> tcells q = {}" if "q \<in> set (zip ds ss)" for q
    proof -
      obtain d' s' where q: "q = (d', s')" by force
      then have "d' \<in> set ds" using that by (auto dest: set_zip_leftD)
      then have "cells d \<inter> cells d' = {}" using 4(2) by (auto simp: apart_def)
      then show ?thesis using tcells_sub [of d s] tcells_sub [of d' s'] q by blast
    qed
    with 4 show ?case by (simp add: apart_def)
  qed simp_all
  moreover have "cells s \<inter> writable (zip ds ss) = {}" if "(d, s) \<in> set (zip ds ss)" for d s
    using w assms(2) set_zip_rightD [OF that] by blast
  ultimately show ?thesis by (auto simp: owned_def)
qed

section \<open>Copying into one allocation\<close>

fun arenas :: "(nat \<Rightarrow> nat) \<Rightarrow> heap \<Rightarrow> cloneArena \<Rightarrow> slice option list \<Rightarrow> heap \<times> cloneArena \<times> slice option list" where
  "arenas sp h a [] = (h, a, [])"
| "arenas sp h a (s # ss) = (case arena_clone sp h a s of (h1, a1, y) \<Rightarrow>
     case arenas sp h1 a1 ss of (h2, a2, ys) \<Rightarrow> (h2, a2, y # ys))"

definition free :: "cloneArena \<Rightarrow> (nat \<times> nat) set" where
  "free a = (case a of None \<Rightarrow> {} | Some x \<Rightarrow> {sl_arr x} \<times> {sl_off x + sl_len x..<sl_off x + sl_cap x})"

definition arena_room :: "heap \<Rightarrow> cloneArena \<Rightarrow> nat \<Rightarrow> bool" where
  "arena_room h a n \<longleftrightarrow> sl_ok h a \<and> slen a + n \<le> scap a"

lemma arena_clone_effect:
  assumes "arena_clone sp h a s = (h', a', y)" "arena_room h a (slen s + n)" "sl_ok h s"
  shows "frame (cells y) h h' \<and> cells y \<subseteq> free a \<and> free a' \<subseteq> free a \<and> cells y \<inter> free a' = {}
     \<and> arena_room h' a' n \<and> sl_ok h' y \<and> sread h' y = sread h s"
proof (cases "slen s = 0")
  case True
  then have "h' = h" "a' = a" "y = None \<and> s = None \<or> y = Some empty_slice \<and> (\<exists>x. s = Some x \<and> sl_len x = 0)"
    using assms(1) by (cases s; auto simp: arena_clone_def)+
  then show ?thesis using True assms(2) by auto
next
  case False
  then obtain x where x: "s = Some x" "0 < sl_len x" by (cases s) auto
  let ?bs = "window h x"
  have l: "length ?bs = sl_len x" using assms(3) x window_length by simp
  obtain w where w: "a = Some w" using assms(2) x by (cases a) (auto simp: arena_room_def)
  have room: "sl_len w + sl_len x + n \<le> sl_cap w" "sl_ok h (Some w)" using assms(2) x w by (simp_all add: arena_room_def)
  then have b: "sl_arr w < length (arrays h)" "sl_off w + sl_cap w \<le> length (arrays h ! sl_arr w)"
    using x by (auto simp: sl_ok_def)
  let ?y = "w\<lparr>sl_off := sl_off w + sl_len w, sl_len := sl_len x, sl_cap := sl_len x\<rparr>"
  have r: "h' = poke h (sl_arr w) (sl_off w + sl_len w) ?bs" "a' = Some (w\<lparr>sl_len := sl_len w + sl_len x\<rparr>)" "y = Some ?y"
    using assms(1) x w l room(1) by (auto simp: arena_clone_def go_append_def Let_def)
  have p: "sl_off w + sl_len w + length ?bs \<le> length (arrays h ! sl_arr w)" using b room(1) l by simp
  note pe = poke_effect [OF b(1) p]
  have f: "frame (cells y) h h'" using pe(1) r l by (simp add: cells_Some)
  have "sl_ok h' (Some w)" using frame_ok [OF f room(2)] .
  then have "sl_ok h' y" "arena_room h' a' n" using r(2,3) room(1) x(2) by (auto simp: sl_ok_def arena_room_def)
  moreover have "sread h' y = sread h s" using pe(2) r x l by (simp add: window_def)
  ultimately show ?thesis using f r w room(1) by (auto simp: cells_Some free_def)
qed

lemma free_cells: "sl_ok h a \<Longrightarrow> free a \<subseteq> cells a"
  by (cases a) (auto simp: free_def cells_Some)

lemma arenas_copied:
  assumes "arenas sp h a ss = (h', a', ys)" "arena_room h a (sum_list (map slen ss))"
    and "\<forall>s\<in>set ss. sl_ok h s \<and> cells s \<inter> free a = {}"
  shows "frame (free a) h h' \<and> map (sread h') ys = map (sread h) ss \<and> (\<forall>y\<in>set ys. sl_ok h' y \<and> cells y \<subseteq> free a) \<and> apart ys"
  using assms
proof (induction ss arbitrary: h a h' a' ys)
  case Nil
  then show ?case by (simp add: apart_def)
next
  case (Cons s ss)
  obtain h1 a1 y ys' where r: "arena_clone sp h a s = (h1, a1, y)" "arenas sp h1 a1 ss = (h', a', ys')" "ys = y # ys'"
    using Cons.prems(1) by (auto split: prod.splits)
  have e: "frame (cells y) h h1" "cells y \<subseteq> free a" "free a1 \<subseteq> free a" "cells y \<inter> free a1 = {}"
    "arena_room h1 a1 (sum_list (map slen ss))" "sl_ok h1 y" "sread h1 y = sread h s"
    using arena_clone_effect [OF r(1)] Cons.prems(2,3) by auto
  have i: "frame (free a1) h1 h'" "map (sread h') ys' = map (sread h1) ss" "\<forall>y\<in>set ys'. sl_ok h' y \<and> cells y \<subseteq> free a1" "apart ys'"
    using Cons.IH [OF r(2) e(5)] Cons.prems(3) e(3) frame_ok [OF e(1)] by (fastforce+)
  have "map (sread h1) ss = map (sread h) ss"
    using Cons.prems(3) e(2) by (auto intro!: frame_read [OF e(1)])
  moreover have "sread h' y = sread h s" using frame_read [OF i(1) e(6,4)] e(7) by simp
  moreover have "frame (free a) h h'" using frame_fresh [OF frame_trans [OF e(1) i(1)]] e(2,3) by blast
  moreover have "sl_ok h' y" using frame_ok [OF i(1) e(6)] .
  moreover have "apart ys" using i(3,4) e(4) r(3) by (fastforce simp: apart_def)
  moreover have "\<forall>z\<in>set ys'. cells z \<subseteq> free a" using i(3) e(3) by blast
  ultimately show ?case using i(2,3) e(2) r(3) by simp
qed

text \<open>
  Copies that share nothing with what was there: the old bytes are untouched, the copies read as the originals
  do, nil as nil, reach only new memory, and no copy reaches a byte of another.
\<close>

definition detached :: "heap \<Rightarrow> slice option list \<Rightarrow> heap \<Rightarrow> slice option list \<Rightarrow> bool" where
  "detached h ss h' ys \<longleftrightarrow> frame {} h h' \<and> map (sread h') ys = map (sread h) ss
     \<and> (\<forall>y\<in>set ys. sl_ok h' y \<and> cells y \<subseteq> fresh h) \<and> apart ys"

definition arena_all :: "(nat \<Rightarrow> nat) \<Rightarrow> heap \<Rightarrow> slice option list \<Rightarrow> heap \<times> slice option list" where
  "arena_all sp h ss = (case newCloneArena h (sum_list (map slen ss)) of (h0, a) \<Rightarrow>
     case arenas sp h0 a ss of (h1, _, ys) \<Rightarrow> (h1, ys))"

definition clone_all :: "(nat \<Rightarrow> nat) \<Rightarrow> heap \<Rightarrow> slice option list \<Rightarrow> heap \<times> slice option list" where
  "clone_all sp h ss = intos sp h (map (Pair None) ss)"

lemma newCloneArena_room:
  assumes "newCloneArena h n = (h0, a)"
  shows "frame {} h h0 \<and> arena_room h0 a n \<and> free a \<subseteq> fresh h"
proof (cases "n = 0")
  case True
  then show ?thesis using assms by (auto simp: newCloneArena_def arena_room_def free_def)
next
  case False
  then obtain x where x: "alloc h [] n = (h0, x)" "a = Some x" using assms by (auto simp: newCloneArena_def split: prod.splits)
  from alloc_effect [OF x(1)] show ?thesis using x(2) free_cells [of h0 a] by (auto simp: arena_room_def)
qed

lemma arena_all_detached:
  assumes "\<forall>s\<in>set ss. sl_ok h s" "arena_all sp h ss = (h', ys)"
  shows "detached h ss h' ys"
proof -
  obtain h0 a a' where r: "newCloneArena h (sum_list (map slen ss)) = (h0, a)" "arenas sp h0 a ss = (h', a', ys)"
    using assms(2) by (auto simp: arena_all_def split: prod.splits)
  have n: "frame {} h h0" "arena_room h0 a (sum_list (map slen ss))" "free a \<subseteq> fresh h"
    using newCloneArena_room [OF r(1)] by simp_all
  have "\<forall>s\<in>set ss. sl_ok h0 s \<and> cells s \<inter> free a = {}"
    using assms(1) n(1,3) frame_ok ok_not_fresh by blast
  note c = arenas_copied [OF r(2) n(2) this]
  have "frame {} h h'" using frame_fresh [OF frame_trans [OF n(1)]] c n(3) by blast
  moreover have "map (sread h0) ss = map (sread h) ss" using assms(1) by (auto intro!: frame_read [OF n(1)])
  moreover have "\<forall>y\<in>set ys. cells y \<subseteq> fresh h" using c n(3) by blast
  ultimately show ?thesis using c by (simp add: detached_def)
qed

lemma clone_all_detached:
  assumes "\<forall>s\<in>set ss. sl_ok h s" "clone_all sp h ss = (h', ys)"
  shows "detached h ss h' ys"
proof -
  have w: "writable (map (Pair None) ss) = {}" by (auto simp: writable_def tcells_def)
  have "copied h (map (Pair None) ss) h' ys"
    using assms by (intro intos_copied [of sp] owned_zero) (auto simp: clone_all_def)
  then show ?thesis by (simp add: copied_def detached_def w o_def)
qed

lemma cloneBytesInto_nil: "cloneBytesInto sp h None s = bytes_Clone sp h s"
  by (cases s) (auto simp: cloneBytesInto_def bytes_Clone_def)

section \<open>Deep copies\<close>

text \<open>
  A value is its slices, \<open>raw\<close>, and the rest: \<open>put x ys\<close> is \<open>x\<close> with other slices. A deep copy has the rest of
  the original and slices detached from it; a copy into a destination writes nothing but what the destination
  owns, and shares neither with the source nor between its slices.
\<close>

definition deep_copy :: "('a \<Rightarrow> slice option list) \<Rightarrow> ('a \<Rightarrow> slice option list \<Rightarrow> 'a) \<Rightarrow> (heap \<Rightarrow> 'a \<Rightarrow> heap \<times> 'a) \<Rightarrow> bool" where
  "deep_copy raw put clone \<longleftrightarrow> (\<forall>h x h' y. (\<forall>s\<in>set (raw x). sl_ok h s) \<longrightarrow> clone h x = (h', y)
     \<longrightarrow> y = put x (raw y) \<and> detached h (raw x) h' (raw y))"

definition deep_copy_ptr :: "('a \<Rightarrow> slice option list) \<Rightarrow> ('a \<Rightarrow> slice option list \<Rightarrow> 'a)
    \<Rightarrow> (heap \<Rightarrow> 'a option \<Rightarrow> heap \<times> 'a option) \<Rightarrow> bool" where
  "deep_copy_ptr raw put clone \<longleftrightarrow> (\<forall>h. clone h None = (h, None))
     \<and> (\<exists>cl. deep_copy raw put cl \<and> (\<forall>h x. clone h (Some x) = (case cl h x of (h', y) \<Rightarrow> (h', Some y))))"

definition deep_copy_into :: "('a \<Rightarrow> slice option list) \<Rightarrow> ('a \<Rightarrow> slice option list \<Rightarrow> 'a)
    \<Rightarrow> (heap \<Rightarrow> 'a \<Rightarrow> 'a \<Rightarrow> heap \<times> 'a) \<Rightarrow> bool" where
  "deep_copy_into raw put into \<longleftrightarrow> (\<forall>h x d h' y.
     (\<forall>s\<in>set (raw x) \<union> set (raw d). sl_ok h s) \<longrightarrow> owned (zip (raw d) (raw x)) \<longrightarrow> into h x d = (h', y)
     \<longrightarrow> y = put x (raw y) \<and> copied h (zip (raw d) (raw x)) h' (raw y)
       \<and> map (sread h') (raw x) = map (sread h) (raw x)
       \<and> (\<forall>s\<in>set (raw x). \<forall>t\<in>set (raw y). cells s \<inter> cells t = {}))"

locale copier =
  fixes gen :: "heap \<Rightarrow> slice option list \<Rightarrow> heap \<times> slice option list"
  assumes gen_detached: "\<forall>s\<in>set ss. sl_ok h s \<Longrightarrow> gen h ss = (h', ys) \<Longrightarrow> detached h ss h' ys"
begin

lemma gen_length: "\<forall>s\<in>set ss. sl_ok h s \<Longrightarrow> gen h ss = (h', ys) \<Longrightarrow> length ys = length ss"
  by (drule (1) gen_detached) (metis detached_def length_map)

end

interpretation arena: copier "arena_all sp"
  by unfold_locales (rule arena_all_detached)

interpretation byte_clones: copier "clone_all sp"
  by unfold_locales (rule clone_all_detached)

locale cloneable = copier +
  fixes raw :: "'a \<Rightarrow> slice option list" and put :: "'a \<Rightarrow> slice option list \<Rightarrow> 'a"
    and clone :: "heap \<Rightarrow> 'a \<Rightarrow> heap \<times> 'a" and into :: "heap \<Rightarrow> 'a \<Rightarrow> 'a \<Rightarrow> heap \<times> 'a" and sp :: "nat \<Rightarrow> nat" and n :: nat
  assumes raw_length: "length (raw x) = n"
    and raw_put: "length ys = n \<Longrightarrow> raw (put x ys) = ys"
    and clone_gen: "clone h x = (case gen h (raw x) of (h', ys) \<Rightarrow> (h', put x ys))"
    and into_intos: "into h x d = (case intos sp h (zip (raw d) (raw x)) of (h', ys) \<Rightarrow> (h', put x ys))"
begin

lemma clone_deep: "deep_copy raw put clone"
  unfolding deep_copy_def
proof (intro allI impI)
  fix h x h' y assume a: "\<forall>s\<in>set (raw x). sl_ok h s" "clone h x = (h', y)"
  obtain ys where g: "gen h (raw x) = (h', ys)" "y = put x ys" using a(2) clone_gen by (auto split: prod.splits)
  have "raw y = ys" using gen_length [OF a(1) g(1)] g(2) raw_length raw_put by simp
  then show "y = put x (raw y) \<and> detached h (raw x) h' (raw y)" using gen_detached [OF a(1) g(1)] g(2) by simp
qed

lemma into_deep: "deep_copy_into raw put into"
  unfolding deep_copy_into_def
proof (intro allI impI)
  fix h x d h' y
  let ?ps = "zip (raw d) (raw x)"
  assume a: "\<forall>s\<in>set (raw x) \<union> set (raw d). sl_ok h s" "owned ?ps" "into h x d = (h', y)"
  have snds: "map snd ?ps = raw x" by (simp add: raw_length)
  obtain ys where g: "intos sp h ?ps = (h', ys)" "y = put x ys" using a(3) into_intos by (auto split: prod.splits)
  have ok: "\<forall>(d, s)\<in>set ?ps. sl_ok h d \<and> sl_ok h s" using a(1) by (auto dest: set_zip_leftD set_zip_rightD)
  from intos_copied [OF g(1) ok a(2)] have c: "copied h ?ps h' ys" .
  then have "length ys = n" using snds raw_length by (metis copied_def length_map)
  then have ry: "raw y = ys" using g(2) raw_put by simp
  show "y = put x (raw y) \<and> copied h ?ps h' (raw y) \<and> map (sread h') (raw x) = map (sread h) (raw x)
      \<and> (\<forall>s\<in>set (raw x). \<forall>t\<in>set (raw y). cells s \<inter> cells t = {})"
    using c ry g(2) copied_sources [OF c a(2) ok] unfolding snds by simp
qed

end

section \<open>The structs\<close>

text \<open>The result of a \<^verbatim>\<open>Clone\<close> whose receiver is not nil.\<close>

definition pointee :: "heap \<times> 'a option \<Rightarrow> heap \<times> 'a" where
  "pointee p = (fst p, the (snd p))"

definition xrow_raw :: "XRowS \<Rightarrow> slice option list" where
  "xrow_raw x = [xs_BodyRaw x]"

definition xrow_put :: "XRowS \<Rightarrow> slice option list \<Rightarrow> XRowS" where
  "xrow_put x ys = x\<lparr>xs_BodyRaw := ys ! 0\<rparr>"

definition dml_raw :: "DMLBodyS \<Rightarrow> slice option list" where
  "dml_raw x = [ds_Tuple x, ds_Key x, ds_Ops x, ds_OldTuple x, ds_NewTuple x, ds_Arrow x]"

definition dml_put :: "DMLBodyS \<Rightarrow> slice option list \<Rightarrow> DMLBodyS" where
  "dml_put x ys = x\<lparr>ds_Tuple := ys ! 0, ds_Key := ys ! 1, ds_Ops := ys ! 2, ds_OldTuple := ys ! 3, ds_NewTuple := ys ! 4, ds_Arrow := ys ! 5\<rparr>"

definition stmt_raw :: "VyStmtBodyS \<Rightarrow> slice option list" where
  "stmt_raw x = [ss_Tuple x, ss_Key x, ss_Ops x]"

definition stmt_put :: "VyStmtBodyS \<Rightarrow> slice option list \<Rightarrow> VyStmtBodyS" where
  "stmt_put x ys = x\<lparr>ss_Tuple := ys ! 0, ss_Key := ys ! 1, ss_Ops := ys ! 2\<rparr>"

definition run_info_raw :: "VyRunInfoS \<Rightarrow> slice option list" where
  "run_info_raw x = [rs_MinKey x, rs_MaxKey x, rs_Bloom x]"

definition run_info_put :: "VyRunInfoS \<Rightarrow> slice option list \<Rightarrow> VyRunInfoS" where
  "run_info_put x ys = x\<lparr>rs_MinKey := ys ! 0, rs_MaxKey := ys ! 1, rs_Bloom := ys ! 2\<rparr>"

definition page_info_raw :: "VyPageInfoS \<Rightarrow> slice option list" where
  "page_info_raw x = [ps_MinKey x]"

definition page_info_put :: "VyPageInfoS \<Rightarrow> slice option list \<Rightarrow> VyPageInfoS" where
  "page_info_put x ys = x\<lparr>ps_MinKey := ys ! 0\<rparr>"

definition op_raw :: "OperationS \<Rightarrow> slice option list" where
  "op_raw x = [os_FieldName x, os_Value x]"

definition op_put :: "OperationS \<Rightarrow> slice option list \<Rightarrow> OperationS" where
  "op_put x ys = x\<lparr>os_FieldName := ys ! 0, os_Value := ys ! 1\<rparr>"

lemma two_more: "length ys = Suc n \<longleftrightarrow> (\<exists>y zs. ys = y # zs \<and> length zs = n)"
  by (cases ys) auto

lemmas struct_defs = xrow_raw_def xrow_put_def dml_raw_def dml_put_def stmt_raw_def stmt_put_def run_info_raw_def run_info_put_def page_info_raw_def page_info_put_def op_raw_def op_put_def
  pointee_def arena_all_def clone_all_def cloneBytesInto_nil add.assoc

interpretation xrow: cloneable "clone_all sp" xrow_raw xrow_put "\<lambda>h x. pointee (XRow_Clone sp h (Some x))" "XRow_CloneInto sp" sp 1
  by unfold_locales (auto simp: struct_defs XRow_Clone_def XRow_CloneInto_def numeral_eq_Suc two_more split: prod.splits)

interpretation dml: cloneable "arena_all sp" dml_raw dml_put "\<lambda>h x. pointee (DMLBody_Clone sp h (Some x))" "DMLBody_CloneInto sp" sp 6
  by unfold_locales (auto simp: struct_defs DMLBody_Clone_def DMLBody_CloneInto_def numeral_eq_Suc two_more split: prod.splits)

interpretation stmt: cloneable "arena_all sp" stmt_raw stmt_put "\<lambda>h x. pointee (VyStmtBody_Clone sp h (Some x))" "VyStmtBody_CloneInto sp" sp 3
  by unfold_locales (auto simp: struct_defs VyStmtBody_Clone_def VyStmtBody_CloneInto_def numeral_eq_Suc two_more split: prod.splits)

interpretation run_info: cloneable "arena_all sp" run_info_raw run_info_put "\<lambda>h x. pointee (VyRunInfo_Clone sp h (Some x))" "VyRunInfo_CloneInto sp" sp 3
  by unfold_locales (auto simp: struct_defs VyRunInfo_Clone_def VyRunInfo_CloneInto_def numeral_eq_Suc two_more split: prod.splits)

interpretation page_info: cloneable "clone_all sp" page_info_raw page_info_put "\<lambda>h x. pointee (VyPageInfo_Clone sp h (Some x))" "VyPageInfo_CloneInto sp" sp 1
  by unfold_locales (auto simp: struct_defs VyPageInfo_Clone_def VyPageInfo_CloneInto_def numeral_eq_Suc two_more split: prod.splits)

interpretation op: cloneable "arena_all sp" op_raw op_put "Operation_Clone sp" "Operation_CloneInto sp" sp 2
  by unfold_locales (auto simp: struct_defs Operation_Clone_def Operation_CloneInto_def numeral_eq_Suc two_more split: prod.splits)

section \<open>Lists of operations\<close>

definition opview :: "heap \<Rightarrow> slice \<Rightarrow> OperationS list" where
  "opview h x = map (op_at h x) [0..<sl_len x]"

definition ops_raw :: "OperationS list \<Rightarrow> slice option list" where
  "ops_raw os = concat (map op_raw os)"

fun ops_put :: "OperationS list \<Rightarrow> slice option list \<Rightarrow> OperationS list" where
  "ops_put (op # os) (name # val # ys) = op\<lparr>os_FieldName := name, os_Value := val\<rparr> # ops_put os ys"
| "ops_put _ _ = []"

lemma ops_raw_simps [simp]: "ops_raw [] = []" "ops_raw (op # os) = os_FieldName op # os_Value op # ops_raw os"
  by (simp_all add: ops_raw_def op_raw_def)

lemma length_ops_raw: "length (ops_raw os) = 2 * length os"
  by (induction os) simp_all

lemma ops_put_length: "length ys = 2 * length os \<Longrightarrow> length (ops_put os ys) = length os"
proof (induction os arbitrary: ys)
  case (Cons op os)
  then obtain name val zs where "ys = name # val # zs" by (cases ys; cases "tl ys") auto
  with Cons show ?case by simp
qed simp

lemma ops_raw_put: "length ys = 2 * length os \<Longrightarrow> ops_raw (ops_put os ys) = ys"
proof (induction os arbitrary: ys)
  case (Cons op os)
  then obtain name val zs where "ys = name # val # zs" by (cases ys; cases "tl ys") auto
  with Cons show ?case by simp
qed simp

text \<open>Copying bytes neither reads nor writes the arrays of operations.\<close>

lemma alloc_oparrays: "alloc (h\<lparr>oparrays := o'\<rparr>) bs c = (case alloc h bs c of (h', x) \<Rightarrow> (h'\<lparr>oparrays := o'\<rparr>, x))"
  by (simp add: alloc_def)

lemma window_oparrays [simp]: "window (h\<lparr>oparrays := o'\<rparr>) x = window h x"
  by (simp add: window_def)

lemma poke_oparrays: "poke (h\<lparr>oparrays := o'\<rparr>) a p bs = (poke h a p bs)\<lparr>oparrays := o'\<rparr>"
  by (simp add: poke_def)

lemma arena_clone_oparrays:
  "arena_clone sp (h\<lparr>oparrays := o'\<rparr>) a s = (case arena_clone sp h a s of (h', a', y) \<Rightarrow> (h'\<lparr>oparrays := o'\<rparr>, a', y))"
  by (auto simp: arena_clone_def go_append_def alloc_oparrays poke_oparrays Let_def split: option.splits prod.splits)

lemma bytes_Clone_oparrays:
  "bytes_Clone sp (h\<lparr>oparrays := o'\<rparr>) s = (case bytes_Clone sp h s of (h', y) \<Rightarrow> (h'\<lparr>oparrays := o'\<rparr>, y))"
  by (auto simp: bytes_Clone_def alloc_oparrays split: option.splits prod.splits)

lemma cloneBytesInto_oparrays:
  "cloneBytesInto sp (h\<lparr>oparrays := o'\<rparr>) d s = (case cloneBytesInto sp h d s of (h', y) \<Rightarrow> (h'\<lparr>oparrays := o'\<rparr>, y))"
  by (auto simp: cloneBytesInto_def bytes_Clone_oparrays poke_oparrays split: option.splits prod.splits)

lemma arenas_oparrays:
  "arenas sp (h\<lparr>oparrays := o'\<rparr>) a ss = (case arenas sp h a ss of (h', a', ys) \<Rightarrow> (h'\<lparr>oparrays := o'\<rparr>, a', ys))"
  by (induction ss arbitrary: h a) (auto simp: arena_clone_oparrays split: prod.splits)

lemma intos_oparrays:
  "intos sp (h\<lparr>oparrays := o'\<rparr>) ps = (case intos sp h ps of (h', ys) \<Rightarrow> (h'\<lparr>oparrays := o'\<rparr>, ys))"
  by (induction ps arbitrary: h) (auto simp: cloneBytesInto_oparrays split: prod.splits)

lemma arena_clone_keeps: "arena_clone sp h a s = (h', a', y) \<Longrightarrow> oparrays h' = oparrays h"
  by (auto simp: arena_clone_def go_append_def alloc_def poke_def Let_def split: option.splits prod.splits if_splits)

lemma cloneBytesInto_keeps: "cloneBytesInto sp h d s = (h', y) \<Longrightarrow> oparrays h' = oparrays h"
  by (auto simp: cloneBytesInto_def bytes_Clone_def alloc_def poke_def split: option.splits prod.splits if_splits)

lemma arenas_length: "arenas sp h a ss = (h', a', ys) \<Longrightarrow> length ys = length ss \<and> oparrays h' = oparrays h"
  by (induction ss arbitrary: h a h' a' ys) (auto simp: arena_clone_keeps split: prod.splits)

lemma intos_length: "intos sp h ps = (h', ys) \<Longrightarrow> length ys = length ps \<and> oparrays h' = oparrays h"
  by (induction ps arbitrary: h h' ys) (auto simp: cloneBytesInto_keeps split: prod.splits)

definition patch :: "'a list \<Rightarrow> nat \<Rightarrow> 'a list \<Rightarrow> 'a list" where
  "patch A p xs = take p A @ xs @ drop (p + length xs) A"

lemma patch_Nil [simp]: "patch A p [] = A"
  by (simp add: patch_def)

lemma patch_Cons:
  assumes "p < length A"
  shows "patch (A[p := x]) (Suc p) xs = patch A p (x # xs)"
  using assms by (simp add: patch_def take_Suc_conv_app_nth)

lemma clone_ops_step:
  assumes "sl_arr ops \<noteq> sl_arr out" "sl_arr out < length (oparrays h)" "sl_off out + i < length (oparrays h ! sl_arr out)"
    and "arena_clone sp h a (os_FieldName (op_at h ops i)) = (h1, a1, name)" "arena_clone sp h1 a1 (os_Value (op_at h ops i)) = (h2, a2, val)"
  shows "clone_ops_loop sp h a ops out (i # is) = clone_ops_loop sp (h2\<lparr>oparrays := (oparrays h)[sl_arr out :=
      (oparrays h ! sl_arr out)[sl_off out + i := (op_at h ops i)\<lparr>os_FieldName := name, os_Value := val\<rparr>]]\<rparr>) a2 ops out is"
proof -
  have src: "op_at (g\<lparr>oparrays := (oparrays h)[sl_arr out := B]\<rparr>) ops i = op_at h ops i" for g B
    using assms(1) by (simp add: op_at_def)
  have dst: "op_at (g\<lparr>oparrays := (oparrays h)[sl_arr out := (oparrays h ! sl_arr out)[sl_off out + i := x]]\<rparr>) out i = x" for g x
    using assms(2,3) by (simp add: op_at_def)
  have set: "set_op (g\<lparr>oparrays := (oparrays h)[sl_arr out := (oparrays h ! sl_arr out)[sl_off out + i := x]]\<rparr>) out i y
      = g\<lparr>oparrays := (oparrays h)[sl_arr out := (oparrays h ! sl_arr out)[sl_off out + i := y]]\<rparr>" for g x y
    using assms(2) by (simp add: set_op_def)
  show ?thesis
    by (simp add: set_op_def [of h] arena_clone_oparrays assms(4,5) src dst set Let_def)
qed

lemma clone_ops_loop_arenas:
  assumes "sl_arr ops \<noteq> sl_arr out" "sl_arr out < length (oparrays h)" "sl_off out + n \<le> length (oparrays h ! sl_arr out)" "i \<le> n"
    and "arenas sp h a (ops_raw (map (op_at h ops) [i..<n])) = (h', a', ys)"
  shows "clone_ops_loop sp h a ops out [i..<n] = h'\<lparr>oparrays := (oparrays h)[sl_arr out :=
      patch (oparrays h ! sl_arr out) (sl_off out + i) (ops_put (map (op_at h ops) [i..<n]) ys)]\<rparr>"
  using assms(2-5)
proof (induction "n - i" arbitrary: i h a h' a' ys)
  case 0
  then show ?case by simp
next
  case (Suc k)
  then have "i < n" by simp
  then have i: "[i..<n] = i # [Suc i..<n]" by (rule upt_conv_Cons)
  let ?A = "oparrays h ! sl_arr out" and ?op = "op_at h ops i"
  obtain h1 a1 name where r1: "arena_clone sp h a (os_FieldName ?op) = (h1, a1, name)" using prod_cases3 by blast
  obtain h2 a2 val where r2: "arena_clone sp h1 a1 (os_Value ?op) = (h2, a2, val)" using prod_cases3 by blast
  obtain g' b' ys' where r3: "arenas sp h2 a2 (ops_raw (map (op_at h ops) [Suc i..<n])) = (g', b', ys')" using prod_cases3 by blast
  have "g' = h'" "b' = a'" "ys = name # val # ys'" using Suc.prems(4) unfolding i by (simp_all add: r1 r2 r3)
  note r = r1 r2 r3 [unfolded this(1,2)] this(3)
  let ?o = "(oparrays h)[sl_arr out := ?A[sl_off out + i := ?op\<lparr>os_FieldName := name, os_Value := val\<rparr>]]"
  let ?g = "h2\<lparr>oparrays := ?o\<rparr>"
  have src: "op_at ?g ops j = op_at h ops j" for j using assms(1) by (simp add: op_at_def)
  then have m: "map (op_at ?g ops) [Suc i..<n] = map (op_at h ops) [Suc i..<n]" by simp
  have rest: "arenas sp ?g a2 (ops_raw (map (op_at ?g ops) [Suc i..<n])) = (h'\<lparr>oparrays := ?o\<rparr>, a', ys')"
    unfolding m by (simp add: arenas_oparrays r(3))
  have "clone_ops_loop sp ?g a2 ops out [Suc i..<n] = h'\<lparr>oparrays := ?o\<rparr>\<lparr>oparrays := ?o[sl_arr out :=
      patch (?o ! sl_arr out) (sl_off out + Suc i) (ops_put (map (op_at ?g ops) [Suc i..<n]) ys')]\<rparr>"
    using Suc.hyps(2) Suc.prems(1-3) \<open>i < n\<close> by (subst Suc.hyps(1) [OF _ _ _ _ rest]) simp_all
  moreover have "patch (?o ! sl_arr out) (sl_off out + Suc i) (ops_put (map (op_at h ops) [Suc i..<n]) ys')
      = patch ?A (sl_off out + i) (ops_put (map (op_at h ops) [i..<n]) ys)"
    using Suc.prems(1,2,3) Suc.hyps(2) i r(4) by (simp add: patch_Cons)
  moreover have "clone_ops_loop sp h a ops out [i..<n] = clone_ops_loop sp ?g a2 ops out [Suc i..<n]"
    unfolding i using Suc.prems(1,2) Suc.hyps(2) by (intro clone_ops_step [OF assms(1) _ _ r(1,2)]) auto
  ultimately show ?case using m by simp
qed

text \<open>
  A destination for operations: writing an operation of it changes none that is still to be copied, because
  the two windows are of different arrays, begin together, or do not meet.
\<close>

definition ops_clear :: "slice \<Rightarrow> slice \<Rightarrow> bool" where
  "ops_clear src dst \<longleftrightarrow> sl_arr src \<noteq> sl_arr dst \<or> sl_off src = sl_off dst
     \<or> sl_off src + sl_len src \<le> sl_off dst \<or> sl_off dst + sl_len src \<le> sl_off src"

lemma ops_into_loop_intos:
  assumes "ops_clear src dst" "n \<le> sl_len src" "sl_arr dst < length (oparrays h)" "sl_off dst + n \<le> length (oparrays h ! sl_arr dst)" "i \<le> n"
    and "intos sp h (zip (ops_raw (map (op_at h dst) [i..<n])) (ops_raw (map (op_at h src) [i..<n]))) = (h', ys)"
  shows "clone_ops_into_loop sp h src dst [i..<n] = h'\<lparr>oparrays := (oparrays h)[sl_arr dst :=
      patch (oparrays h ! sl_arr dst) (sl_off dst + i) (ops_put (map (op_at h src) [i..<n]) ys)]\<rparr>"
  using assms(3-6)
proof (induction "n - i" arbitrary: i h h' ys)
  case 0
  then show ?case by simp
next
  case (Suc k)
  then have "i < n" by simp
  then have i: "[i..<n] = i # [Suc i..<n]" by (rule upt_conv_Cons)
  let ?A = "oparrays h ! sl_arr dst" and ?op = "op_at h src i" and ?d = "op_at h dst i"
  let ?rest = "zip (ops_raw (map (op_at h dst) [Suc i..<n])) (ops_raw (map (op_at h src) [Suc i..<n]))"
  obtain h1 name where r1: "cloneBytesInto sp h (os_FieldName ?d) (os_FieldName ?op) = (h1, name)" by (meson surj_pair)
  obtain h2 val where r2: "cloneBytesInto sp h1 (os_Value ?d) (os_Value ?op) = (h2, val)" by (meson surj_pair)
  obtain g' ys' where r3: "intos sp h2 ?rest = (g', ys')" by (meson surj_pair)
  have "g' = h'" "ys = name # val # ys'" using Suc.prems(4) unfolding i by (simp_all add: r1 r2 r3)
  note r = r1 r2 r3 [unfolded this(1)] this(2)
  have keep: "oparrays h2 = oparrays h" using r(1,2) cloneBytesInto_keeps by metis
  let ?o = "(oparrays h)[sl_arr dst := ?A[sl_off dst + i := ?op\<lparr>os_FieldName := name, os_Value := val\<rparr>]]"
  let ?g = "h2\<lparr>oparrays := ?o\<rparr>"
  have "op_at ?g src j = op_at h src j" "op_at ?g dst j = op_at h dst j" if "Suc i \<le> j" "j < n" for j
    using assms(1,2) that Suc.prems(1) by (auto simp: op_at_def ops_clear_def nth_list_update)
  then have m: "map (op_at ?g src) [Suc i..<n] = map (op_at h src) [Suc i..<n]" "map (op_at ?g dst) [Suc i..<n] = map (op_at h dst) [Suc i..<n]"
    by auto
  have rest: "intos sp ?g (zip (ops_raw (map (op_at ?g dst) [Suc i..<n])) (ops_raw (map (op_at ?g src) [Suc i..<n]))) = (h'\<lparr>oparrays := ?o\<rparr>, ys')"
    unfolding m by (simp add: intos_oparrays r(3))
  have "clone_ops_into_loop sp ?g src dst [Suc i..<n] = h'\<lparr>oparrays := ?o\<rparr>\<lparr>oparrays := ?o[sl_arr dst :=
      patch (?o ! sl_arr dst) (sl_off dst + Suc i) (ops_put (map (op_at ?g src) [Suc i..<n]) ys')]\<rparr>"
    using Suc.hyps(2) Suc.prems(1-3) \<open>i < n\<close> by (subst Suc.hyps(1) [OF _ _ _ _ rest]) simp_all
  moreover have "patch (?o ! sl_arr dst) (sl_off dst + Suc i) (ops_put (map (op_at h src) [Suc i..<n]) ys')
      = patch ?A (sl_off dst + i) (ops_put (map (op_at h src) [i..<n]) ys)"
    using Suc.prems(1,2,3) Suc.hyps(2) i r(4) by (simp add: patch_Cons)
  moreover have "clone_ops_into_loop sp h src dst [i..<n] = clone_ops_into_loop sp ?g src dst [Suc i..<n]"
    unfolding i by (simp add: Operation_CloneInto_def r(1,2) set_op_def keep)
  ultimately show ?case using m by simp
qed

definition ops_ok :: "heap \<Rightarrow> slice \<Rightarrow> bool" where
  "ops_ok h x \<longleftrightarrow> sl_len x \<le> sl_cap x
     \<and> (0 < sl_cap x \<longrightarrow> sl_arr x < length (oparrays h) \<and> sl_off x + sl_cap x \<le> length (oparrays h ! sl_arr x))"

lemma foldl_sum: "foldl (\<lambda>n i. n + f i) k xs = k + sum_list (map f xs)" for k :: nat
  by (induction xs arbitrary: k) simp_all

lemma sum_ops_raw: "sum_list (map slen (ops_raw os)) = sum_list (map (\<lambda>op. slen (os_FieldName op) + slen (os_Value op)) os)"
  by (induction os) simp_all

lemma newCloneArena_keeps: "newCloneArena h n = (h0, a) \<Longrightarrow> oparrays h0 = oparrays h"
  by (auto simp: newCloneArena_def alloc_def split: if_splits)

lemma opview_written:
  assumes "sl_arr x < length A" "sl_off x + sl_len x \<le> length (A ! sl_arr x)" "length os = sl_len x"
  shows "opview (h\<lparr>oparrays := A[sl_arr x := patch (A ! sl_arr x) (sl_off x) os]\<rparr>) x = os"
  by (rule nth_equalityI) (use assms in \<open>simp_all add: opview_def op_at_def patch_def nth_append\<close>)

text \<open>A copy of a list of operations: a new array of operations, with slices detached from all that was there.\<close>

definition deep_copy_ops :: "(heap \<Rightarrow> slice option \<Rightarrow> heap \<times> slice option) \<Rightarrow> bool" where
  "deep_copy_ops clone \<longleftrightarrow> (\<forall>h. clone h None = (h, None))
     \<and> (\<forall>h ops h' r. ops_ok h ops \<longrightarrow> (\<forall>s\<in>set (ops_raw (opview h ops)). sl_ok h s) \<longrightarrow> clone h (Some ops) = (h', r)
         \<longrightarrow> (\<exists>out. r = Some out \<and> sl_len out = sl_len ops \<and> sl_arr out = length (oparrays h)
               \<and> take (length (oparrays h)) (oparrays h') = oparrays h
               \<and> opview h' out = ops_put (opview h ops) (ops_raw (opview h' out))
               \<and> detached h (ops_raw (opview h ops)) (h'\<lparr>oparrays := oparrays h\<rparr>) (ops_raw (opview h' out))))"

lemma CloneOps_deep: "deep_copy_ops (CloneOps sp)"
  unfolding deep_copy_ops_def
proof (intro conjI allI impI)
  show "CloneOps sp h None = (h, None)" for h by (simp add: CloneOps_def)
next
  fix h ops h' r
  assume a: "ops_ok h ops" "\<forall>s\<in>set (ops_raw (opview h ops)). sl_ok h s" "CloneOps sp h (Some ops) = (h', r)"
  let ?n = "sl_len ops" and ?ss = "ops_raw (opview h ops)" and ?A = "oparrays h" and ?B = "replicate (sl_len ops) OperationS0"
  obtain h0 ar where n: "newCloneArena h (sum_list (map slen ?ss)) = (h0, ar)" by (meson surj_pair)
  obtain h2 a2 ys where ys: "arenas sp h0 ar ?ss = (h2, a2, ys)" using prod_cases3 by blast
  have len: "length ys = 2 * ?n" using arenas_length [OF ys] by (simp add: length_ops_raw opview_def)
  have keep: "oparrays h0 = ?A" "oparrays h2 = ?A" using newCloneArena_keeps [OF n] arenas_length [OF ys] by simp_all
  let ?out = "\<lparr>sl_arr = length ?A, sl_off = 0, sl_len = ?n, sl_cap = ?n\<rparr>" and ?h1 = "h0\<lparr>oparrays := ?A @ [?B]\<rparr>"
  let ?os = "ops_put (opview h ops) ys"
  have sum: "foldl (\<lambda>n i. n + (slen (os_FieldName (op_at h ops i)) + slen (os_Value (op_at h ops i)))) 0 [0..<?n] = sum_list (map slen ?ss)"
    by (simp add: foldl_sum sum_ops_raw opview_def o_def)
  have r: "r = Some ?out" "h' = clone_ops_loop sp ?h1 ar ops ?out [0..<?n]"
    using a(3) n by (simp_all add: CloneOps_def sum make_ops_def keep(1))
  have os: "length ?os = ?n" using ops_put_length [of ys "opview h ops"] len by (simp add: opview_def)
  have h': "h' = h2\<lparr>oparrays := (?A @ [?B])[length ?A := patch ?B 0 ?os]\<rparr>"
  proof (cases "?n = 0")
    case True
    then have "?ss = []" "ys = []" using len by (simp_all add: opview_def)
    then show ?thesis using True r(2) ys by (simp add: patch_def)
  next
    case False
    then have arr: "sl_arr ops < length ?A" using a(1) by (auto simp: ops_ok_def)
    then have view: "map (op_at ?h1 ops) [0..<?n] = opview h ops" by (simp add: opview_def op_at_def nth_append)
    have "arenas sp ?h1 ar (ops_raw (map (op_at ?h1 ops) [0..<?n])) = (h2\<lparr>oparrays := ?A @ [?B]\<rparr>, a2, ys)"
      unfolding view by (simp add: arenas_oparrays ys)
    from clone_ops_loop_arenas [OF _ _ _ _ this, of ?out] show ?thesis using arr r(2) view by simp
  qed
  have view': "opview h' ?out = ?os" unfolding h' using opview_written [of ?out "?A @ [?B]" ?os h2] os by simp
  have raw: "ops_raw ?os = ys" using ops_raw_put [of ys "opview h ops"] len by (simp add: opview_def)
  have "arena_all sp h ?ss = (h2, ys)" using n ys by (simp add: arena_all_def)
  from arena_all_detached [OF a(2) this] have "detached h ?ss h2 ys" .
  moreover have "h'\<lparr>oparrays := ?A\<rparr> = h2" using keep(2) h' by simp
  ultimately show "\<exists>out. r = Some out \<and> sl_len out = sl_len ops \<and> sl_arr out = length ?A \<and> take (length ?A) (oparrays h') = ?A
      \<and> opview h' out = ops_put (opview h ops) (ops_raw (opview h' out)) \<and> detached h ?ss (h'\<lparr>oparrays := ?A\<rparr>) (ops_raw (opview h' out))"
    using r(1) view' raw h' by (intro exI [of _ ?out]) simp
qed

text \<open>The operations a destination holds up to its capacity, and zero operations behind them.\<close>

definition dst_ops :: "heap \<Rightarrow> slice option \<Rightarrow> nat \<Rightarrow> OperationS list" where
  "dst_ops h dst n = take n (map (op_at h (the dst)) [0..<scap dst] @ replicate (n - scap dst) OperationS0)"

lemma length_dst_ops [simp]: "length (dst_ops h dst n) = n"
  by (simp add: dst_ops_def)

lemma ops_into_done:
  assumes "ops_clear src d" "sl_len d = sl_len src" "sl_arr d < length (oparrays h)" "sl_off d + sl_len d \<le> length (oparrays h ! sl_arr d)"
    and "intos sp h (zip (ops_raw (opview h d)) (ops_raw (opview h src))) = (h2, ys)"
    and "h' = clone_ops_into_loop sp h src d [0..<sl_len src]"
  shows "opview h' d = ops_put (opview h src) ys" "ops_raw (opview h' d) = ys" "h'\<lparr>oparrays := o'\<rparr> = h2\<lparr>oparrays := o'\<rparr>"
    "length (oparrays h') = length (oparrays h)" "a \<noteq> sl_arr d \<Longrightarrow> oparrays h' ! a = oparrays h ! a"
proof -
  have len: "length ys = 2 * length (opview h src)"
    using intos_length [OF assms(5)] assms(2) by (simp add: length_ops_raw opview_def)
  have h': "h' = h2\<lparr>oparrays := (oparrays h)[sl_arr d := patch (oparrays h ! sl_arr d) (sl_off d) (ops_put (opview h src) ys)]\<rparr>"
    using ops_into_loop_intos [OF assms(1) order_refl assms(3), of 0 sp h2 ys] assms(2,4,5,6) by (simp add: opview_def)
  show v: "opview h' d = ops_put (opview h src) ys"
    unfolding h' using assms(2-4) ops_put_length [OF len] by (intro opview_written) (simp_all add: opview_def)
  show "ops_raw (opview h' d) = ys" unfolding v using ops_raw_put [OF len] .
  show "h'\<lparr>oparrays := o'\<rparr> = h2\<lparr>oparrays := o'\<rparr>" "length (oparrays h') = length (oparrays h)" "a \<noteq> sl_arr d \<Longrightarrow> oparrays h' ! a = oparrays h ! a"
    by (simp_all add: h')
qed

lemma CloneOpsInto_copied:
  assumes "ops_ok h src" "\<And>d. dst = Some d \<Longrightarrow> ops_ok h d \<and> ops_clear src d"
    and "CloneOpsInto sp h (Some src) dst = (h', r)"
    and "intos sp h (zip (ops_raw (dst_ops h dst (sl_len src))) (ops_raw (opview h src))) = (h2, ys)"
  shows "\<exists>out. r = Some out \<and> sl_len out = sl_len src \<and> opview h' out = ops_put (opview h src) ys
    \<and> ops_raw (opview h' out) = ys \<and> h'\<lparr>oparrays := oparrays h\<rparr> = h2
    \<and> (if sl_len src \<le> scap dst then dst = None \<or> out = (the dst)\<lparr>sl_len := sl_len src\<rparr> else sl_arr out = length (oparrays h))
    \<and> (\<forall>a<length (oparrays h). a \<noteq> sl_arr out \<longrightarrow> oparrays h' ! a = oparrays h ! a)"
proof -
  let ?n = "sl_len src" and ?A = "oparrays h"
  have keep: "oparrays h2 = ?A" using intos_length [OF assms(4)] by simp
  consider (grow) "scap dst < ?n" | (none) "dst = None" "?n = 0" | (reuse) d where "dst = Some d" "?n \<le> sl_cap d"
    by (cases dst) force+
  then show ?thesis
  proof cases
    case grow
    let ?B = "map (op_at h (the dst)) [0..<scap dst] @ replicate (?n - scap dst) OperationS0"
    let ?d = "\<lparr>sl_arr = length ?A, sl_off = 0, sl_len = ?n, sl_cap = ?n + sp ?n\<rparr>"
    let ?h1 = "h\<lparr>oparrays := ?A @ [?B @ replicate (sp ?n) OperationS0]\<rparr>"
    have arr: "sl_arr src < length ?A" using assms(1) grow by (auto simp: ops_ok_def)
    have B: "length ?B = ?n" using grow by simp
    have r: "r = Some ?d" "h' = clone_ops_into_loop sp ?h1 src ?d [0..<?n]"
      using assms(3) grow by (simp_all add: CloneOpsInto_def make_ops_def Let_def B max_absorb1)
    have views: "opview ?h1 src = opview h src" "opview ?h1 ?d = dst_ops h dst ?n"
    proof -
      show "opview ?h1 src = opview h src" using arr by (simp add: opview_def op_at_def nth_append)
      show "opview ?h1 ?d = dst_ops h dst ?n"
        by (rule nth_equalityI) (use grow B in \<open>simp_all add: opview_def op_at_def dst_ops_def nth_append\<close>)
    qed
    have "intos sp ?h1 (zip (ops_raw (opview ?h1 ?d)) (ops_raw (opview ?h1 src))) = (h2\<lparr>oparrays := oparrays ?h1\<rparr>, ys)"
      unfolding views by (simp add: intos_oparrays assms(4))
    note fin = ops_into_done [OF _ _ _ _ this r(2), unfolded views]
    show ?thesis using fin arr B keep r(1) grow
      by (intro exI [of _ ?d]) (simp add: ops_clear_def nth_append)
  next
    case none
    then show ?thesis using assms(3,4) keep
      by (intro exI [of _ empty_slice]) (auto simp: CloneOpsInto_def opview_def empty_slice_def)
  next
    case reuse
    let ?d = "d\<lparr>sl_len := ?n\<rparr>"
    have at: "op_at g ?d = op_at g d" for g by (simp add: op_at_def fun_eq_iff)
    have r: "r = Some ?d" "h' = clone_ops_into_loop sp h src ?d [0..<?n]"
      using assms(3) reuse by (simp_all add: CloneOpsInto_def Let_def)
    have view: "opview h ?d = dst_ops h dst ?n" using reuse by (simp add: opview_def dst_ops_def at take_map)
    show ?thesis
    proof (cases "?n = 0")
      case True
      then show ?thesis using r assms(4) keep reuse by (intro exI [of _ ?d]) (auto simp: opview_def)
    next
      case False
      then have d: "sl_arr d < length ?A" "sl_off d + ?n \<le> length (?A ! sl_arr d)" "ops_clear src ?d"
        using assms(2) [OF reuse(1)] reuse(2) by (auto simp: ops_ok_def ops_clear_def)
      note fin = ops_into_done [OF d(3) _ _ _ _ r(2), of h2 ys, unfolded view]
      show ?thesis using fin d(1,2) assms(4) keep r(1) reuse by (intro exI [of _ ?d]) simp
    qed
  qed
qed

section \<open>Maps\<close>

text \<open>A copy of a reference to a clock: a new map with the same entries, nil for nil; no old map changes.\<close>

definition new_clock :: "heap \<Rightarrow> nat option \<Rightarrow> heap \<Rightarrow> nat option \<Rightarrow> bool" where
  "new_clock h v h' v' \<longleftrightarrow> h'\<lparr>clocks := clocks h\<rparr> = h \<and> take (length (clocks h)) (clocks h') = clocks h
     \<and> map_option ((!) (clocks h')) v' = map_option ((!) (clocks h)) v \<and> (\<forall>r. v' = Some r \<longrightarrow> length (clocks h) \<le> r)"

definition deep_copy_clock :: "('a \<Rightarrow> nat option) \<Rightarrow> ('a \<Rightarrow> nat option \<Rightarrow> 'a) \<Rightarrow> (heap \<Rightarrow> 'a option \<Rightarrow> heap \<times> 'a option)
    \<Rightarrow> (heap \<Rightarrow> 'a \<Rightarrow> 'a \<Rightarrow> heap \<times> 'a) \<Rightarrow> bool" where
  "deep_copy_clock vc put clone into \<longleftrightarrow> (\<forall>h. clone h None = (h, None))
     \<and> (\<forall>h b d. \<exists>h' y. clone h (Some b) = (h', Some y) \<and> into h b d = (h', y) \<and> y = put b (vc y) \<and> new_clock h (vc b) h' (vc y))"

lemma clone_clock_new: "clone_clock h v = (h', v') \<Longrightarrow> new_clock h v h' v'"
  by (cases v) (auto simp: clone_clock_def new_clock_def)

definition new_keys :: "heap \<Rightarrow> nat option \<Rightarrow> heap \<Rightarrow> nat option \<Rightarrow> bool" where
  "new_keys h k h' k' = (case k of None \<Rightarrow> h' = h \<and> k' = None
     | Some m \<Rightarrow> \<exists>m'. k' = Some m' \<and> length (keymaps h) \<le> m' \<and> take (length (keymaps h)) (keymaps h') = keymaps h
         \<and> map fst (keymaps h' ! m') = map fst (keymaps h ! m)
         \<and> detached h (map snd (keymaps h ! m)) (h'\<lparr>keymaps := keymaps h\<rparr>) (map snd (keymaps h' ! m')))"

definition deep_copy_keys :: "(heap \<Rightarrow> VyLogBodyS option \<Rightarrow> heap \<times> VyLogBodyS option)
    \<Rightarrow> (heap \<Rightarrow> VyLogBodyS \<Rightarrow> VyLogBodyS \<Rightarrow> heap \<times> VyLogBodyS) \<Rightarrow> bool" where
  "deep_copy_keys clone into \<longleftrightarrow> (\<forall>h. clone h None = (h, None))
     \<and> (\<forall>h b d. (\<forall>m. ls_Keys b = Some m \<longrightarrow> (\<forall>(k, v)\<in>set (keymaps h ! m). sl_ok h v))
         \<longrightarrow> (\<exists>h' y. clone h (Some b) = (h', Some y) \<and> into h b d = (h', y) \<and> ls_Type y = ls_Type b
                \<and> new_keys h (ls_Keys b) h' (ls_Keys y)))"

lemma vykeys_loop_arenas:
  "vykeys_loop sp h a keys out = (case arenas sp h a (map snd keys) of (h', a', ys) \<Rightarrow> (h', out @ zip (map fst keys) ys))"
  by (induction sp h a keys out rule: vykeys_loop.induct) (auto split: prod.splits)

lemma foldl_values: "foldl (\<lambda>n (_, v). n + slen v) k keys = k + sum_list (map slen (map snd keys))"
  by (induction keys arbitrary: k) (auto simp: add.assoc)

lemma cloneVyKeys_new:
  assumes "cloneVyKeys sp h k = (h', k')" "\<And>m. k = Some m \<Longrightarrow> \<forall>(key, v)\<in>set (keymaps h ! m). sl_ok h v"
  shows "new_keys h k h' k'"
proof (cases k)
  case None
  then show ?thesis using assms(1) by (simp add: cloneVyKeys_def new_keys_def)
next
  case (Some m)
  let ?keys = "keymaps h ! m"
  obtain h0 a where n: "newCloneArena h (sum_list (map slen (map snd ?keys))) = (h0, a)" by (meson surj_pair)
  obtain h1 a1 ys where ys: "arenas sp h0 a (map snd ?keys) = (h1, a1, ys)" using prod_cases3 by blast
  have "arena_all sp h (map snd ?keys) = (h1, ys)" using n ys by (simp add: arena_all_def)
  moreover have "\<forall>v\<in>set (map snd ?keys). sl_ok h v" using assms(2) [OF Some] by auto
  ultimately have d: "detached h (map snd ?keys) h1 ys" using arena_all_detached by blast
  then have km: "keymaps h1 = keymaps h" by (simp add: detached_def frame_def)
  have len: "length ys = length ?keys" using arenas_length [OF ys] by simp
  have "h' = h1\<lparr>keymaps := keymaps h1 @ [zip (map fst ?keys) ys]\<rparr>" "k' = Some (length (keymaps h1))"
    using assms(1) Some n ys by (auto simp: cloneVyKeys_def foldl_values vykeys_loop_arenas)
  moreover have "detached h (map snd ?keys) (h1\<lparr>keymaps := keymaps h\<rparr>) ys" using d unfolding km [symmetric] by simp
  ultimately show ?thesis using km Some len by (simp add: new_keys_def)
qed

section \<open>Correctness\<close>

text \<open>
  C28: \<^verbatim>\<open>Clone\<close> of every decoded value is a deep copy. It keeps every field, nil and empty slices included, and
  returns nil for nil; its slices, and its maps, lie in new memory, which no slice of before reaches, and no
  slice of the copy reaches a byte of another, even through its capacity; nothing that was there changes.
  Copies of bodies that hold maps get new maps, by \<^verbatim>\<open>CloneInto\<close> too. A copied list of operations is a new
  array of such copies.
\<close>

theorem clone_detaches:
  "deep_copy_ptr xrow_raw xrow_put (XRow_Clone sp) \<and> deep_copy_ptr dml_raw dml_put (DMLBody_Clone sp)
    \<and> deep_copy_ptr stmt_raw stmt_put (VyStmtBody_Clone sp) \<and> deep_copy_ptr run_info_raw run_info_put (VyRunInfo_Clone sp)
    \<and> deep_copy_ptr page_info_raw page_info_put (VyPageInfo_Clone sp) \<and> deep_copy op_raw op_put (Operation_Clone sp)
    \<and> deep_copy_clock fs_VClock (\<lambda>b v. b\<lparr>fs_VClock := v\<rparr>) RaftBody_Clone RaftBody_CloneInto
    \<and> deep_copy_clock ys_ConfirmedVClock (\<lambda>b v. b\<lparr>ys_ConfirmedVClock := v\<rparr>) SynchroBody_Clone SynchroBody_CloneInto
    \<and> deep_copy_keys (VyLogBody_Clone sp) (VyLogBody_CloneInto sp) \<and> deep_copy_ops (CloneOps sp)"
proof (intro conjI)
  have ptr: "deep_copy_ptr raw put clone" if "deep_copy raw put (\<lambda>h x. pointee (clone h (Some x)))" "\<And>h. clone h None = (h, None)"
    "\<And>h x. \<exists>h' y. clone h (Some x) = (h', Some y)" for raw put and clone :: "heap \<Rightarrow> 'b option \<Rightarrow> heap \<times> 'b option"
    unfolding deep_copy_ptr_def
  proof (intro conjI allI exI)
    show "clone h (Some x) = (case pointee (clone h (Some x)) of (h', y) \<Rightarrow> (h', Some y))" for h x
      using that(3) [of h x] by (auto simp: pointee_def)
  qed (use that in auto)
  show "deep_copy_ptr xrow_raw xrow_put (XRow_Clone sp)"
    by (rule ptr [OF xrow.clone_deep]) (simp_all add: XRow_Clone_def split: prod.splits)
  show "deep_copy_ptr dml_raw dml_put (DMLBody_Clone sp)"
    by (rule ptr [OF dml.clone_deep]) (simp_all add: DMLBody_Clone_def split: prod.splits)
  show "deep_copy_ptr stmt_raw stmt_put (VyStmtBody_Clone sp)"
    by (rule ptr [OF stmt.clone_deep]) (simp_all add: VyStmtBody_Clone_def split: prod.splits)
  show "deep_copy_ptr run_info_raw run_info_put (VyRunInfo_Clone sp)"
    by (rule ptr [OF run_info.clone_deep]) (simp_all add: VyRunInfo_Clone_def split: prod.splits)
  show "deep_copy_ptr page_info_raw page_info_put (VyPageInfo_Clone sp)"
    by (rule ptr [OF page_info.clone_deep]) (simp_all add: VyPageInfo_Clone_def split: prod.splits)
  show "deep_copy_clock fs_VClock (\<lambda>b v. b\<lparr>fs_VClock := v\<rparr>) RaftBody_Clone RaftBody_CloneInto"
    using clone_clock_new by (fastforce simp: deep_copy_clock_def RaftBody_Clone_def RaftBody_CloneInto_def split: prod.splits)
  show "deep_copy_clock ys_ConfirmedVClock (\<lambda>b v. b\<lparr>ys_ConfirmedVClock := v\<rparr>) SynchroBody_Clone SynchroBody_CloneInto"
    using clone_clock_new by (fastforce simp: deep_copy_clock_def SynchroBody_Clone_def SynchroBody_CloneInto_def split: prod.splits)
  show "deep_copy_keys (VyLogBody_Clone sp) (VyLogBody_CloneInto sp)"
    using cloneVyKeys_new by (fastforce simp: deep_copy_keys_def VyLogBody_Clone_def VyLogBody_CloneInto_def split: prod.splits)
qed (rule op.clone_deep CloneOps_deep)+

text \<open>
  C29: \<^verbatim>\<open>CloneInto\<close> into a destination that owns its slices is a deep copy: every field is that of the source,
  the bytes are copied, into the arrays of the destination or into new ones, the source reads as before, and
  the copy shares no byte with the source, nor its slices with each other. The destination owns its slices
  when it is zero, when its slices are apart from each other and from the source, and when it is the source.
\<close>

theorem clone_into_detaches:
  "deep_copy_into xrow_raw xrow_put (XRow_CloneInto sp) \<and> deep_copy_into dml_raw dml_put (DMLBody_CloneInto sp)
    \<and> deep_copy_into stmt_raw stmt_put (VyStmtBody_CloneInto sp) \<and> deep_copy_into run_info_raw run_info_put (VyRunInfo_CloneInto sp)
    \<and> deep_copy_into page_info_raw page_info_put (VyPageInfo_CloneInto sp) \<and> deep_copy_into op_raw op_put (Operation_CloneInto sp)"
  by (intro conjI xrow.into_deep dml.into_deep stmt.into_deep run_info.into_deep page_info.into_deep op.into_deep)

text \<open>
  C30: \<^verbatim>\<open>CloneOpsInto\<close> copies a list of operations into a destination that owns its slices, one that is the
  source included. The result has the operations of the source, reuses the array of the destination exactly
  when its capacity holds them all, and keeps the operations of every other array; the bytes are copied, the
  source bytes read as before, and no slice of the result shares a byte with the source or with another.
\<close>

theorem clone_ops_into_detaches:
  assumes "ops_ok h src" "\<forall>d. dst = Some d \<longrightarrow> ops_ok h d \<and> ops_clear src d"
    and "ps = zip (ops_raw (dst_ops h dst (sl_len src))) (ops_raw (opview h src))"
    and "\<forall>(d, s)\<in>set ps. sl_ok h d \<and> sl_ok h s" "owned ps"
    and "CloneOpsInto sp h (Some src) dst = (h', r)"
  shows "\<exists>out. r = Some out \<and> sl_len out = sl_len src
    \<and> opview h' out = ops_put (opview h src) (ops_raw (opview h' out))
    \<and> copied h ps (h'\<lparr>oparrays := oparrays h\<rparr>) (ops_raw (opview h' out))
    \<and> map (sread h') (ops_raw (opview h src)) = map (sread h) (ops_raw (opview h src))
    \<and> (\<forall>s\<in>set (ops_raw (opview h src)). \<forall>t\<in>set (ops_raw (opview h' out)). cells s \<inter> cells t = {})
    \<and> (if sl_len src \<le> scap dst then dst = None \<or> out = (the dst)\<lparr>sl_len := sl_len src\<rparr> else sl_arr out = length (oparrays h))
    \<and> (\<forall>a<length (oparrays h). a \<noteq> sl_arr out \<longrightarrow> oparrays h' ! a = oparrays h ! a)"
proof -
  have snds: "map snd ps = ops_raw (opview h src)" using assms(3) by (simp add: length_ops_raw opview_def)
  obtain h2 ys where ys: "intos sp h ps = (h2, ys)" by (meson surj_pair)
  have c: "copied h ps h2 ys" by (rule intos_copied [OF ys assms(4,5)])
  obtain out where out: "r = Some out" "sl_len out = sl_len src" "opview h' out = ops_put (opview h src) ys"
    "ops_raw (opview h' out) = ys" "h'\<lparr>oparrays := oparrays h\<rparr> = h2"
    "if sl_len src \<le> scap dst then dst = None \<or> out = (the dst)\<lparr>sl_len := sl_len src\<rparr> else sl_arr out = length (oparrays h)"
    "\<forall>a<length (oparrays h). a \<noteq> sl_arr out \<longrightarrow> oparrays h' ! a = oparrays h ! a"
    using CloneOpsInto_copied [OF assms(1) _ assms(6), of h2 ys] assms(2,3) ys by auto
  have "sread h' s = sread h2 s" for s using window_oparrays [where h = h' and o' = "oparrays h"] out(5) by (cases s) auto
  then show ?thesis using out c copied_sources [OF c assms(5,4)] unfolding snds by (intro exI [of _ out]) simp
qed

definition sample_heap :: heap where
  "sample_heap = \<lparr>arrays = [[1, 2, 3]], clocks = [], keymaps = [],
     oparrays = [[OperationS0\<lparr>os_Value := Some \<lparr>sl_arr = 0, sl_off = 0, sl_len = 2, sl_cap = 3\<rparr>\<rparr>]]\<rparr>"

definition sample_src :: slice where
  "sample_src = \<lparr>sl_arr = 0, sl_off = 0, sl_len = 1, sl_cap = 1\<rparr>"

theorem clone_ops_into_detaches_witness:
  "\<exists>h' out. CloneOpsInto (\<lambda>_. 0) sample_heap (Some sample_src) (Some sample_src) = (h', Some out)
    \<and> map (sread h') (ops_raw (opview h' out)) = [None, Some [1, 2]]"
proof -
  let ?v = "Some \<lparr>sl_arr = 0, sl_off = 0, sl_len = 2, sl_cap = 3\<rparr>"
  obtain h' r where r: "CloneOpsInto (\<lambda>_. 0) sample_heap (Some sample_src) (Some sample_src) = (h', r)" by (meson surj_pair)
  have v: "ops_raw (opview sample_heap sample_src) = [None, ?v]" "ops_raw (dst_ops sample_heap (Some sample_src) (sl_len sample_src)) = [None, ?v]"
    by (simp_all add: opview_def dst_ops_def op_at_def sample_heap_def sample_src_def OperationS0_def)
  have ok: "ops_ok sample_heap sample_src" "ops_clear sample_src sample_src" "sl_ok sample_heap ?v"
    by (simp_all add: ops_ok_def ops_clear_def sl_ok_def sample_heap_def sample_src_def)
  have "owned (zip [None, ?v] [None, ?v])" by (rule owned_self)
  from clone_ops_into_detaches [OF ok(1) _ refl _ _ r, unfolded v] this ok
  obtain out where out: "r = Some out" "copied sample_heap (zip [None, ?v] [None, ?v]) (h'\<lparr>oparrays := oparrays sample_heap\<rparr>) (ops_raw (opview h' out))"
    by auto
  have "sread (h'\<lparr>oparrays := oparrays sample_heap\<rparr>) = sread h'" by (simp add: fun_eq_iff sread_def split: option.splits)
  with out(2) have "map (sread h') (ops_raw (opview h' out)) = [None, Some [1, 2]]"
    by (simp add: copied_def) (simp add: window_def sample_heap_def numeral_eq_Suc)
  then show ?thesis using r out(1) by (intro exI [of _ h'] exI [of _ out]) simp
qed

end
