(* ===== verification/Checkpoint.thy ===== *)
theory Checkpoint
  imports Pipe Bodies
begin

text \<open>
  The logic the example commands \<^verbatim>\<open>cat\<close> and \<^verbatim>\<open>play\<close> share (\<^verbatim>\<open>examples/internal/checkpoint\<close>): collecting the
  journal files under given paths, the row filter built from the command line, and the loop that hands every
  kept row with its decoded body to a callback. It puts the reader, the filters and the body decoder together.
  Parsing the time of the command line is \<^verbatim>\<open>strconv.ParseFloat\<close> and \<^verbatim>\<open>time.Parse\<close> and is not modelled.
\<close>

section \<open>Filters\<close>

definition systemSpaceMax :: uint32 where
  "systemSpaceMax = 512"

record Opts =
  oFrom :: uint64
  oTo :: uint64
  oTimestamp :: float64
  oSpaces :: "int64 list"
  oReplicas :: "int64 list"
  oShowSystem :: bool

text \<open>\<^verbatim>\<open>math.Inf(1)\<close> and \<^verbatim>\<open>math.MaxUint64\<close>.\<close>

definition float_inf :: float64 where
  "float_inf = 0x7FF0000000000000"

definition DefaultOpts :: Opts where
  "DefaultOpts = \<lparr>oFrom = 0, oTo = - 1, oTimestamp = float_inf, oSpaces = [], oReplicas = [], oShowSystem = False\<rparr>"

text \<open>\<^verbatim>\<open>a < b\<close> of two \<^verbatim>\<open>float64\<close> values: no NaN is below or above anything, and both zeros are equal.\<close>

definition float_nan :: "float64 \<Rightarrow> bool" where
  "float_nan a \<longleftrightarrow> uint (take_bit 63 a) > uint float_inf"

definition float_key :: "float64 \<Rightarrow> int" where
  "float_key a = (if bit a 63 then - uint (take_bit 63 a) else uint (take_bit 63 a))"

definition float_less :: "float64 \<Rightarrow> float64 \<Rightarrow> bool" where
  "float_less a b \<longleftrightarrow> \<not> float_nan a \<and> \<not> float_nan b \<and> float_key a < float_key b"

definition LSNFrom :: "uint64 \<Rightarrow> Filter" where
  "LSNFrom from r \<longleftrightarrow> LSN r \<ge> from"

definition LSNUntil :: "uint64 \<Rightarrow> Filter" where
  "LSNUntil to r \<longleftrightarrow> LSN r < to"

definition UntilTimestamp :: "float64 \<Rightarrow> Filter" where
  "UntilTimestamp ts r \<longleftrightarrow> float_less (Timestamp r) ts"

definition spaceID :: "iproto \<Rightarrow> XRow \<Rightarrow> uint32 option" where
  "spaceID ip r = (if BodyRaw r = [] then None
     else (case DecodeDMLBody ip (BodyRaw r) of Inl _ \<Rightarrow> None
       | Inr b \<Rightarrow> if SpaceID b = 0 then None else Some (SpaceID b)))"

definition SpaceIn :: "iproto \<Rightarrow> uint32 list \<Rightarrow> Filter" where
  "SpaceIn ip ids r = (case spaceID ip r of None \<Rightarrow> False | Some sid \<Rightarrow> sid \<in> set ids)"

definition ExcludeSystemSpaces :: "iproto \<Rightarrow> Filter" where
  "ExcludeSystemSpaces ip r = (case spaceID ip r of None \<Rightarrow> True | Some sid \<Rightarrow> sid \<ge> systemSpaceMax)"

definition toUint32 :: "int64 list \<Rightarrow> uint32 list" where
  "toUint32 ins = map ucast ins"

definition checkpoint_Filter :: "iproto \<Rightarrow> Opts \<Rightarrow> Filter" where
  "checkpoint_Filter ip opts =
     (let preds = [LSNFrom (oFrom opts), LSNUntil (oTo opts), UntilTimestamp (oTimestamp opts)];
          preds1 = (if length (oReplicas opts) > 0 then preds @ [ReplicaIDs (toUint32 (oReplicas opts))] else preds);
          preds2 = (if length (oSpaces opts) > 0 then preds1 @ [SpaceIn ip (toUint32 (oSpaces opts))]
                    else if \<not> oShowSystem opts then preds1 @ [ExcludeSystemSpaces ip] else preds1)
      in filter_And preds2)"

section \<open>Collecting files\<close>

fun ext_back :: "string \<Rightarrow> string \<Rightarrow> string" where
  "ext_back [] acc = []"
| "ext_back (c # rs) acc = (if c = CHR ''/'' then [] else if c = CHR ''.'' then c # acc else ext_back rs (c # acc))"

definition filepath_Ext :: "string \<Rightarrow> string" where
  "filepath_Ext path = ext_back (rev path) []"

definition isJournal :: "string \<Rightarrow> bool" where
  "isJournal path \<longleftrightarrow> filepath_Ext path = ''.xlog'' \<or> filepath_Ext path = ''.snap''"

text \<open>
  What \<^verbatim>\<open>filepath.WalkDir\<close> finds: a file, or a directory with the error of reading it or its entries, sorted
  by name. The callback of \<^verbatim>\<open>CollectFiles\<close> passes every error on and skips the directories below the root
  unless the scan is recursive.
\<close>

datatype fsnode = FileNode | DirNode "error option" "(string \<times> fsnode) list"

fun walk_tree :: "bool \<Rightarrow> string \<Rightarrow> string \<Rightarrow> fsnode \<Rightarrow> string list \<Rightarrow> error + string list"
  and walk_entries :: "bool \<Rightarrow> string \<Rightarrow> string \<Rightarrow> (string \<times> fsnode) list \<Rightarrow> string list \<Rightarrow> error + string list" where
  "walk_tree recursive p path FileNode found = Inr (if isJournal path then found @ [path] else found)"
| "walk_tree recursive p path (DirNode err es) found =
     (if \<not> recursive \<and> path \<noteq> p then Inr found
      else (case err of Some e \<Rightarrow> Inl e | None \<Rightarrow> walk_entries recursive p path es found))"
| "walk_entries recursive p path [] found = Inr found"
| "walk_entries recursive p path ((name, node) # es) found =
     (case walk_tree recursive p (filepath_Join path name) node found of Inl e \<Rightarrow> Inl e
      | Inr found' \<Rightarrow> walk_entries recursive p path es found')"

definition add_file :: "string list \<Rightarrow> string \<Rightarrow> string list" where
  "add_file out p = (if p \<in> set out then out else out @ [p])"

fun collect_loop :: "(string \<Rightarrow> error + bool) \<Rightarrow> (string \<Rightarrow> error + fsnode) \<Rightarrow> bool \<Rightarrow> string list \<Rightarrow> string list \<Rightarrow> error + string list" where
  "collect_loop stat lstat recursive [] out = Inr out"
| "collect_loop stat lstat recursive (p # paths) out =
     (case stat p of Inl e \<Rightarrow> Inl e
      | Inr isDir \<Rightarrow>
          if \<not> isDir then collect_loop stat lstat recursive paths (add_file out p)
          else (case lstat p of Inl e \<Rightarrow> Inl e
            | Inr node \<Rightarrow>
                (case walk_tree recursive p p node [] of Inl e \<Rightarrow> Inl e
                 | Inr found \<Rightarrow> collect_loop stat lstat recursive paths (foldl add_file out (sort found)))))"

definition CollectFiles :: "(string \<Rightarrow> error + bool) \<Rightarrow> (string \<Rightarrow> error + fsnode) \<Rightarrow> string list \<Rightarrow> bool \<Rightarrow> error + string list" where
  "CollectFiles stat lstat paths recursive = collect_loop stat lstat recursive paths []"

section \<open>Handing rows to a callback\<close>

record Record =
  rec_File :: string
  rec_Row :: XRow
  rec_Body :: "DMLBody option"
  rec_Unknown :: "(uint64 \<times> bytes) list option"

definition make_record :: "iproto \<Rightarrow> string \<Rightarrow> XRow \<Rightarrow> Record" where
  "make_record ip file row =
     (let (body, unk) = (if length (BodyRaw row) > 0
        then (case DecodeDMLBodyInto ip (BodyRaw row) (Some CollectUnknown) None of
                ((b, unk), None) \<Rightarrow> (Some b, unk) | (_, Some _) \<Rightarrow> (None, None))
        else (None, None))
      in \<lparr>rec_File = file, rec_Row = row, rec_Body = body, rec_Unknown = unk\<rparr>)"

text \<open>The body of the loop over the rows: its state is that of the callback and the error it returns.\<close>

definition process_row :: "iproto \<Rightarrow> string \<Rightarrow> Filter \<Rightarrow> (Record \<Rightarrow> 's \<Rightarrow> error option \<times> 's)
    \<Rightarrow> 's \<times> error option \<Rightarrow> error + XRow \<Rightarrow> ('s \<times> error option) \<times> bool" where
  "process_row ip file keep fn sr x = (case x of
     Inl err \<Rightarrow> ((fst sr, Some err), False)
   | Inr row \<Rightarrow>
       if \<not> keep row then (sr, True)
       else (case fn (make_record ip file row) (fst sr) of
           (Some e, s') \<Rightarrow> ((s', Some e), False)
         | (None, s') \<Rightarrow> ((s', None), True)))"

definition processFile :: "uuidlib \<Rightarrow> iproto \<Rightarrow> zstd \<Rightarrow> filesystem \<Rightarrow> error option \<Rightarrow> Filter \<Rightarrow> (Record \<Rightarrow> 's \<Rightarrow> error option \<times> 's)
    \<Rightarrow> string \<Rightarrow> 's \<Rightarrow> error option \<times> 's" where
  "processFile u ip z fs cerr keep fn file s = (case Open u fs cerr file [] of
     Inl e \<Rightarrow> (Some e, s)
   | Inr r \<Rightarrow> (case Rows ip z (process_row ip file keep fn) (s, None) r of ((s', err), r') \<Rightarrow> (err, s')))"

fun Process :: "uuidlib \<Rightarrow> iproto \<Rightarrow> zstd \<Rightarrow> filesystem \<Rightarrow> error option \<Rightarrow> Filter \<Rightarrow> (Record \<Rightarrow> 's \<Rightarrow> error option \<times> 's)
    \<Rightarrow> string list \<Rightarrow> 's \<Rightarrow> error option \<times> 's" where
  "Process u ip z fs cerr keep fn [] s = (None, s)"
| "Process u ip z fs cerr keep fn (file # files) s =
     (case processFile u ip z fs cerr keep fn file s of
        (Some e, s') \<Rightarrow> (Some e, s') | (None, s') \<Rightarrow> Process u ip z fs cerr keep fn files s')"

section \<open>What is collected\<close>

inductive reaches :: "bool \<Rightarrow> string \<Rightarrow> string \<Rightarrow> fsnode \<Rightarrow> string \<Rightarrow> bool" for recursive p where
  "reaches recursive p path FileNode path"
| "recursive \<or> path = p \<Longrightarrow> (name, node) \<in> set es \<Longrightarrow> reaches recursive p (filepath_Join path name) node q
     \<Longrightarrow> reaches recursive p path (DirNode err es) q"

inductive_simps reaches_file [simp]: "reaches recursive p path FileNode q"
inductive_simps reaches_dir: "reaches recursive p path (DirNode err es) q"

lemma walk_tree_reaches:
  "walk_tree recursive p path node found = Inr found' \<Longrightarrow> set found' = set found \<union> {q. isJournal q \<and> reaches recursive p path node q}"
  "walk_entries recursive p path es found = Inr found' \<Longrightarrow> recursive \<or> path = p \<Longrightarrow>
     set found' = set found \<union> {q. isJournal q \<and> (\<exists>(name, node)\<in>set es. reaches recursive p (filepath_Join path name) node q)}"
proof (induction recursive p path node found and recursive p path es found arbitrary: found' and found' rule: walk_tree_walk_entries.induct)
  case (2 recursive p path err es found)
  show ?case
  proof (cases "\<not> recursive \<and> path \<noteq> p")
    case True
    then show ?thesis using 2(2) by (auto simp: reaches_dir)
  next
    case False
    then have "err = None" "walk_entries recursive p path es found = Inr found'" using 2(2) by (auto split: option.splits)
    from 2(1) [OF False this] False show ?thesis by (auto simp: reaches_dir)
  qed
next
  case (4 recursive p path name node es found)
  then obtain f1 where f1: "walk_tree recursive p (filepath_Join path name) node found = Inr f1" "walk_entries recursive p path es f1 = Inr found'"
    by (auto split: sum.splits)
  show ?case using 4(1) [OF f1(1)] 4(2) [OF f1(1) f1(2) 4(4)] by auto
qed auto

lemma add_files: "set (foldl add_file out ps) = set out \<union> set ps" "distinct out \<Longrightarrow> distinct (foldl add_file out ps)"
  by (induction ps arbitrary: out) (auto simp: add_file_def)

lemma collect_loop_files:
  assumes "collect_loop stat lstat recursive paths out = Inr out'" "distinct out"
  shows "distinct out' \<and> set out' = set out \<union> {q. \<exists>p\<in>set paths. stat p = Inr False \<and> q = p
     \<or> stat p = Inr True \<and> (\<exists>node. lstat p = Inr node \<and> isJournal q \<and> reaches recursive p p node q)}"
  using assms
proof (induction paths arbitrary: out)
  case (Cons p paths)
  show ?case
  proof (cases "stat p = Inr False")
    case True
    then have "collect_loop stat lstat recursive paths (add_file out p) = Inr out'" using Cons.prems(1) by simp
    from Cons.IH [OF this] Cons.prems(2) True show ?thesis using add_files [of out "[p]"] by auto
  next
    case False
    then obtain node found where d: "stat p = Inr True" "lstat p = Inr node" "walk_tree recursive p p node [] = Inr found"
      "collect_loop stat lstat recursive paths (foldl add_file out (sort found)) = Inr out'"
      using Cons.prems(1) by (auto split: sum.splits if_splits)
    show ?thesis using Cons.IH [OF d(4)] Cons.prems(2) walk_tree_reaches(1) [OF d(3)] d add_files [of out "sort found"] by auto
  qed
qed simp

section \<open>What the callback sees\<close>

fun handle :: "(Record \<Rightarrow> 's \<Rightarrow> error option \<times> 's) \<Rightarrow> Record list \<Rightarrow> 's \<Rightarrow> error option \<times> 's" where
  "handle fn [] s = (None, s)"
| "handle fn (x # xs) s = (case fn x s of (Some e, s') \<Rightarrow> (Some e, s') | (None, s') \<Rightarrow> handle fn xs s')"

lemma handle_append: "handle fn (xs @ ys) s = (case handle fn xs s of (Some e, s') \<Rightarrow> (Some e, s') | (None, s') \<Rightarrow> handle fn ys s')"
  by (induction xs arbitrary: s) (auto split: prod.splits option.splits)

text \<open>A finished file: a header, well-formed blocks and the end marker; its rows in canonical form.\<close>

definition finished_file :: "uuidlib \<Rightarrow> iproto \<Rightarrow> zstd \<Rightarrow> filesystem \<Rightarrow> string \<Rightarrow> XRow list \<Rightarrow> bool" where
  "finished_file u ip z fs file rows \<longleftrightarrow> (\<exists>m hdr blks rowss. meta_ok m \<and> FormatVer m \<noteq> LegacyFormatVersion
     \<and> EncodeMeta u None (Some m) = Inr hdr \<and> list_all2 (good_block ip z) blks rowss
     \<and> fs file = Some (str_bytes hdr @ concat blks @ EOFMarker) \<and> rows = map (xrow_canon ip) (concat rowss))"

lemma feed_process:
  "feed (process_row ip file keep fn) (s, None) rows
     = (case handle fn (map (make_record ip file) (filter keep rows)) s of (err, s') \<Rightarrow> ((s', err), err = None))"
  by (induction rows arbitrary: s) (auto simp: process_row_def split: prod.splits option.splits)

lemma processFile_rows:
  assumes "iproto_ok ip" "uuid_ok u" "finished_file u ip z fs file rows"
  shows "processFile u ip z fs cerr keep fn file s = handle fn (map (make_record ip file) (filter keep rows)) s"
proof -
  obtain m hdr blks rowss where f: "meta_ok m" "FormatVer m \<noteq> LegacyFormatVersion" "EncodeMeta u None (Some m) = Inr hdr"
    "list_all2 (good_block ip z) blks rowss" "fs file = Some (str_bytes hdr @ concat blks @ EOFMarker)" "rows = map (xrow_canon ip) (concat rowss)"
    using assms(3) unfolding finished_file_def by blast
  let ?c = "apply_options []"
  have "FormatVer m = LegacyFormatVersion \<longrightarrow> AcceptV012 (metaOpts ?c)" using f(2) by simp
  from newReader_ahead [OF assms(2) f(1) this f(3) chunks_good [OF f(4)], of EOFMarker] goods_not_damaged [OF f(4)]
  obtain r where r: "newReader u \<lparr>br_rest = str_bytes hdr @ concat blks @ EOFMarker, br_err = [Go EOF]\<rparr> [] = Inr r"
    "ahead ip z ?c EOFMarker r (concat rowss)" by blast
  let ?r = "r\<lparr>owned := True\<rparr>"
  have rep: "rows_rep ip z ?c EOFMarker [Go EOF] at_end ?r rows"
    unfolding rows_rep_def using r(2) assms(1) f(6) tail_marker [of z ?c "[]"] by auto
  have o: "Open u fs cerr file [] = Inr ?r" using f(5) r(1) by (simp add: Open_def own_or_close_def)
  from row_cursor.iter_feed [OF rep, of "process_row ip file keep fn" "(s, None)"]
  show ?thesis using o by (auto simp: processFile_def feed_process split: prod.splits bool.splits)
qed

lemma Process_rows:
  assumes "iproto_ok ip" "uuid_ok u" "list_all2 (finished_file u ip z fs) files rowss"
  shows "Process u ip z fs cerr keep fn files s
    = handle fn (concat (map2 (\<lambda>file rows. map (make_record ip file) (filter keep rows)) files rowss)) s"
  using assms(3)
proof (induction arbitrary: s)
  case (Cons f fs' rows rss)
  then show ?case by (auto simp: processFile_rows [OF assms(1,2) Cons(1)] handle_append split: prod.splits option.splits)
qed simp

text \<open>The filter of the command line as a condition on a row.\<close>

definition wanted :: "iproto \<Rightarrow> Opts \<Rightarrow> XRow \<Rightarrow> bool" where
  "wanted ip opts r \<longleftrightarrow> oFrom opts \<le> LSN r \<and> LSN r < oTo opts \<and> float_less (Timestamp r) (oTimestamp opts)
     \<and> (oReplicas opts \<noteq> [] \<longrightarrow> ReplicaID r \<in> ucast ` set (oReplicas opts))
     \<and> (if oSpaces opts \<noteq> [] then \<exists>sid\<in>ucast ` set (oSpaces opts). spaceID ip r = Some sid
        else oShowSystem opts \<or> (\<forall>sid. spaceID ip r = Some sid \<longrightarrow> 512 \<le> sid))"

lemma checkpoint_Filter_wanted: "checkpoint_Filter ip opts = wanted ip opts"
  by (auto simp: fun_eq_iff checkpoint_Filter_def wanted_def Let_def filter_And_all LSNFrom_def LSNUntil_def UntilTimestamp_def
      ReplicaIDs_def toUint32_def SpaceIn_def ExcludeSystemSpaces_def systemSpaceMax_def split: option.splits)

section \<open>Properties\<close>

text \<open>
  the files collected for the commands are the given files and the journal files under the given
  directories, the directories below included when the scan is recursive and only then, each once.
\<close>

theorem collect_files_spec:
  assumes "CollectFiles stat lstat paths recursive = Inr out"
  shows "distinct out \<and> set out = {q. \<exists>p\<in>set paths. stat p = Inr False \<and> q = p
     \<or> stat p = Inr True \<and> (\<exists>node. lstat p = Inr node \<and> isJournal q \<and> reaches recursive p p node q)}"
  using collect_loop_files [OF assms [unfolded CollectFiles_def]] by simp

text \<open>
  C31: on finished files the commands call back with exactly the rows the command line asks for, file after file
  and in order, each with the file it is from and its body decoded with the unknown keys, until a callback
  fails, whose error is returned.
\<close>

theorem process_filtered_rows:
  assumes "iproto_ok ip" "uuid_ok u" "list_all2 (finished_file u ip z fs) files rowss"
  shows "Process u ip z fs cerr (checkpoint_Filter ip opts) fn files s
    = handle fn (concat (map2 (\<lambda>file rows. map (make_record ip file) (filter (wanted ip opts) rows)) files rowss)) s"
  unfolding checkpoint_Filter_wanted by (rule Process_rows [OF assms])

lemma sample_current: "FormatVer sample_meta \<noteq> LegacyFormatVersion"
  by (simp add: sample_meta_def LegacyFormatVersion_def)

lemma sample_finished: "\<exists>fs. finished_file uuid_hex iproto_numbers zstd_store fs ''a.xlog'' (map (xrow_canon iproto_numbers) sample_tx)"
proof -
  obtain b where b: "good_block iproto_numbers zstd_store b sample_tx" using sample_block by blast
  obtain hdr where "EncodeMeta uuid_hex None (Some sample_meta) = Inr hdr" using sample_hdr by blast
  then show ?thesis unfolding finished_file_def using b sample_meta_ok sample_current
    by (intro exI [of _ "\<lambda>_. Some (str_bytes hdr @ concat [b] @ EOFMarker)"] exI [of _ sample_meta] exI [of _ hdr] exI [of _ "[b]"]
        exI [of _ "[sample_tx]"]) auto
qed

theorem process_filtered_rows_witness:
  "\<exists>fs. Process uuid_hex iproto_numbers zstd_store fs None (checkpoint_Filter iproto_numbers DefaultOpts) (\<lambda>x s. (None, s @ [rec_Row x])) [''a.xlog''] []
    = (None, filter (wanted iproto_numbers DefaultOpts) (map (xrow_canon iproto_numbers) sample_tx))"
proof -
  obtain fs where fs: "finished_file uuid_hex iproto_numbers zstd_store fs ''a.xlog'' (map (xrow_canon iproto_numbers) sample_tx)"
    using sample_finished by blast
  have all: "list_all2 (finished_file uuid_hex iproto_numbers zstd_store fs) [''a.xlog''] [map (xrow_canon iproto_numbers) sample_tx]"
    using fs by simp
  have "handle (\<lambda>x s. (None, s @ [rec_Row x])) (map (make_record iproto_numbers f) rows) acc = (None, acc @ rows)" for f rows acc
    by (induction rows arbitrary: acc) (simp_all add: make_record_def split: prod.splits)
  then show ?thesis using process_filtered_rows [OF iproto_numbers_ok uuid_hex_ok all, of None DefaultOpts "\<lambda>x s. (None, s @ [rec_Row x])" "[]"]
    by (intro exI [of _ fs]) simp
qed

end
