(* ===== verification/Spec2Isabelle.thy ===== *)
theory Spec2Isabelle
  imports VClockArray Pipe RotateChain Vinyl UpdateOps InPlace FollowDir Clone Checkpoint
begin

text \<open>
  A verification development of go-xlog, the Go library that reads, writes, indexes, rotates, copies and
  follows the write-ahead logs and snapshots of Tarantool.

  \<^bold>\<open>The program.\<close> A journal file is a text header (\<^verbatim>\<open>format/meta.go\<close>), a sequence of transaction blocks
  (\<^verbatim>\<open>format/tx.go\<close>) and an end marker. A block is a fixheader with a magic, a length and a CRC-32C
  (\<^verbatim>\<open>format/fixheader.go\<close>, \<^verbatim>\<open>format/crc32c.go\<close>), and a payload of rows, possibly compressed
  (\<^verbatim>\<open>format/compress.go\<close>). A row is a msgpack map and a raw body (\<^verbatim>\<open>format/xrow.go\<close>, \<^verbatim>\<open>format/mp.go\<close>);
  the bodies have decoders of their own (\<^verbatim>\<open>format/body_*.go\<close>, \<^verbatim>\<open>format/ops.go\<close>), and what they return
  aliases its input until it is cloned (\<^verbatim>\<open>format/clone.go\<close>). The reader (\<^verbatim>\<open>reader/\<close>) is a cursor over
  blocks, rows and transactions that can skip damage and report an offset to resume from; the writer
  (\<^verbatim>\<open>writer/\<close>) fills a temporary file and publishes it by a rename. On these rest the batch writer, the
  filters and copies (\<^verbatim>\<open>filter/\<close>, \<^verbatim>\<open>pipe/\<close>), the directory index (\<^verbatim>\<open>dir/\<close>), the rotating writer (\<^verbatim>\<open>rotate/\<close>),
  the header tools (\<^verbatim>\<open>tools/\<close>), the followers (\<^verbatim>\<open>follow/\<close>), and the shared logic of the example commands.

  \<^bold>\<open>The theories\<close>, each named after what it models; definitions keep the names of the source.

  \<^item> \<open>Prelude\<close>, \<open>GoStrings\<close>, \<open>GoFiles\<close>: machine types, errors as lists of sentinels, the interfaces of prefix
    decoders and codecs; Go's strings, numbers and paths; files, directories, failures and power losses.
  \<^item> \<open>Msgpack\<close> (\<^verbatim>\<open>mp.go\<close>, \<^verbatim>\<open>mpcode.go\<close>), \<open>Crc32c\<close>, \<open>Fixheader\<close>, \<open>Xrow\<close>, \<open>TxBlock\<close> (\<^verbatim>\<open>tx.go\<close>, \<^verbatim>\<open>compress.go\<close>),
    \<open>VClock\<close>, \<open>VClockArray\<close>, \<open>XlogMeta\<close> (\<^verbatim>\<open>meta.go\<close>): the wire format. The skipper recognises exactly the msgpack
    values; rows, blocks and headers round-trip; the checksum is the CRC-32C division and detects every
    burst of four bytes; the dense clock refines the map.
  \<^item> \<open>Bodies\<close>, \<open>Vinyl\<close>, \<open>UpdateOps\<close>: the decoders of bodies and operation lists, each shown to succeed exactly
    on the inputs of its format and to return exactly their content, every error included.
  \<^item> \<open>Clone\<close>: deep copies over a store of arrays and slices with capacities. Copies share no byte with the
    original or with each other; copying into a value writes nothing it does not own.
  \<^item> \<open>Reader\<close> (\<^verbatim>\<open>reader.go\<close>, \<^verbatim>\<open>cursor.go\<close>, \<^verbatim>\<open>options.go\<close>), \<open>ReaderSim\<close>, \<open>ReaderFile\<close>, \<open>ReaderResume\<close>: the cursor on a
    stream and on bytes, their simulation, what they deliver on complete, torn and damaged files, and where a
    reader that is opened at a reported offset continues.
  \<^item> \<open>Writer\<close> (\<^verbatim>\<open>writer.go\<close>, \<^verbatim>\<open>txfix.go\<close>, \<^verbatim>\<open>options.go\<close>), \<open>WriterLog\<close>, \<open>WriterFile\<close>, \<open>Batch\<close> (\<^verbatim>\<open>batch.go\<close>): the writer over
    the file system. Under any failure the final path holds the old file or a complete one; what is written
    is read back.
  \<^item> \<open>Pipe\<close> (\<^verbatim>\<open>filter.go\<close>, \<^verbatim>\<open>copy.go\<close>), \<open>Dir\<close> (\<^verbatim>\<open>dir.go\<close>, \<^verbatim>\<open>entry.go\<close>), \<open>Rotate\<close> (\<^verbatim>\<open>rotate.go\<close>, \<^verbatim>\<open>options.go\<close>),
    \<open>RotateChain\<close>: copies, the index of a directory, the rotating writer, and the chain of files it leaves,
    which is indexed and read back, and located in.
  \<^item> \<open>MetaTools\<close> (\<^verbatim>\<open>rewrite_meta.go\<close>, \<^verbatim>\<open>fields.go\<close>), \<open>InPlace\<close> (\<^verbatim>\<open>inplace.go\<close>): a header rewrite is atomic and keeps
    the data; the in-place replacement of the instance uuid, with its undo log, survives any sequence of
    failures, power losses and interrupted recoveries.
  \<^item> \<open>Follow\<close> (\<^verbatim>\<open>follow.go\<close>, \<^verbatim>\<open>engine.go\<close>, \<^verbatim>\<open>file.go\<close>, \<^verbatim>\<open>dir.go\<close>, \<^verbatim>\<open>follower.go\<close>), \<open>FollowFile\<close>, \<open>FollowDir\<close>: the engine
    behind the followers. A growing file and a growing chain of files are delivered in order, each row once,
    and completely once they are complete.
  \<^item> \<open>Checkpoint\<close> (\<^verbatim>\<open>examples/internal/checkpoint\<close>): the filter, the collection of files and the row loop of the
    example commands.

  \<^bold>\<open>Interfaces.\<close> \<open>prefix_decoder\<close> and \<open>codec\<close> are interpreted for the msgpack helpers and the wire format,
  \<open>clock_order\<close> for both clocks, \<open>cursor\<close> for the loops over rows and over transactions, \<open>body_decoder\<close> and its
  extension \<open>info_decoder\<close> for the bodies, \<open>copier\<close> and its extension \<open>cloneable\<close> for the two ways to copy and
  for every struct with raw fields.

  \<^bold>\<open>State and effects.\<close> Structs are records, passed and returned by every operation. Errors are values of a sum or
  option; a run-time panic is the error \<open>Panic\<close>. The file system is the record \<open>world\<close>: names and contents as
  the system sees them and as a power loss would leave them, and the room left on the device. Every call of
  the operating system may fail, as the arguments \<open>faults\<close>, \<open>srcfaults\<close>, \<open>ipfaults\<close> and \<open>recfaults\<close> say; the
  theorems on safety hold for all of them. A power loss keeps what was synced and any part of what was not
  (\<open>crashed\<close> and \<open>torn\<close> in \<open>InPlace\<close>). A follower runs in an environment that other processes change: it is a
  function of the list of \<open>moment\<close>s it observes, and \<open>Blocked\<close> when they end. Callbacks (\<^verbatim>\<open>yield\<close>) are functions
  on a state of their own.

  \<^bold>\<open>Bounds.\<close> Integers of the format keep their width, 32 or 64 bits, and wrap; lengths and offsets of slices are
  natural numbers. Every loop is a total function: the loops of the reader decrease the input left, those of
  the follower the moments left. No definition uses fuel.

  \<^bold>\<open>Parameters.\<close> What is not part of the repository is an argument: \<open>ip\<close>, the numbers of the generated package
  go-iproto (\<open>iproto_ok\<close>: header keys distinct and small); \<open>z\<close>, the zstd library (\<open>zstd_ok\<close>: decompression
  inverts compression within the memory limit); \<open>u\<close>, the uuid library (\<open>uuid_ok\<close>: parsing inverts printing,
  in hexadecimal digits and dashes); the watcher, the context and the clock of a follower; the spare capacity
  of the allocator; directory trees. Each hypothesis has an instance that satisfies it: \<open>iproto_numbers\<close>,
  \<open>zstd_store\<close>, \<open>uuid_hex\<close>.

  \<^bold>\<open>Found.\<close> Skipped damage is missing from the reported offset (\<open>skip_corrupt_offset_short\<close>); a rotation without
  progress of the clock replaces the file before (\<open>rotation_replaces_file\<close>); a follower of the file in progress
  ends with an error when the file is renamed while it waits (\<open>inprogress_rename_lost\<close>).

  \<^bold>\<open>Not modelled.\<close> Message texts of errors. The pools of zstd encoders and of buffers, and mutexes: they change
  no result, and operations are atomic as the mutex of the rotating writer makes them. Mapping a file into
  memory (\<^verbatim>\<open>reader/mmap_*.go\<close>): the reader on its bytes is modelled. The system calls behind \<^verbatim>\<open>SyncDir\<close>
  (\<^verbatim>\<open>internal/durable\<close>) and \<^verbatim>\<open>syncFile\<close> (\<^verbatim>\<open>writer/sync_*.go\<close>), and the timer of the polling watcher
  (\<^verbatim>\<open>follow/poll.go\<close>): their effects and failures are the environment's. \<^verbatim>\<open>TypeName\<close>, which prints names of
  go-iproto, and \<^verbatim>\<open>ParseTimestamp\<close>. The example commands \<^verbatim>\<open>cat\<close> and \<^verbatim>\<open>play\<close>: flags, output in formats of
  third-party libraries, a database connection. Test fixtures and suites.
\<close>

end
